(* ===== verification/Prelude.thy ===== *)
theory Prelude
  imports "HOL-Library.Word" "HOL-Library.Monad_Syntax"
begin

text \<open>
  What the component theories share: the names of the machine integers, the C memory
  operations on byte arrays, the byte codecs of \<^verbatim>\<open>sph_types.h\<close> and \<^verbatim>\<open>endian.h\<close>, the rotations,
  and the generic lemmas on lists and words that the component proofs rest on.

  A C array is a list, a pointer into it a list and an offset. An access that would leave
  the array is undefined behaviour in C and the value \<^term>\<open>None\<close> here, so a theorem that
  says \<open>f x = Some y\<close> also says that the code stays inside its arrays on that input.
\<close>

unbundle bit_operations_syntax

type_synonym u8 = "8 word"
type_synonym u32 = "32 word"
type_synonym u64 = "64 word"
type_synonym bytes = "8 word list"

named_theorems codec_defs "the definitions of the byte encoders and decoders"
named_theorems mem_simps "the memory operations on accesses that stay in range"

section \<open>Memory operations\<close>

definition memcpy_in :: "'a list \<Rightarrow> nat \<Rightarrow> 'a list \<Rightarrow> 'a list option" where
  \<comment> \<open>\<open>memcpy(dst + off, src, |src|)\<close>\<close>
  "memcpy_in dst off src =
     (if off + length src \<le> length dst
      then Some (take off dst @ src @ drop (off + length src) dst) else None)"

definition memset_in :: "'a list \<Rightarrow> nat \<Rightarrow> 'a \<Rightarrow> nat \<Rightarrow> 'a list option" where
  \<comment> \<open>\<open>memset(dst + off, c, n)\<close>\<close>
  "memset_in dst off c n = memcpy_in dst off (replicate n c)"

definition read_in :: "'a list \<Rightarrow> nat \<Rightarrow> nat \<Rightarrow> 'a list option" where
  \<comment> \<open>the \<open>n\<close> elements at \<open>src + off\<close>\<close>
  "read_in src off n =
     (if off + n \<le> length src then Some (take n (drop off src)) else None)"

definition store_in :: "'a list \<Rightarrow> nat \<Rightarrow> 'a \<Rightarrow> 'a list option" where
  \<comment> \<open>\<open>dst[i] = x\<close>\<close>
  "store_in dst i x = (if i < length dst then Some (dst[i := x]) else None)"

lemma memcpy_in_Some [mem_simps]:
  "off + length src \<le> length dst \<Longrightarrow>
   memcpy_in dst off src = Some (take off dst @ src @ drop (off + length src) dst)"
  by (simp add: memcpy_in_def)

lemma memcpy_in_length: "memcpy_in dst off src = Some d \<Longrightarrow> length d = length dst"
  by (auto simp: memcpy_in_def split: if_splits)

lemma memset_in_Some [mem_simps]:
  "off + n \<le> length dst \<Longrightarrow>
   memset_in dst off c n = Some (take off dst @ replicate n c @ drop (off + n) dst)"
  by (simp add: memset_in_def memcpy_in_def)

lemma read_in_Some [mem_simps]:
  "off + n \<le> length src \<Longrightarrow> read_in src off n = Some (take n (drop off src))"
  by (simp add: read_in_def)

lemma store_in_Some [mem_simps]: "i < length dst \<Longrightarrow> store_in dst i x = Some (dst[i := x])"
  by (simp add: store_in_def)

lemma bind_Some_iff: "(Option.bind m f = Some y) = (\<exists>x. m = Some x \<and> f x = Some y)"
  by (cases m) auto

section \<open>Byte codecs\<close>

definition sph_dec32be :: "bytes \<Rightarrow> u32" where
  [codec_defs]: "sph_dec32be b =
     push_bit 24 (ucast (b ! 0)) OR push_bit 16 (ucast (b ! 1))
     OR push_bit 8 (ucast (b ! 2)) OR ucast (b ! 3)"

definition sph_enc32be :: "u32 \<Rightarrow> bytes" where
  [codec_defs]: "sph_enc32be v =
     [ucast (drop_bit 24 v), ucast (drop_bit 16 v), ucast (drop_bit 8 v), ucast v]"

definition sph_dec32le :: "bytes \<Rightarrow> u32" where
  [codec_defs]: "sph_dec32le b =
     ucast (b ! 0) OR push_bit 8 (ucast (b ! 1))
     OR push_bit 16 (ucast (b ! 2)) OR push_bit 24 (ucast (b ! 3))"

definition sph_enc32le :: "u32 \<Rightarrow> bytes" where
  [codec_defs]: "sph_enc32le v =
     [ucast v, ucast (drop_bit 8 v), ucast (drop_bit 16 v), ucast (drop_bit 24 v)]"

definition sph_dec64le :: "bytes \<Rightarrow> u64" where
  [codec_defs]: "sph_dec64le b =
     ucast (b ! 0) OR push_bit 8 (ucast (b ! 1)) OR push_bit 16 (ucast (b ! 2))
     OR push_bit 24 (ucast (b ! 3)) OR push_bit 32 (ucast (b ! 4)) OR push_bit 40 (ucast (b ! 5))
     OR push_bit 48 (ucast (b ! 6)) OR push_bit 56 (ucast (b ! 7))"

definition sph_enc64le :: "u64 \<Rightarrow> bytes" where
  [codec_defs]: "sph_enc64le v =
     [ucast v, ucast (drop_bit 8 v), ucast (drop_bit 16 v), ucast (drop_bit 24 v),
      ucast (drop_bit 32 v), ucast (drop_bit 40 v), ucast (drop_bit 48 v), ucast (drop_bit 56 v)]"

definition sph_dec64be :: "bytes \<Rightarrow> u64" where
  [codec_defs]: "sph_dec64be b =
     push_bit 56 (ucast (b ! 0)) OR push_bit 48 (ucast (b ! 1)) OR push_bit 40 (ucast (b ! 2))
     OR push_bit 32 (ucast (b ! 3)) OR push_bit 24 (ucast (b ! 4)) OR push_bit 16 (ucast (b ! 5))
     OR push_bit 8 (ucast (b ! 6)) OR ucast (b ! 7)"

definition sph_enc64be :: "u64 \<Rightarrow> bytes" where
  [codec_defs]: "sph_enc64be v =
     [ucast (drop_bit 56 v), ucast (drop_bit 48 v), ucast (drop_bit 40 v), ucast (drop_bit 32 v),
      ucast (drop_bit 24 v), ucast (drop_bit 16 v), ucast (drop_bit 8 v), ucast v]"

lemma length_enc [simp]:
  "length (sph_enc32be v) = 4" "length (sph_enc32le v) = 4"
  "length (sph_enc64be x) = 8" "length (sph_enc64le x) = 8"
  by (simp_all add: codec_defs)


subsection \<open>Encoding and decoding are inverse\<close>

lemma byte_cases:
  assumes "(n::nat) < 64"
  obtains j where "j < 8" "n = j" | j where "j < 8" "n = 8 + j"
    | j where "j < 8" "n = 16 + j" | j where "j < 8" "n = 24 + j"
    | j where "j < 8" "n = 32 + j" | j where "j < 8" "n = 40 + j"
    | j where "j < 8" "n = 48 + j" | j where "j < 8" "n = 56 + j"
proof -
  define j k where "j = n mod 8" and "k = n div 8"
  have n: "n = 8 * k + j" and j: "j < 8"
    by (simp_all add: j_def k_def)
  have "k < 8"
    using assms by (simp add: k_def less_mult_imp_div_less)
  then have "k = 0 \<or> k = 1 \<or> k = 2 \<or> k = 3 \<or> k = 4 \<or> k = 5 \<or> k = 6 \<or> k = 7"
    by arith
  then show ?thesis
    using n j that by (elim disjE) simp_all
qed

lemma dec32be_enc32be [simp]: "sph_dec32be (sph_enc32be v) = v"
proof (rule bit_word_eqI)
  fix n assume "n < LENGTH(32)"
  then have "n < 64" by simp
  then show "bit (sph_dec32be (sph_enc32be v)) n = bit v n"
    by (cases rule: byte_cases) (auto simp: codec_defs bit_simps dest: bit_imp_le_length)
qed

lemma dec32le_enc32le [simp]: "sph_dec32le (sph_enc32le v) = v"
proof (rule bit_word_eqI)
  fix n assume "n < LENGTH(32)"
  then have "n < 64" by simp
  then show "bit (sph_dec32le (sph_enc32le v)) n = bit v n"
    by (cases rule: byte_cases) (auto simp: codec_defs bit_simps dest: bit_imp_le_length)
qed

lemma dec64be_enc64be [simp]: "sph_dec64be (sph_enc64be v) = v"
proof (rule bit_word_eqI)
  fix n assume "n < LENGTH(64)"
  then have "n < 64" by simp
  then show "bit (sph_dec64be (sph_enc64be v)) n = bit v n"
    by (cases rule: byte_cases) (simp_all add: codec_defs bit_simps)
qed

lemma dec64le_enc64le [simp]: "sph_dec64le (sph_enc64le v) = v"
proof (rule bit_word_eqI)
  fix n assume "n < LENGTH(64)"
  then have "n < 64" by simp
  then show "bit (sph_dec64le (sph_enc64le v)) n = bit v n"
    by (cases rule: byte_cases) (simp_all add: codec_defs bit_simps)
qed

definition le_bytes :: "nat \<Rightarrow> nat \<Rightarrow> bytes" where
  \<comment> \<open>\<open>x\<close> in \<open>k\<close> bytes, the least significant first\<close>
  "le_bytes k x = map (\<lambda>i. of_nat (drop_bit (8 * i) x)) [0..<k]"

lemma length_le_bytes [simp]: "length (le_bytes k x) = k"
  by (simp add: le_bytes_def)

section \<open>Rotations\<close>

definition SPH_T32 :: "u32 \<Rightarrow> u32" where
  "SPH_T32 x = x AND 0xFFFFFFFF"

definition SPH_ROTL32 :: "u32 \<Rightarrow> nat \<Rightarrow> u32" where
  "SPH_ROTL32 x n = SPH_T32 (push_bit n x OR drop_bit (32 - n) x)"

definition SPH_ROTR32 :: "u32 \<Rightarrow> nat \<Rightarrow> u32" where
  "SPH_ROTR32 x n = SPH_ROTL32 x (32 - n)"

definition SPH_T64 :: "u64 \<Rightarrow> u64" where
  "SPH_T64 x = x AND 0xFFFFFFFFFFFFFFFF"

definition SPH_ROTL64 :: "u64 \<Rightarrow> nat \<Rightarrow> u64" where
  "SPH_ROTL64 x n = SPH_T64 (push_bit n x OR drop_bit (64 - n) x)"

definition SPH_ROTR64 :: "u64 \<Rightarrow> nat \<Rightarrow> u64" where
  "SPH_ROTR64 x n = SPH_ROTL64 x (64 - n)"

definition rotr64 :: "u64 \<Rightarrow> nat \<Rightarrow> u64" where
  "rotr64 w c = drop_bit c w OR push_bit (64 - c) w"

text \<open>The masks do nothing on words of their own width.\<close>

lemma T32_id [simp]: "SPH_T32 x = x"
proof -
  have "(0xFFFFFFFF :: u32) = - 1" by simp
  then show ?thesis unfolding SPH_T32_def by (metis and.right_neutral)
qed

lemma T64_id [simp]: "SPH_T64 x = x"
proof -
  have "(0xFFFFFFFFFFFFFFFF :: u64) = - 1" by simp
  then show ?thesis unfolding SPH_T64_def by (metis and.right_neutral)
qed

text \<open>The shift-and-or expressions are the rotations of the word library.\<close>

lemma rot_index:
  assumes "(n::nat) < w" "i < w"
  shows "(i + w - n) mod w = (if n \<le> i then i - n else w + i - n)"
proof (cases "n \<le> i")
  case True
  then have "(i + w - n) mod w = (i - n + w) mod w" by simp
  also have "\<dots> = i - n" using assms by simp
  finally show ?thesis using True by simp
next
  case False
  then show ?thesis using assms by (simp add: add.commute)
qed

lemma ROTL32_rotl: "n < 32 \<Longrightarrow> SPH_ROTL32 x n = word_rotl n x"
  by (rule bit_word_eqI)
     (auto simp: SPH_ROTL32_def bit_word_rotl_iff bit_simps rot_index dest: bit_imp_le_length)

lemma ROTL64_rotl: "n < 64 \<Longrightarrow> SPH_ROTL64 x n = word_rotl n x"
  by (rule bit_word_eqI)
     (auto simp: SPH_ROTL64_def bit_word_rotl_iff bit_simps rot_index dest: bit_imp_le_length)

lemma ROTR32_rotr: "0 < n \<Longrightarrow> n < 32 \<Longrightarrow> SPH_ROTR32 x n = word_rotr n x"
  by (rule bit_word_eqI)
     (auto simp: SPH_ROTR32_def ROTL32_rotl bit_word_rotl_iff bit_word_rotr_iff add.commute)

lemma ROTR64_rotr: "0 < n \<Longrightarrow> n < 64 \<Longrightarrow> SPH_ROTR64 x n = word_rotr n x"
  by (rule bit_word_eqI)
     (auto simp: SPH_ROTR64_def ROTL64_rotl bit_word_rotl_iff bit_word_rotr_iff add.commute)

lemma rot_index_up: "(n::nat) < w \<Longrightarrow> i < w \<Longrightarrow> (i + n) mod w = (if i + n < w then i + n else i + n - w)"
  by (simp add: le_mod_geq)

lemma rotr64_rotr: "0 < n \<Longrightarrow> n < 64 \<Longrightarrow> rotr64 x n = word_rotr n x"
  by (rule bit_word_eqI)
     (auto simp: rotr64_def bit_word_rotr_iff bit_simps rot_index_up not_less add.commute [of n]
       dest: bit_imp_le_length)

end
