(* ===== verification/Reciprocal.thy ===== *)
theory Reciprocal
  imports Prelude
begin

text \<open>
  \<^verbatim>\<open>src/crypto/randomx/reciprocal.c\<close>: the reciprocal \<open>2^x / divisor\<close> that RandomX uses in
  place of a division by a constant, computed bit by bit (\<open>randomx_reciprocal\<close>) and with two
  hardware divisions (\<open>randomx_reciprocal_fast\<close>). All values are 64-bit words that wrap around;
  a failing \<open>assert\<close> is \<^term>\<open>None\<close>.
\<close>

section \<open>The two routines\<close>

lemma unat_shift1: "unat (drop_bit 1 (b::u64)) = unat b div 2"
  by (simp only: unat_drop_bit_eq) (simp add: drop_bit_eq_div)

function bsr_loop :: "u64 \<Rightarrow> nat \<Rightarrow> nat" where
  \<comment> \<open>\<open>for (uint64_t bit = divisor; bit > 0; bit >>= 1) bsr++;\<close>\<close>
  "bsr_loop b bsr = (if 0 < b then bsr_loop (drop_bit 1 b) (Suc bsr) else bsr)"
  by pat_completeness auto
termination
proof (relation "measure (\<lambda>(b, bsr). unat b)")
  fix b :: u64 and bsr :: nat
  assume "0 < b"
  then have "0 < unat b" by (simp add: unat_gt_0 word_neq_0_conv)
  then show "((drop_bit 1 b, Suc bsr), (b, bsr)) \<in> measure (\<lambda>(b, bsr). unat b)"
    using unat_shift1 [of b] by simp
qed simp

declare bsr_loop.simps [simp del]

fun quotient_loop :: "u64 \<Rightarrow> nat \<Rightarrow> u64 \<Rightarrow> u64 \<Rightarrow> u64 \<times> u64" where
  \<comment> \<open>\<open>for (shift = 0; shift < bsr; shift++)\<close>; the first number counts the rounds left\<close>
  "quotient_loop divisor 0 quot remd = (quot, remd)"
| "quotient_loop divisor (Suc n) quot remd =
     (if divisor - remd \<le> remd
      then quotient_loop divisor n (quot * 2 + 1) (remd * 2 - divisor)
      else quotient_loop divisor n (quot * 2) (remd * 2))"

definition randomx_reciprocal :: "u64 \<Rightarrow> u64 option" where
  "randomx_reciprocal divisor =
     (if divisor = 0 then None
      else let p2exp63 = push_bit 63 1;
               quot = p2exp63 div divisor;
               remd = p2exp63 mod divisor;
               bsr = bsr_loop divisor 0
           in Some (fst (quotient_loop divisor bsr quot remd)))"

definition builtin_clzll :: "u64 \<Rightarrow> nat" where
  \<comment> \<open>the compiler's \<open>__builtin_clzll\<close>: the number of leading zero bits\<close>
  "builtin_clzll x = length (takeWhile Not (rev (map (bit x) [0..<64])))"

definition randomx_reciprocal_fast :: "u64 \<Rightarrow> u64 option" where
  \<comment> \<open>a zero divisor is a division by zero\<close>
  "randomx_reciprocal_fast divisor =
     (if divisor = 0 then None
      else let q = push_bit 63 1 div divisor;
               r = push_bit 63 1 mod divisor;
               shift = 64 - builtin_clzll divisor
           in Some (push_bit shift q + push_bit shift r div divisor))"

section \<open>The shift amounts are the bit length of the divisor\<close>

lemma bsr_loop_eq:
  "2 ^ k \<le> unat b \<Longrightarrow> unat b < 2 ^ Suc k \<Longrightarrow> bsr_loop b n = n + Suc k"
proof (induction b n arbitrary: k rule: bsr_loop.induct)
  case (1 b n)
  have half: "unat (drop_bit 1 b) = unat b div 2"
    by (rule unat_shift1)
  from "1.prems" have pos: "0 < b"
    by (metis less_le_trans unat_gt_0 word_neq_0_conv zero_less_numeral zero_less_power)
  show ?case
  proof (cases k)
    case 0
    with "1.prems" have "unat b = 1" by simp
    with half have "drop_bit 1 b = 0" by (simp add: unat_eq_zero)
    with pos 0 show ?thesis
      by (simp add: bsr_loop.simps [of b] bsr_loop.simps [of 0])
  next
    case (Suc j)
    with "1.prems" half have "2 ^ j \<le> unat (drop_bit 1 b)" "unat (drop_bit 1 b) < 2 ^ Suc j"
      by auto
    from "1.IH" [OF pos this] pos Suc show ?thesis
      by (simp add: bsr_loop.simps [of b n])
  qed
qed

lemma power_bracket: "0 < (d::nat) \<Longrightarrow> \<exists>k. 2 ^ k \<le> d \<and> d < 2 ^ Suc k"
proof (induction d rule: less_induct)
  case (less d)
  show ?case
  proof (cases "d = 1")
    case True
    then show ?thesis by (intro exI [of _ 0]) simp
  next
    case False
    with less.prems have "0 < d div 2" "d div 2 < d" by auto
    from less.IH [OF this(2,1)] obtain k where "2 ^ k \<le> d div 2" "d div 2 < 2 ^ Suc k"
      by blast
    then show ?thesis by (intro exI [of _ "Suc k"]) auto
  qed
qed

lemma takeWhile_Not_replicate: "takeWhile Not (replicate n False @ True # xs) = replicate n False"
  by (induction n) auto

lemma clzll_eq:
  assumes "2 ^ k \<le> unat (x::u64)" "unat x < 2 ^ Suc k"
  shows "builtin_clzll x = 63 - k"
proof -
  have "(2::nat) ^ k < 2 ^ 64"
    using assms(1) unsigned_less [of x] by (auto intro: order_le_less_trans)
  then have k: "k < 64" by (rule power_less_imp_less_exp [rotated]) simp
  have b: "bit x i \<longleftrightarrow> odd (unat x div 2 ^ i)" for i
    using bit_iff_odd [of "unat x" i] by (simp add: bit_unsigned_iff)
  have hi: "\<not> bit x i" if "Suc k \<le> i" for i
  proof -
    have "unat x < 2 ^ i"
      using assms(2) that by (meson less_le_trans one_le_numeral power_increasing)
    then show ?thesis by (simp add: b)
  qed
  have "unat x div 2 ^ k = 1"
    using assms by (intro div_nat_eqI) auto
  then have top: "bit x k" by (simp add: b)
  have "[0..<64] = [0..<k] @ k # [Suc k..<64]"
    using upt_add_eq_append [of 0 k "64 - k"] upt_conv_Cons [of k 64] k by simp
  moreover have "map (bit x) [Suc k..<64] = replicate (63 - k) False"
    using hi by (intro nth_equalityI) auto
  ultimately have "rev (map (bit x) [0..<64]) =
      replicate (63 - k) False @ True # rev (map (bit x) [0..<k])"
    using top by simp
  then show ?thesis
    by (simp add: builtin_clzll_def takeWhile_Not_replicate)
qed

section \<open>The quotient loop is long division\<close>

lemma div_mod_unique: "m = q * d + r \<Longrightarrow> r < (d::nat) \<Longrightarrow> m div d = q \<and> m mod d = r"
  by simp

lemma quotient_step:
  fixes R d :: nat
  assumes "0 < d"
  shows "d \<le> 2 * (R mod d) \<Longrightarrow>
           (2 * R) div d = 2 * (R div d) + 1 \<and> (2 * R) mod d = 2 * (R mod d) - d"
    and "2 * (R mod d) < d \<Longrightarrow>
           (2 * R) div d = 2 * (R div d) \<and> (2 * R) mod d = 2 * (R mod d)"
proof -
  have split: "2 * R = 2 * (R div d) * d + 2 * (R mod d)"
    by (metis add_mult_distrib2 div_mult_mod_eq mult.assoc)
  have small: "R mod d < d" using assms by simp
  show "d \<le> 2 * (R mod d) \<Longrightarrow>
      (2 * R) div d = 2 * (R div d) + 1 \<and> (2 * R) mod d = 2 * (R mod d) - d"
    by (rule div_mod_unique) (use split small in \<open>simp_all add: algebra_simps\<close>)
  show "2 * (R mod d) < d \<Longrightarrow> (2 * R) div d = 2 * (R div d) \<and> (2 * R) mod d = 2 * (R mod d)"
    by (rule div_mod_unique) (use split in \<open>simp_all add: algebra_simps\<close>)
qed

lemma unat_double: "unat (x * 2 :: u64) = (2 * unat x) mod 2 ^ 64"
  by (simp add: unat_word_ariths mult.commute)

lemma unat_double_plus: "unat (x * 2 + 1 :: u64) = (2 * unat x + 1) mod 2 ^ 64"
  by (simp add: unat_word_ariths mult.commute mod_simps)

lemma quotient_loop_eq:
  fixes divisor quot remd :: u64
  assumes "0 < unat divisor"
    and "unat quot = (R div unat divisor) mod 2 ^ 64" and "unat remd = R mod unat divisor"
  shows "unat (fst (quotient_loop divisor n quot remd)) = (R * 2 ^ n div unat divisor) mod 2 ^ 64"
  using assms
proof (induction n arbitrary: quot remd R)
  case 0
  then show ?case by simp
next
  case (Suc n)
  let ?d = "unat divisor" and ?r = "unat remd"
  have r: "?r < ?d" using Suc.prems by simp
  then have sub: "unat (divisor - remd) = ?d - ?r"
    by (simp add: unat_sub word_le_nat_alt)
  have d64: "?d < 2 ^ 64" using unsigned_less [of divisor] by simp
  show ?case
  proof (cases "divisor - remd \<le> remd")
    case True
    then have le: "?d \<le> 2 * ?r" using r by (simp add: word_le_nat_alt sub)
    note step = quotient_step(1) [OF Suc.prems(1) le [unfolded Suc.prems(3)]]
    have "remd * 2 - divisor = remd - (divisor - remd)" by simp
    then have "unat (remd * 2 - divisor) = 2 * ?r - ?d"
      using True r by (simp only: unat_sub sub)
    then have 1: "unat (remd * 2 - divisor) = (2 * R) mod ?d"
      using step Suc.prems(3) by simp
    have 2: "unat (quot * 2 + 1) = ((2 * R) div ?d) mod 2 ^ 64"
      unfolding unat_double_plus Suc.prems(2) step [THEN conjunct1]
      by (metis mod_add_left_eq mod_mult_right_eq)
    show ?thesis
      using Suc.IH [OF Suc.prems(1) 2 1] True by (simp add: ac_simps)
  next
    case False
    then have lt: "2 * ?r < ?d" using r by (simp add: word_le_nat_alt sub)
    note step = quotient_step(2) [OF Suc.prems(1) lt [unfolded Suc.prems(3)]]
    have 1: "unat (remd * 2) = (2 * R) mod ?d"
      unfolding unat_double using lt d64 step Suc.prems(3) by simp
    have 2: "unat (quot * 2) = ((2 * R) div ?d) mod 2 ^ 64"
      unfolding unat_double Suc.prems(2) step [THEN conjunct1] by (rule mod_mult_right_eq)
    show ?thesis
      using Suc.IH [OF Suc.prems(1) 2 1] False by (simp add: ac_simps)
  qed
qed

section \<open>What the routines return\<close>

lemma reciprocal_value:
  assumes "2 ^ k \<le> unat d" "unat d < 2 ^ Suc k"
  shows "\<exists>r. randomx_reciprocal d = Some r \<and> unat r = (2 ^ (64 + k) div unat d) mod 2 ^ 64"
proof -
  from assms(1) have pos: "0 < unat d" by (rule less_le_trans [rotated]) simp
  then have nz: "d \<noteq> 0" by auto
  have p: "unat (push_bit 63 1 :: u64) = 2 ^ 63" by simp
  have q: "unat (push_bit 63 1 div d) = (2 ^ 63 div unat d) mod 2 ^ 64"
    unfolding unat_div p by (rule mod_less [symmetric]) (rule le_less_trans [OF div_le_dividend], simp)
  have r: "unat (push_bit 63 1 mod d) = 2 ^ 63 mod unat d"
    unfolding unat_mod p ..
  have "(2::nat) ^ 63 * 2 ^ Suc k = 2 ^ (64 + k)"
    by (simp only: power_add [symmetric]) simp
  then show ?thesis
    using quotient_loop_eq [OF pos q r, of "Suc k"] nz bsr_loop_eq [OF assms, of 0]
    by (simp add: randomx_reciprocal_def Let_def del: push_bit_of_1)
qed

lemma shift_of_clz:
  assumes "2 ^ k \<le> unat d" "unat d < 2 ^ Suc k" "unat d < 2 ^ 32"
  shows "k < 32" "64 - builtin_clzll d = Suc k"
proof -
  have "(2::nat) ^ k < 2 ^ 32" using assms(1,3) by (rule le_less_trans)
  then show k: "k < 32" by (rule power_less_imp_less_exp [rotated]) simp
  then show "64 - builtin_clzll d = Suc k" using clzll_eq [OF assms(1,2)] by simp
qed

lemma div_shift_split:
  "(d::nat) > 0 \<Longrightarrow> (2 ^ 63 div d) * 2 ^ n + (2 ^ 63 mod d) * 2 ^ n div d = 2 ^ 63 * 2 ^ n div d"
proof -
  assume d: "d > 0"
  have "2 ^ 63 * 2 ^ n = d * ((2 ^ 63 div d) * 2 ^ n) + (2 ^ 63 mod d) * 2 ^ n"
    by (metis add_mult_distrib mult.assoc mult_div_mod_eq)
  then show ?thesis using d by simp
qed

lemma reciprocal_fast_value:
  assumes "2 ^ k \<le> unat d" "unat d < 2 ^ Suc k" "unat d < 2 ^ 32"
  shows "\<exists>r. randomx_reciprocal_fast d = Some r \<and> unat r = (2 ^ (64 + k) div unat d) mod 2 ^ 64"
proof -
  note shift = shift_of_clz [OF assms]
  from assms(1) have pos: "0 < unat d" by (rule less_le_trans [rotated]) simp
  then have nz: "d \<noteq> 0" by auto
  define q r :: u64 where "q = push_bit 63 1 div d" and "r = push_bit 63 1 mod d"
  have p: "unat (push_bit 63 1 :: u64) = 2 ^ 63" by simp
  have uq: "unat q = 2 ^ 63 div unat d" and ur: "unat r = 2 ^ 63 mod unat d"
    unfolding q_def r_def unat_div unat_mod p by (rule refl)+
  have rd: "unat r < 2 ^ 32"
    using ur pos assms(3) mod_less_divisor [OF pos, of "2 ^ 63"] by linarith
  have "unat r * 2 ^ Suc k < 2 ^ 32 * 2 ^ Suc k"
    using rd by (intro mult_strict_right_mono) auto
  also have "\<dots> \<le> 2 ^ 32 * 2 ^ 32"
    using shift(1) by (intro mult_left_mono power_increasing) auto
  finally have small: "unat r * 2 ^ Suc k < 2 ^ 64" by simp
  have pb: "unat (push_bit (Suc k) x) = (unat x * 2 ^ Suc k) mod 2 ^ 64" for x :: u64
    by (simp only: unsigned_push_bit_eq) (simp add: push_bit_eq_mult take_bit_eq_mod)
  have "unat (push_bit (Suc k) q + push_bit (Suc k) r div d)
      = (unat q * 2 ^ Suc k + unat r * 2 ^ Suc k div unat d) mod 2 ^ 64"
    unfolding unat_word_ariths(1) unat_div pb mod_less [OF small] by (simp add: mod_simps)
  also have "\<dots> = (2 ^ 63 * 2 ^ Suc k div unat d) mod 2 ^ 64"
    unfolding uq ur div_shift_split [OF pos] ..
  also have "(2::nat) ^ 63 * 2 ^ Suc k = 2 ^ (64 + k)"
    by (simp only: power_add [symmetric]) simp
  finally show ?thesis
    using nz shift(2) by (simp add: randomx_reciprocal_fast_def Let_def q_def r_def del: push_bit_of_1)
qed

lemma reciprocal_range:
  assumes "2 ^ k \<le> d" "d < (2::nat) ^ Suc k" "d \<noteq> 2 ^ k"
  shows "2 ^ 63 \<le> 2 ^ (64 + k) div d" "2 ^ (64 + k) div d < 2 ^ 64"
proof -
  have pos: "0 < d" using assms(1) by (rule less_le_trans [rotated]) simp
  have "2 ^ 63 * d \<le> 2 ^ 63 * 2 ^ Suc k"
    using assms(2) by simp
  also have "\<dots> = (2::nat) ^ (64 + k)"
    by (simp only: power_add [symmetric]) simp
  finally have "2 ^ 63 * d div d \<le> 2 ^ (64 + k) div d" by (rule div_le_mono)
  then show "2 ^ 63 \<le> 2 ^ (64 + k) div d" using pos by simp
  have "(2::nat) ^ (64 + k) = 2 ^ 64 * 2 ^ k" by (rule power_add)
  also have "\<dots> < 2 ^ 64 * d" using assms(1,3) by simp
  finally show "2 ^ (64 + k) div d < 2 ^ 64" by (simp only: div_less_iff_less_mult [OF pos])
qed

lemma double_div_le: "0 < d \<Longrightarrow> 2 * (a div d) \<le> (2 * a) div (d::nat)"
  using div_times_less_eq_dividend [of a d]
  by (simp add: less_eq_div_iff_mult_less_eq)

lemma reciprocal_power:
  assumes "unat d = 2 ^ k"
  shows "randomx_reciprocal d = Some 0"
proof -
  have "2 ^ (64 + k) div unat d = 2 ^ 64" by (simp add: assms power_add)
  then show ?thesis using reciprocal_value [of k d] assms by (auto simp: unat_eq_zero)
qed

lemma reciprocal_largest:
  assumes "d \<noteq> 0" "\<forall>k. unat d \<noteq> 2 ^ k"
  shows "\<exists>x r. randomx_reciprocal d = Some r \<and> unat r = 2 ^ x div unat d
           \<and> 2 ^ 63 \<le> unat r \<and> \<not> 2 ^ (x + 1) div unat d < 2 ^ 64"
proof -
  have pos: "0 < unat d" using assms(1) by (simp add: unat_gt_0)
  obtain k where k: "2 ^ k \<le> unat d" "unat d < 2 ^ Suc k"
    using power_bracket [OF pos] by blast
  note rng = reciprocal_range [OF k assms(2) [THEN spec]]
  define Q P where "Q = 2 ^ (64 + k) div unat d" and "P = 2 ^ (64 + k + 1) div unat d"
  have "2 * Q \<le> P"
    unfolding Q_def P_def power_add [of 2 "64 + k" 1] power_one_right mult.commute [of _ 2]
    by (rule double_div_le [OF pos])
  moreover have "2 ^ 63 \<le> Q" "Q < 2 ^ 64" using rng by (simp_all only: Q_def)
  ultimately have "\<not> P < 2 ^ 64" by simp
  moreover obtain r where "randomx_reciprocal d = Some r" "unat r = Q"
    using reciprocal_value [OF k] \<open>Q < 2 ^ 64\<close> unfolding Q_def [symmetric] by auto
  ultimately show ?thesis
    using \<open>2 ^ 63 \<le> Q\<close> unfolding Q_def P_def by metis
qed

section \<open>Properties\<close>

text \<open>
  C24: what \<open>randomx_reciprocal\<close> returns for every divisor. Zero fails the assertion. For a power
  of two the largest quotient would be \<open>2^64\<close>, so the result wraps around to 0. For every other
  divisor the result is exactly \<open>floor(2^x / divisor)\<close> for the \<open>x\<close> at which the quotient lies in
  \<open>[2^63, 2^64)\<close>, which is the highest \<open>x\<close> whose quotient fits 64 bits: doubling it once more
  would not. The remainder of the loop may wrap around on the way (for divisors over \<open>2^63\<close>); the
  subtraction that follows undoes it.
\<close>

theorem randomx_reciprocal_correct:
  "(d = 0 \<longrightarrow> randomx_reciprocal d = None) \<and>
   (\<forall>k. unat d = 2 ^ k \<longrightarrow> randomx_reciprocal d = Some 0) \<and>
   (d \<noteq> 0 \<and> (\<forall>k. unat d \<noteq> 2 ^ k) \<longrightarrow>
     (\<exists>x r. randomx_reciprocal d = Some r \<and> unat r = 2 ^ x div unat d
        \<and> 2 ^ 63 \<le> unat r \<and> \<not> 2 ^ (x + 1) div unat d < 2 ^ 64))"
proof (intro conjI impI allI)
  show "d = 0 \<Longrightarrow> randomx_reciprocal d = None" by (simp add: randomx_reciprocal_def)
  show "unat d = 2 ^ k \<Longrightarrow> randomx_reciprocal d = Some 0" for k by (rule reciprocal_power)
  show "d \<noteq> 0 \<and> (\<forall>k. unat d \<noteq> 2 ^ k) \<Longrightarrow> \<exists>x r. randomx_reciprocal d = Some r \<and> unat r = 2 ^ x div unat d
      \<and> 2 ^ 63 \<le> unat r \<and> \<not> 2 ^ (x + 1) div unat d < 2 ^ 64"
    using reciprocal_largest [of d] by blast
qed

theorem randomx_reciprocal_correct_witness:
  "randomx_reciprocal 0 = None \<and> randomx_reciprocal 8 = Some 0 \<and>
   (\<exists>x r. randomx_reciprocal 3 = Some r \<and> unat r = 2 ^ x div unat (3::u64)
     \<and> 2 ^ 63 \<le> unat r \<and> \<not> 2 ^ (x + 1) div unat (3::u64) < 2 ^ 64)"
proof -
  have 3: "\<forall>k. unat (3::u64) \<noteq> 2 ^ k"
  proof
    fix k
    show "unat (3::u64) \<noteq> 2 ^ k" by (cases k) (simp, simp, presburger)
  qed
  have "randomx_reciprocal 8 = Some 0"
    by (rule randomx_reciprocal_correct [THEN conjunct2, THEN conjunct1, rule_format, of _ 3]) simp
  then show ?thesis
    using randomx_reciprocal_correct [of 0] randomx_reciprocal_correct [of 3] 3 by simp
qed

text \<open>
  C29: On every non-zero 32-bit divisor, the only ones the callers pass, the two-division routine
  \<open>randomx_reciprocal_fast\<close> returns what the bit-by-bit \<open>randomx_reciprocal\<close> returns, powers of
  two (where both wrap around) included.
\<close>

theorem reciprocal_fast_agrees:
  assumes "unat d < 2 ^ 32"
  shows "randomx_reciprocal_fast d = randomx_reciprocal d"
proof (cases "d = 0")
  case True
  then show ?thesis by (simp add: randomx_reciprocal_fast_def randomx_reciprocal_def)
next
  case False
  then have "0 < unat d" by (simp add: unat_gt_0)
  then obtain k where k: "2 ^ k \<le> unat d" "unat d < 2 ^ Suc k"
    using power_bracket by blast
  from reciprocal_value [OF k] reciprocal_fast_value [OF k assms] show ?thesis
    by (metis word_unat_eq_iff)
qed

theorem reciprocal_fast_agrees_witness:
  "randomx_reciprocal_fast 10 = randomx_reciprocal 10 \<and> randomx_reciprocal 10 \<noteq> None"
proof -
  have "randomx_reciprocal_fast 10 = randomx_reciprocal 10"
    by (rule reciprocal_fast_agrees) simp
  then show ?thesis by (simp add: randomx_reciprocal_def Let_def)
qed

end
