(* ===== verification/Streaming.thy ===== *)
theory Streaming
  imports Prelude
begin

text \<open>
  The contract all the hash components share. A hash is fed a message in pieces of any size,
  cuts it into blocks of \<open>n\<close> bytes and compresses a block as soon as more than \<open>k\<close> bytes are
  waiting: \<open>k = n - 1\<close> for the hashes that compress a full buffer at once, \<open>k = n\<close> for those
  that keep the last block back. \<open>absorb\<close> and \<open>rest\<close> say what has been compressed of a message
  and what is still in the buffer; the locale \<open>stream_hash\<close> is the interface a caller of a hash
  relies on.
\<close>

section \<open>Compressing a message block by block\<close>

function absorb :: "nat \<Rightarrow> nat \<Rightarrow> ('a list \<Rightarrow> 'v \<Rightarrow> 'v) \<Rightarrow> 'a list \<Rightarrow> 'v \<Rightarrow> 'v" where
  "absorb k n f xs v =
     (if 0 < n \<and> k < length xs then absorb k n f (drop n xs) (f (take n xs) v) else v)"
  by pat_completeness auto
termination
  by (relation "measure (\<lambda>(k, n, f, xs, v). length xs)") auto

function rest :: "nat \<Rightarrow> nat \<Rightarrow> 'a list \<Rightarrow> 'a list" where
  "rest k n xs = (if 0 < n \<and> k < length xs then rest k n (drop n xs) else xs)"
  by pat_completeness auto
termination
  by (relation "measure (\<lambda>(k, n, xs). length xs)") auto

declare absorb.simps [simp del] rest.simps [simp del]

lemma absorb_short [simp]: "length xs \<le> k \<Longrightarrow> absorb k n f xs v = v"
  by (simp add: absorb.simps)

lemma rest_short [simp]: "length xs \<le> k \<Longrightarrow> rest k n xs = xs"
  by (simp add: rest.simps)

lemma absorb_block:
  "0 < n \<Longrightarrow> k < length xs \<Longrightarrow> absorb k n f xs v = absorb k n f (drop n xs) (f (take n xs) v)"
  by (simp add: absorb.simps [of k n f xs])

lemma rest_block: "0 < n \<Longrightarrow> k < length xs \<Longrightarrow> rest k n xs = rest k n (drop n xs)"
  by (simp add: rest.simps [of k n xs])

lemma rest_bound: "0 < n \<Longrightarrow> length (rest k n xs) \<le> k"
proof (induction k n xs rule: rest.induct)
  case (1 k n xs)
  then show ?case
    by (cases "k < length xs") (simp_all add: rest_block)
qed

lemma absorb_append:
  assumes "0 < n" "n \<le> Suc k"
  shows "absorb k n f (xs @ ys) v = absorb k n f (rest k n xs @ ys) (absorb k n f xs v)"
  using assms
proof (induction k n f xs v rule: absorb.induct)
  case (1 k n f xs v)
  show ?case
  proof (cases "k < length xs")
    case True
    then have "n \<le> length xs" using "1.prems" by simp
    with True "1.prems" have
      "absorb k n f (xs @ ys) v = absorb k n f (drop n xs @ ys) (f (take n xs) v)"
      by (simp add: absorb_block)
    with True "1.prems" show ?thesis
      by (simp add: "1.IH" absorb_block [of n k xs] rest_block [of n k xs])
  qed simp
qed

lemma rest_append:
  assumes "0 < n" "n \<le> Suc k"
  shows "rest k n (xs @ ys) = rest k n (rest k n xs @ ys)"
  using assms
proof (induction k n xs rule: rest.induct)
  case (1 k n xs)
  show ?case
  proof (cases "k < length xs")
    case True
    then have "n \<le> length xs" using "1.prems" by simp
    with True "1.prems" have "rest k n (xs @ ys) = rest k n (drop n xs @ ys)"
      by (simp add: rest_block)
    with True "1.prems" show ?thesis
      by (simp add: "1.IH" rest_block [of n k xs])
  qed simp
qed

text \<open>A compression function seen through \<open>h\<close>, on states in \<open>I\<close>.\<close>

lemma absorb_commute:
  assumes "I v" "\<And>b v. I v \<Longrightarrow> I (f b v)" "\<And>b v. I v \<Longrightarrow> h (f b v) = g b (h v)"
  shows "h (absorb k n f m v) = absorb k n g m (h v) \<and> I (absorb k n f m v)"
  using assms(1)
proof (induction m arbitrary: v rule: measure_induct_rule [where f = length])
  case (less m)
  show ?case
  proof (cases "0 < n \<and> k < length m")
    case True
    then have "length (drop n m) < length m" by auto
    from less.IH [OF this, of "f (take n m) v"] show ?thesis
      using True less.prems assms(2,3) by (simp add: absorb_block)
  next
    case False
    then have "absorb k n f m v = v" "absorb k n g m (h v) = h v"
      by (auto simp: absorb.simps [of k n _ m])
    then show ?thesis using less.prems by simp
  qed
qed

text \<open>What is waiting in the buffer of an eager hash is the message length modulo \<open>n\<close>.\<close>

lemma length_rest_eager: "0 < n \<Longrightarrow> length (rest (n - 1) n xs) = length xs mod n"
proof (induction "n - 1" n xs rule: rest.induct)
  case (1 n xs)
  show ?case
  proof (cases "n - 1 < length xs")
    case True
    with "1.prems" have "length (drop n xs) mod n = length xs mod n"
      by (simp add: le_mod_geq Suc_le_eq)
    with True "1.prems" show ?thesis
      using "1.hyps" by (simp add: rest_block [of n "n - Suc 0" xs])
  next
    case False
    then show ?thesis using "1.prems" by simp
  qed
qed

section \<open>The interface of a streaming hash\<close>

text \<open>
  \<open>repr s m\<close>: the context \<open>s\<close> has been fed the message \<open>m\<close>. The provider promises that a
  context fresh from its initialisation has been fed nothing, that an update succeeds and appends
  its data, and that closing gives the digest of everything fed. \<open>ok m\<close> bounds the messages the
  code counts correctly.
\<close>

fun feed :: "('s \<Rightarrow> 'a list \<Rightarrow> 's option) \<Rightarrow> 's \<Rightarrow> 'a list list \<Rightarrow> 's option" where
  "feed upd s [] = Some s"
| "feed upd s (d # ds) = upd s d \<bind> (\<lambda>s'. feed upd s' ds)"

locale stream_hash =
  fixes fresh :: "'s \<Rightarrow> bool"
    and upd :: "'s \<Rightarrow> 'a list \<Rightarrow> 's option"
    and close :: "'s \<Rightarrow> 'd option"
    and repr :: "'s \<Rightarrow> 'a list \<Rightarrow> bool"
    and digest :: "'a list \<Rightarrow> 'd"
    and ok :: "'a list \<Rightarrow> bool"
  assumes repr_fresh: "fresh s \<Longrightarrow> repr s []"
    and repr_upd: "repr s m \<Longrightarrow> \<exists>s'. upd s d = Some s' \<and> repr s' (m @ d)"
    and close_digest: "repr s m \<Longrightarrow> ok m \<Longrightarrow> close s = Some (digest m)"
begin

lemma feed_repr: "repr s m \<Longrightarrow> \<exists>s'. feed upd s ds = Some s' \<and> repr s' (m @ concat ds)"
proof (induction ds arbitrary: s m)
  case Nil
  then show ?case by simp
next
  case (Cons d ds)
  then obtain s' where "upd s d = Some s'" "repr s' (m @ d)"
    using repr_upd by blast
  with Cons.IH [of s' "m @ d"] show ?case by simp
qed

lemma feed_fresh: "fresh s \<Longrightarrow> \<exists>s'. feed upd s ds = Some s' \<and> repr s' (concat ds)"
  using feed_repr [OF repr_fresh] by simp

lemma hash_chunks:
  "fresh s \<Longrightarrow> ok (concat ds) \<Longrightarrow> feed upd s ds \<bind> close = Some (digest (concat ds))"
  using feed_fresh [of s ds] by (auto simp: close_digest)

lemma hash_once: "fresh s \<Longrightarrow> ok m \<Longrightarrow> upd s m \<bind> close = Some (digest m)"
  using repr_upd [OF repr_fresh, of s m] by (auto simp: close_digest)

lemma chunks_irrelevant:
  "fresh s \<Longrightarrow> fresh t \<Longrightarrow> concat ds = concat es \<Longrightarrow> ok (concat ds) \<Longrightarrow>
   feed upd s ds \<bind> close = feed upd t es \<bind> close"
  by (simp add: hash_chunks)

end

end
