(* ===== verification/Md_Helper.thy ===== *)
theory Md_Helper
  imports Streaming
begin

text \<open>
  \<^verbatim>\<open>src/crypto/ghostrider/md_helper.c\<close>: the data handling and the padding shared by the
  Merkle-Damgard hashes. The C file is a template, configured by macros and included once per
  hash; here the macros are the fields of \<open>md_conf\<close> and the round function \<open>RFUN\<close> an argument.
  \<open>md_pad\<close> is the padding as the standards state it, and the main lemmas say that update and
  close, taken together, compress exactly the padded message. The code for platforms without a
  64-bit type (\<open>!SPH_64\<close>) is not modelled.
\<close>

section \<open>The configuration macros\<close>

datatype md_word = BE32 | LE32 | BE64 | LE64

datatype md_plw = PLW1 | PLW4 | PLW_none

record md_conf =
  conf_word :: md_word
  conf_plw :: md_plw
  conf_BLEN :: "nat option"
  conf_PW01 :: bool

definition SPH_BLEN :: "md_conf \<Rightarrow> nat" where
  "SPH_BLEN c =
     (case conf_BLEN c of
        Some b \<Rightarrow> b
      | None \<Rightarrow> (if conf_word c = BE64 \<or> conf_word c = LE64 then 128 else 64))"

definition SPH_WLEN :: "md_conf \<Rightarrow> nat" where
  "SPH_WLEN c = (if conf_word c = BE64 \<or> conf_word c = LE64 then 8 else 4)"

definition SPH_MAXPAD :: "md_conf \<Rightarrow> nat" where
  "SPH_MAXPAD c =
     (case conf_plw c of
        PLW1 \<Rightarrow> SPH_BLEN c - SPH_WLEN c
      | PLW4 \<Rightarrow> SPH_BLEN c - 4 * SPH_WLEN c
      | PLW_none \<Rightarrow> SPH_BLEN c - 2 * SPH_WLEN c)"

section \<open>The context and its update\<close>

record 'v md_ctx =
  md_buf :: bytes
  md_val :: 'v
  md_count :: u64

definition md_current :: "md_conf \<Rightarrow> 'v md_ctx \<Rightarrow> nat" where
  \<comment> \<open>\<open>(unsigned)sc->count & (SPH_BLEN - 1U)\<close>\<close>
  "md_current c sc = unat ((ucast (md_count sc) :: u32) AND of_nat (SPH_BLEN c - 1))"

function md_short_loop ::
  "md_conf \<Rightarrow> (bytes \<Rightarrow> 'v \<Rightarrow> 'v) \<Rightarrow> nat \<Rightarrow> bytes \<Rightarrow> 'v md_ctx \<Rightarrow> 'v md_ctx option" where
  \<comment> \<open>\<open>while (len > 0)\<close> of \<open>HASH_short\<close>. With \<open>current\<close> at or past the block length the C loop
    would copy nothing for ever or leave the buffer; that is \<open>None\<close>.\<close>
  "md_short_loop c rfun current data sc =
     (if data = [] then Some sc
      else if SPH_BLEN c \<le> current then None
      else let clen = min (SPH_BLEN c - current) (length data)
           in memcpy_in (md_buf sc) current (take clen data) \<bind> (\<lambda>buf.
              let current = current + clen;
                  sc = sc\<lparr>md_buf := buf\<rparr>;
                  full = (current = SPH_BLEN c);
                  sc = (if full then sc\<lparr>md_val := rfun (md_buf sc) (md_val sc)\<rparr> else sc);
                  current = (if full then 0 else current);
                  sc = sc\<lparr>md_count := md_count sc + of_nat clen\<rparr>
              in md_short_loop c rfun current (drop clen data) sc))"
  by pat_completeness auto
termination
  by (relation "measure (\<lambda>(c, rfun, current, data, sc). length data)") auto

declare md_short_loop.simps [simp del]

definition md_short ::
  "md_conf \<Rightarrow> (bytes \<Rightarrow> 'v \<Rightarrow> 'v) \<Rightarrow> 'v md_ctx \<Rightarrow> bytes \<Rightarrow> 'v md_ctx option" where
  "md_short c rfun sc data = md_short_loop c rfun (md_current c sc) data sc"

function md_bulk_loop ::
  "md_conf \<Rightarrow> (bytes \<Rightarrow> 'v \<Rightarrow> 'v) \<Rightarrow> bytes \<Rightarrow> 'v \<Rightarrow> bytes \<times> 'v" where
  \<comment> \<open>\<open>while (len >= SPH_BLEN)\<close>: blocks are compressed where they lie; gives the bytes left.
    A block length of 0, which no configuration has, is cut off.\<close>
  "md_bulk_loop c rfun data v =
     (if 0 < SPH_BLEN c \<and> SPH_BLEN c \<le> length data
      then md_bulk_loop c rfun (drop (SPH_BLEN c) data) (rfun (take (SPH_BLEN c) data) v)
      else (data, v))"
  by pat_completeness auto
termination
  by (relation "measure (\<lambda>(c, rfun, data, v). length data)") auto

declare md_bulk_loop.simps [simp del]

definition md_update ::
  "bool \<Rightarrow> md_conf \<Rightarrow> (bytes \<Rightarrow> 'v \<Rightarrow> 'v) \<Rightarrow> 'v md_ctx \<Rightarrow> bytes \<Rightarrow> 'v md_ctx option" where
  \<comment> \<open>\<open>sph_HASH\<close> where \<open>SPH_UPTR\<close> is defined. \<open>misaligned\<close>: the build forbids unaligned access
    and the data pointer, once the buffer is filled up, is not aligned.\<close>
  "md_update misaligned c rfun sc data =
     (if length data < 2 * SPH_BLEN c then md_short c rfun sc data
      else let current = md_current c sc;
               t = (if current > 0 then SPH_BLEN c - current else 0)
           in (if current > 0 then md_short c rfun sc (take t data) else Some sc) \<bind> (\<lambda>sc.
              let data = drop t data
              in if misaligned then md_short c rfun sc data
                 else let orig_len = length data;
                          (left, v) = md_bulk_loop c rfun data (md_val sc)
                      in (if length left > 0 then memcpy_in (md_buf sc) 0 left
                          else Some (md_buf sc)) \<bind> (\<lambda>buf.
                         Some (sc\<lparr>md_buf := buf, md_val := v,
                                 md_count := md_count sc + of_nat orig_len\<rparr>))))"

section \<open>Padding and close\<close>

definition md_pad_byte :: "md_conf \<Rightarrow> u32 \<Rightarrow> nat \<Rightarrow> u8" where
  \<comment> \<open>the byte that ends the message: the \<open>n\<close> extra bits of \<open>ub\<close> and the padding's first 1\<close>
  "md_pad_byte c ub n =
     (if conf_PW01 c then ucast (drop_bit (8 - n) (0x100 OR (ub AND 0xFF)))
      else let z = drop_bit n (0x80 :: u32)
           in ucast (((ub AND - z) OR z) AND 0xFF))"

definition md_put_length :: "md_conf \<Rightarrow> nat \<Rightarrow> u64 \<Rightarrow> bytes \<Rightarrow> bytes option" where
  "md_put_length c n count buf =
     (let low = SPH_T64 (push_bit 3 count) + of_nat n;
          high = drop_bit 61 count;
          P = SPH_MAXPAD c; W = SPH_WLEN c
      in case conf_word c of
           BE64 \<Rightarrow>
             (case conf_plw c of
                PLW1 \<Rightarrow> memcpy_in buf P (sph_enc64be low)
              | PLW4 \<Rightarrow> memset_in buf P 0 (2 * W) \<bind> (\<lambda>buf.
                        memcpy_in buf (P + 2 * W) (sph_enc64be high) \<bind> (\<lambda>buf.
                        memcpy_in buf (P + 3 * W) (sph_enc64be low)))
              | PLW_none \<Rightarrow> memcpy_in buf P (sph_enc64be high) \<bind> (\<lambda>buf.
                        memcpy_in buf (P + W) (sph_enc64be low)))
         | LE64 \<Rightarrow>
             \<comment> \<open>the second test of the C text is \<open>PLW1\<close> again, so \<open>PLW4\<close> takes the last branch\<close>
             (if conf_plw c = PLW1 then memcpy_in buf P (sph_enc64le low)
              else memcpy_in buf P (sph_enc64le low) \<bind> (\<lambda>buf.
                   memcpy_in buf (P + W) (sph_enc64le high)))
         | BE32 \<Rightarrow> memcpy_in buf P (sph_enc64be low)
         | LE32 \<Rightarrow> memcpy_in buf P (sph_enc64le low))"

definition md_addbits_and_close ::
  "md_conf \<Rightarrow> (bytes \<Rightarrow> 'v \<Rightarrow> 'v) \<Rightarrow> 'v md_ctx \<Rightarrow> u32 \<Rightarrow> nat \<Rightarrow> 'v md_ctx option" where
  \<comment> \<open>up to and including the last \<open>RFUN\<close>; the digest is then read off \<open>md_val\<close>\<close>
  "md_addbits_and_close c rfun sc ub n =
     (let current = md_current c sc; P = SPH_MAXPAD c
      in store_in (md_buf sc) current (md_pad_byte c ub n) \<bind> (\<lambda>buf.
         let current = current + 1
         in (if current > P
             then memset_in buf current 0 (SPH_BLEN c - current) \<bind> (\<lambda>buf.
                  let v = rfun buf (md_val sc)
                  in memset_in buf 0 0 P \<bind> (\<lambda>buf. Some (buf, v)))
             else memset_in buf current 0 (P - current) \<bind> (\<lambda>buf. Some (buf, md_val sc)))
            \<bind> (\<lambda>(buf, v).
            md_put_length c n (md_count sc) buf \<bind> (\<lambda>buf.
            Some (sc\<lparr>md_buf := buf, md_val := rfun buf v\<rparr>)))))"

section \<open>The padding as the standards state it\<close>

definition be_bytes :: "nat \<Rightarrow> nat \<Rightarrow> bytes" where
  "be_bytes k x = map (\<lambda>i. of_nat (drop_bit (8 * (k - 1 - i)) x)) [0..<k]"

definition md_length_field :: "md_conf \<Rightarrow> nat \<Rightarrow> bytes" where
  \<comment> \<open>the message length in bits, over all the bytes the padding leaves free\<close>
  "md_length_field c bits =
     (if conf_word c = BE32 \<or> conf_word c = BE64
      then be_bytes (SPH_BLEN c - SPH_MAXPAD c) bits
      else le_bytes (SPH_BLEN c - SPH_MAXPAD c) bits)"

definition md_zeros :: "md_conf \<Rightarrow> nat \<Rightarrow> nat" where
  \<comment> \<open>the least number of zero bytes that makes the padded message a multiple of a block\<close>
  "md_zeros c len =
     (let cur = len mod SPH_BLEN c + 1
      in if cur > SPH_MAXPAD c then SPH_BLEN c - cur + SPH_MAXPAD c else SPH_MAXPAD c - cur)"

definition md_pad :: "md_conf \<Rightarrow> u32 \<Rightarrow> nat \<Rightarrow> bytes \<Rightarrow> bytes" where
  "md_pad c ub n m =
     m @ [md_pad_byte c ub n] @ replicate (md_zeros c (length m)) 0
       @ md_length_field c (8 * length m + n)"

definition md_conf_ok :: "md_conf \<Rightarrow> bool" where
  \<comment> \<open>the configurations whose length field fills the block\<close>
  "md_conf_ok c \<longleftrightarrow>
     (SPH_BLEN c = 64 \<or> SPH_BLEN c = 128) \<and>
     (case conf_word c of
        BE64 \<Rightarrow> True
      | LE64 \<Rightarrow> conf_plw c \<noteq> PLW4
      | BE32 \<Rightarrow> conf_plw c = PLW_none
      | LE32 \<Rightarrow> conf_plw c = PLW_none)"

lemma length_be_bytes [simp]: "length (be_bytes k x) = k"
  by (simp add: be_bytes_def)

lemma byte_of_word: "j + 8 \<le> 64 \<Longrightarrow> ucast (drop_bit j (of_nat x :: u64)) = (of_nat (drop_bit j x) :: u8)"
  by (rule bit_word_eqI) (auto simp: bit_simps)

lemma enc64be_of_nat: "sph_enc64be (of_nat x) = be_bytes 8 x"
  using byte_of_word [of 0 x]
  by (simp add: sph_enc64be_def be_bytes_def byte_of_word upt_rec)

lemma enc64le_of_nat: "sph_enc64le (of_nat x) = le_bytes 8 x"
  using byte_of_word [of 0 x]
  by (simp add: sph_enc64le_def le_bytes_def byte_of_word upt_rec)

lemma be_bytes_high: "x < 2 ^ 64 \<Longrightarrow> be_bytes (k + 8) x = replicate k 0 @ be_bytes 8 x"
proof (rule nth_equalityI)
  fix i assume x: "x < 2 ^ 64" and "i < length (be_bytes (k + 8) x)"
  then have i: "i < k + 8" by simp
  show "be_bytes (k + 8) x ! i = (replicate k 0 @ be_bytes 8 x) ! i"
  proof (cases "i < k")
    case True
    then have "64 \<le> 8 * (k + 8 - 1 - i)" by simp
    then have "x < 2 ^ (8 * (k + 8 - 1 - i))"
      using x by (meson less_le_trans one_le_numeral power_increasing)
    then show ?thesis using i True by (simp add: be_bytes_def nth_append drop_bit_eq_div)
  next
    case False
    then have "i - k < 8" and "7 - (i - k) = k + 7 - i" using i by simp_all
    then show ?thesis using i False by (simp add: be_bytes_def nth_append)
  qed
qed simp

lemma le_bytes_high: "x < 2 ^ 64 \<Longrightarrow> le_bytes (8 + k) x = le_bytes 8 x @ replicate k 0"
proof (rule nth_equalityI)
  fix i assume x: "x < 2 ^ 64" and "i < length (le_bytes (8 + k) x)"
  then have i: "i < 8 + k" by simp
  show "le_bytes (8 + k) x ! i = (le_bytes 8 x @ replicate k 0) ! i"
  proof (cases "i < 8")
    case True
    then show ?thesis using i by (simp add: le_bytes_def nth_append)
  next
    case False
    then have "64 \<le> 8 * i" by simp
    then have "x < 2 ^ (8 * i)"
      using x by (meson less_le_trans one_le_numeral power_increasing)
    then show ?thesis using i False by (simp add: le_bytes_def nth_append drop_bit_eq_div)
  qed
qed simp

lemma be_bytes_zero: "be_bytes k 0 = replicate k 0"
  by (simp add: be_bytes_def map_replicate_const)

lemma le_bytes_zero: "le_bytes k 0 = replicate k 0"
  by (simp add: le_bytes_def map_replicate_const)

section \<open>Updates append to the message\<close>

definition md_absorb :: "md_conf \<Rightarrow> (bytes \<Rightarrow> 'v \<Rightarrow> 'v) \<Rightarrow> bytes \<Rightarrow> 'v \<Rightarrow> 'v" where
  "md_absorb c rfun = absorb (SPH_BLEN c - 1) (SPH_BLEN c) rfun"

definition md_rest :: "md_conf \<Rightarrow> bytes \<Rightarrow> bytes" where
  "md_rest c = rest (SPH_BLEN c - 1) (SPH_BLEN c)"

definition md_repr ::
  "md_conf \<Rightarrow> (bytes \<Rightarrow> 'v \<Rightarrow> 'v) \<Rightarrow> 'v \<Rightarrow> 'v md_ctx \<Rightarrow> bytes \<Rightarrow> bool" where
  "md_repr c rfun iv sc m \<longleftrightarrow>
     length (md_buf sc) = SPH_BLEN c
     \<and> take (length (md_rest c m)) (md_buf sc) = md_rest c m
     \<and> md_val sc = md_absorb c rfun m iv
     \<and> md_count sc = of_nat (length m)"

lemma and_63: "unat ((ucast (x::u64) :: u32) AND 63) = unat x mod 64"
proof -
  have "(63::u32) = mask 6" by (simp add: mask_eq_exp_minus_1)
  then have "unat ((ucast x :: u32) AND 63) = take_bit 6 (unat (ucast x :: u32))"
    by (simp only: take_bit_eq_mask [symmetric] unsigned_take_bit_eq)
  also have "\<dots> = take_bit 6 (unat x)"
    by (simp add: unsigned_ucast_eq)
  finally show ?thesis by (simp add: take_bit_eq_mod)
qed

lemma and_127: "unat ((ucast (x::u64) :: u32) AND 127) = unat x mod 128"
proof -
  have "(127::u32) = mask 7" by (simp add: mask_eq_exp_minus_1)
  then have "unat ((ucast x :: u32) AND 127) = take_bit 7 (unat (ucast x :: u32))"
    by (simp only: take_bit_eq_mask [symmetric] unsigned_take_bit_eq)
  also have "\<dots> = take_bit 7 (unat x)"
    by (simp add: unsigned_ucast_eq)
  finally show ?thesis by (simp add: take_bit_eq_mod)
qed

lemma md_blen:
  "md_conf_ok c \<Longrightarrow> SPH_BLEN c = 64 \<or> SPH_BLEN c = 128"
  by (simp add: md_conf_ok_def)

lemma md_blen_pos [simp]: "md_conf_ok c \<Longrightarrow> 0 < SPH_BLEN c"
  using md_blen [of c] by auto

lemma md_current_eq: "md_conf_ok c \<Longrightarrow> md_current c sc = unat (md_count sc) mod SPH_BLEN c"
  using md_blen [of c] by (auto simp: md_current_def and_63 and_127)

lemma length_md_rest: "md_conf_ok c \<Longrightarrow> length (md_rest c m) = length m mod SPH_BLEN c"
  unfolding md_rest_def by (rule length_rest_eager) simp

lemma md_repr_current:
  assumes "md_conf_ok c" "md_repr c rfun iv sc m"
  shows "md_current c sc = length m mod SPH_BLEN c"
proof -
  have "unat (md_count sc) = length m mod 2 ^ 64"
    using assms(2) by (simp add: md_repr_def unat_of_nat)
  moreover have "SPH_BLEN c dvd 2 ^ 64" using md_blen [OF assms(1)] by auto
  ultimately show ?thesis
    using assms(1) by (simp add: md_current_eq mod_mod_cancel)
qed

text \<open>The two ways a piece of data reaches the hash: into the buffer, or filling it up.\<close>

lemma md_absorb_short:
  assumes "md_conf_ok c" "length (md_rest c m) + length d < SPH_BLEN c"
  shows "md_absorb c rfun (m @ d) v = md_absorb c rfun m v" "md_rest c (m @ d) = md_rest c m @ d"
  using assms md_blen_pos [OF assms(1)]
  by (simp_all add: md_absorb_def md_rest_def absorb_append [of _ _ _ m d] rest_append [of _ _ m d])

lemma md_absorb_full:
  assumes "md_conf_ok c" "length (md_rest c m) + length d = SPH_BLEN c"
  shows "md_absorb c rfun (m @ d) v = rfun (md_rest c m @ d) (md_absorb c rfun m v)"
    and "md_rest c (m @ d) = []"
  using assms md_blen_pos [OF assms(1)]
  by (simp_all add: md_absorb_def md_rest_def absorb_append [of _ _ _ m d] rest_append [of _ _ m d]
      absorb_block rest_block)

lemma md_short_loop_repr:
  assumes "md_conf_ok c" "md_repr c rfun iv sc m" "current = length (md_rest c m)"
  shows "\<exists>sc'. md_short_loop c rfun current data sc = Some sc' \<and> md_repr c rfun iv sc' (m @ data)"
  using assms(2,3)
proof (induction "length data" arbitrary: current data sc m rule: less_induct)
  case less
  let ?B = "SPH_BLEN c"
  have B: "0 < ?B" using assms(1) by simp
  have cur: "current < ?B" using less.prems(2) B by (simp add: length_md_rest [OF assms(1)])
  show ?case
  proof (cases "data = []")
    case True
    then show ?thesis using less.prems by (simp add: md_short_loop.simps)
  next
    case False
    define clen where "clen = min (?B - current) (length data)"
    define d where "d = take clen data"
    have clen: "0 < clen" "clen \<le> length data" "current + clen \<le> ?B"
      using False cur by (auto simp: clen_def)
    then have ld: "length d = clen" by (simp add: d_def)
    have lb: "length (md_buf sc) = ?B" and tb: "take current (md_buf sc) = md_rest c m"
      using less.prems by (simp_all add: md_repr_def)
    let ?buf = "md_rest c m @ d @ drop (current + clen) (md_buf sc)"
    have copy: "memcpy_in (md_buf sc) current d = Some ?buf"
      using clen lb tb ld by (simp add: memcpy_in_def)
    let ?full = "current + clen = ?B"
    let ?v = "if ?full then rfun ?buf (md_val sc) else md_val sc"
    let ?sc = "sc\<lparr>md_buf := ?buf, md_val := ?v, md_count := md_count sc + of_nat clen\<rparr>"
    let ?cur = "if ?full then 0 else current + clen"
    have "md_repr c rfun iv ?sc (m @ d) \<and> ?cur = length (md_rest c (m @ d))"
    proof (cases ?full)
      case True
      then have "length (md_rest c m) + length d = ?B" using less.prems(2) ld by simp
      note full = md_absorb_full(1) [OF assms(1) this, of rfun iv] md_absorb_full(2) [OF assms(1) this]
      have "?buf = md_rest c m @ d" using True lb by simp
      then show ?thesis
        using True full less.prems lb ld by (simp add: md_repr_def)
    next
      case False
      then have "length (md_rest c m) + length d < ?B" using less.prems(2) ld clen by simp
      note short = md_absorb_short(1) [OF assms(1) this, of rfun iv] md_absorb_short(2) [OF assms(1) this]
      show ?thesis
        using False short less.prems lb ld clen by (simp add: md_repr_def)
    qed
    moreover have "length (drop clen data) < length data" using clen by simp
    ultimately obtain sc' where
      "md_short_loop c rfun ?cur (drop clen data) ?sc = Some sc'"
      "md_repr c rfun iv sc' ((m @ d) @ drop clen data)"
      using less.hyps [of "drop clen data" ?sc "m @ d" ?cur] by blast
    moreover have "md_short_loop c rfun current data sc
        = md_short_loop c rfun ?cur (drop clen data) ?sc"
      using False cur copy
      by (simp add: md_short_loop.simps [of c rfun current] clen_def [symmetric] d_def [symmetric] Let_def)
    moreover have "(m @ d) @ drop clen data = m @ data" by (simp add: d_def)
    ultimately show ?thesis by auto
  qed
qed

lemma md_short_repr:
  assumes "md_conf_ok c" "md_repr c rfun iv sc m"
  shows "\<exists>sc'. md_short c rfun sc data = Some sc' \<and> md_repr c rfun iv sc' (m @ data)"
  using md_short_loop_repr [OF assms] md_repr_current [OF assms]
  by (simp add: md_short_def length_md_rest [OF assms(1)])

text \<open>The bulk loop compresses whole blocks in place and leaves less than a block.\<close>

lemma md_bulk_loop_eq:
  "md_conf_ok c \<Longrightarrow> md_bulk_loop c rfun data v = (md_rest c data, md_absorb c rfun data v)"
proof (induction c rfun data v rule: md_bulk_loop.induct)
  case (1 c rfun data v)
  then have B: "0 < SPH_BLEN c" by simp
  show ?case
  proof (cases "SPH_BLEN c \<le> length data")
    case True
    then have lt: "SPH_BLEN c - 1 < length data" using B by simp
    from True 1 B show ?thesis
      unfolding md_bulk_loop.simps [of c rfun data] md_rest_def md_absorb_def
        rest_block [OF B lt] absorb_block [OF B lt] by simp
  next
    case False
    with B show ?thesis
      by (simp add: md_bulk_loop.simps [of c rfun data] md_rest_def md_absorb_def)
  qed
qed

lemma md_absorb_nil:
  assumes "md_conf_ok c" "md_rest c m = []"
  shows "md_absorb c rfun (m @ d) v = md_absorb c rfun d (md_absorb c rfun m v)"
    and "md_rest c (m @ d) = md_rest c d"
  using assms md_blen_pos [OF assms(1)]
  by (simp_all add: md_absorb_def md_rest_def absorb_append [of _ _ _ m d] rest_append [of _ _ m d])

lemma md_bulk_repr:
  assumes "md_conf_ok c" "md_repr c rfun iv sc m" "md_rest c m = []"
    and "md_bulk_loop c rfun data (md_val sc) = (left, v)"
  shows "\<exists>buf. (if length left > 0 then memcpy_in (md_buf sc) 0 left else Some (md_buf sc)) = Some buf
    \<and> md_repr c rfun iv
        (sc\<lparr>md_buf := buf, md_val := v, md_count := md_count sc + of_nat (length data)\<rparr>) (m @ data)"
proof -
  have left: "left = md_rest c data" and v: "v = md_absorb c rfun (m @ data) iv"
    using assms md_bulk_loop_eq [OF assms(1), of rfun data "md_val sc"]
    by (simp_all add: md_absorb_nil(1) md_repr_def)
  have "length left \<le> SPH_BLEN c"
    using length_md_rest [OF assms(1), of data] md_blen_pos [OF assms(1)] left
    by (metis less_imp_le mod_less_divisor)
  with assms(2) show ?thesis
    by (auto simp: md_repr_def memcpy_in_def left v md_absorb_nil(2) [OF assms(1,3)])
qed

lemma md_update_repr:
  assumes "md_conf_ok c" "md_repr c rfun iv sc m"
  shows "\<exists>sc'. md_update misaligned c rfun sc data = Some sc' \<and> md_repr c rfun iv sc' (m @ data)"
proof (cases "length data < 2 * SPH_BLEN c")
  case True
  then show ?thesis using md_short_repr [OF assms] by (simp add: md_update_def)
next
  case False
  define cur where "cur = md_current c sc"
  define t where "t = (if cur > 0 then SPH_BLEN c - cur else 0)"
  have cur: "cur = length (md_rest c m)" "cur < SPH_BLEN c"
    using md_repr_current [OF assms] length_md_rest [OF assms(1)] md_blen_pos [OF assms(1)]
    by (simp_all add: cur_def)
  obtain sc1 where sc1: "(if cur > 0 then md_short c rfun sc (take t data) else Some sc) = Some sc1"
    "md_repr c rfun iv sc1 (m @ take t data)"
    using md_short_repr [OF assms, of "take t data"] assms(2) by (cases "cur > 0") (auto simp: t_def)
  have full: "md_rest c (m @ take t data) = []"
  proof (cases "cur > 0")
    case True
    then have "length (md_rest c m) + length (take t data) = SPH_BLEN c"
      using cur False by (simp add: t_def)
    then show ?thesis by (rule md_absorb_full(2) [OF assms(1)])
  next
    case False
    then show ?thesis using cur by (simp add: t_def)
  qed
  obtain left v where lv: "md_bulk_loop c rfun (drop t data) (md_val sc1) = (left, v)"
    by (cases "md_bulk_loop c rfun (drop t data) (md_val sc1)")
  have upd: "md_update misaligned c rfun sc data =
      (if misaligned then md_short c rfun sc1 (drop t data)
       else (if length left > 0 then memcpy_in (md_buf sc1) 0 left else Some (md_buf sc1)) \<bind>
         (\<lambda>buf. Some (sc1\<lparr>md_buf := buf, md_val := v,
                 md_count := md_count sc1 + of_nat (length (drop t data))\<rparr>)))"
    using False sc1(1) lv
    by (simp only: md_update_def cur_def [symmetric] t_def [symmetric] Let_def bind.bind_lunit if_False prod.case)
  show ?thesis
  proof (cases misaligned)
    case True
    then show ?thesis using md_short_repr [OF assms(1) sc1(2), of "drop t data"] upd by simp
  next
    case False
    from md_bulk_repr [OF assms(1) sc1(2) full lv] show ?thesis
      using upd False by auto
  qed
qed

section \<open>Close compresses the padded message\<close>

lemma md_maxpad:
  assumes "md_conf_ok c"
  shows "SPH_MAXPAD c < SPH_BLEN c" "0 < SPH_MAXPAD c"
  using assms md_blen [OF assms]
  by (auto simp: md_conf_ok_def SPH_MAXPAD_def SPH_WLEN_def split: md_plw.splits md_word.splits)

lemma md_put_length_eq:
  assumes ok: "md_conf_ok c" and len: "length buf = SPH_BLEN c" and m: "L < 2 ^ 61" and n: "n < 8"
  shows "md_put_length c n (of_nat L) buf
           = Some (take (SPH_MAXPAD c) buf @ md_length_field c (8 * L + n))"
proof -
  have low: "SPH_T64 (push_bit 3 (of_nat L)) + of_nat n = (of_nat (8 * L + n) :: u64)"
    by (simp add: push_bit_eq_mult)
  have "unat (drop_bit 61 (of_nat L :: u64)) = 0"
    using m by (simp only: unat_drop_bit_eq) (simp add: drop_bit_eq_div unat_of_nat)
  then have high: "drop_bit 61 (of_nat L :: u64) = of_nat 0"
    by (simp only: unat_eq_zero) simp
  have b64: "8 * L + n < 2 ^ 64" using m n by simp
  have be: "be_bytes 16 (8 * L + n) = be_bytes 8 0 @ be_bytes 8 (8 * L + n)"
    "be_bytes 32 (8 * L + n) = replicate 16 0 @ be_bytes 8 0 @ be_bytes 8 (8 * L + n)"
    using be_bytes_high [OF b64, of 8] be_bytes_high [OF b64, of 24]
    by (simp_all add: be_bytes_zero replicate_add [of 16 8 "0::u8", simplified])
  have le: "le_bytes 16 (8 * L + n) = le_bytes 8 (8 * L + n) @ le_bytes 8 0"
    using le_bytes_high [OF b64, of 8] by (simp add: le_bytes_zero)
  have enc: "sph_enc64be (push_bit 3 (of_nat L) + of_nat n) = be_bytes 8 (8 * L + n)"
    "sph_enc64le (push_bit 3 (of_nat L) + of_nat n) = le_bytes 8 (8 * L + n)"
    "sph_enc64be 0 = be_bytes 8 0" "sph_enc64le 0 = le_bytes 8 0"
    using low enc64be_of_nat [of "8 * L + n"] enc64le_of_nat [of "8 * L + n"]
      enc64be_of_nat [of 0] enc64le_of_nat [of 0] by simp_all
  note defs = md_put_length_def high [unfolded of_nat_0] enc Let_def
    memset_in_def memcpy_in_def SPH_MAXPAD_def SPH_WLEN_def md_length_field_def md_conf_ok_def
  from md_blen [OF ok] show ?thesis
  proof
    assume "SPH_BLEN c = 64"
    then show ?thesis
      using ok len by (cases "conf_word c"; cases "conf_plw c"; simp add: defs be le)
  next
    assume "SPH_BLEN c = 128"
    then show ?thesis
      using ok len by (cases "conf_word c"; cases "conf_plw c"; simp add: defs be le)
  qed
qed

lemma length_md_length_field [simp]: "length (md_length_field c x) = SPH_BLEN c - SPH_MAXPAD c"
  by (simp add: md_length_field_def)

lemma md_absorb_one:
  "md_conf_ok c \<Longrightarrow> length b = SPH_BLEN c \<Longrightarrow> md_absorb c rfun b v = rfun b v"
  using md_absorb_full(1) [of c "[]" b rfun v] md_blen_pos [of c]
  by (simp add: md_rest_def md_absorb_def)

lemma md_absorb_two:
  assumes "md_conf_ok c" "length a = SPH_BLEN c" "length b = SPH_BLEN c"
  shows "md_absorb c rfun (a @ b) v = rfun b (rfun a v)"
proof -
  have "md_rest c a = []"
    using length_md_rest [OF assms(1), of a] assms(2) by simp
  from md_absorb_nil(1) [OF assms(1) this, of rfun b v] show ?thesis
    by (simp add: md_absorb_one [OF assms(1)] assms)
qed

lemma md_absorb_split:
  "md_conf_ok c \<Longrightarrow> md_absorb c rfun (m @ d) v = md_absorb c rfun (md_rest c m @ d) (md_absorb c rfun m v)"
  unfolding md_absorb_def md_rest_def by (rule absorb_append) simp_all

lemma md_close_repr:
  assumes ok: "md_conf_ok c" and repr: "md_repr c rfun iv sc m"
    and m: "length m < 2 ^ 61" and n: "n < 8"
  shows "\<exists>sc'. md_addbits_and_close c rfun sc ub n = Some sc'
    \<and> md_val sc' = md_absorb c rfun (md_pad c ub n m) iv
    \<and> md_count sc' = md_count sc"
proof -
  let ?B = "SPH_BLEN c" and ?P = "SPH_MAXPAD c" and ?r = "md_rest c m" and ?x = "md_pad_byte c ub n"
  let ?len = "md_length_field c (8 * length m + n)"
  define cur where "cur = length ?r"
  have cur: "md_current c sc = cur" "cur < ?B" "length m mod ?B = cur"
    using md_repr_current [OF ok repr] length_md_rest [OF ok, of m] md_blen_pos [OF ok]
    by (simp_all add: cur_def)
  have P: "?P < ?B" "0 < ?P" using md_maxpad [OF ok] by simp_all
  have buf: "length (md_buf sc) = ?B" "take cur (md_buf sc) = ?r"
    and val: "md_val sc = md_absorb c rfun m iv" and cnt: "md_count sc = of_nat (length m)"
    using repr by (simp_all add: md_repr_def cur_def)
  define b1 where "b1 = (md_buf sc)[cur := ?x]"
  have b1: "length b1 = ?B" "take (Suc cur) b1 = ?r @ [?x]"
    using buf cur(2) by (simp_all add: b1_def take_Suc_conv_app_nth)
  have put: "md_put_length c n (md_count sc) b = Some (take ?P b @ ?len)" if "length b = ?B" for b
    using md_put_length_eq [OF ok that m n] cnt by simp
  have close: "md_addbits_and_close c rfun sc ub n =
      (if Suc cur > ?P
       then memset_in b1 (Suc cur) 0 (?B - Suc cur) \<bind> (\<lambda>b.
              let v = rfun b (md_val sc) in memset_in b 0 0 ?P \<bind> (\<lambda>b. Some (b, v)))
       else memset_in b1 (Suc cur) 0 (?P - Suc cur) \<bind> (\<lambda>b. Some (b, md_val sc))) \<bind>
      (\<lambda>(b, v). md_put_length c n (md_count sc) b \<bind> (\<lambda>b.
         Some (sc\<lparr>md_buf := b, md_val := rfun b v\<rparr>)))"
    using cur(2) buf(1)
    by (simp add: md_addbits_and_close_def cur(1) store_in_def b1_def [symmetric] Let_def)
  show ?thesis
  proof (cases "Suc cur > ?P")
    case True
    let ?t = "[?x] @ replicate (?B - Suc cur) 0" and ?u = "replicate ?P 0 @ ?len"
    have pad: "md_pad c ub n m = m @ ?t @ ?u"
      using True cur by (simp add: md_pad_def md_zeros_def Let_def replicate_add [symmetric])
    have full: "length ?r + length ?t = ?B" using cur(2) by (simp add: cur_def)
    have "md_absorb c rfun (md_pad c ub n m) iv = rfun ?u (rfun (?r @ ?t) (md_val sc))"
      using full md_absorb_two [OF ok, of "?r @ ?t" ?u] P
      by (simp add: pad md_absorb_split [OF ok, of _ m] val)
    moreover have "memset_in b1 (Suc cur) 0 (?B - Suc cur) = Some (?r @ ?t)"
      using b1 cur(2) by (simp add: memset_in_Some)
    ultimately show ?thesis
      using True full P unfolding close
      by (simp add: memset_in_Some put min_def)
  next
    case False
    let ?t = "[?x] @ replicate (?P - Suc cur) 0 @ ?len"
    have pad: "md_pad c ub n m = m @ ?t"
      using False cur by (simp add: md_pad_def md_zeros_def Let_def)
    have "length (?r @ ?t) = ?B" using False P by (simp add: cur_def)
    then have "md_absorb c rfun (md_pad c ub n m) iv = rfun (?r @ ?t) (md_val sc)"
      using md_absorb_one [OF ok, of "?r @ ?t"]
      by (simp add: pad md_absorb_split [OF ok, of _ m] val)
    moreover have "memset_in b1 (Suc cur) 0 (?P - Suc cur)
        = Some (?r @ [?x] @ replicate (?P - Suc cur) 0 @ drop ?P b1)"
      using b1 False P by (simp add: memset_in_Some)
    moreover have "?P - cur = Suc (?P - Suc cur)" using False by simp
    ultimately show ?thesis
      using False P b1(1) unfolding close
      by (simp add: put cur_def)
  qed
qed

section \<open>The contract of a hash built on the template\<close>

text \<open>
  A hash of this template is a configuration, a round function, an initial value and a way to
  read the digest off the final value. All the interface asks is that the configuration is one
  of those above; what a caller relies on, \<open>stream_hash\<close>, follows.
\<close>

definition md_fresh :: "md_conf \<Rightarrow> 'v \<Rightarrow> 'v md_ctx \<Rightarrow> bool" where
  "md_fresh c iv sc \<longleftrightarrow>
     length (md_buf sc) = SPH_BLEN c \<and> md_val sc = iv \<and> md_count sc = 0"

definition md_digest ::
  "md_conf \<Rightarrow> (bytes \<Rightarrow> 'v \<Rightarrow> 'v) \<Rightarrow> 'v \<Rightarrow> ('v \<Rightarrow> bytes) \<Rightarrow> bytes \<Rightarrow> bytes" where
  "md_digest c rfun iv out m = out (md_absorb c rfun (md_pad c 0 0 m) iv)"

locale md_hash =
  fixes misaligned :: bool
    and c :: md_conf
    and rfun :: "bytes \<Rightarrow> 'v \<Rightarrow> 'v"
    and iv :: 'v
    and out :: "'v \<Rightarrow> bytes"
  assumes conf_ok: "md_conf_ok c"
begin

lemma fresh_repr: "md_fresh c iv sc \<Longrightarrow> md_repr c rfun iv sc []"
  using md_blen_pos [OF conf_ok] by (simp add: md_fresh_def md_repr_def md_rest_def md_absorb_def)

lemma close_out:
  assumes "md_repr c rfun iv sc m" "length m < 2 ^ 61"
  shows "map_option (\<lambda>sc. out (md_val sc)) (md_addbits_and_close c rfun sc 0 0)
    = Some (md_digest c rfun iv out m)"
  using md_close_repr [OF conf_ok assms, of 0 0] by (auto simp: md_digest_def)

end

sublocale md_hash \<subseteq> stream_hash "md_fresh c iv" "md_update misaligned c rfun"
  "\<lambda>sc. map_option (\<lambda>sc. out (md_val sc)) (md_addbits_and_close c rfun sc 0 0)"
  "md_repr c rfun iv" "md_digest c rfun iv out" "\<lambda>m. length m < 2 ^ 61"
  by unfold_locales (simp_all add: fresh_repr close_out md_update_repr [OF conf_ok])

end
