(* ===== verification/Sha2.thy ===== *)
theory Sha2
  imports Md_Helper
begin

text \<open>
  \<^verbatim>\<open>src/crypto/ghostrider/sph_sha2.c\<close>: SHA-224 and SHA-256. The compression function is the
  unrolled one of the default build, register by register; the data handling is the template of
  \<open>Md_Helper\<close> with the round function \<open>sha2_round\<close>. The second half states FIPS 180-4 and
  proves that the code computes it.
\<close>

section \<open>The compression function\<close>

definition CH :: "u32 \<Rightarrow> u32 \<Rightarrow> u32 \<Rightarrow> u32" where
  "CH X Y Z = ((Y XOR Z) AND X) XOR Z"

definition MAJ :: "u32 \<Rightarrow> u32 \<Rightarrow> u32 \<Rightarrow> u32 \<Rightarrow> u32 \<times> u32" where
  \<comment> \<open>the macro reads \<open>Y_xor_Z\<close> and, as a side effect, sets \<open>X_xor_Y\<close>, the second component\<close>
  "MAJ X Y Z Y_xor_Z = (let X_xor_Y = X XOR Y in (Y XOR (X_xor_Y AND Y_xor_Z), X_xor_Y))"

definition BSG2_0 :: "u32 \<Rightarrow> u32" where
  "BSG2_0 x = SPH_ROTR32 x 2 XOR SPH_ROTR32 x 13 XOR SPH_ROTR32 x 22"

definition BSG2_1 :: "u32 \<Rightarrow> u32" where
  "BSG2_1 x = SPH_ROTR32 x 6 XOR SPH_ROTR32 x 11 XOR SPH_ROTR32 x 25"

definition SSG2_0 :: "u32 \<Rightarrow> u32" where
  "SSG2_0 x = SPH_ROTR32 x 7 XOR SPH_ROTR32 x 18 XOR SPH_T32 (drop_bit 3 x)"

definition SSG2_1 :: "u32 \<Rightarrow> u32" where
  "SSG2_1 x = SPH_ROTR32 x 17 XOR SPH_ROTR32 x 19 XOR SPH_T32 (drop_bit 10 x)"

definition H224 :: "u32 list" where
  "H224 = [0xC1059ED8, 0x367CD507, 0x3070DD17, 0xF70E5939,
           0xFFC00B31, 0x68581511, 0x64F98FA7, 0xBEFA4FA4]"

definition H256 :: "u32 list" where
  "H256 = [0x6A09E667, 0xBB67AE85, 0x3C6EF372, 0xA54FF53A,
           0x510E527F, 0x9B05688C, 0x1F83D9AB, 0x5BE0CD19]"

text \<open>
  One step of the unrolled body: \<open>T1\<close>, \<open>T2\<close>, and the two registers it writes, the caller's
  \<open>D\<close> and \<open>H\<close>. The last component is \<open>X_xor_Y\<close>, which the next step reads as \<open>Y_xor_Z\<close>.
\<close>

definition sha2_step ::
  "u32 \<Rightarrow> u32 \<Rightarrow> u32 \<Rightarrow> u32 \<Rightarrow> u32 \<Rightarrow> u32 \<Rightarrow> u32 \<Rightarrow> u32 \<Rightarrow> u32 \<Rightarrow> u32 \<Rightarrow> u32 \<Rightarrow> u32 \<times> u32 \<times> u32" where
  "sha2_step K W A B C D E F G H Y_xor_Z =
     (let T1 = SPH_T32 (H + BSG2_1 E + CH E F G + K + W);
          (maj, X_xor_Y) = MAJ A B C Y_xor_Z;
          T2 = SPH_T32 (BSG2_0 A + maj)
      in (SPH_T32 (D + T1), SPH_T32 (T1 + T2), X_xor_Y))"

type_synonym sha2_regs = "u32 \<times> u32 \<times> u32 \<times> u32 \<times> u32 \<times> u32 \<times> u32 \<times> u32 \<times> u32"
type_synonym sha2_sched =
  "u32 \<times> u32 \<times> u32 \<times> u32 \<times> u32 \<times> u32 \<times> u32 \<times> u32 \<times>
   u32 \<times> u32 \<times> u32 \<times> u32 \<times> u32 \<times> u32 \<times> u32 \<times> u32"

definition sha2_rounds_0_15 :: "(nat \<Rightarrow> u32) \<Rightarrow> sha2_regs \<Rightarrow> sha2_regs \<times> sha2_sched" where
  "sha2_rounds_0_15 inp = (\<lambda>(A, B, C, D, E, F, G, H, YZ).
     let
          W00 = inp 0;
          (D, H, YZ) = sha2_step 0x428A2F98 W00 A B C D E F G H YZ;
          W01 = inp 1;
          (C, G, YZ) = sha2_step 0x71374491 W01 H A B C D E F G YZ;
          W02 = inp 2;
          (B, F, YZ) = sha2_step 0xB5C0FBCF W02 G H A B C D E F YZ;
          W03 = inp 3;
          (A, E, YZ) = sha2_step 0xE9B5DBA5 W03 F G H A B C D E YZ;
          W04 = inp 4;
          (H, D, YZ) = sha2_step 0x3956C25B W04 E F G H A B C D YZ;
          W05 = inp 5;
          (G, C, YZ) = sha2_step 0x59F111F1 W05 D E F G H A B C YZ;
          W06 = inp 6;
          (F, B, YZ) = sha2_step 0x923F82A4 W06 C D E F G H A B YZ;
          W07 = inp 7;
          (E, A, YZ) = sha2_step 0xAB1C5ED5 W07 B C D E F G H A YZ;
          W08 = inp 8;
          (D, H, YZ) = sha2_step 0xD807AA98 W08 A B C D E F G H YZ;
          W09 = inp 9;
          (C, G, YZ) = sha2_step 0x12835B01 W09 H A B C D E F G YZ;
          W10 = inp 10;
          (B, F, YZ) = sha2_step 0x243185BE W10 G H A B C D E F YZ;
          W11 = inp 11;
          (A, E, YZ) = sha2_step 0x550C7DC3 W11 F G H A B C D E YZ;
          W12 = inp 12;
          (H, D, YZ) = sha2_step 0x72BE5D74 W12 E F G H A B C D YZ;
          W13 = inp 13;
          (G, C, YZ) = sha2_step 0x80DEB1FE W13 D E F G H A B C YZ;
          W14 = inp 14;
          (F, B, YZ) = sha2_step 0x9BDC06A7 W14 C D E F G H A B YZ;
          W15 = inp 15;
          (E, A, YZ) = sha2_step 0xC19BF174 W15 B C D E F G H A YZ
     in ((A, B, C, D, E, F, G, H, YZ), (W00, W01, W02, W03, W04, W05, W06, W07, W08, W09, W10, W11, W12, W13, W14, W15)))"

definition sha2_rounds_16_31 :: "sha2_regs \<times> sha2_sched \<Rightarrow> sha2_regs \<times> sha2_sched" where
  "sha2_rounds_16_31 = (\<lambda>((A, B, C, D, E, F, G, H, YZ), (W00, W01, W02, W03, W04, W05, W06, W07, W08, W09, W10, W11, W12, W13, W14, W15)).
     let
          W00 = SSG2_1 W14 + W09 + SSG2_0 W01 + W00;
          (D, H, YZ) = sha2_step 0xE49B69C1 W00 A B C D E F G H YZ;
          W01 = SSG2_1 W15 + W10 + SSG2_0 W02 + W01;
          (C, G, YZ) = sha2_step 0xEFBE4786 W01 H A B C D E F G YZ;
          W02 = SSG2_1 W00 + W11 + SSG2_0 W03 + W02;
          (B, F, YZ) = sha2_step 0x0FC19DC6 W02 G H A B C D E F YZ;
          W03 = SSG2_1 W01 + W12 + SSG2_0 W04 + W03;
          (A, E, YZ) = sha2_step 0x240CA1CC W03 F G H A B C D E YZ;
          W04 = SSG2_1 W02 + W13 + SSG2_0 W05 + W04;
          (H, D, YZ) = sha2_step 0x2DE92C6F W04 E F G H A B C D YZ;
          W05 = SSG2_1 W03 + W14 + SSG2_0 W06 + W05;
          (G, C, YZ) = sha2_step 0x4A7484AA W05 D E F G H A B C YZ;
          W06 = SSG2_1 W04 + W15 + SSG2_0 W07 + W06;
          (F, B, YZ) = sha2_step 0x5CB0A9DC W06 C D E F G H A B YZ;
          W07 = SSG2_1 W05 + W00 + SSG2_0 W08 + W07;
          (E, A, YZ) = sha2_step 0x76F988DA W07 B C D E F G H A YZ;
          W08 = SSG2_1 W06 + W01 + SSG2_0 W09 + W08;
          (D, H, YZ) = sha2_step 0x983E5152 W08 A B C D E F G H YZ;
          W09 = SSG2_1 W07 + W02 + SSG2_0 W10 + W09;
          (C, G, YZ) = sha2_step 0xA831C66D W09 H A B C D E F G YZ;
          W10 = SSG2_1 W08 + W03 + SSG2_0 W11 + W10;
          (B, F, YZ) = sha2_step 0xB00327C8 W10 G H A B C D E F YZ;
          W11 = SSG2_1 W09 + W04 + SSG2_0 W12 + W11;
          (A, E, YZ) = sha2_step 0xBF597FC7 W11 F G H A B C D E YZ;
          W12 = SSG2_1 W10 + W05 + SSG2_0 W13 + W12;
          (H, D, YZ) = sha2_step 0xC6E00BF3 W12 E F G H A B C D YZ;
          W13 = SSG2_1 W11 + W06 + SSG2_0 W14 + W13;
          (G, C, YZ) = sha2_step 0xD5A79147 W13 D E F G H A B C YZ;
          W14 = SSG2_1 W12 + W07 + SSG2_0 W15 + W14;
          (F, B, YZ) = sha2_step 0x06CA6351 W14 C D E F G H A B YZ;
          W15 = SSG2_1 W13 + W08 + SSG2_0 W00 + W15;
          (E, A, YZ) = sha2_step 0x14292967 W15 B C D E F G H A YZ
     in ((A, B, C, D, E, F, G, H, YZ), (W00, W01, W02, W03, W04, W05, W06, W07, W08, W09, W10, W11, W12, W13, W14, W15)))"

definition sha2_rounds_32_47 :: "sha2_regs \<times> sha2_sched \<Rightarrow> sha2_regs \<times> sha2_sched" where
  "sha2_rounds_32_47 = (\<lambda>((A, B, C, D, E, F, G, H, YZ), (W00, W01, W02, W03, W04, W05, W06, W07, W08, W09, W10, W11, W12, W13, W14, W15)).
     let
          W00 = SSG2_1 W14 + W09 + SSG2_0 W01 + W00;
          (D, H, YZ) = sha2_step 0x27B70A85 W00 A B C D E F G H YZ;
          W01 = SSG2_1 W15 + W10 + SSG2_0 W02 + W01;
          (C, G, YZ) = sha2_step 0x2E1B2138 W01 H A B C D E F G YZ;
          W02 = SSG2_1 W00 + W11 + SSG2_0 W03 + W02;
          (B, F, YZ) = sha2_step 0x4D2C6DFC W02 G H A B C D E F YZ;
          W03 = SSG2_1 W01 + W12 + SSG2_0 W04 + W03;
          (A, E, YZ) = sha2_step 0x53380D13 W03 F G H A B C D E YZ;
          W04 = SSG2_1 W02 + W13 + SSG2_0 W05 + W04;
          (H, D, YZ) = sha2_step 0x650A7354 W04 E F G H A B C D YZ;
          W05 = SSG2_1 W03 + W14 + SSG2_0 W06 + W05;
          (G, C, YZ) = sha2_step 0x766A0ABB W05 D E F G H A B C YZ;
          W06 = SSG2_1 W04 + W15 + SSG2_0 W07 + W06;
          (F, B, YZ) = sha2_step 0x81C2C92E W06 C D E F G H A B YZ;
          W07 = SSG2_1 W05 + W00 + SSG2_0 W08 + W07;
          (E, A, YZ) = sha2_step 0x92722C85 W07 B C D E F G H A YZ;
          W08 = SSG2_1 W06 + W01 + SSG2_0 W09 + W08;
          (D, H, YZ) = sha2_step 0xA2BFE8A1 W08 A B C D E F G H YZ;
          W09 = SSG2_1 W07 + W02 + SSG2_0 W10 + W09;
          (C, G, YZ) = sha2_step 0xA81A664B W09 H A B C D E F G YZ;
          W10 = SSG2_1 W08 + W03 + SSG2_0 W11 + W10;
          (B, F, YZ) = sha2_step 0xC24B8B70 W10 G H A B C D E F YZ;
          W11 = SSG2_1 W09 + W04 + SSG2_0 W12 + W11;
          (A, E, YZ) = sha2_step 0xC76C51A3 W11 F G H A B C D E YZ;
          W12 = SSG2_1 W10 + W05 + SSG2_0 W13 + W12;
          (H, D, YZ) = sha2_step 0xD192E819 W12 E F G H A B C D YZ;
          W13 = SSG2_1 W11 + W06 + SSG2_0 W14 + W13;
          (G, C, YZ) = sha2_step 0xD6990624 W13 D E F G H A B C YZ;
          W14 = SSG2_1 W12 + W07 + SSG2_0 W15 + W14;
          (F, B, YZ) = sha2_step 0xF40E3585 W14 C D E F G H A B YZ;
          W15 = SSG2_1 W13 + W08 + SSG2_0 W00 + W15;
          (E, A, YZ) = sha2_step 0x106AA070 W15 B C D E F G H A YZ
     in ((A, B, C, D, E, F, G, H, YZ), (W00, W01, W02, W03, W04, W05, W06, W07, W08, W09, W10, W11, W12, W13, W14, W15)))"

definition sha2_rounds_48_63 :: "sha2_regs \<times> sha2_sched \<Rightarrow> sha2_regs \<times> sha2_sched" where
  "sha2_rounds_48_63 = (\<lambda>((A, B, C, D, E, F, G, H, YZ), (W00, W01, W02, W03, W04, W05, W06, W07, W08, W09, W10, W11, W12, W13, W14, W15)).
     let
          W00 = SSG2_1 W14 + W09 + SSG2_0 W01 + W00;
          (D, H, YZ) = sha2_step 0x19A4C116 W00 A B C D E F G H YZ;
          W01 = SSG2_1 W15 + W10 + SSG2_0 W02 + W01;
          (C, G, YZ) = sha2_step 0x1E376C08 W01 H A B C D E F G YZ;
          W02 = SSG2_1 W00 + W11 + SSG2_0 W03 + W02;
          (B, F, YZ) = sha2_step 0x2748774C W02 G H A B C D E F YZ;
          W03 = SSG2_1 W01 + W12 + SSG2_0 W04 + W03;
          (A, E, YZ) = sha2_step 0x34B0BCB5 W03 F G H A B C D E YZ;
          W04 = SSG2_1 W02 + W13 + SSG2_0 W05 + W04;
          (H, D, YZ) = sha2_step 0x391C0CB3 W04 E F G H A B C D YZ;
          W05 = SSG2_1 W03 + W14 + SSG2_0 W06 + W05;
          (G, C, YZ) = sha2_step 0x4ED8AA4A W05 D E F G H A B C YZ;
          W06 = SSG2_1 W04 + W15 + SSG2_0 W07 + W06;
          (F, B, YZ) = sha2_step 0x5B9CCA4F W06 C D E F G H A B YZ;
          W07 = SSG2_1 W05 + W00 + SSG2_0 W08 + W07;
          (E, A, YZ) = sha2_step 0x682E6FF3 W07 B C D E F G H A YZ;
          W08 = SSG2_1 W06 + W01 + SSG2_0 W09 + W08;
          (D, H, YZ) = sha2_step 0x748F82EE W08 A B C D E F G H YZ;
          W09 = SSG2_1 W07 + W02 + SSG2_0 W10 + W09;
          (C, G, YZ) = sha2_step 0x78A5636F W09 H A B C D E F G YZ;
          W10 = SSG2_1 W08 + W03 + SSG2_0 W11 + W10;
          (B, F, YZ) = sha2_step 0x84C87814 W10 G H A B C D E F YZ;
          W11 = SSG2_1 W09 + W04 + SSG2_0 W12 + W11;
          (A, E, YZ) = sha2_step 0x8CC70208 W11 F G H A B C D E YZ;
          W12 = SSG2_1 W10 + W05 + SSG2_0 W13 + W12;
          (H, D, YZ) = sha2_step 0x90BEFFFA W12 E F G H A B C D YZ;
          W13 = SSG2_1 W11 + W06 + SSG2_0 W14 + W13;
          (G, C, YZ) = sha2_step 0xA4506CEB W13 D E F G H A B C YZ;
          W14 = SSG2_1 W12 + W07 + SSG2_0 W15 + W14;
          (F, B, YZ) = sha2_step 0xBEF9A3F7 W14 C D E F G H A B YZ;
          W15 = SSG2_1 W13 + W08 + SSG2_0 W00 + W15;
          (E, A, YZ) = sha2_step 0xC67178F2 W15 B C D E F G H A YZ
     in ((A, B, C, D, E, F, G, H, YZ), (W00, W01, W02, W03, W04, W05, W06, W07, W08, W09, W10, W11, W12, W13, W14, W15)))"

definition SHA2_ROUND_BODY :: "(nat \<Rightarrow> u32) \<Rightarrow> u32 list \<Rightarrow> u32 list" where
  "SHA2_ROUND_BODY inp r =
     (let A = r ! 0; B = r ! 1; C = r ! 2; D = r ! 3; E = r ! 4; F = r ! 5; G = r ! 6; H = r ! 7;
          YZ = B XOR C;
          ((A, B, C, D, E, F, G, H, _), _) =
             sha2_rounds_48_63 (sha2_rounds_32_47 (sha2_rounds_16_31
               (sha2_rounds_0_15 inp (A, B, C, D, E, F, G, H, YZ))))
      in [SPH_T32 (r ! 0 + A), SPH_T32 (r ! 1 + B), SPH_T32 (r ! 2 + C), SPH_T32 (r ! 3 + D),
          SPH_T32 (r ! 4 + E), SPH_T32 (r ! 5 + F), SPH_T32 (r ! 6 + G), SPH_T32 (r ! 7 + H)])"

definition sha2_round :: "bytes \<Rightarrow> u32 list \<Rightarrow> u32 list" where
  "sha2_round data r = SHA2_ROUND_BODY (\<lambda>x. sph_dec32be (drop (4 * x) data)) r"

definition sph_sha256_transform_le :: "u32 list \<Rightarrow> u32 list \<Rightarrow> u32 list" where
  "sph_sha256_transform_le data state_in = SHA2_ROUND_BODY (\<lambda>x. data ! x) (take 8 state_in)"

definition sph_sha256_transform_be :: "bytes \<Rightarrow> u32 list \<Rightarrow> u32 list" where
  \<comment> \<open>\<open>data\<close> is the \<open>uint32_t\<close> array as it lies in memory\<close>
  "sph_sha256_transform_be data state_in =
     SHA2_ROUND_BODY (\<lambda>x. sph_dec32be (drop (4 * x) data)) (take 8 state_in)"

section \<open>FIPS 180-4\<close>

definition fips_Ch :: "u32 \<Rightarrow> u32 \<Rightarrow> u32 \<Rightarrow> u32" where
  "fips_Ch x y z = (x AND y) XOR (NOT x AND z)"

definition fips_Maj :: "u32 \<Rightarrow> u32 \<Rightarrow> u32 \<Rightarrow> u32" where
  "fips_Maj x y z = (x AND y) XOR (x AND z) XOR (y AND z)"

definition fips_Sigma0 :: "u32 \<Rightarrow> u32" where
  "fips_Sigma0 x = word_rotr 2 x XOR word_rotr 13 x XOR word_rotr 22 x"

definition fips_Sigma1 :: "u32 \<Rightarrow> u32" where
  "fips_Sigma1 x = word_rotr 6 x XOR word_rotr 11 x XOR word_rotr 25 x"

definition fips_sigma0 :: "u32 \<Rightarrow> u32" where
  "fips_sigma0 x = word_rotr 7 x XOR word_rotr 18 x XOR drop_bit 3 x"

definition fips_sigma1 :: "u32 \<Rightarrow> u32" where
  "fips_sigma1 x = word_rotr 17 x XOR word_rotr 19 x XOR drop_bit 10 x"

definition fips_K :: "u32 list" where
  "fips_K =
    [0x428A2F98, 0x71374491, 0xB5C0FBCF, 0xE9B5DBA5, 0x3956C25B, 0x59F111F1, 0x923F82A4, 0xAB1C5ED5,
     0xD807AA98, 0x12835B01, 0x243185BE, 0x550C7DC3, 0x72BE5D74, 0x80DEB1FE, 0x9BDC06A7, 0xC19BF174,
     0xE49B69C1, 0xEFBE4786, 0x0FC19DC6, 0x240CA1CC, 0x2DE92C6F, 0x4A7484AA, 0x5CB0A9DC, 0x76F988DA,
     0x983E5152, 0xA831C66D, 0xB00327C8, 0xBF597FC7, 0xC6E00BF3, 0xD5A79147, 0x06CA6351, 0x14292967,
     0x27B70A85, 0x2E1B2138, 0x4D2C6DFC, 0x53380D13, 0x650A7354, 0x766A0ABB, 0x81C2C92E, 0x92722C85,
     0xA2BFE8A1, 0xA81A664B, 0xC24B8B70, 0xC76C51A3, 0xD192E819, 0xD6990624, 0xF40E3585, 0x106AA070,
     0x19A4C116, 0x1E376C08, 0x2748774C, 0x34B0BCB5, 0x391C0CB3, 0x4ED8AA4A, 0x5B9CCA4F, 0x682E6FF3,
     0x748F82EE, 0x78A5636F, 0x84C87814, 0x8CC70208, 0x90BEFFFA, 0xA4506CEB, 0xBEF9A3F7, 0xC67178F2]"

function fips_W :: "(nat \<Rightarrow> u32) \<Rightarrow> nat \<Rightarrow> u32" where
  \<comment> \<open>the message schedule\<close>
  "fips_W M t =
     (if t < 16 then M t
      else fips_sigma1 (fips_W M (t - 2)) + fips_W M (t - 7)
           + fips_sigma0 (fips_W M (t - 15)) + fips_W M (t - 16))"
  by pat_completeness auto
termination
  by (relation "measure snd") auto

declare fips_W.simps [simp del]

type_synonym fips_state = "u32 \<times> u32 \<times> u32 \<times> u32 \<times> u32 \<times> u32 \<times> u32 \<times> u32"

definition fips_step :: "u32 \<Rightarrow> u32 \<Rightarrow> fips_state \<Rightarrow> fips_state" where
  "fips_step K W = (\<lambda>(a, b, c, d, e, f, g, h).
     let T1 = h + fips_Sigma1 e + fips_Ch e f g + K + W;
         T2 = fips_Sigma0 a + fips_Maj a b c
     in (T1 + T2, a, b, c, d + T1, e, f, g))"

primrec fips_rounds :: "(nat \<Rightarrow> u32) \<Rightarrow> nat \<Rightarrow> fips_state \<Rightarrow> fips_state" where
  "fips_rounds M 0 s = s"
| "fips_rounds M (Suc t) s = fips_step (fips_K ! t) (fips_W M t) (fips_rounds M t s)"

definition fips_compress :: "(nat \<Rightarrow> u32) \<Rightarrow> u32 list \<Rightarrow> u32 list" where
  "fips_compress M H =
     (let (a, b, c, d, e, f, g, h) =
        fips_rounds M 64 (H ! 0, H ! 1, H ! 2, H ! 3, H ! 4, H ! 5, H ! 6, H ! 7)
      in [H ! 0 + a, H ! 1 + b, H ! 2 + c, H ! 3 + d, H ! 4 + e, H ! 5 + f, H ! 6 + g, H ! 7 + h])"

section \<open>The unrolled rounds are those of FIPS 180-4\<close>

lemma sha2_functions:
  "CH x y z = fips_Ch x y z" "BSG2_0 x = fips_Sigma0 x" "BSG2_1 x = fips_Sigma1 x"
  "SSG2_0 x = fips_sigma0 x" "SSG2_1 x = fips_sigma1 x"
  "MAJ x y z (y XOR z) = (fips_Maj x y z, x XOR y)"
proof -
  show "CH x y z = fips_Ch x y z"
    by (rule bit_word_eqI) (auto simp: CH_def fips_Ch_def bit_simps)
  have "y XOR ((x XOR y) AND (y XOR z)) = fips_Maj x y z"
    by (rule bit_word_eqI) (auto simp: fips_Maj_def bit_simps)
  then show "MAJ x y z (y XOR z) = (fips_Maj x y z, x XOR y)"
    by (simp add: MAJ_def Let_def)
qed (simp_all add: BSG2_0_def BSG2_1_def SSG2_0_def SSG2_1_def fips_Sigma0_def fips_Sigma1_def
      fips_sigma0_def fips_sigma1_def ROTR32_rotr)

lemma sha2_step_round:
  assumes "fips_rounds M t s = (a, b, c, d, e, f, g, h)"
    and "sha2_step k w a b c d e f g h yz = (d', h', yz')"
    and "yz = b XOR c" "k = fips_K ! t" "w = fips_W M t"
  shows "fips_rounds M (Suc t) s = (h', a, b, c, d', e, f, g) \<and> yz' = a XOR b"
  using assms by (auto simp: sha2_step_def sha2_functions fips_step_def Let_def)

subsection \<open>The schedule and the rounds, sixteen at a time\<close>

lemma fips_W_next:
  "fips_sigma1 (fips_W M (n + 14)) + fips_W M (n + 9) + fips_sigma0 (fips_W M (n + 1))
     + fips_W M n = fips_W M (n + 16)"
  by (subst (5) fips_W.simps) (simp add: add.commute)

lemma fips_W_sixteen:
  "fips_sigma1 (fips_W M (n + 14)) + fips_W M (n + 9) + fips_sigma0 (fips_W M (n + 1))
     + fips_W M (n) = fips_W M (n + 16)"
  "fips_sigma1 (fips_W M (n + 15)) + fips_W M (n + 10) + fips_sigma0 (fips_W M (n + 2))
     + fips_W M (n + 1) = fips_W M (n + 17)"
  "fips_sigma1 (fips_W M (n + 16)) + fips_W M (n + 11) + fips_sigma0 (fips_W M (n + 3))
     + fips_W M (n + 2) = fips_W M (n + 18)"
  "fips_sigma1 (fips_W M (n + 17)) + fips_W M (n + 12) + fips_sigma0 (fips_W M (n + 4))
     + fips_W M (n + 3) = fips_W M (n + 19)"
  "fips_sigma1 (fips_W M (n + 18)) + fips_W M (n + 13) + fips_sigma0 (fips_W M (n + 5))
     + fips_W M (n + 4) = fips_W M (n + 20)"
  "fips_sigma1 (fips_W M (n + 19)) + fips_W M (n + 14) + fips_sigma0 (fips_W M (n + 6))
     + fips_W M (n + 5) = fips_W M (n + 21)"
  "fips_sigma1 (fips_W M (n + 20)) + fips_W M (n + 15) + fips_sigma0 (fips_W M (n + 7))
     + fips_W M (n + 6) = fips_W M (n + 22)"
  "fips_sigma1 (fips_W M (n + 21)) + fips_W M (n + 16) + fips_sigma0 (fips_W M (n + 8))
     + fips_W M (n + 7) = fips_W M (n + 23)"
  "fips_sigma1 (fips_W M (n + 22)) + fips_W M (n + 17) + fips_sigma0 (fips_W M (n + 9))
     + fips_W M (n + 8) = fips_W M (n + 24)"
  "fips_sigma1 (fips_W M (n + 23)) + fips_W M (n + 18) + fips_sigma0 (fips_W M (n + 10))
     + fips_W M (n + 9) = fips_W M (n + 25)"
  "fips_sigma1 (fips_W M (n + 24)) + fips_W M (n + 19) + fips_sigma0 (fips_W M (n + 11))
     + fips_W M (n + 10) = fips_W M (n + 26)"
  "fips_sigma1 (fips_W M (n + 25)) + fips_W M (n + 20) + fips_sigma0 (fips_W M (n + 12))
     + fips_W M (n + 11) = fips_W M (n + 27)"
  "fips_sigma1 (fips_W M (n + 26)) + fips_W M (n + 21) + fips_sigma0 (fips_W M (n + 13))
     + fips_W M (n + 12) = fips_W M (n + 28)"
  "fips_sigma1 (fips_W M (n + 27)) + fips_W M (n + 22) + fips_sigma0 (fips_W M (n + 14))
     + fips_W M (n + 13) = fips_W M (n + 29)"
  "fips_sigma1 (fips_W M (n + 28)) + fips_W M (n + 23) + fips_sigma0 (fips_W M (n + 15))
     + fips_W M (n + 14) = fips_W M (n + 30)"
  "fips_sigma1 (fips_W M (n + 29)) + fips_W M (n + 24) + fips_sigma0 (fips_W M (n + 16))
     + fips_W M (n + 15) = fips_W M (n + 31)"
  using fips_W_next [of M n] fips_W_next [of M "n + 1"] fips_W_next [of M "n + 2"]
    fips_W_next [of M "n + 3"] fips_W_next [of M "n + 4"] fips_W_next [of M "n + 5"]
    fips_W_next [of M "n + 6"] fips_W_next [of M "n + 7"] fips_W_next [of M "n + 8"]
    fips_W_next [of M "n + 9"] fips_W_next [of M "n + 10"] fips_W_next [of M "n + 11"]
    fips_W_next [of M "n + 12"] fips_W_next [of M "n + 13"] fips_W_next [of M "n + 14"]
    fips_W_next [of M "n + 15"]
  by (simp_all only: add.assoc [where ?'a = nat] numeral_plus_numeral one_plus_numeral
      numeral_plus_one one_add_one add_num_simps)

definition fips_sched :: "(nat \<Rightarrow> u32) \<Rightarrow> nat \<Rightarrow> sha2_sched" where
  "fips_sched M n =
     (fips_W M n, fips_W M (n + 1), fips_W M (n + 2), fips_W M (n + 3),
      fips_W M (n + 4), fips_W M (n + 5), fips_W M (n + 6), fips_W M (n + 7),
      fips_W M (n + 8), fips_W M (n + 9), fips_W M (n + 10), fips_W M (n + 11),
      fips_W M (n + 12), fips_W M (n + 13), fips_W M (n + 14), fips_W M (n + 15))"

lemma fips_W_early: "t < 16 \<Longrightarrow> t = t' \<Longrightarrow> M t = fips_W M t'"
  by (simp add: fips_W.simps)

lemma fips_W_at: "t = t' \<Longrightarrow> fips_W M t = fips_W M t'"
  by simp

lemma fips_rounds_at: "fips_rounds M t s = v \<Longrightarrow> t = t' \<Longrightarrow> fips_rounds M t' s = v"
  by simp

lemma sha2_rounds_0_15_fips:
  assumes "sha2_rounds_0_15 M (A, B, C, D, E, F, G, H, B XOR C) = ((a, b, c, d, e, f, g, h, yz), ws)"
    and "fips_rounds M 0 s = (A, B, C, D, E, F, G, H)"
  shows "fips_rounds M 16 s = (a, b, c, d, e, f, g, h) \<and> yz = b XOR c \<and> ws = fips_sched M 0"
  using assms(1)
  apply (simp only: sha2_rounds_0_15_def Let_def prod.case split: prod.splits)
  apply (insert assms(2))
  apply (simp only: prod.inject)
  apply (elim conjE, hypsubst+)
  apply (drule (1) sha2_step_round, rule refl, simp (no_asm) add: fips_K_def,
      rule fips_W_early, simp (no_asm), simp (no_asm), erule conjE, hypsubst)+
  apply (intro conjI, erule fips_rounds_at, simp (no_asm), rule refl)
  apply (simp (no_asm) add: fips_sched_def fips_W.simps numeral_2_eq_2)
  done

lemma sha2_rounds_16_31_fips:
  assumes "sha2_rounds_16_31 ((A, B, C, D, E, F, G, H, B XOR C), fips_sched M 0)
             = ((a, b, c, d, e, f, g, h, yz), ws)"
    and "fips_rounds M 16 s = (A, B, C, D, E, F, G, H)"
  shows "fips_rounds M 32 s = (a, b, c, d, e, f, g, h) \<and> yz = b XOR c \<and> ws = fips_sched M 16"
  using assms(1)
  apply (simp only: sha2_rounds_16_31_def Let_def prod.case fips_sched_def sha2_functions(4,5)
      fips_W_sixteen split: prod.splits)
  apply (insert assms(2))
  apply (simp only: prod.inject)
  apply (elim conjE, hypsubst+)
  apply (drule (1) sha2_step_round, rule refl, simp (no_asm) add: fips_K_def,
      rule fips_W_at, simp (no_asm), erule conjE, hypsubst)+
  apply (intro conjI, erule fips_rounds_at, simp (no_asm), rule refl)
  apply (simp (no_asm) add: fips_sched_def)
  done

lemma sha2_rounds_32_47_fips:
  assumes "sha2_rounds_32_47 ((A, B, C, D, E, F, G, H, B XOR C), fips_sched M 16)
             = ((a, b, c, d, e, f, g, h, yz), ws)"
    and "fips_rounds M 32 s = (A, B, C, D, E, F, G, H)"
  shows "fips_rounds M 48 s = (a, b, c, d, e, f, g, h) \<and> yz = b XOR c \<and> ws = fips_sched M 32"
  using assms(1)
  apply (simp only: sha2_rounds_32_47_def Let_def prod.case fips_sched_def sha2_functions(4,5)
      fips_W_sixteen split: prod.splits)
  apply (insert assms(2))
  apply (simp only: prod.inject)
  apply (elim conjE, hypsubst+)
  apply (drule (1) sha2_step_round, rule refl, simp (no_asm) add: fips_K_def,
      rule fips_W_at, simp (no_asm), erule conjE, hypsubst)+
  apply (intro conjI, erule fips_rounds_at, simp (no_asm), rule refl)
  apply (simp (no_asm) add: fips_sched_def)
  done

lemma sha2_rounds_48_63_fips:
  assumes "sha2_rounds_48_63 ((A, B, C, D, E, F, G, H, B XOR C), fips_sched M 32)
             = ((a, b, c, d, e, f, g, h, yz), ws)"
    and "fips_rounds M 48 s = (A, B, C, D, E, F, G, H)"
  shows "fips_rounds M 64 s = (a, b, c, d, e, f, g, h) \<and> yz = b XOR c \<and> ws = fips_sched M 48"
  using assms(1)
  apply (simp only: sha2_rounds_48_63_def Let_def prod.case fips_sched_def sha2_functions(4,5)
      fips_W_sixteen split: prod.splits)
  apply (insert assms(2))
  apply (simp only: prod.inject)
  apply (elim conjE, hypsubst+)
  apply (drule (1) sha2_step_round, rule refl, simp (no_asm) add: fips_K_def,
      rule fips_W_at, simp (no_asm), erule conjE, hypsubst)+
  apply (intro conjI, erule fips_rounds_at, simp (no_asm), rule refl)
  apply (simp (no_asm) add: fips_sched_def)
  done

lemma sha2_body_is_fips: "SHA2_ROUND_BODY M r = fips_compress M r"
proof -
  let ?s = "(r ! 0, r ! 1, r ! 2, r ! 3, r ! 4, r ! 5, r ! 6, r ! 7)"
  let ?A = "(r ! 0, r ! 1, r ! 2, r ! 3, r ! 4, r ! 5, r ! 6, r ! 7, r ! 1 XOR r ! 2)"
  obtain a b c d e f g h yz ws where 0: "sha2_rounds_0_15 M ?A = ((a, b, c, d, e, f, g, h, yz), ws)"
    by (metis prod.exhaust)
  note r0 = sha2_rounds_0_15_fips [OF 0, of ?s]
  then have yz: "yz = b XOR c" and ws: "ws = fips_sched M 0" by simp_all
  obtain a1 b1 c1 d1 e1 f1 g1 h1 yz1 ws1 where 1:
    "sha2_rounds_16_31 ((a, b, c, d, e, f, g, h, yz), ws) = ((a1, b1, c1, d1, e1, f1, g1, h1, yz1), ws1)"
    by (metis prod.exhaust)
  note r1 = sha2_rounds_16_31_fips [OF 1 [unfolded yz ws], of ?s]
  then have yz1: "yz1 = b1 XOR c1" and ws1: "ws1 = fips_sched M 16" using r0 by simp_all
  obtain a2 b2 c2 d2 e2 f2 g2 h2 yz2 ws2 where 2:
    "sha2_rounds_32_47 ((a1, b1, c1, d1, e1, f1, g1, h1, yz1), ws1)
       = ((a2, b2, c2, d2, e2, f2, g2, h2, yz2), ws2)"
    by (metis prod.exhaust)
  note r2 = sha2_rounds_32_47_fips [OF 2 [unfolded yz1 ws1], of ?s]
  then have yz2: "yz2 = b2 XOR c2" and ws2: "ws2 = fips_sched M 32" using r0 r1 by simp_all
  obtain a3 b3 c3 d3 e3 f3 g3 h3 yz3 ws3 where 3:
    "sha2_rounds_48_63 ((a2, b2, c2, d2, e2, f2, g2, h2, yz2), ws2)
       = ((a3, b3, c3, d3, e3, f3, g3, h3, yz3), ws3)"
    by (metis prod.exhaust)
  note r3 = sha2_rounds_48_63_fips [OF 3 [unfolded yz2 ws2], of ?s]
  have "fips_rounds M 64 ?s = (a3, b3, c3, d3, e3, f3, g3, h3)" using r0 r1 r2 r3 by simp
  then show ?thesis
    by (simp only: SHA2_ROUND_BODY_def fips_compress_def Let_def 0 1 2 3 prod.case T32_id)
qed

section \<open>The API\<close>

definition sha2_conf :: md_conf where
  \<comment> \<open>\<open>#define BE32 1\<close>\<close>
  "sha2_conf = \<lparr>conf_word = BE32, conf_plw = PLW_none, conf_BLEN = None, conf_PW01 = False\<rparr>"

type_synonym sha2_ctx = "u32 list md_ctx"

definition sph_sha224_init :: "sha2_ctx \<Rightarrow> sha2_ctx" where
  "sph_sha224_init sc = sc\<lparr>md_val := H224, md_count := 0\<rparr>"

definition sph_sha256_init :: "sha2_ctx \<Rightarrow> sha2_ctx" where
  "sph_sha256_init sc = sc\<lparr>md_val := H256, md_count := 0\<rparr>"

definition sph_sha224 :: "bool \<Rightarrow> sha2_ctx \<Rightarrow> bytes \<Rightarrow> sha2_ctx option" where
  \<comment> \<open>also \<open>sph_sha256\<close>, a macro for the same function\<close>
  "sph_sha224 misaligned sc data = md_update misaligned sha2_conf sha2_round sc data"

definition sha224_output :: "u32 list \<Rightarrow> nat \<Rightarrow> bytes" where
  \<comment> \<open>the loop that writes \<open>rnum\<close> words of \<open>val\<close> to \<open>dst\<close>\<close>
  "sha224_output val rnum = concat (map (\<lambda>u. sph_enc32be (val ! u)) [0..<rnum])"

definition sha224_addbits_and_close ::
  "sha2_ctx \<Rightarrow> u32 \<Rightarrow> nat \<Rightarrow> nat \<Rightarrow> (sha2_ctx \<times> bytes) option" where
  "sha224_addbits_and_close sc ub n rnum =
     md_addbits_and_close sha2_conf sha2_round sc ub n \<bind> (\<lambda>sc.
     Some (sc, sha224_output (md_val sc) rnum))"

definition sha224_close :: "sha2_ctx \<Rightarrow> nat \<Rightarrow> (sha2_ctx \<times> bytes) option" where
  "sha224_close sc rnum = sha224_addbits_and_close sc 0 0 rnum"

definition sph_sha224_close :: "sha2_ctx \<Rightarrow> (sha2_ctx \<times> bytes) option" where
  "sph_sha224_close sc = sha224_close sc 7"

definition sph_sha224_addbits_and_close :: "sha2_ctx \<Rightarrow> u32 \<Rightarrow> nat \<Rightarrow> (sha2_ctx \<times> bytes) option" where
  "sph_sha224_addbits_and_close sc ub n = sha224_addbits_and_close sc ub n 7"

definition sph_sha256_close :: "sha2_ctx \<Rightarrow> (sha2_ctx \<times> bytes) option" where
  "sph_sha256_close sc = sha224_close sc 8"

definition sph_sha256_addbits_and_close :: "sha2_ctx \<Rightarrow> u32 \<Rightarrow> nat \<Rightarrow> (sha2_ctx \<times> bytes) option" where
  "sph_sha256_addbits_and_close sc ub n = sha224_addbits_and_close sc ub n 8"

definition sph_sha256_full :: "sha2_ctx \<Rightarrow> bool \<Rightarrow> bytes \<Rightarrow> bytes option" where
  \<comment> \<open>\<open>cc\<close>: what the local context holds before it is initialised\<close>
  "sph_sha256_full cc misaligned data =
     sph_sha224 misaligned (sph_sha256_init cc) data \<bind> (\<lambda>cc.
     sph_sha256_close cc \<bind> (\<lambda>(cc, dst). Some dst))"

definition sha256d :: "sha2_ctx \<Rightarrow> sha2_ctx \<Rightarrow> bool \<Rightarrow> bytes \<Rightarrow> bytes option" where
  "sha256d cc1 cc2 misaligned data =
     sph_sha256_full cc1 misaligned data \<bind> (\<lambda>hash. sph_sha256_full cc2 misaligned hash)"

section \<open>The hash of FIPS 180-4\<close>

definition fips_pad :: "bytes \<Rightarrow> bytes" where
  \<comment> \<open>a 1 bit, the fewest zero bits that leave 64 bits free in the last block, the bit length\<close>
  "fips_pad m = m @ [0x80] @ replicate ((119 - length m mod 64) mod 64) 0 @ be_bytes 8 (8 * length m)"

function fips_blocks :: "bytes \<Rightarrow> bytes list" where
  "fips_blocks m = (if length m < 64 then [] else take 64 m # fips_blocks (drop 64 m))"
  by pat_completeness auto
termination
  by (relation "measure length") auto

declare fips_blocks.simps [simp del]

definition fips_block :: "u32 list \<Rightarrow> bytes \<Rightarrow> u32 list" where
  "fips_block H b = fips_compress (\<lambda>t. sph_dec32be (drop (4 * t) b)) H"

definition fips_hash :: "u32 list \<Rightarrow> bytes \<Rightarrow> u32 list" where
  "fips_hash H0 m = foldl fips_block H0 (fips_blocks (fips_pad m))"

definition fips_sha256 :: "bytes \<Rightarrow> bytes" where
  "fips_sha256 m = concat (map sph_enc32be (fips_hash H256 m))"

definition fips_sha224 :: "bytes \<Rightarrow> bytes" where
  "fips_sha224 m = concat (map sph_enc32be (take 7 (fips_hash H224 m)))"

lemma sha2_round_is_fips: "sha2_round b H = fips_block H b"
  by (simp add: sha2_round_def fips_block_def sha2_body_is_fips)

lemma sha2_conf_simps [simp]:
  "SPH_BLEN sha2_conf = 64" "SPH_MAXPAD sha2_conf = 56" "md_conf_ok sha2_conf"
  by (simp_all add: sha2_conf_def SPH_BLEN_def SPH_MAXPAD_def SPH_WLEN_def md_conf_ok_def)

lemma absorb_fips_blocks: "md_absorb sha2_conf sha2_round m H = foldl fips_block H (fips_blocks m)"
proof (induction m arbitrary: H rule: fips_blocks.induct)
  case (1 m)
  show ?case
  proof (cases "length m < 64")
    case True
    then show ?thesis by (simp add: md_absorb_def fips_blocks.simps)
  next
    case False
    then have "md_absorb sha2_conf sha2_round m H
        = md_absorb sha2_conf sha2_round (drop 64 m) (sha2_round (take 64 m) H)"
      by (simp add: md_absorb_def absorb_block)
    also have "\<dots> = foldl fips_block (fips_block H (take 64 m)) (fips_blocks (drop 64 m))"
      using 1 False by (simp add: sha2_round_is_fips [of "take 64 m" H])
    finally show ?thesis using False by (simp add: fips_blocks.simps [of m])
  qed
qed

lemma md_pad_is_fips: "md_pad sha2_conf 0 0 m = fips_pad m"
proof -
  have zeros: "(if r + 1 > 56 then 64 - (r + 1) + 56 else 56 - (r + 1)) = (119 - r) mod (64::nat)"
    if "r < 64" for r :: nat
  proof (cases "r < 56")
    case True
    then have "119 - r = 55 - r + 64" by simp
    with True show ?thesis by (simp only: mod_add_self2) simp
  qed (use that in simp)
  have "md_zeros sha2_conf (length m) = (119 - length m mod 64) mod 64"
    unfolding md_zeros_def Let_def sha2_conf_simps by (rule zeros) simp
  moreover have "md_pad_byte sha2_conf 0 0 = 0x80"
    by (simp add: md_pad_byte_def sha2_conf_def)
  moreover have "md_length_field sha2_conf x = be_bytes 8 x" for x
    by (simp add: md_length_field_def) (simp add: sha2_conf_def)
  ultimately show ?thesis by (simp add: md_pad_def fips_pad_def)
qed

lemma length_fips_compress [simp]: "length (fips_compress M H) = 8"
  by (simp add: fips_compress_def split: prod.splits)

lemma length_fips_hash: "length H = 8 \<Longrightarrow> length (fips_hash H m) = 8"
proof -
  have "length H = 8 \<Longrightarrow> length (foldl fips_block H bs) = 8" for bs
    by (induction bs arbitrary: H) (simp_all add: fips_block_def)
  then show "length H = 8 \<Longrightarrow> length (fips_hash H m) = 8" by (simp add: fips_hash_def)
qed

lemma sha224_output_take: "rnum \<le> length v \<Longrightarrow> sha224_output v rnum = concat (map sph_enc32be (take rnum v))"
proof -
  assume "rnum \<le> length v"
  then have "map (\<lambda>u. sph_enc32be (v ! u)) [0..<rnum] = map sph_enc32be (take rnum v)"
    by (intro nth_equalityI) simp_all
  then show ?thesis by (simp add: sha224_output_def)
qed

lemma sha2_digest:
  "length H = 8 \<Longrightarrow> md_digest sha2_conf sha2_round H (\<lambda>v. sha224_output v 8) m
     = concat (map sph_enc32be (fips_hash H m))"
  "length H = 8 \<Longrightarrow> md_digest sha2_conf sha2_round H (\<lambda>v. sha224_output v 7) m
     = concat (map sph_enc32be (take 7 (fips_hash H m)))"
  by (simp_all add: md_digest_def absorb_fips_blocks md_pad_is_fips fips_hash_def [symmetric]
      sha224_output_take length_fips_hash)

section \<open>The API computes the standard\<close>

interpretation sha256: md_hash misaligned sha2_conf sha2_round H256 "\<lambda>v. sha224_output v 8"
  for misaligned
  by unfold_locales simp

interpretation sha224: md_hash misaligned sha2_conf sha2_round H224 "\<lambda>v. sha224_output v 7"
  for misaligned
  by unfold_locales simp

definition sha2_ctx_ok :: "sha2_ctx \<Rightarrow> bool" where
  \<comment> \<open>all that the type of a C context says: \<open>buf\<close> has 64 bytes\<close>
  "sha2_ctx_ok sc \<longleftrightarrow> length (md_buf sc) = 64"

lemma sha2_fresh:
  "sha2_ctx_ok cc \<Longrightarrow> md_fresh sha2_conf H256 (sph_sha256_init cc)"
  "sha2_ctx_ok cc \<Longrightarrow> md_fresh sha2_conf H224 (sph_sha224_init cc)"
  by (simp_all add: sha2_ctx_ok_def md_fresh_def sph_sha256_init_def sph_sha224_init_def)

lemma sha2_upd: "sph_sha224 misaligned = md_update misaligned sha2_conf sha2_round"
  by (rule ext)+ (simp add: sph_sha224_def)

lemma sha2_closes:
  "map_option snd (sph_sha256_close sc)
     = map_option (\<lambda>sc. sha224_output (md_val sc) 8) (md_addbits_and_close sha2_conf sha2_round sc 0 0)"
  "map_option snd (sph_sha224_close sc)
     = map_option (\<lambda>sc. sha224_output (md_val sc) 7) (md_addbits_and_close sha2_conf sha2_round sc 0 0)"
  by (simp_all add: sph_sha256_close_def sph_sha224_close_def sha224_close_def
      sha224_addbits_and_close_def map_option_case split: option.splits)

lemma length_H [simp]: "length H256 = 8" "length H224 = 8"
  by (simp_all add: H256_def H224_def)

lemma sha256_full_fips:
  assumes "sha2_ctx_ok cc" "length m < 2 ^ 61"
  shows "sph_sha256_full cc misaligned m = Some (fips_sha256 m)"
proof -
  have "sph_sha256_full cc misaligned m
      = sph_sha224 misaligned (sph_sha256_init cc) m \<bind> (\<lambda>sc. map_option snd (sph_sha256_close sc))"
    by (simp add: sph_sha256_full_def map_conv_bind_option case_prod_unfold comp_def)
  also have "\<dots> = Some (fips_sha256 m)"
    unfolding sha2_upd sha2_closes
    using sha256.hash_once [OF sha2_fresh(1) [OF assms(1)] assms(2), of misaligned]
    by (simp add: sha2_digest fips_sha256_def)
  finally show ?thesis .
qed

text \<open>
  C1: \<open>sph_sha256_full\<close> is SHA-256 as FIPS 180-4 defines it, for every message shorter than
  2^61 bytes (past that the 64-bit bit count wraps) and whatever the uninitialised local context
  holds: the unrolled compression with its rotating registers, the buffering and the padding
  together give the standard's digest, and no access leaves an array.
\<close>

theorem sha256_full_is_fips:
  assumes "sha2_ctx_ok cc" "length m < 2 ^ 61"
  shows "sph_sha256_full cc misaligned m = Some (fips_sha256 m)"
  using assms by (rule sha256_full_fips)

theorem sha256_full_is_fips_witness:
  "sph_sha256_full \<lparr>md_buf = replicate 64 0, md_val = [], md_count = 7\<rparr> False [1, 2, 3]
     = Some (fips_sha256 [1, 2, 3])"
  by (rule sha256_full_is_fips) (simp_all add: sha2_ctx_ok_def)

text \<open>
  \<open>sha256d\<close> is SHA-256 of SHA-256: the second hash reads the 32 bytes the first has written
  to the same buffer.
\<close>

theorem sha256d_is_double:
  assumes "sha2_ctx_ok cc1" "sha2_ctx_ok cc2" "length m < 2 ^ 61"
  shows "sha256d cc1 cc2 misaligned m = Some (fips_sha256 (fips_sha256 m))"
proof -
  have "length (fips_sha256 m) < 2 ^ 61"
    by (simp add: fips_sha256_def length_concat comp_def sum_list_triv length_fips_hash)
  with assms show ?thesis by (simp add: sha256d_def sha256_full_fips)
qed

theorem sha256d_is_double_witness:
  "sha256d \<lparr>md_buf = replicate 64 0, md_val = [], md_count = 7\<rparr>
     \<lparr>md_buf = replicate 64 9, md_val = [], md_count = 1\<rparr> False [1, 2, 3]
     = Some (fips_sha256 (fips_sha256 [1, 2, 3]))"
  by (rule sha256d_is_double) (simp_all add: sha2_ctx_ok_def)

text \<open>
  C30: SHA-224 through its streaming calls, and SHA-256 alike: however the message is cut
  into \<open>sph_sha224\<close> updates, empty pieces and pieces longer than a block included, close
  gives the standard's digest of the whole.
\<close>

theorem sha2_chunks:
  assumes "sha2_ctx_ok cc" "length (concat ds) < 2 ^ 61"
  shows "feed (sph_sha224 misaligned) (sph_sha224_init cc) ds \<bind> (\<lambda>sc. map_option snd (sph_sha224_close sc))
      = Some (fips_sha224 (concat ds))
    \<and> feed (sph_sha224 misaligned) (sph_sha256_init cc) ds \<bind> (\<lambda>sc. map_option snd (sph_sha256_close sc))
      = Some (fips_sha256 (concat ds))"
  unfolding sha2_upd sha2_closes
  using sha256.hash_chunks [OF sha2_fresh(1) [OF assms(1)] assms(2), of misaligned]
    sha224.hash_chunks [OF sha2_fresh(2) [OF assms(1)] assms(2), of misaligned]
  by (simp add: sha2_digest fips_sha256_def fips_sha224_def)

theorem sha2_chunks_witness:
  "feed (sph_sha224 True) (sph_sha224_init \<lparr>md_buf = replicate 64 0, md_val = [], md_count = 7\<rparr>)
      [[1], [], replicate 200 5] \<bind> (\<lambda>sc. map_option snd (sph_sha224_close sc))
     = Some (fips_sha224 (1 # replicate 200 5))"
  using sha2_chunks [of "\<lparr>md_buf = replicate 64 0, md_val = [], md_count = 7\<rparr>"
      "[[1], [], replicate 200 5]" True]
  by (simp add: sha2_ctx_ok_def)

end
