(* ===== verification/Blake2b.thy ===== *)
theory Blake2b
  imports Streaming
begin

text \<open>
  \<^verbatim>\<open>src/crypto/randomx/blake2/blake2b.c\<close>: BLAKE2b as RandomX uses it. The streaming API with its
  error returns, the portable compression function, the one-shot hash and Argon2's
  variable-length hash. \<open>rx_blake2b_compress\<close> and \<open>rx_blake2b\<close> are function pointers the C++ side
  sets at start-up; they are arguments here, the locale \<open>blake2b_compressor\<close> states what the
  code relies on, and \<open>rx_blake2b_compress_integer\<close> is shown to provide it. The last sections
  state RFC 7693 and Argon2's H' and prove that the code computes them.

  A pointer that may be NULL is an option. The value of a function is \<^term>\<open>None\<close> where an access
  would leave an array; otherwise it holds the C return value beside what the call wrote.
\<close>

section \<open>State and constants\<close>

definition load64 :: "bytes \<Rightarrow> u64" where
  "load64 b = sph_dec64le b"

definition store64 :: "u64 \<Rightarrow> bytes" where
  "store64 w = sph_enc64le w"

definition store32 :: "u32 \<Rightarrow> bytes" where
  "store32 w = sph_enc32le w"

record blake2b_param =
  digest_length :: u8
  key_length :: u8
  fanout :: u8
  depth :: u8
  leaf_length :: u32
  node_offset :: u64
  node_depth :: u8
  inner_length :: u8
  reserved :: bytes
  salt :: bytes
  personal :: bytes

record blake2b_state =
  b2_h :: "u64 list"
  b2_t0 :: u64
  b2_t1 :: u64
  b2_f0 :: u64
  b2_f1 :: u64
  b2_buf :: bytes
  b2_buflen :: u32
  b2_outlen :: u32
  b2_last_node :: u8

definition blake2b_IV :: "u64 list" where
  "blake2b_IV =
     [0x6a09e667f3bcc908, 0xbb67ae8584caa73b, 0x3c6ef372fe94f82b, 0xa54ff53a5f1d36f1,
      0x510e527fade682d1, 0x9b05688c2b3e6c1f, 0x1f83d9abfb41bd6b, 0x5be0cd19137e2179]"

definition blake2b_sigma :: "nat list list" where
  "blake2b_sigma =
    [[0, 1, 2, 3, 4, 5, 6, 7, 8, 9, 10, 11, 12, 13, 14, 15],
     [14, 10, 4, 8, 9, 15, 13, 6, 1, 12, 0, 2, 11, 7, 5, 3],
     [11, 8, 12, 0, 5, 2, 15, 13, 10, 14, 3, 6, 7, 1, 9, 4],
     [7, 9, 3, 1, 13, 12, 11, 14, 2, 6, 5, 10, 4, 0, 15, 8],
     [9, 0, 5, 7, 2, 4, 10, 15, 14, 1, 11, 12, 6, 8, 3, 13],
     [2, 12, 6, 10, 0, 11, 8, 3, 4, 13, 7, 5, 15, 14, 1, 9],
     [12, 5, 1, 15, 14, 13, 4, 10, 0, 7, 6, 3, 9, 2, 8, 11],
     [13, 11, 7, 14, 12, 1, 3, 9, 5, 0, 15, 4, 8, 6, 2, 10],
     [6, 15, 14, 9, 11, 3, 0, 8, 12, 2, 13, 7, 1, 4, 10, 5],
     [10, 2, 8, 4, 7, 6, 1, 5, 15, 11, 9, 14, 3, 12, 13, 0],
     [0, 1, 2, 3, 4, 5, 6, 7, 8, 9, 10, 11, 12, 13, 14, 15],
     [14, 10, 4, 8, 9, 15, 13, 6, 1, 12, 0, 2, 11, 7, 5, 3]]"

definition blake2b_set_lastnode :: "blake2b_state \<Rightarrow> blake2b_state" where
  "blake2b_set_lastnode S = S\<lparr>b2_f1 := - 1\<rparr>"

definition blake2b_set_lastblock :: "blake2b_state \<Rightarrow> blake2b_state" where
  "blake2b_set_lastblock S =
     (let S = (if b2_last_node S \<noteq> 0 then blake2b_set_lastnode S else S)
      in S\<lparr>b2_f0 := - 1\<rparr>)"

definition blake2b_increment_counter :: "blake2b_state \<Rightarrow> u64 \<Rightarrow> blake2b_state" where
  "blake2b_increment_counter S inc =
     (let S = S\<lparr>b2_t0 := b2_t0 S + inc\<rparr>
      in S\<lparr>b2_t1 := b2_t1 S + (if b2_t0 S < inc then 1 else 0)\<rparr>)"

definition blake2b_invalidate_state :: "blake2b_state \<Rightarrow> blake2b_state" where
  "blake2b_invalidate_state S = blake2b_set_lastblock S"

definition blake2b_init0 :: "blake2b_state \<Rightarrow> blake2b_state" where
  \<comment> \<open>\<open>memset(S, 0, sizeof(*S))\<close>: nothing of the old state is left\<close>
  "blake2b_init0 S =
     \<lparr>b2_h = blake2b_IV, b2_t0 = 0, b2_t1 = 0, b2_f0 = 0, b2_f1 = 0,
      b2_buf = replicate 128 0, b2_buflen = 0, b2_outlen = 0, b2_last_node = 0\<rparr>"

section \<open>Initialisation\<close>

definition blake2b_param_bytes :: "blake2b_param \<Rightarrow> bytes" where
  \<comment> \<open>the packed structure read as bytes\<close>
  "blake2b_param_bytes P =
     [digest_length P, key_length P, fanout P, depth P] @ sph_enc32le (leaf_length P)
     @ sph_enc64le (node_offset P) @ [node_depth P, inner_length P]
     @ reserved P @ salt P @ personal P"

definition rx_blake2b_init_param ::
  "blake2b_state option \<Rightarrow> blake2b_param option \<Rightarrow> int \<times> blake2b_state option" where
  "rx_blake2b_init_param S P =
     (case (P, S) of
        (Some P, Some S) \<Rightarrow>
          let p = blake2b_param_bytes P;
              S = blake2b_init0 S;
              S = S\<lparr>b2_h := map (\<lambda>i. b2_h S ! i XOR load64 (drop (i * 8) p)) [0..<8]\<rparr>;
              S = S\<lparr>b2_outlen := ucast (digest_length P)\<rparr>
          in (0, Some S)
      | _ \<Rightarrow> (- 1, S))"

definition blake2b_sequential_param :: "nat \<Rightarrow> nat \<Rightarrow> blake2b_param" where
  \<comment> \<open>the parameter block both initialisations set up\<close>
  "blake2b_sequential_param outlen keylen =
     \<lparr>digest_length = of_nat outlen, key_length = of_nat keylen, fanout = 1, depth = 1,
      leaf_length = 0, node_offset = 0, node_depth = 0, inner_length = 0,
      reserved = replicate 14 0, salt = replicate 16 0, personal = replicate 16 0\<rparr>"

definition rx_blake2b_init ::
  "blake2b_state option \<Rightarrow> nat \<Rightarrow> int \<times> blake2b_state option" where
  "rx_blake2b_init S outlen =
     (case S of
        None \<Rightarrow> (- 1, None)
      | Some S \<Rightarrow>
          if outlen = 0 \<or> outlen > 64 then (- 1, Some (blake2b_invalidate_state S))
          else rx_blake2b_init_param (Some S) (Some (blake2b_sequential_param outlen 0)))"

section \<open>Compression, update and final\<close>

definition blake2b_G ::
  "u64 list \<Rightarrow> nat \<Rightarrow> nat \<Rightarrow> nat \<Rightarrow> nat \<Rightarrow> nat \<Rightarrow> nat \<Rightarrow> u64 list \<Rightarrow> u64 list" where
  \<comment> \<open>the macro \<open>G(r, i, v[a], v[b], v[c], v[d])\<close>\<close>
  "blake2b_G m r i a b c d v =
     (let v = v[a := v ! a + v ! b + m ! (blake2b_sigma ! r ! (2 * i + 0))];
          v = v[d := rotr64 (v ! d XOR v ! a) 32];
          v = v[c := v ! c + v ! d];
          v = v[b := rotr64 (v ! b XOR v ! c) 24];
          v = v[a := v ! a + v ! b + m ! (blake2b_sigma ! r ! (2 * i + 1))];
          v = v[d := rotr64 (v ! d XOR v ! a) 16];
          v = v[c := v ! c + v ! d];
          v = v[b := rotr64 (v ! b XOR v ! c) 63]
      in v)"

definition blake2b_ROUND :: "u64 list \<Rightarrow> nat \<Rightarrow> u64 list \<Rightarrow> u64 list" where
  "blake2b_ROUND m r v =
     (let v = blake2b_G m r 0 0 4 8 12 v;
          v = blake2b_G m r 1 1 5 9 13 v;
          v = blake2b_G m r 2 2 6 10 14 v;
          v = blake2b_G m r 3 3 7 11 15 v;
          v = blake2b_G m r 4 0 5 10 15 v;
          v = blake2b_G m r 5 1 6 11 12 v;
          v = blake2b_G m r 6 2 7 8 13 v;
          v = blake2b_G m r 7 3 4 9 14 v
      in v)"

definition rx_blake2b_compress_integer :: "blake2b_state \<Rightarrow> bytes \<Rightarrow> blake2b_state option" where
  "rx_blake2b_compress_integer S block =
     read_in block 0 128 \<bind> (\<lambda>block.
     let m = map (\<lambda>i. load64 (drop (i * 8) block)) [0..<16];
         v = map (\<lambda>i. b2_h S ! i) [0..<8] @
             [blake2b_IV ! 0, blake2b_IV ! 1, blake2b_IV ! 2, blake2b_IV ! 3,
              blake2b_IV ! 4 XOR b2_t0 S, blake2b_IV ! 5 XOR b2_t1 S,
              blake2b_IV ! 6 XOR b2_f0 S, blake2b_IV ! 7 XOR b2_f1 S];
         v = fold (blake2b_ROUND m) [0..<12] v
     in Some (S\<lparr>b2_h := map (\<lambda>i. b2_h S ! i XOR v ! i XOR v ! (i + 8)) [0..<8]\<rparr>))"

type_synonym blake2b_compress_fun = "blake2b_state \<Rightarrow> bytes \<Rightarrow> blake2b_state option"

function blake2b_update_loop ::
  "blake2b_compress_fun \<Rightarrow> blake2b_state \<Rightarrow> bytes \<Rightarrow> (blake2b_state \<times> bytes) option" where
  \<comment> \<open>\<open>while (inlen > BLAKE2B_BLOCKBYTES)\<close>; \<open>pin\<close> is what is left of the input\<close>
  "blake2b_update_loop compress S pin =
     (if length pin > 128
      then compress (blake2b_increment_counter S 128) pin \<bind> (\<lambda>S.
           blake2b_update_loop compress S (drop 128 pin))
      else Some (S, pin))"
  by pat_completeness auto
termination
  by (relation "measure (\<lambda>(compress, S, pin). length pin)") auto

declare blake2b_update_loop.simps [simp del]

definition rx_blake2b_update ::
  "blake2b_compress_fun \<Rightarrow> blake2b_state option \<Rightarrow> bytes option \<Rightarrow> nat \<Rightarrow>
   (int \<times> blake2b_state option) option" where
  \<comment> \<open>\<open>inlen\<close> counts bytes of an object in memory, so \<open>buflen + inlen\<close> stays below 2^64\<close>
  "rx_blake2b_update compress S inp inlen =
     (if inlen = 0 then Some (0, S)
      else case (S, inp) of
        (Some S', Some pin) \<Rightarrow>
          if b2_f0 S' \<noteq> 0 then Some (- 1, S)
          else read_in pin 0 inlen \<bind> (\<lambda>pin.
            (if unat (b2_buflen S') + inlen > 128
             then let left = unat (b2_buflen S'); fill = 128 - left
                  in memcpy_in (b2_buf S') left (take fill pin) \<bind> (\<lambda>buf.
                     let S' = S'\<lparr>b2_buf := buf\<rparr>;
                         S' = blake2b_increment_counter S' 128
                     in compress S' (b2_buf S') \<bind> (\<lambda>S'.
                        let S' = S'\<lparr>b2_buflen := 0\<rparr>
                        in blake2b_update_loop compress S' (drop fill pin)))
             else Some (S', pin)) \<bind> (\<lambda>(S', pin).
            memcpy_in (b2_buf S') (unat (b2_buflen S')) pin \<bind> (\<lambda>buf.
            Some (0, Some (S'\<lparr>b2_buf := buf, b2_buflen := b2_buflen S' + of_nat (length pin)\<rparr>)))))
      | _ \<Rightarrow> Some (- 1, S))"

definition rx_blake2b_final ::
  "blake2b_compress_fun \<Rightarrow> blake2b_state option \<Rightarrow> bytes option \<Rightarrow> nat \<Rightarrow>
   (int \<times> blake2b_state option \<times> bytes option) option" where
  "rx_blake2b_final compress S out outlen =
     (case (S, out) of
        (Some S', Some out') \<Rightarrow>
          if outlen < unat (b2_outlen S') then Some (- 1, S, out)
          else if b2_f0 S' \<noteq> 0 then Some (- 1, S, out)
          else let S' = blake2b_increment_counter S' (ucast (b2_buflen S'));
                   S' = blake2b_set_lastblock S'
               in memset_in (b2_buf S') (unat (b2_buflen S')) 0 (128 - unat (b2_buflen S')) \<bind> (\<lambda>buf.
                  let S' = S'\<lparr>b2_buf := buf\<rparr>
                  in compress S' (b2_buf S') \<bind> (\<lambda>S'.
                     let buffer = concat (map (\<lambda>i. store64 (b2_h S' ! i)) [0..<8])
                     in read_in buffer 0 (unat (b2_outlen S')) \<bind> (\<lambda>src.
                        memcpy_in out' 0 src \<bind> (\<lambda>out'.
                        Some (0, Some S', Some out')))))
      | _ \<Rightarrow> Some (- 1, S, out))"

definition rx_blake2b_init_key ::
  "blake2b_compress_fun \<Rightarrow> blake2b_state option \<Rightarrow> nat \<Rightarrow> bytes option \<Rightarrow> nat \<Rightarrow>
   (int \<times> blake2b_state option) option" where
  "rx_blake2b_init_key compress S outlen key keylen =
     (case S of
        None \<Rightarrow> Some (- 1, None)
      | Some S' \<Rightarrow>
          if outlen = 0 \<or> outlen > 64 then Some (- 1, Some (blake2b_invalidate_state S'))
          else case key of
            None \<Rightarrow> Some (- 1, Some (blake2b_invalidate_state S'))
          | Some key \<Rightarrow>
            if keylen = 0 \<or> keylen > 64 then Some (- 1, Some (blake2b_invalidate_state S'))
            else let (ret, S) = rx_blake2b_init_param S (Some (blake2b_sequential_param outlen keylen))
                 in if ret < 0 then Some (- 1, map_option blake2b_invalidate_state S)
                    else read_in key 0 keylen \<bind> (\<lambda>k.
                         memcpy_in (replicate 128 0) 0 k \<bind> (\<lambda>block.
                         rx_blake2b_update compress S (Some block) 128 \<bind> (\<lambda>(_, S).
                         Some (0, S)))))"

definition rx_blake2b_default ::
  "blake2b_compress_fun \<Rightarrow> blake2b_state \<Rightarrow> bytes option \<Rightarrow> nat \<Rightarrow> bytes option \<Rightarrow> nat \<Rightarrow>
   (int \<times> bytes option) option" where
  \<comment> \<open>\<open>S0\<close>: what the local state holds before it is initialised\<close>
  "rx_blake2b_default compress S0 out outlen inp inlen =
     (if inp = None \<and> inlen > 0 then Some (- 1, out)
      else if out = None \<or> outlen = 0 \<or> outlen > 64 then Some (- 1, out)
      else let (ret, S) = rx_blake2b_init (Some S0) outlen
           in if ret < 0 then Some (- 1, out)
              else rx_blake2b_update compress S inp inlen \<bind> (\<lambda>(ret, S).
                   if ret < 0 then Some (- 1, out)
                   else rx_blake2b_final compress S out outlen \<bind> (\<lambda>(ret, S, out).
                        Some (ret, out))))"

section \<open>Argon2's variable-length hash\<close>

type_synonym blake2b_hash_fun =
  "bytes option \<Rightarrow> nat \<Rightarrow> bytes option \<Rightarrow> nat \<Rightarrow> (int \<times> bytes option) option"

function blake2b_long_loop ::
  "blake2b_hash_fun \<Rightarrow> bytes \<Rightarrow> nat \<Rightarrow> nat \<Rightarrow> bytes \<Rightarrow> (int \<times> bytes) option" where
  \<comment> \<open>the \<open>while (toproduce > BLAKE2B_OUTBYTES)\<close> loop and the last block after it; \<open>pos\<close> is how
    far \<open>out\<close> has moved, and the value the return code and the output array\<close>
  "blake2b_long_loop hash out pos toproduce out_buffer =
     (if toproduce > 64
      then hash (Some out_buffer) 64 (Some out_buffer) 64 \<bind> (\<lambda>(ret, ob).
           if ret < 0 then Some (ret, out)
           else case ob of
             None \<Rightarrow> None
           | Some out_buffer \<Rightarrow>
               read_in out_buffer 0 32 \<bind> (\<lambda>src.
               memcpy_in out pos src \<bind> (\<lambda>out.
               blake2b_long_loop hash out (pos + 32) (toproduce - 32) out_buffer)))
      else hash (Some out_buffer) toproduce (Some out_buffer) 64 \<bind> (\<lambda>(ret, ob).
           if ret < 0 then Some (ret, out)
           else case ob of
             None \<Rightarrow> None
           | Some out_buffer \<Rightarrow>
               read_in out_buffer 0 toproduce \<bind> (\<lambda>src.
               memcpy_in out pos src \<bind> (\<lambda>out.
               Some (ret, out)))))"
  by pat_completeness auto
termination
  by (relation "measure (\<lambda>(hash, out, pos, toproduce, out_buffer). toproduce)") auto

declare blake2b_long_loop.simps [simp del]

definition blake2b_long_start ::
  "blake2b_compress_fun \<Rightarrow> blake2b_state \<Rightarrow> nat \<Rightarrow> nat \<Rightarrow> bytes option \<Rightarrow> nat \<Rightarrow>
   (int \<times> blake2b_state option) option" where
  \<comment> \<open>the three \<open>TRY\<close> both branches begin with: initialise for \<open>hlen\<close> bytes, hash \<open>outlen\<close> as
    32 little-endian bits, hash the input\<close>
  "blake2b_long_start compress S0 hlen outlen inp inlen =
     (let outlen_bytes = store32 (of_nat outlen);
          (ret, S) = rx_blake2b_init (Some S0) hlen
      in if ret < 0 then Some (ret, S)
         else rx_blake2b_update compress S (Some outlen_bytes) 4 \<bind> (\<lambda>(ret, S).
              if ret < 0 then Some (ret, S)
              else rx_blake2b_update compress S inp inlen))"

definition rxa2_blake2b_long ::
  "blake2b_compress_fun \<Rightarrow> blake2b_hash_fun \<Rightarrow> blake2b_state \<Rightarrow> bytes \<Rightarrow>
   bytes option \<Rightarrow> nat \<Rightarrow> bytes option \<Rightarrow> nat \<Rightarrow> (int \<times> bytes option) option" where
  \<comment> \<open>\<open>ob0\<close>: what \<open>out_buffer\<close> holds before it is written\<close>
  "rxa2_blake2b_long compress hash S0 ob0 pout outlen inp inlen =
     (if outlen > 0xFFFFFFFF then Some (- 1, pout)
      else if outlen \<le> 64
      then blake2b_long_start compress S0 outlen outlen inp inlen \<bind> (\<lambda>(ret, S).
           if ret < 0 then Some (ret, pout)
           else rx_blake2b_final compress S pout outlen \<bind> (\<lambda>(ret, S, out). Some (ret, out)))
      else blake2b_long_start compress S0 64 outlen inp inlen \<bind> (\<lambda>(ret, S).
           if ret < 0 then Some (ret, pout)
           else rx_blake2b_final compress S (Some ob0) 64 \<bind> (\<lambda>(ret, S, ob).
           if ret < 0 then Some (ret, pout)
           else case (pout, ob) of
             (Some out, Some out_buffer) \<Rightarrow>
               read_in out_buffer 0 32 \<bind> (\<lambda>src.
               memcpy_in out 0 src \<bind> (\<lambda>out.
               blake2b_long_loop hash out 32 (outlen - 32) out_buffer \<bind> (\<lambda>(ret, out).
               Some (ret, Some out))))
           | _ \<Rightarrow> None)))"

section \<open>RFC 7693\<close>

definition rfc_IV :: "u64 list" where
  "rfc_IV =
     [0x6a09e667f3bcc908, 0xbb67ae8584caa73b, 0x3c6ef372fe94f82b, 0xa54ff53a5f1d36f1,
      0x510e527fade682d1, 0x9b05688c2b3e6c1f, 0x1f83d9abfb41bd6b, 0x5be0cd19137e2179]"

definition rfc_SIGMA :: "nat list list" where
  "rfc_SIGMA =
    [[0, 1, 2, 3, 4, 5, 6, 7, 8, 9, 10, 11, 12, 13, 14, 15],
     [14, 10, 4, 8, 9, 15, 13, 6, 1, 12, 0, 2, 11, 7, 5, 3],
     [11, 8, 12, 0, 5, 2, 15, 13, 10, 14, 3, 6, 7, 1, 9, 4],
     [7, 9, 3, 1, 13, 12, 11, 14, 2, 6, 5, 10, 4, 0, 15, 8],
     [9, 0, 5, 7, 2, 4, 10, 15, 14, 1, 11, 12, 6, 8, 3, 13],
     [2, 12, 6, 10, 0, 11, 8, 3, 4, 13, 7, 5, 15, 14, 1, 9],
     [12, 5, 1, 15, 14, 13, 4, 10, 0, 7, 6, 3, 9, 2, 8, 11],
     [13, 11, 7, 14, 12, 1, 3, 9, 5, 0, 15, 4, 8, 6, 2, 10],
     [6, 15, 14, 9, 11, 3, 0, 8, 12, 2, 13, 7, 1, 4, 10, 5],
     [10, 2, 8, 4, 7, 6, 1, 5, 15, 11, 9, 14, 3, 12, 13, 0]]"

definition rfc_G :: "u64 list \<Rightarrow> nat \<Rightarrow> nat \<Rightarrow> nat \<Rightarrow> nat \<Rightarrow> u64 \<Rightarrow> u64 \<Rightarrow> u64 list" where
  "rfc_G v a b c d x y =
     (let v = v[a := v ! a + v ! b + x];
          v = v[d := word_rotr 32 (v ! d XOR v ! a)];
          v = v[c := v ! c + v ! d];
          v = v[b := word_rotr 24 (v ! b XOR v ! c)];
          v = v[a := v ! a + v ! b + y];
          v = v[d := word_rotr 16 (v ! d XOR v ! a)];
          v = v[c := v ! c + v ! d]
      in v[b := word_rotr 63 (v ! b XOR v ! c)])"

definition rfc_round :: "(nat \<Rightarrow> u64) \<Rightarrow> nat \<Rightarrow> u64 list \<Rightarrow> u64 list" where
  \<comment> \<open>four columns, then four diagonals; round 10 and 11 use the permutations 0 and 1\<close>
  "rfc_round m i v =
     (let s = rfc_SIGMA ! (i mod 10);
          v = rfc_G v 0 4  8 12 (m (s !  0)) (m (s !  1));
          v = rfc_G v 1 5  9 13 (m (s !  2)) (m (s !  3));
          v = rfc_G v 2 6 10 14 (m (s !  4)) (m (s !  5));
          v = rfc_G v 3 7 11 15 (m (s !  6)) (m (s !  7));
          v = rfc_G v 0 5 10 15 (m (s !  8)) (m (s !  9));
          v = rfc_G v 1 6 11 12 (m (s ! 10)) (m (s ! 11));
          v = rfc_G v 2 7  8 13 (m (s ! 12)) (m (s ! 13))
      in rfc_G v 3 4 9 14 (m (s ! 14)) (m (s ! 15)))"

definition rfc_F :: "u64 list \<Rightarrow> bytes \<Rightarrow> nat \<Rightarrow> bool \<Rightarrow> u64 list" where
  \<comment> \<open>the compression function: chaining value, block, byte counter (taken modulo 2^128), and
    whether this is the last block\<close>
  "rfc_F h block t f =
     (let m = (\<lambda>i. sph_dec64le (drop (8 * i) block));
          v = h @ rfc_IV;
          v = v[12 := v ! 12 XOR of_nat t];
          v = v[13 := v ! 13 XOR of_nat (t div 2 ^ 64)];
          v = (if f then v[14 := v ! 14 XOR - 1] else v);
          v = fold (rfc_round m) [0..<12] v
      in map (\<lambda>i. h ! i XOR v ! i XOR v ! (i + 8)) [0..<8])"

function rfc_blocks :: "u64 list \<Rightarrow> nat \<Rightarrow> bytes \<Rightarrow> u64 list" where
  \<comment> \<open>compress \<open>m\<close> after \<open>t\<close> bytes; the last block is padded with zero bytes and may be full\<close>
  "rfc_blocks h t m =
     (if length m > 128 then rfc_blocks (rfc_F h (take 128 m) (t + 128) False) (t + 128) (drop 128 m)
      else rfc_F h (m @ replicate (128 - length m) 0) (t + length m) True)"
  by pat_completeness auto
termination
  by (relation "measure (\<lambda>(h, t, m). length m)") auto

declare rfc_blocks.simps [simp del]

definition rfc_h0 :: "nat \<Rightarrow> nat \<Rightarrow> u64 list" where
  "rfc_h0 kk nn = rfc_IV[0 := rfc_IV ! 0 XOR 0x01010000 XOR of_nat (256 * kk) XOR of_nat nn]"

definition rfc_key_block :: "bytes \<Rightarrow> bytes" where
  \<comment> \<open>a key, padded to a block, comes before the message\<close>
  "rfc_key_block key = (if key = [] then [] else key @ replicate (128 - length key) 0)"

definition rfc_blake2b :: "nat \<Rightarrow> bytes \<Rightarrow> bytes \<Rightarrow> bytes" where
  \<comment> \<open>the hash of \<open>m\<close> with \<open>nn\<close> bytes of output under \<open>key\<close>, unkeyed when that is empty\<close>
  "rfc_blake2b nn key m =
     take nn (concat (map sph_enc64le (rfc_blocks (rfc_h0 (length key) nn) 0 (rfc_key_block key @ m))))"

section \<open>The portable compression function\<close>

lemma sigma_row: "r < 12 \<Longrightarrow> blake2b_sigma ! r = rfc_SIGMA ! (r mod 10)"
proof -
  assume "r < 12"
  then have "r = 0 \<or> r = 1 \<or> r = 2 \<or> r = 3 \<or> r = 4 \<or> r = 5 \<or> r = 6 \<or> r = 7 \<or> r = 8 \<or> r = 9
    \<or> r = 10 \<or> r = 11" by arith
  then show ?thesis by (elim disjE) (simp_all add: blake2b_sigma_def rfc_SIGMA_def)
qed

lemma G_rfc:
  "blake2b_G m r i a b c d v
     = rfc_G v a b c d (m ! (blake2b_sigma ! r ! (2 * i))) (m ! (blake2b_sigma ! r ! (2 * i + 1)))"
  by (simp only: blake2b_G_def rfc_G_def Let_def rotr64_rotr add_0_right
      zero_less_numeral numeral_less_iff semiring_norm)

lemma sigma_range: "i < 10 \<Longrightarrow> j < 16 \<Longrightarrow> rfc_SIGMA ! i ! j < 16"
proof -
  have "list_all (\<lambda>row. length row = 16 \<and> list_all (\<lambda>x. x < 16) row) rfc_SIGMA \<and> length rfc_SIGMA = 10"
    by (simp add: rfc_SIGMA_def)
  then show "i < 10 \<Longrightarrow> j < 16 \<Longrightarrow> rfc_SIGMA ! i ! j < 16"
    by (simp add: list_all_length)
qed

lemma ROUND_rfc:
  assumes "r < 12" "\<And>i. i < 16 \<Longrightarrow> m ! i = w i"
  shows "blake2b_ROUND m r v = rfc_round w r v"
proof -
  have "m ! (blake2b_sigma ! r ! j) = w (rfc_SIGMA ! (r mod 10) ! j)" if "j < 16" for j
    using assms sigma_range [of "r mod 10" j] that by (simp add: sigma_row)
  then show ?thesis by (simp add: blake2b_ROUND_def rfc_round_def G_rfc Let_def)
qed

definition b2_compressed :: "blake2b_state \<Rightarrow> bytes \<Rightarrow> nat \<Rightarrow> bool \<Rightarrow> blake2b_state" where
  \<comment> \<open>what compressing a block does: the chaining value is the RFC's, the rest untouched\<close>
  "b2_compressed S block t f = S\<lparr>b2_h := rfc_F (b2_h S) (take 128 block) t f\<rparr>"

definition b2_flags :: "blake2b_state \<Rightarrow> nat \<Rightarrow> bool \<Rightarrow> bool" where
  \<comment> \<open>the counter words and the finalisation words of the state are those of \<open>t\<close> and \<open>f\<close>\<close>
  "b2_flags S t f \<longleftrightarrow>
     b2_t0 S = of_nat t \<and> b2_t1 S = of_nat (t div 2 ^ 64) \<and>
     b2_f0 S = (if f then - 1 else 0) \<and> b2_f1 S = 0"

lemma compress_integer_rfc:
  assumes "length (b2_h S) = 8" "128 \<le> length block" "b2_flags S t f"
  shows "rx_blake2b_compress_integer S block = Some (b2_compressed S block t f)"
proof -
  let ?b = "take 128 block"
  let ?m = "map (\<lambda>i. load64 (drop (i * 8) ?b)) [0..<16]" and ?w = "\<lambda>i. sph_dec64le (drop (8 * i) ?b)"
  let ?v = "map (\<lambda>i. b2_h S ! i) [0..<8] @
             [blake2b_IV ! 0, blake2b_IV ! 1, blake2b_IV ! 2, blake2b_IV ! 3,
              blake2b_IV ! 4 XOR b2_t0 S, blake2b_IV ! 5 XOR b2_t1 S,
              blake2b_IV ! 6 XOR b2_f0 S, blake2b_IV ! 7 XOR b2_f1 S]"
  have h: "map (\<lambda>i. b2_h S ! i) [0..<8] = b2_h S"
    using assms(1) by (metis map_nth)
  have w: "?m ! i = ?w i" if "i < 16" for i
    using that by (simp add: load64_def mult.commute)
  have rounds: "fold (blake2b_ROUND ?m) [0..<12] v = fold (rfc_round ?w) [0..<12] v" for v
    by (rule fold_cong) (auto intro!: ext ROUND_rfc w)
  have "?v = (let v = b2_h S @ rfc_IV; v = v[12 := v ! 12 XOR of_nat t];
          v = v[13 := v ! 13 XOR of_nat (t div 2 ^ 64)]
      in if f then v[14 := v ! 14 XOR - 1] else v)"
    using assms(1,3) unfolding h
    by (simp add: b2_flags_def rfc_IV_def blake2b_IV_def Let_def nth_append list_update_append
        del: of_nat_div)
  then show ?thesis
    using assms(2) unfolding rx_blake2b_compress_integer_def b2_compressed_def rfc_F_def Let_def
    by (simp add: read_in_Some rounds)
qed

section \<open>What the code relies on of the compression function\<close>

locale blake2b_compressor =
  fixes compress :: blake2b_compress_fun
  assumes compress_rfc:
    "length (b2_h S) = 8 \<Longrightarrow> 128 \<le> length block \<Longrightarrow> b2_flags S t f \<Longrightarrow>
     compress S block = Some (b2_compressed S block t f)"

definition b2_step :: "bytes \<Rightarrow> u64 list \<times> nat \<Rightarrow> u64 list \<times> nat" where
  "b2_step block v = (rfc_F (fst v) block (snd v + 128) False, snd v + 128)"

definition b2_at :: "blake2b_state \<Rightarrow> u64 list \<times> nat \<Rightarrow> blake2b_state" where
  \<comment> \<open>the state with the chaining value and the counter of \<open>v\<close>\<close>
  "b2_at S v = S\<lparr>b2_h := fst v, b2_t0 := of_nat (snd v), b2_t1 := of_nat (snd v div 2 ^ 64)\<rparr>"

abbreviation b2_absorb :: "bytes \<Rightarrow> u64 list \<times> nat \<Rightarrow> u64 list \<times> nat" where
  "b2_absorb \<equiv> absorb 128 128 b2_step"

abbreviation b2_rest :: "bytes \<Rightarrow> bytes" where
  "b2_rest \<equiv> rest 128 128"

definition b2_repr :: "nat \<Rightarrow> u64 list \<Rightarrow> blake2b_state \<Rightarrow> bytes \<Rightarrow> bool" where
  "b2_repr nn h0 S m \<longleftrightarrow>
     length h0 = 8 \<and> b2_h S = fst (b2_absorb m (h0, 0)) \<and>
     b2_flags S (snd (b2_absorb m (h0, 0))) False \<and> b2_last_node S = 0 \<and>
     length (b2_buf S) = 128 \<and> take (length (b2_rest m)) (b2_buf S) = b2_rest m \<and>
     unat (b2_buflen S) = length (b2_rest m) \<and> unat (b2_outlen S) = nn"

lemma length_rfc_F [simp]: "length (rfc_F h b t f) = 8"
  by (simp add: rfc_F_def Let_def)

lemma length_b2_absorb: "length (fst v) = 8 \<Longrightarrow> length (fst (b2_absorb m v)) = 8"
proof (induction "128::nat" "128::nat" b2_step m v rule: absorb.induct)
  case (1 xs v)
  then show ?case by (cases "128 < length xs") (simp_all add: absorb_block b2_step_def)
qed

lemma b2_absorb_block:
  "128 < length m \<Longrightarrow> b2_absorb m v = b2_absorb (drop 128 m) (b2_step (take 128 m) v)"
  by (simp add: absorb_block)

lemma b2_rest_block: "128 < length m \<Longrightarrow> b2_rest m = b2_rest (drop 128 m)"
  by (simp add: rest_block)

lemma b2_rest_bound: "length (b2_rest m) \<le> 128"
  by (rule rest_bound) simp

lemma word_carry: "((x::u64) + y < y) = (2 ^ 64 \<le> unat x + unat y)"
proof (cases "unat x + unat y < 2 ^ 64")
  case True
  then have "unat (x + y) = unat x + unat y" by (simp add: unat_word_ariths)
  then show ?thesis using True by (simp add: word_less_nat_alt)
next
  case False
  have "unat x < 2 ^ 64" "unat y < 2 ^ 64" using unsigned_less [of x] unsigned_less [of y] by simp_all
  moreover from this False have "unat (x + y) = unat x + unat y - 2 ^ 64"
    by (simp add: unat_word_ariths le_mod_geq)
  ultimately show ?thesis using False by (simp add: word_less_nat_alt)
qed

lemma increment_counter_flags:
  assumes "b2_flags S t f" "inc < 2 ^ 64"
  shows "b2_flags (blake2b_increment_counter S (of_nat inc)) (t + inc) f"
proof -
  have carry: "((of_nat t :: u64) + of_nat inc < of_nat inc) = (2 ^ 64 \<le> t mod 2 ^ 64 + inc)"
    using assms(2) by (simp add: word_carry unat_of_nat)
  have "(t + inc) div 2 ^ 64 = t div 2 ^ 64 + (t mod 2 ^ 64 + inc) div 2 ^ 64"
    using div_add1_eq [of t inc "2 ^ 64"] assms(2) by simp
  also have "(t mod 2 ^ 64 + inc) div 2 ^ 64 = (if 2 ^ 64 \<le> t mod 2 ^ 64 + inc then 1 else 0)"
  proof (cases "2 ^ 64 \<le> t mod 2 ^ 64 + inc")
    case True
    have "t mod 2 ^ 64 < 2 ^ 64" by simp
    with True assms(2) show ?thesis by (simp add: div_if)
  qed simp
  finally have d: "(t + inc) div 2 ^ 64 = t div 2 ^ 64 + (if 2 ^ 64 \<le> t mod 2 ^ 64 + inc then 1 else 0)" .
  show ?thesis
    using assms(1) unfolding b2_flags_def blake2b_increment_counter_def Let_def d
    by (simp add: carry del: of_nat_div)
qed

lemma increment_counter_other [simp]:
  "b2_h (blake2b_increment_counter S n) = b2_h S"
  "b2_buf (blake2b_increment_counter S n) = b2_buf S"
  "b2_buflen (blake2b_increment_counter S n) = b2_buflen S"
  "b2_outlen (blake2b_increment_counter S n) = b2_outlen S"
  "b2_f0 (blake2b_increment_counter S n) = b2_f0 S"
  "b2_f1 (blake2b_increment_counter S n) = b2_f1 S"
  "b2_last_node (blake2b_increment_counter S n) = b2_last_node S"
  by (simp_all add: blake2b_increment_counter_def Let_def)

lemma increment_counter_at:
  assumes "b2_flags S t f" "inc < 2 ^ 64"
  shows "blake2b_increment_counter S (of_nat inc) = b2_at S (b2_h S, t + inc)"
  using increment_counter_flags [OF assms]
  by (intro blake2b_state.equality) (simp_all add: b2_at_def b2_flags_def)

lemma b2_at_simps [simp]:
  "b2_h (b2_at S v) = fst v" "b2_buf (b2_at S v) = b2_buf S" "b2_buflen (b2_at S v) = b2_buflen S"
  "b2_outlen (b2_at S v) = b2_outlen S" "b2_f0 (b2_at S v) = b2_f0 S" "b2_f1 (b2_at S v) = b2_f1 S"
  "b2_last_node (b2_at S v) = b2_last_node S" "b2_at (b2_at S u) v = b2_at S v"
  by (simp_all add: b2_at_def)

lemma b2_at_flags: "b2_flags S t f \<Longrightarrow> b2_flags (b2_at S v) (snd v) f"
  by (simp add: b2_at_def b2_flags_def)

lemma b2_at_self: "b2_flags S t f \<Longrightarrow> b2_at S (b2_h S, t) = S"
  by (simp add: b2_at_def b2_flags_def)

context blake2b_compressor
begin

lemma compress_step:
  assumes "b2_flags S t False" "length (b2_h S) = 8" "128 \<le> length block"
  shows "compress (blake2b_increment_counter S 128) block = Some (b2_at S (b2_step (take 128 block) (b2_h S, t)))"
proof -
  let ?S = "blake2b_increment_counter S 128"
  have S: "?S = b2_at S (b2_h S, t + 128)"
    using increment_counter_at [OF assms(1), of 128] by simp
  have fl: "b2_flags ?S (t + 128) False"
    using b2_at_flags [OF assms(1), of "(b2_h S, t + 128)"] unfolding S by simp
  have "compress ?S block = Some (b2_compressed ?S block (t + 128) False)"
    by (rule compress_rfc) (use assms fl in simp_all)
  then show ?thesis
    by (simp add: S b2_compressed_def b2_step_def b2_at_def)
qed

lemma update_loop:
  assumes "b2_flags S t False" "length (b2_h S) = 8"
  shows "blake2b_update_loop compress S pin = Some (b2_at S (b2_absorb pin (b2_h S, t)), b2_rest pin)"
  using assms
proof (induction "length pin" arbitrary: pin S t rule: less_induct)
  case less
  show ?case
  proof (cases "128 < length pin")
    case True
    let ?v = "b2_step (take 128 pin) (b2_h S, t)"
    have "blake2b_update_loop compress S pin = blake2b_update_loop compress (b2_at S ?v) (drop 128 pin)"
      using True less.prems by (simp add: blake2b_update_loop.simps [of compress S] compress_step)
    also have "\<dots> = Some (b2_at S (b2_absorb (drop 128 pin) ?v), b2_rest (drop 128 pin))"
      using less.hyps [of "drop 128 pin" "b2_at S ?v" "snd ?v"] True b2_at_flags [OF less.prems(1), of ?v]
      by (simp add: b2_step_def)
    finally show ?thesis using True by (simp add: b2_absorb_block b2_rest_block)
  next
    case False
    then show ?thesis using less.prems
      by (simp add: blake2b_update_loop.simps [of compress S] b2_at_self)
  qed
qed

lemma update_repr:
  assumes repr: "b2_repr nn h0 S m" and pin: "inlen \<le> length pin"
  shows "\<exists>S'. rx_blake2b_update compress (Some S) (Some pin) inlen = Some (0, Some S')
    \<and> b2_repr nn h0 S' (m @ take inlen pin)"
proof (cases "inlen = 0")
  case True
  then show ?thesis using repr by (simp add: rx_blake2b_update_def)
next
  case False
  define d where "d = take inlen pin"
  define r where "r = b2_rest m"
  define v where "v = b2_absorb m (h0, 0)"
  have d: "length d = inlen" "read_in pin 0 inlen = Some d"
    using pin by (simp_all add: d_def read_in_Some)
  have r: "length r \<le> 128" by (simp add: r_def b2_rest_bound)
  have S: "length h0 = 8" "b2_h S = fst v" "b2_flags S (snd v) False" "b2_last_node S = 0"
    "length (b2_buf S) = 128" "take (length r) (b2_buf S) = r" "unat (b2_buflen S) = length r"
    "unat (b2_outlen S) = nn"
    using repr by (simp_all add: b2_repr_def r_def v_def)
  have f0: "b2_f0 S = 0" using S(3) by (simp add: b2_flags_def)
  have abs: "b2_absorb (m @ d) (h0, 0) = b2_absorb (r @ d) v" "b2_rest (m @ d) = b2_rest (r @ d)"
    unfolding r_def v_def by (rule absorb_append rest_append; simp)+
  show ?thesis
  proof (cases "128 < length r + inlen")
    case False
    then have short: "b2_absorb (m @ d) (h0, 0) = v" "b2_rest (m @ d) = r @ d"
      by (simp_all add: abs d)
    have "unat (b2_buflen S + of_nat inlen) = length r + inlen"
      using False S(7) by (simp add: unat_word_ariths unat_of_nat)
    then show ?thesis
      using False \<open>inlen \<noteq> 0\<close> S d f0 r
      by (simp add: rx_blake2b_update_def memcpy_in_def b2_repr_def d_def [symmetric] short b2_flags_def)
  next
    case True
    define fill where "fill = 128 - length r"
    have fill: "fill \<le> inlen" "length r + fill = 128" using True r by (simp_all add: fill_def)
    let ?b = "r @ take fill d"
    have copy: "memcpy_in (b2_buf S) (length r) (take fill d) = Some ?b"
      using S(5,6) fill d by (simp add: memcpy_in_def)
    have split: "take 128 (r @ d) = ?b" "drop 128 (r @ d) = drop fill d"
      using r by (simp_all add: fill_def)
    define w where "w = b2_absorb (drop fill d) (b2_step ?b v)"
    define q where "q = b2_rest (drop fill d)"
    have wq: "b2_absorb (m @ d) (h0, 0) = w" "b2_rest (m @ d) = q"
      using True d split by (simp_all add: abs b2_absorb_block b2_rest_block w_def q_def)
    have q: "length q \<le> 128" by (simp add: q_def b2_rest_bound)
    let ?S1 = "S\<lparr>b2_buf := ?b\<rparr>" and ?u = "b2_step ?b v"
    let ?S2 = "(b2_at ?S1 ?u)\<lparr>b2_buflen := 0\<rparr>"
    have "compress (blake2b_increment_counter ?S1 128) ?b = Some (b2_at ?S1 ?u)"
      using compress_step [of ?S1 "snd v" ?b] S length_b2_absorb [of "(h0, 0)" m] fill d
      by (simp add: b2_flags_def v_def fill_def [symmetric])
    moreover have "blake2b_update_loop compress ?S2 (drop fill d) = Some (b2_at ?S2 w, q)"
      using update_loop [of ?S2 "snd ?u" "drop fill d"] S(3)
      by (simp add: w_def q_def b2_step_def b2_flags_def b2_at_def)
    ultimately have "rx_blake2b_update compress (Some S) (Some pin) inlen =
        memcpy_in (b2_buf (b2_at ?S2 w)) 0 q \<bind> (\<lambda>buf.
          Some (0, Some ((b2_at ?S2 w)\<lparr>b2_buf := buf, b2_buflen := of_nat (length q)\<rparr>)))"
      using True \<open>inlen \<noteq> 0\<close> S(7) f0 d copy
      by (simp add: rx_blake2b_update_def fill_def [symmetric] Let_def)
    moreover have "length (b2_buf (b2_at ?S2 w)) = 128" using fill d by simp
    ultimately show ?thesis
      using S q length_b2_absorb [of "(h0, 0)" "m @ d"]
      by (simp add: memcpy_in_def b2_repr_def wq d_def [symmetric] b2_flags_def b2_at_def unat_of_nat)
  qed
qed

lemma final_repr:
  assumes repr: "b2_repr nn h0 S m" and nn: "nn \<le> 64" "nn \<le> outlen" "nn \<le> length out"
  shows "\<exists>S'. rx_blake2b_final compress (Some S) (Some out) outlen
      = Some (0, Some S', Some (take nn (concat (map sph_enc64le (rfc_blocks h0 0 m))) @ drop nn out))
    \<and> b2_f0 S' \<noteq> 0"
proof -
  define r where "r = b2_rest m"
  define v where "v = b2_absorb m (h0, 0)"
  have r: "length r \<le> 128" by (simp add: r_def b2_rest_bound)
  have S: "length h0 = 8" "b2_h S = fst v" "b2_flags S (snd v) False" "b2_last_node S = 0"
    "length (b2_buf S) = 128" "take (length r) (b2_buf S) = r" "unat (b2_buflen S) = length r"
    "unat (b2_outlen S) = nn" "length (fst v) = 8"
    using repr length_b2_absorb [of "(h0, 0)" m] by (simp_all add: b2_repr_def r_def v_def)
  let ?b = "r @ replicate (128 - length r) 0" and ?t = "snd v + length r"
  have last: "rfc_blocks (fst u) (snd u) m = rfc_F (fst (b2_absorb m u))
      (b2_rest m @ replicate (128 - length (b2_rest m)) 0) (snd (b2_absorb m u) + length (b2_rest m)) True" for u
  proof (induction "length m" arbitrary: m u rule: less_induct)
    case less
    show ?case
    proof (cases "128 < length m")
      case True
      with less.hyps [of "drop 128 m" "b2_step (take 128 m) u"] show ?thesis
        by (simp add: b2_absorb_block b2_rest_block rfc_blocks.simps [of _ _ m] b2_step_def)
    qed (simp add: rfc_blocks.simps [of _ _ m])
  qed
  have h: "rfc_blocks h0 0 m = rfc_F (fst v) ?b ?t True"
    using last [of "(h0, 0)"] by (simp add: r_def v_def)
  define S0 where "S0 = blake2b_set_lastblock (blake2b_increment_counter S (ucast (b2_buflen S)))"
  define S1 where "S1 = S0\<lparr>b2_buf := ?b\<rparr>"
  have len: "ucast (b2_buflen S) = (of_nat (length r) :: u64)"
    by (simp flip: S(7))
  have "b2_flags (blake2b_increment_counter S (of_nat (length r))) ?t False"
    by (rule increment_counter_flags [OF S(3)]) (use r in simp)
  then have flags: "b2_flags S1 ?t True"
    using S(4) by (simp add: S1_def S0_def len blake2b_set_lastblock_def b2_flags_def Let_def)
  have S1: "b2_h S1 = fst v" "b2_buf S1 = ?b" "b2_outlen S1 = b2_outlen S"
    and S0: "b2_buf S0 = b2_buf S" "b2_buflen S0 = b2_buflen S"
    using S by (simp_all add: S1_def S0_def blake2b_set_lastblock_def Let_def)
  have comp: "compress S1 ?b = Some (b2_compressed S1 ?b ?t True)"
    by (rule compress_rfc) (use S S1 flags r in simp_all)
  have f0: "b2_f0 S = 0" using S(3) by (simp add: b2_flags_def)
  let ?H = "rfc_blocks h0 0 m"
  have H: "length ?H = 8" by (simp add: h)
  then have "concat (map (\<lambda>i. store64 (?H ! i)) [0..<8]) = concat (map sph_enc64le ?H)"
    by (metis (no_types, lifting) map_nth map_map comp_def store64_def map_eq_conv)
  moreover have "length (concat (map sph_enc64le ?H)) = 64"
    using H by (simp add: length_concat comp_def sum_list_triv)
  moreover have "memset_in (b2_buf S) (length r) 0 (128 - length r) = Some ?b"
    using S(5,6) r by (simp add: memset_in_Some)
  moreover have "b2_h (b2_compressed S1 ?b ?t True) = ?H"
    using S1 r by (simp add: b2_compressed_def h)
  moreover have "b2_outlen (b2_compressed S1 ?b ?t True) = b2_outlen S"
    "b2_f0 (b2_compressed S1 ?b ?t True) \<noteq> 0"
    using S1 flags by (simp_all add: b2_compressed_def b2_flags_def)
  ultimately show ?thesis
    using nn S(7,8) f0 comp
    by (simp add: rx_blake2b_final_def Let_def S0_def [symmetric] S0 S1_def [symmetric] S1(2)
        read_in_Some memcpy_in_def)
qed

end

section \<open>The streaming interface\<close>

lemma param_word:
  "ucast (x::u8) OR push_bit 8 (ucast (y::u8)) OR push_bit 16 1 OR push_bit 24 1
     = (0x01010000 :: u64) XOR push_bit 8 (ucast y) XOR ucast x"
proof -
  have c: "(0x01010000 :: u64) = push_bit 16 1 XOR push_bit 24 1"
    by simp
  have u8: "8 \<le> n \<Longrightarrow> \<not> bit (z::u8) n" for z n
    by (auto dest: bit_imp_le_length)
  define e where "e = (1 :: u64)"
  have e: "bit e n = (n = 0)" for n by (simp add: e_def bit_1_iff)
  show ?thesis unfolding c e_def [symmetric]
  proof (rule bit_word_eqI)
    fix n assume "n < LENGTH(64)"
    then have "n < 64" by simp
    then show "bit (ucast x OR push_bit 8 (ucast y) OR push_bit 16 e OR push_bit 24 e) n
        = bit ((push_bit 16 e XOR push_bit 24 e) XOR push_bit 8 (ucast y) XOR ucast x) n"
      by (cases rule: byte_cases) (auto simp: bit_simps u8 e)
  qed
qed

lemma init_param_words:
  assumes "nn \<le> 64" "kk \<le> 64"
  shows "load64 (blake2b_param_bytes (blake2b_sequential_param nn kk))
      = 0x01010000 XOR of_nat (256 * kk) XOR of_nat nn"
    and "1 \<le> i \<Longrightarrow> i < 8 \<Longrightarrow> load64 (drop (i * 8) (blake2b_param_bytes (blake2b_sequential_param nn kk))) = 0"
proof -
  have small: "ucast (of_nat n :: u8) = (of_nat n :: u64)" if "n \<le> 64" for n
    using that by (simp add: word_unat_eq_iff unat_of_nat unsigned_ucast_eq take_bit_eq_mod)
  show "load64 (blake2b_param_bytes (blake2b_sequential_param nn kk))
      = 0x01010000 XOR of_nat (256 * kk) XOR of_nat nn"
    using param_word [of "of_nat nn" "of_nat kk"] assms
    by (simp add: load64_def sph_dec64le_def blake2b_param_bytes_def blake2b_sequential_param_def
        small sph_enc32le_def push_bit_eq_mult mult.commute)
  assume "1 \<le> i" "i < 8"
  then have "i = 1 \<or> i = 2 \<or> i = 3 \<or> i = 4 \<or> i = 5 \<or> i = 6 \<or> i = 7" by arith
  then show "load64 (drop (i * 8) (blake2b_param_bytes (blake2b_sequential_param nn kk))) = 0"
    by (elim disjE) (simp_all add: load64_def sph_dec64le_def blake2b_param_bytes_def
        blake2b_sequential_param_def sph_enc32le_def sph_enc64le_def nth_append)
qed

lemma init_param_repr:
  assumes "0 < nn" "nn \<le> 64" "kk \<le> 64"
  shows "\<exists>S. rx_blake2b_init_param (Some S0) (Some (blake2b_sequential_param nn kk)) = (0, Some S)
    \<and> b2_repr nn (rfc_h0 kk nn) S []"
proof -
  let ?p = "blake2b_param_bytes (blake2b_sequential_param nn kk)"
  note words = init_param_words(2) [OF assms(2,3)]
  have "map (\<lambda>i. blake2b_IV ! i XOR load64 (drop (i * 8) ?p)) [0..<8] = rfc_h0 kk nn"
    using words [of 1] words [of 2] words [of 3] words [of 4] words [of 5] words [of 6] words [of 7]
    by (simp add: upt_rec init_param_words(1) [OF assms(2,3)] rfc_h0_def blake2b_IV_def rfc_IV_def)
  moreover have "unat (ucast (of_nat nn :: u8) :: u32) = nn"
    using assms by (simp add: unsigned_ucast_eq unat_of_nat take_bit_eq_mod)
  moreover have "digest_length (blake2b_sequential_param nn kk) = of_nat nn"
    by (simp add: blake2b_sequential_param_def)
  moreover have "length (rfc_h0 kk nn) = 8" by (simp add: rfc_h0_def rfc_IV_def)
  ultimately show ?thesis
    by (simp add: rx_blake2b_init_param_def Let_def blake2b_init0_def b2_repr_def b2_flags_def)
qed

definition b2_keyed_init ::
  "blake2b_compress_fun \<Rightarrow> blake2b_state \<Rightarrow> nat \<Rightarrow> bytes \<Rightarrow> (int \<times> blake2b_state option) option" where
  \<comment> \<open>how a caller starts a hash: without a key, or with one\<close>
  "b2_keyed_init compress S0 nn key =
     (if key = [] then Some (rx_blake2b_init (Some S0) nn)
      else rx_blake2b_init_key compress (Some S0) nn (Some key) (length key))"

definition b2_params_ok :: "nat \<Rightarrow> bytes \<Rightarrow> bytes \<Rightarrow> bool" where
  "b2_params_ok nn key out \<longleftrightarrow> 0 < nn \<and> nn \<le> 64 \<and> length key \<le> 64 \<and> nn \<le> length out"

definition b2_upd :: "blake2b_compress_fun \<Rightarrow> blake2b_state \<Rightarrow> bytes \<Rightarrow> blake2b_state option" where
  "b2_upd compress S d =
     rx_blake2b_update compress (Some S) (Some d) (length d) \<bind> (\<lambda>(ret, S). if ret = 0 then S else None)"

definition b2_close :: "blake2b_compress_fun \<Rightarrow> bytes \<Rightarrow> blake2b_state \<Rightarrow> bytes option" where
  "b2_close compress out S =
     rx_blake2b_final compress (Some S) (Some out) (length out)
       \<bind> (\<lambda>(ret, S, out). if ret = 0 then out else None)"

lemma rfc_h0_length [simp]: "length (rfc_h0 kk nn) = 8"
  by (simp add: rfc_h0_def rfc_IV_def)

lemma init_unkeyed:
  "0 < nn \<Longrightarrow> nn \<le> 64 \<Longrightarrow>
   \<exists>S. rx_blake2b_init (Some S0) nn = (0, Some S) \<and> b2_repr nn (rfc_h0 0 nn) S []"
  using init_param_repr [of nn 0 S0] by (simp add: rx_blake2b_init_def)

context blake2b_compressor
begin

lemma init_key_repr:
  assumes "0 < nn" "nn \<le> 64" "0 < kk" "kk \<le> 64" "kk \<le> length key"
  shows "\<exists>S. rx_blake2b_init_key compress (Some S0) nn (Some key) kk = Some (0, Some S)
    \<and> b2_repr nn (rfc_h0 kk nn) S (rfc_key_block (take kk key))"
proof -
  obtain S where S: "rx_blake2b_init_param (Some S0) (Some (blake2b_sequential_param nn kk)) = (0, Some S)"
    "b2_repr nn (rfc_h0 kk nn) S []"
    using init_param_repr [OF assms(1,2,4)] by blast
  let ?b = "take kk key @ replicate (128 - kk) 0"
  obtain S' where "rx_blake2b_update compress (Some S) (Some ?b) 128 = Some (0, Some S')"
    "b2_repr nn (rfc_h0 kk nn) S' ?b"
    using update_repr [OF S(2), of 128 ?b] assms by auto
  then show ?thesis
    using assms S(1)
    by (auto simp: rx_blake2b_init_key_def read_in_Some memcpy_in_def rfc_key_block_def)
qed

lemma keyed_init_repr:
  assumes "b2_params_ok nn key out"
  shows "\<exists>S. b2_keyed_init compress S0 nn key = Some (0, Some S)
    \<and> b2_repr nn (rfc_h0 (length key) nn) S (rfc_key_block key)"
  using assms init_unkeyed [of nn S0] init_key_repr [of nn "length key" key S0]
  by (cases "key = []") (auto simp: b2_keyed_init_def b2_params_ok_def rfc_key_block_def)

end

locale blake2b_stream = blake2b_compressor +
  fixes nn :: nat and key :: bytes and out :: bytes

sublocale blake2b_stream \<subseteq> stream_hash
  "\<lambda>S. b2_params_ok nn key out \<and> (\<exists>S0. b2_keyed_init compress S0 nn key = Some (0, Some S))"
  "b2_upd compress" "b2_close compress out"
  "\<lambda>S m. b2_params_ok nn key out \<and> b2_repr nn (rfc_h0 (length key) nn) S (rfc_key_block key @ m)"
  "\<lambda>m. rfc_blake2b nn key m @ drop nn out" "\<lambda>m. True"
proof
  fix S
  assume "b2_params_ok nn key out \<and> (\<exists>S0. b2_keyed_init compress S0 nn key = Some (0, Some S))"
  then obtain S0 where "b2_params_ok nn key out" "b2_keyed_init compress S0 nn key = Some (0, Some S)"
    by blast
  with keyed_init_repr [of nn key out S0]
  show "b2_params_ok nn key out \<and> b2_repr nn (rfc_h0 (length key) nn) S (rfc_key_block key @ [])"
    by auto
next
  fix S m d
  assume "b2_params_ok nn key out \<and> b2_repr nn (rfc_h0 (length key) nn) S (rfc_key_block key @ m)"
  then show "\<exists>S'. b2_upd compress S d = Some S' \<and>
      (b2_params_ok nn key out \<and> b2_repr nn (rfc_h0 (length key) nn) S' (rfc_key_block key @ m @ d))"
    using update_repr [of nn "rfc_h0 (length key) nn" S "rfc_key_block key @ m" "length d" d]
    by (auto simp: b2_upd_def)
next
  fix S m
  assume "b2_params_ok nn key out \<and> b2_repr nn (rfc_h0 (length key) nn) S (rfc_key_block key @ m)"
  then show "b2_close compress out S = Some (rfc_blake2b nn key m @ drop nn out)"
    using final_repr [of nn "rfc_h0 (length key) nn" S "rfc_key_block key @ m" "length out" out]
    by (auto simp: b2_close_def b2_params_ok_def rfc_blake2b_def)
qed

section \<open>The one-shot hash\<close>

lemma update_zero: "rx_blake2b_update compress S inp 0 = Some (0, S)"
  by (simp add: rx_blake2b_update_def)

lemma default_bad:
  "(inp = None \<and> 0 < inlen) \<or> out = None \<or> outlen = 0 \<or> 64 < outlen \<Longrightarrow>
   rx_blake2b_default compress S0 out outlen inp inlen = Some (- 1, out)"
  by (auto simp: rx_blake2b_default_def)

context blake2b_compressor
begin

lemma default_rfc:
  assumes "0 < outlen" "outlen \<le> 64" "outlen \<le> length out" "inlen \<le> length pin"
  shows "rx_blake2b_default compress S0 (Some out) outlen (Some pin) inlen
      = Some (0, Some (rfc_blake2b outlen [] (take inlen pin) @ drop outlen out))"
proof -
  obtain S where S: "rx_blake2b_init (Some S0) outlen = (0, Some S)" "b2_repr outlen (rfc_h0 0 outlen) S []"
    using init_unkeyed assms by blast
  obtain S1 where S1: "rx_blake2b_update compress (Some S) (Some pin) inlen = Some (0, Some S1)"
    "b2_repr outlen (rfc_h0 0 outlen) S1 (take inlen pin)"
    using update_repr [OF S(2) assms(4)] by auto
  from final_repr [OF S1(2) assms(2) order_refl assms(3)] S(1) S1(1) show ?thesis
    using assms by (auto simp: rx_blake2b_default_def rfc_blake2b_def rfc_key_block_def)
qed

end

section \<open>Argon2's H'\<close>

primrec argon2_V :: "nat \<Rightarrow> bytes \<Rightarrow> bytes" where
  \<comment> \<open>the chain of 64-byte hashes, V_1 at index 0\<close>
  "argon2_V 0 x = rfc_blake2b 64 [] x"
| "argon2_V (Suc i) x = rfc_blake2b 64 [] (argon2_V i x)"

definition argon2_H :: "nat \<Rightarrow> bytes \<Rightarrow> bytes" where
  \<comment> \<open>RFC 9106, 3.3: H'^T(A)\<close>
  "argon2_H T A =
     (let x = sph_enc32le (of_nat T) @ A
      in if T \<le> 64 then rfc_blake2b T [] x
         else let r = (T + 31) div 32 - 2
              in concat (map (\<lambda>i. take 32 (argon2_V i x)) [0..<r])
                 @ rfc_blake2b (T - 32 * r) [] (argon2_V (r - 1) x))"

locale argon2_hash = blake2b_compressor +
  fixes hash :: blake2b_hash_fun
  assumes hash_rfc:
    "0 < n \<Longrightarrow> n \<le> 64 \<Longrightarrow> n \<le> length out \<Longrightarrow> k \<le> length inp \<Longrightarrow>
     hash (Some out) n (Some inp) k = Some (0, Some (rfc_blake2b n [] (take k inp) @ drop n out))"

lemma length_rfc_blocks [simp]: "length (rfc_blocks h t m) = 8"
  by (induction h t m rule: rfc_blocks.induct) (simp add: rfc_blocks.simps)

lemma rfc_unkeyed:
  "rfc_blake2b nn [] m = take nn (concat (map sph_enc64le (rfc_blocks (rfc_h0 0 nn) 0 m)))"
  by (simp add: rfc_blake2b_def rfc_key_block_def)

lemma length_rfc_blake2b: "nn \<le> 64 \<Longrightarrow> length (rfc_blake2b nn key m) = nn"
  by (simp add: rfc_blake2b_def length_concat comp_def sum_list_triv)

lemma length_argon2_V [simp]: "length (argon2_V i x) = 64"
  by (cases i) (simp_all add: length_rfc_blake2b)

context argon2_hash
begin

lemma long_loop:
  assumes "32 < toproduce" "pos + toproduce \<le> length out"
  shows "blake2b_long_loop hash out pos toproduce (argon2_V k x) =
    (let q = (toproduce + 31) div 32 - 2
     in Some (0, take pos out @ concat (map (\<lambda>i. take 32 (argon2_V i x)) [k + 1..<k + 1 + q])
          @ rfc_blake2b (toproduce - 32 * q) [] (argon2_V (k + q) x) @ drop (pos + toproduce) out))"
  using assms
proof (induction toproduce arbitrary: out pos k rule: less_induct)
  case (less n)
  show ?case
  proof (cases "64 < n")
    case False
    then have q: "(n + 31) div 32 - 2 = (0::nat)" by simp
    show ?thesis
      using False less.prems
      by (simp add: blake2b_long_loop.simps [of hash out] hash_rfc read_in_Some memcpy_in_def
          length_rfc_blake2b Let_def q)
  next
    case True
    let ?V = "argon2_V (Suc k) x"
    let ?out = "take pos out @ take 32 ?V @ drop (pos + 32) out"
    have step: "blake2b_long_loop hash out pos n (argon2_V k x)
        = blake2b_long_loop hash ?out (pos + 32) (n - 32) ?V"
      using True less.prems
      by (simp add: blake2b_long_loop.simps [of hash out] hash_rfc read_in_Some memcpy_in_def
          length_rfc_blake2b)
    define q where "q = (n - 32 + 31) div 32 - 2"
    have q: "(n + 31) div 32 - 2 = Suc q" "(n - Suc 0) div 32 - 2 = q"
      using True by (simp_all add: q_def)
    have "[k + 1..<k + 1 + Suc q] = (k + 1) # [Suc k + 1..<Suc k + 1 + q]"
      by (simp add: upt_rec)
    moreover have "take (pos + 32) ?out = take pos out @ take 32 ?V"
      using less.prems True by (simp add: length_rfc_blake2b)
    moreover have "drop (pos + 32 + (n - 32)) ?out = drop (pos + n) out"
      using less.prems True by (simp add: length_rfc_blake2b add.commute [of n])
    moreover have "n - 32 * Suc q = n - 32 - 32 * q" by simp
    ultimately show ?thesis
      using less.IH [of "n - 32" "pos + 32" ?out "Suc k"] True less.prems
      unfolding step by (simp add: q Let_def del: upt_Suc argon2_V.simps)
  qed
qed

end

lemma update_None: "0 < inlen \<Longrightarrow> rx_blake2b_update compress S None inlen = Some (- 1, S)"
  by (cases S) (simp_all add: rx_blake2b_update_def)

context argon2_hash
begin

lemma final_unkeyed:
  "b2_repr nn (rfc_h0 0 nn) S m \<Longrightarrow> nn \<le> 64 \<Longrightarrow> nn \<le> length out \<Longrightarrow>
   \<exists>S'. rx_blake2b_final compress (Some S) (Some out) nn
      = Some (0, Some S', Some (rfc_blake2b nn [] m @ drop nn out))"
  using final_repr [of nn "rfc_h0 0 nn" S m nn out] by (auto simp only: rfc_unkeyed order_refl)

lemma long_start:
  assumes "0 < hlen" "hlen \<le> 64" "inlen \<le> length pin"
  shows "\<exists>S. blake2b_long_start compress S0 hlen outlen (Some pin) inlen = Some (0, Some S)
    \<and> b2_repr hlen (rfc_h0 0 hlen) S (sph_enc32le (of_nat outlen) @ take inlen pin)"
proof -
  let ?x = "store32 (of_nat outlen)"
  obtain S where S: "rx_blake2b_init (Some S0) hlen = (0, Some S)" "b2_repr hlen (rfc_h0 0 hlen) S []"
    using init_unkeyed assms(1,2) by blast
  have x: "length ?x = 4" by (simp add: store32_def)
  obtain S1 where S1: "rx_blake2b_update compress (Some S) (Some ?x) 4 = Some (0, Some S1)"
    "b2_repr hlen (rfc_h0 0 hlen) S1 ?x"
    using update_repr [OF S(2), of 4 ?x] x by auto
  show ?thesis
    using update_repr [OF S1(2) assms(3)] S(1) S1(1)
    by (auto simp: blake2b_long_start_def store32_def)
qed

lemma long_rfc:
  assumes "0 < outlen" "outlen \<le> 0xFFFFFFFF" "outlen \<le> length out" "inlen \<le> length pin"
    and "length ob0 = 64"
  shows "rxa2_blake2b_long compress hash S0 ob0 (Some out) outlen (Some pin) inlen
      = Some (0, Some (argon2_H outlen (take inlen pin) @ drop outlen out))"
proof -
  let ?x = "sph_enc32le (of_nat outlen) @ take inlen pin"
  show ?thesis
  proof (cases "outlen \<le> 64")
    case True
    obtain S where S: "blake2b_long_start compress S0 outlen outlen (Some pin) inlen = Some (0, Some S)"
      "b2_repr outlen (rfc_h0 0 outlen) S ?x"
      using long_start [OF assms(1) True assms(4)] by blast
    obtain S' where "rx_blake2b_final compress (Some S) (Some out) outlen
        = Some (0, Some S', Some (rfc_blake2b outlen [] ?x @ drop outlen out))"
      using final_unkeyed [OF S(2) True assms(3)] by blast
    with S(1) True show ?thesis
      by (simp add: rxa2_blake2b_long_def argon2_H_def Let_def)
  next
    case False
    obtain S where S: "blake2b_long_start compress S0 64 outlen (Some pin) inlen = Some (0, Some S)"
      "b2_repr 64 (rfc_h0 0 64) S ?x"
      using long_start [of 64 inlen pin S0 outlen, OF _ _ assms(4)] by (auto simp only: zero_less_numeral order_refl)
    have ob0: "drop 64 ob0 = []" using assms(5) by simp
    have "\<exists>S'. rx_blake2b_final compress (Some S) (Some ob0) 64
        = Some (0, Some S', Some (rfc_blake2b 64 [] ?x @ drop 64 ob0))"
      by (rule final_unkeyed [OF S(2)]) (simp_all add: assms(5))
    then obtain S' where final: "rx_blake2b_final compress (Some S) (Some ob0) 64
        = Some (0, Some S', Some (argon2_V 0 ?x))"
      unfolding ob0 append_Nil2 argon2_V.simps(1) [symmetric] by blast
    define q where "q = (outlen - 32 + 31) div 32 - 2"
    have q: "(outlen + 31) div 32 - 2 = Suc q" "(outlen - Suc 0) div 32 - 2 = q"
      using False by (simp_all add: q_def)
    let ?out = "take 32 (argon2_V 0 ?x) @ drop 32 out"
    have "[0..<Suc q] = 0 # [0 + 1..<0 + 1 + q]" by (simp add: upt_rec)
    moreover have "blake2b_long_loop hash ?out 32 (outlen - 32) (argon2_V 0 ?x) =
       Some (0, take 32 (argon2_V 0 ?x) @ concat (map (\<lambda>i. take 32 (argon2_V i ?x)) [0 + 1..<0 + 1 + q])
          @ rfc_blake2b (outlen - 32 - 32 * q) [] (argon2_V (0 + q) ?x) @ drop outlen out)"
      using long_loop [of "outlen - 32" 32 ?out 0 ?x] False assms(3)
      by (simp add: q Let_def del: argon2_V.simps upt_Suc)
    ultimately show ?thesis
      using False assms(2,3) S(1) final
      by (simp add: rxa2_blake2b_long_def argon2_H_def Let_def q read_in_Some memcpy_in_def
          del: argon2_V.simps upt_Suc)
  qed
qed

end

section \<open>The code's own functions behind the two pointers\<close>

interpretation portable: blake2b_compressor rx_blake2b_compress_integer
  by unfold_locales (rule compress_integer_rfc)

interpretation portable_stream: blake2b_stream rx_blake2b_compress_integer nn key out
  for nn key out
  by unfold_locales

interpretation portable_long: argon2_hash rx_blake2b_compress_integer
  "rx_blake2b_default rx_blake2b_compress_integer S0"
  for S0
  by unfold_locales (rule portable.default_rfc)

definition blake2b_blank :: blake2b_state where
  \<comment> \<open>a state for the witnesses\<close>
  "blake2b_blank = \<lparr>b2_h = [], b2_t0 = 3, b2_t1 = 0, b2_f0 = 7, b2_f1 = 0, b2_buf = [1],
     b2_buflen = 9, b2_outlen = 5, b2_last_node = 0\<rparr>"

section \<open>States that take no more input\<close>

lemma used_state:
  assumes "b2_f0 S \<noteq> 0"
  shows "rx_blake2b_update compress (Some S) inp (Suc inlen) = Some (- 1, Some S)"
    and "rx_blake2b_final compress (Some S) out outlen = Some (- 1, Some S, out)"
  using assms by (auto simp: rx_blake2b_update_def rx_blake2b_final_def split: option.splits)

lemma invalid_used: "b2_f0 (blake2b_invalidate_state S) \<noteq> 0"
  by (simp add: blake2b_invalidate_state_def blake2b_set_lastblock_def Let_def)

lemma start_refused:
  "\<not> (0 < nn \<and> nn \<le> 64) \<Longrightarrow> rx_blake2b_init (Some S) nn = (- 1, Some (blake2b_invalidate_state S))"
  "\<not> (0 < nn \<and> nn \<le> 64 \<and> key \<noteq> None \<and> 0 < kk \<and> kk \<le> 64) \<Longrightarrow>
     rx_blake2b_init_key compress (Some S) nn key kk = Some (- 1, Some (blake2b_invalidate_state S))"
  "rx_blake2b_init None nn = (- 1, None)" "rx_blake2b_init_key compress None nn key kk = Some (- 1, None)"
  by (auto simp: rx_blake2b_init_def rx_blake2b_init_key_def split: option.splits)

section \<open>Properties\<close>

text \<open>
  C2: \<open>rx_blake2b_default\<close> with the portable compression function is BLAKE2b of RFC 7693 for
  every output length from 1 to 64 and every input, the counter's carry into its second word
  included; it writes exactly \<open>outlen\<close> bytes and returns 0, whatever the local state held.
\<close>

theorem blake2b_default_is_rfc:
  assumes "0 < outlen" "outlen \<le> 64" "outlen \<le> length out" "inlen \<le> length pin"
  shows "rx_blake2b_default rx_blake2b_compress_integer S0 (Some out) outlen (Some pin) inlen
      = Some (0, Some (rfc_blake2b outlen [] (take inlen pin) @ drop outlen out))"
  using assms by (rule portable.default_rfc)

theorem blake2b_default_is_rfc_witness:
  "rx_blake2b_default rx_blake2b_compress_integer blake2b_blank (Some (replicate 70 0)) 32
     (Some (replicate 300 1)) 256
   = Some (0, Some (rfc_blake2b 32 [] (replicate 256 1) @ replicate 38 0))"
  using blake2b_default_is_rfc [of 32 "replicate 70 0" 256 "replicate 300 1" blake2b_blank] by simp

text \<open>
  The errors of \<open>rx_blake2b_default\<close>: it returns -1 and leaves the output alone when the
  input is NULL with a non-zero length, the output is NULL, or the output length is 0 or over 64,
  and it does so in no other case (given arrays as long as the lengths say).
\<close>

theorem blake2b_default_errors:
  assumes "case inp of None \<Rightarrow> True | Some pin \<Rightarrow> inlen \<le> length pin"
    and "case out of None \<Rightarrow> True | Some o' \<Rightarrow> outlen \<le> length o'"
  shows "if (inp = None \<and> 0 < inlen) \<or> out = None \<or> outlen = 0 \<or> 64 < outlen
    then rx_blake2b_default rx_blake2b_compress_integer S0 out outlen inp inlen = Some (- 1, out)
    else \<exists>out'. rx_blake2b_default rx_blake2b_compress_integer S0 out outlen inp inlen = Some (0, Some out')"
proof (cases "(inp = None \<and> 0 < inlen) \<or> out = None \<or> outlen = 0 \<or> 64 < outlen")
  case True
  then show ?thesis by (simp add: default_bad)
next
  case False
  then obtain o' where o': "out = Some o'" by auto
  show ?thesis
  proof (cases inp)
    case None
    then have "inlen = 0" using False by simp
    then have "rx_blake2b_default rx_blake2b_compress_integer S0 out outlen inp inlen
        = rx_blake2b_default rx_blake2b_compress_integer S0 out outlen (Some []) 0"
      by (simp add: rx_blake2b_default_def update_zero split: prod.splits)
    then show ?thesis
      using False o' assms(2) portable.default_rfc [of outlen o' 0 "[]" S0] by auto
  next
    case (Some pin)
    then show ?thesis
      using False o' assms portable.default_rfc [of outlen o' inlen pin S0] by auto
  qed
qed

theorem blake2b_default_errors_witness:
  "rx_blake2b_default rx_blake2b_compress_integer blake2b_blank (Some (replicate 65 7)) 65 (Some [3]) 1
     = Some (- 1, Some (replicate 65 7))
   \<and> (\<exists>out'. rx_blake2b_default rx_blake2b_compress_integer blake2b_blank (Some [1, 2]) 2 None 0
     = Some (0, Some out'))"
  using blake2b_default_errors [where inp = "Some [3]" and inlen = 1 and out = "Some (replicate 65 7)"
      and outlen = 65 and ?S0.0 = blake2b_blank]
    blake2b_default_errors [where inp = None and inlen = 0 and out = "Some [1, 2]" and outlen = 2
      and ?S0.0 = blake2b_blank]
  by simp

text \<open>
  C22: the streaming calls, keyed or not: after a successful start, any sequence of updates
  succeeds, and final gives RFC 7693's hash of the concatenated pieces under the key. The code
  keeps a full last block back until it knows whether more input follows, so this covers
  pieces that end exactly on a block boundary.
\<close>

theorem blake2b_stream_is_rfc:
  assumes "b2_params_ok nn key out"
    and "b2_keyed_init rx_blake2b_compress_integer S0 nn key = Some (0, Some S)"
  shows "feed (b2_upd rx_blake2b_compress_integer) S ds \<bind> b2_close rx_blake2b_compress_integer out
    = Some (rfc_blake2b nn key (concat ds) @ drop nn out)"
  by (rule portable_stream.hash_chunks) (use assms in auto)

theorem blake2b_stream_is_rfc_witness:
  "\<exists>S. feed (b2_upd rx_blake2b_compress_integer) S [replicate 128 1, [], replicate 128 2]
      \<bind> b2_close rx_blake2b_compress_integer (replicate 64 0)
    = Some (rfc_blake2b 64 [1, 2, 3] (replicate 128 1 @ replicate 128 2))"
proof -
  have ok: "b2_params_ok 64 [1, 2, 3] (replicate 64 0)" by (simp add: b2_params_ok_def)
  then obtain S where "b2_keyed_init rx_blake2b_compress_integer blake2b_blank 64 [1, 2, 3] = Some (0, Some S)"
    using portable.keyed_init_repr by blast
  from blake2b_stream_is_rfc [OF ok this, of "[replicate 128 1, [], replicate 128 2]"]
  show ?thesis by auto
qed

text \<open>
  C33: when starting a hash fails, and what is left then. Without a key it fails for an output
  length of 0 or over 64; with one also for a NULL key and a key length of 0 or over 64; in no
  other case. Every one of these failures returns -1 and a state on which each later final, and
  each later update that brings a byte, returns -1 and changes nothing, whatever the state held
  before. A NULL state is refused.
\<close>

theorem blake2b_start_errors:
  "(0 < nn \<and> nn \<le> 64 \<longrightarrow> fst (rx_blake2b_init (Some S) nn) = 0)
   \<and> (\<not> (0 < nn \<and> nn \<le> 64) \<longrightarrow> (\<exists>S'. rx_blake2b_init (Some S) nn = (- 1, Some S')
        \<and> rx_blake2b_update rx_blake2b_compress_integer (Some S') inp (Suc inlen) = Some (- 1, Some S')
        \<and> rx_blake2b_final rx_blake2b_compress_integer (Some S') out outlen = Some (- 1, Some S', out)))
   \<and> (0 < nn \<and> nn \<le> 64 \<and> 0 < kk \<and> kk \<le> 64 \<and> kk \<le> length k \<longrightarrow>
        (\<exists>S'. rx_blake2b_init_key rx_blake2b_compress_integer (Some S) nn (Some k) kk = Some (0, Some S')))
   \<and> (\<not> (0 < nn \<and> nn \<le> 64 \<and> key \<noteq> None \<and> 0 < kk \<and> kk \<le> 64) \<longrightarrow>
        (\<exists>S'. rx_blake2b_init_key rx_blake2b_compress_integer (Some S) nn key kk = Some (- 1, Some S')
        \<and> rx_blake2b_update rx_blake2b_compress_integer (Some S') inp (Suc inlen) = Some (- 1, Some S')
        \<and> rx_blake2b_final rx_blake2b_compress_integer (Some S') out outlen = Some (- 1, Some S', out)))
   \<and> rx_blake2b_init None nn = (- 1, None)
   \<and> rx_blake2b_init_key rx_blake2b_compress_integer None nn key kk = Some (- 1, None)"
proof (intro conjI impI)
  show "0 < nn \<and> nn \<le> 64 \<Longrightarrow> fst (rx_blake2b_init (Some S) nn) = 0"
    using init_unkeyed [of nn S] by (auto simp: rx_blake2b_init_def)
  show "0 < nn \<and> nn \<le> 64 \<and> 0 < kk \<and> kk \<le> 64 \<and> kk \<le> length k \<Longrightarrow>
      \<exists>S'. rx_blake2b_init_key rx_blake2b_compress_integer (Some S) nn (Some k) kk = Some (0, Some S')"
    using portable.init_key_repr [of nn kk k S] by auto
qed (auto simp: start_refused used_state invalid_used)

theorem blake2b_start_errors_witness:
  "(\<exists>S'. rx_blake2b_init (Some (blake2b_blank\<lparr>b2_f0 := 0\<rparr>)) 65 = (- 1, Some S')
      \<and> rx_blake2b_update rx_blake2b_compress_integer (Some S') (Some [7]) 1 = Some (- 1, Some S')) \<and>
   (\<exists>S'. rx_blake2b_init_key rx_blake2b_compress_integer (Some (blake2b_blank\<lparr>b2_f0 := 0\<rparr>)) 64 (Some (replicate 65 3)) 65 = Some (- 1, Some S')
      \<and> rx_blake2b_final rx_blake2b_compress_integer (Some S') (Some (replicate 64 0)) 64
          = Some (- 1, Some S', Some (replicate 64 0))) \<and>
   fst (rx_blake2b_init (Some (blake2b_blank\<lparr>b2_f0 := 0\<rparr>)) 32) = 0 \<and>
   (\<exists>S'. rx_blake2b_init_key rx_blake2b_compress_integer (Some (blake2b_blank\<lparr>b2_f0 := 0\<rparr>)) 64 (Some [1, 2]) 2 = Some (0, Some S'))"
proof (intro conjI)
  let ?S = "blake2b_blank\<lparr>b2_f0 := 0\<rparr>"
  have bad: "\<not> (0 < (65::nat) \<and> (65::nat) \<le> 64)" "\<not> (0 < (64::nat) \<and> (64::nat) \<le> 64 \<and> Some (replicate 65 3) \<noteq> None
      \<and> 0 < (65::nat) \<and> (65::nat) \<le> 64)" and good: "0 < (32::nat) \<and> (32::nat) \<le> 64"
      "0 < (64::nat) \<and> (64::nat) \<le> 64 \<and> 0 < (2::nat) \<and> (2::nat) \<le> 64 \<and> 2 \<le> length [1, 2 :: u8]"
    by simp_all
  show "\<exists>S'. rx_blake2b_init (Some ?S) 65 = (- 1, Some S')
      \<and> rx_blake2b_update rx_blake2b_compress_integer (Some S') (Some [7]) 1 = Some (- 1, Some S')"
    using blake2b_start_errors [THEN conjunct2, THEN conjunct1, THEN mp, OF bad(1), of ?S "Some [7]" 0]
    unfolding One_nat_def by blast
  show "\<exists>S'. rx_blake2b_init_key rx_blake2b_compress_integer (Some ?S) 64 (Some (replicate 65 3)) 65 = Some (- 1, Some S')
      \<and> rx_blake2b_final rx_blake2b_compress_integer (Some S') (Some (replicate 64 0)) 64 = Some (- 1, Some S', Some (replicate 64 0))"
    using blake2b_start_errors [THEN conjunct2, THEN conjunct2, THEN conjunct2, THEN conjunct1, THEN mp, OF bad(2)] by blast
  show "fst (rx_blake2b_init (Some ?S) 32) = 0"
    by (rule blake2b_start_errors [THEN conjunct1, THEN mp, OF good(1)])
  show "\<exists>S'. rx_blake2b_init_key rx_blake2b_compress_integer (Some ?S) 64 (Some [1, 2]) 2 = Some (0, Some S')"
    by (rule blake2b_start_errors [THEN conjunct2, THEN conjunct2, THEN conjunct1, THEN mp, OF good(2)])
qed

text \<open>
  C34: a state is good for one hash. Once final has succeeded, every further final, and every
  further update that brings a byte, returns -1 and changes nothing.
\<close>

theorem blake2b_no_reuse:
  assumes "b2_params_ok nn key out"
    and "b2_keyed_init rx_blake2b_compress_integer S0 nn key = Some (0, Some S)"
    and "feed (b2_upd rx_blake2b_compress_integer) S ds = Some S1"
    and "rx_blake2b_final rx_blake2b_compress_integer (Some S1) (Some out) (length out) = Some (0, S2, out')"
  shows "rx_blake2b_update rx_blake2b_compress_integer S2 inp (Suc inlen) = Some (- 1, S2)
    \<and> rx_blake2b_final rx_blake2b_compress_integer S2 out2 outlen2 = Some (- 1, S2, out2)"
proof -
  have "b2_repr nn (rfc_h0 (length key) nn) S1 (rfc_key_block key @ concat ds)"
    using portable_stream.feed_fresh [of nn key out S ds] assms(1,2,3) by auto
  then have "\<exists>S'. S2 = Some S' \<and> b2_f0 S' \<noteq> 0"
    using portable.final_repr [of nn _ S1 _ "length out" out] assms(1,4)
    by (fastforce simp: b2_params_ok_def)
  then show ?thesis by (auto simp: used_state)
qed

theorem blake2b_no_reuse_witness:
  "\<exists>S2 out. rx_blake2b_update rx_blake2b_compress_integer (Some S2) (Some [1]) 1 = Some (- 1, Some S2)
    \<and> rx_blake2b_final rx_blake2b_compress_integer (Some S2) (Some out) 64 = Some (- 1, Some S2, Some out)"
proof -
  let ?out = "replicate 64 0"
  have ok: "b2_params_ok 64 [] ?out" by (simp add: b2_params_ok_def)
  then obtain S where S: "b2_keyed_init rx_blake2b_compress_integer blake2b_blank 64 [] = Some (0, Some S)"
    using portable.keyed_init_repr by blast
  moreover have nil: "feed (b2_upd rx_blake2b_compress_integer) S [] = Some S" by simp
  moreover obtain S2 o2 where
    "rx_blake2b_final rx_blake2b_compress_integer (Some S) (Some ?out) (length ?out) = Some (0, Some S2, o2)"
    using portable_stream.feed_fresh [of 64 "[]" ?out S "[]"] ok S
      portable.final_repr [of 64 "rfc_h0 0 64" S "[]" 64 ?out] by (auto simp: rfc_key_block_def)
  ultimately show ?thesis
    using blake2b_no_reuse [OF ok, of blake2b_blank S "[]" S "Some S2" o2 "Some [1]" 0] by fastforce
qed

text \<open>
  C23: \<open>rxa2_blake2b_long\<close> is Argon2's H' for every output length below 2^32 but 0: the
  chain of 64-byte hashes that contribute 32 bytes each, and the last hash of what is left.
\<close>

theorem blake2b_long_is_argon2:
  assumes "0 < outlen" "outlen \<le> 0xFFFFFFFF" "outlen \<le> length out" "inlen \<le> length pin"
    and "length ob0 = 64"
  shows "rxa2_blake2b_long rx_blake2b_compress_integer (rx_blake2b_default rx_blake2b_compress_integer S1)
      S0 ob0 (Some out) outlen (Some pin) inlen
    = Some (0, Some (argon2_H outlen (take inlen pin) @ drop outlen out))"
  using assms by (rule portable_long.long_rfc)

theorem blake2b_long_is_argon2_witness:
  "rxa2_blake2b_long rx_blake2b_compress_integer (rx_blake2b_default rx_blake2b_compress_integer blake2b_blank)
      blake2b_blank (replicate 64 0) (Some (replicate 1024 0)) 1024 (Some [1, 2, 3]) 2
    = Some (0, Some (argon2_H 1024 [1, 2]))"
  using blake2b_long_is_argon2 [of 1024 "replicate 1024 0" 2 "[1, 2, 3]" "replicate 64 0" blake2b_blank blake2b_blank]
  by simp

end
