(* ===== verification/Keccak_F.thy ===== *)
theory Keccak_F
  imports Prelude
begin

text \<open>
  \<^verbatim>\<open>src/crypto/ghostrider/sph_keccak.c\<close>, the permutation: the macros \<open>THETA\<close>, \<open>RHO\<close>, \<open>KHI\<close>,
  \<open>IOTA\<close> and \<open>KECCAK_F_1600\<close> of the 64-bit code, for every value of \<open>SPH_KECCAK_UNROLL\<close> the file
  offers. The macros work on the 25 words \<open>wide\<close> in place; which word plays which part in a round
  is told by the parameter lists \<open>P0\<close> to \<open>P23\<close>, so no word is moved until \<open>Pn_TO_P0\<close>. The code
  keeps six words complemented, which saves negations in \<open>KHI\<close>.

  The reference is Keccak-f[1600] as FIPS 202 defines it, its rotation offsets computed from the
  walk over the lanes and its round constants from the shift register. The main lemma says that
  the code is that permutation under the complement mask.
\<close>

section \<open>The code\<close>

definition keccak_RC :: "u64 list" where
  "keccak_RC =
    [0x0000000000000001, 0x0000000000008082, 0x800000000000808A,
     0x8000000080008000, 0x000000000000808B, 0x0000000080000001,
     0x8000000080008081, 0x8000000000008009, 0x000000000000008A,
     0x0000000000000088, 0x0000000080008009, 0x000000008000000A,
     0x000000008000808B, 0x800000000000008B, 0x8000000000008089,
     0x8000000000008003, 0x8000000000008002, 0x8000000000000080,
     0x000000000000800A, 0x800000008000000A, 0x8000000080008081,
     0x8000000000008080, 0x0000000080000001, 0x8000000080008008]"

definition lane :: "nat \<Rightarrow> nat" where
  \<comment> \<open>\<open>a##x##y\<close> is \<open>kc->u.wide[x + 5 * y]\<close>\<close>
  "lane xy = xy div 10 + 5 * (xy mod 10)"

definition keccak_P :: "nat list list" where
  "keccak_P = map (map lane)
  [[0, 1, 2, 3, 4, 10, 11, 12, 13, 14, 20, 21, 22, 23, 24, 30, 31, 32, 33, 34, 40, 41,
    42, 43, 44],
   [0, 30, 10, 40, 20, 11, 41, 21, 1, 31, 22, 2, 32, 12, 42, 33, 13, 43, 23, 3, 44, 24,
    4, 34, 14],
   [0, 33, 11, 44, 22, 41, 24, 2, 30, 13, 32, 10, 43, 21, 4, 23, 1, 34, 12, 40, 14, 42,
    20, 3, 31],
   [0, 23, 41, 14, 32, 24, 42, 10, 33, 1, 43, 11, 34, 2, 20, 12, 30, 3, 21, 44, 31, 4,
    22, 40, 13],
   [0, 12, 24, 31, 43, 42, 4, 11, 23, 30, 34, 41, 3, 10, 22, 21, 33, 40, 2, 14, 13, 20,
    32, 44, 1],
   [0, 21, 42, 13, 34, 4, 20, 41, 12, 33, 3, 24, 40, 11, 32, 2, 23, 44, 10, 31, 1, 22,
    43, 14, 30],
   [0, 2, 4, 1, 3, 20, 22, 24, 21, 23, 40, 42, 44, 41, 43, 10, 12, 14, 11, 13, 30, 32,
    34, 31, 33],
   [0, 10, 20, 30, 40, 22, 32, 42, 2, 12, 44, 4, 14, 24, 34, 11, 21, 31, 41, 1, 33, 43,
    3, 13, 23],
   [0, 11, 22, 33, 44, 32, 43, 4, 10, 21, 14, 20, 31, 42, 3, 41, 2, 13, 24, 30, 23, 34,
    40, 1, 12],
   [0, 41, 32, 23, 14, 43, 34, 20, 11, 2, 31, 22, 13, 4, 40, 24, 10, 1, 42, 33, 12, 3,
    44, 30, 21],
   [0, 24, 43, 12, 31, 34, 3, 22, 41, 10, 13, 32, 1, 20, 44, 42, 11, 30, 4, 23, 21, 40,
    14, 33, 2],
   [0, 42, 34, 21, 13, 3, 40, 32, 24, 11, 1, 43, 30, 22, 14, 4, 41, 33, 20, 12, 2, 44,
    31, 23, 10],
   [0, 4, 3, 2, 1, 40, 44, 43, 42, 41, 30, 34, 33, 32, 31, 20, 24, 23, 22, 21, 10, 14,
    13, 12, 11],
   [0, 20, 40, 10, 30, 44, 14, 34, 4, 24, 33, 3, 23, 43, 13, 22, 42, 12, 32, 2, 11, 31,
    1, 21, 41],
   [0, 22, 44, 11, 33, 14, 31, 3, 20, 42, 23, 40, 12, 34, 1, 32, 4, 21, 43, 10, 41, 13,
    30, 2, 24],
   [0, 32, 14, 41, 23, 31, 13, 40, 22, 4, 12, 44, 21, 3, 30, 43, 20, 2, 34, 11, 24, 1,
    33, 10, 42],
   [0, 43, 31, 24, 12, 13, 1, 44, 32, 20, 21, 14, 2, 40, 33, 34, 22, 10, 3, 41, 42, 30,
    23, 11, 4],
   [0, 34, 13, 42, 21, 1, 30, 14, 43, 22, 2, 31, 10, 44, 23, 3, 32, 11, 40, 24, 4, 33,
    12, 41, 20],
   [0, 3, 1, 4, 2, 30, 33, 31, 34, 32, 10, 13, 11, 14, 12, 40, 43, 41, 44, 42, 20, 23,
    21, 24, 22],
   [0, 40, 30, 20, 10, 33, 23, 13, 3, 43, 11, 1, 41, 31, 21, 44, 34, 24, 14, 4, 22, 12,
    2, 42, 32],
   [0, 44, 33, 22, 11, 23, 12, 1, 40, 34, 41, 30, 24, 13, 2, 14, 3, 42, 31, 20, 32, 21,
    10, 4, 43],
   [0, 14, 23, 32, 41, 12, 21, 30, 44, 3, 24, 33, 42, 1, 10, 31, 40, 4, 13, 22, 43, 2,
    11, 20, 34],
   [0, 31, 12, 43, 24, 21, 2, 33, 14, 40, 42, 23, 4, 30, 11, 13, 44, 20, 1, 32, 34, 10,
    41, 22, 3],
   [0, 13, 21, 34, 42, 2, 10, 23, 31, 44, 4, 12, 20, 33, 41, 1, 14, 22, 30, 43, 3, 11,
    24, 32, 40]]"

text \<open>The macro parameter \<open>bxy\<close> of a parameter list \<open>b\<close>.\<close>

abbreviation bpar :: "nat list \<Rightarrow> nat \<Rightarrow> nat \<Rightarrow> nat" where
  "bpar b x y \<equiv> b ! (5 * x + y)"

definition NOT64 :: "u64 \<Rightarrow> u64" where
  "NOT64 s = SPH_T64 (NOT s)"

definition TH_ELT :: "u64 list \<Rightarrow> u64 list \<Rightarrow> u64" where
  "TH_ELT c d =
     (let tt0 = d ! 0 XOR d ! 1;
          tt1 = d ! 2 XOR d ! 3;
          tt0 = tt0 XOR d ! 4;
          tt0 = tt0 XOR tt1;
          tt0 = SPH_ROTL64 tt0 1;
          tt2 = c ! 0 XOR c ! 1;
          tt3 = c ! 2 XOR c ! 3;
          tt0 = tt0 XOR c ! 4;
          tt2 = tt2 XOR tt3
      in tt0 XOR tt2)"

definition THETA :: "nat list \<Rightarrow> u64 list \<Rightarrow> u64 list" where
  "THETA b s =
     (let bx = (\<lambda>x. map (\<lambda>y. s ! bpar b x y) [0..<5]);
          t0 = TH_ELT (bx 4) (bx 1);
          t1 = TH_ELT (bx 0) (bx 2);
          t2 = TH_ELT (bx 1) (bx 3);
          t3 = TH_ELT (bx 2) (bx 4);
          t4 = TH_ELT (bx 3) (bx 0)
      in fold (\<lambda>(k, t) s. s[b ! k := s ! (b ! k) XOR t])
           [(0, t0), (1, t0), (2, t0), (3, t0), (4, t0),
            (5, t1), (6, t1), (7, t1), (8, t1), (9, t1),
            (10, t2), (11, t2), (12, t2), (13, t2), (14, t2),
            (15, t3), (16, t3), (17, t3), (18, t3), (19, t3),
            (20, t4), (21, t4), (22, t4), (23, t4), (24, t4)] s)"

definition RHO :: "nat list \<Rightarrow> u64 list \<Rightarrow> u64 list" where
  "RHO b s =
     fold (\<lambda>(k, n) s. s[b ! k := SPH_ROTL64 (s ! (b ! k)) n])
       [(1, 36), (2, 3), (3, 41), (4, 18),
        (5, 1), (6, 44), (7, 10), (8, 45), (9, 2),
        (10, 62), (11, 6), (12, 43), (13, 15), (14, 61),
        (15, 28), (16, 55), (17, 25), (18, 21), (19, 56),
        (20, 27), (21, 20), (22, 39), (23, 8), (24, 14)] s"

definition KHI_XO :: "u64 \<Rightarrow> u64 \<Rightarrow> u64 \<Rightarrow> u64" where
  "KHI_XO a b c = (let kt = b OR c in a XOR kt)"

definition KHI_XA :: "u64 \<Rightarrow> u64 \<Rightarrow> u64 \<Rightarrow> u64" where
  "KHI_XA a b c = (let kt = b AND c in a XOR kt)"

definition khi_row ::
  "nat list \<Rightarrow> nat \<Rightarrow> (u64 \<Rightarrow> u64 \<Rightarrow> u64 \<Rightarrow> u64 \<Rightarrow> u64 \<Rightarrow> u64 list) \<Rightarrow> u64 list \<Rightarrow> u64 list" where
  \<comment> \<open>the words \<open>c0\<close> to \<open>c4\<close> of row \<open>y\<close> are computed from \<open>b0y\<close> to \<open>b4y\<close>, then moved there\<close>
  "khi_row b y c s =
     fold (\<lambda>(x, v) s. s[bpar b x y := v])
       (zip [0..<5] (c (s ! bpar b 0 y) (s ! bpar b 1 y) (s ! bpar b 2 y)
              (s ! bpar b 3 y) (s ! bpar b 4 y))) s"

definition KHI :: "nat list \<Rightarrow> u64 list \<Rightarrow> u64 list" where
  "KHI b s =
     (let s = khi_row b 0 (\<lambda>b0 b1 b2 b3 b4. let bnn = NOT64 b2 in
            [KHI_XO b0 b1 b2, KHI_XO b1 bnn b3, KHI_XA b2 b3 b4, KHI_XO b3 b4 b0,
    KHI_XA b4 b0 b1]) s;
          s = khi_row b 1 (\<lambda>b0 b1 b2 b3 b4. let bnn = NOT64 b4 in
            [KHI_XO b0 b1 b2, KHI_XA b1 b2 b3, KHI_XO b2 b3 bnn, KHI_XO b3 b4 b0,
    KHI_XA b4 b0 b1]) s;
          s = khi_row b 2 (\<lambda>b0 b1 b2 b3 b4. let bnn = NOT64 b3 in
            [KHI_XO b0 b1 b2, KHI_XA b1 b2 b3, KHI_XA b2 bnn b4, KHI_XO bnn b4 b0,
    KHI_XA b4 b0 b1]) s;
          s = khi_row b 3 (\<lambda>b0 b1 b2 b3 b4. let bnn = NOT64 b3 in
            [KHI_XA b0 b1 b2, KHI_XO b1 b2 b3, KHI_XO b2 bnn b4, KHI_XA bnn b4 b0,
    KHI_XO b4 b0 b1]) s
      in khi_row b 4 (\<lambda>b0 b1 b2 b3 b4. let bnn = NOT64 b1 in
            [KHI_XA b0 bnn b2, KHI_XO bnn b2 b3, KHI_XA b2 b3 b4, KHI_XO b3 b4 b0,
    KHI_XA b4 b0 b1]) s)"

definition KF_IOTA :: "u64 \<Rightarrow> u64 list \<Rightarrow> u64 list" where
  "KF_IOTA r s = s[lane 0 := s ! lane 0 XOR r]"

definition KF_ELT :: "nat \<Rightarrow> nat \<Rightarrow> u64 \<Rightarrow> u64 list \<Rightarrow> u64 list" where
  "KF_ELT r s k w =
     (let w = THETA (keccak_P ! r) w;
          w = RHO (keccak_P ! r) w;
          w = KHI (keccak_P ! s) w
      in KF_IOTA k w)"

fun mov_chain :: "u64 \<Rightarrow> nat list \<Rightarrow> u64 list \<Rightarrow> u64 list" where
  \<comment> \<open>\<open>MOV64(d, s); MOV64(s, s'); ...; MOV64(last, t)\<close>\<close>
  "mov_chain t (d # s # ds) w = mov_chain t (s # ds) (w[lane d := w ! lane s])"
| "mov_chain t [d] w = w[lane d := t]"
| "mov_chain t [] w = w"

definition mov_cycle :: "nat list \<Rightarrow> u64 list \<Rightarrow> u64 list" where
  \<comment> \<open>\<open>MOV64(t, d)\<close> and the chain from \<open>d\<close>\<close>
  "mov_cycle ds w = mov_chain (w ! lane (hd ds)) ds w"

definition keccak_cycles :: "nat \<Rightarrow> nat list list" where
  "keccak_cycles u =
     (if u = 1 then
       [[1, 30, 33, 23, 12, 21, 2, 10, 11, 41, 24, 42, 4, 20, 22, 32, 43, 34, 3, 40, 44,
        14, 31, 13]]
      else if u = 2 then
       [[1, 33, 12, 2, 11, 24, 4, 22, 43, 3, 44, 31], [10, 41, 42, 20, 32, 34, 40, 14, 13,
        30, 23, 21]]
      else if u = 4 then
       [[1, 12, 11, 4, 43, 44], [2, 24, 22, 3, 31, 33], [10, 42, 32, 40, 13, 23], [14, 30,
        21, 41, 20, 34]]
      else if u = 6 then
       [[1, 2, 4, 3], [10, 20, 40, 30], [11, 22, 44, 33], [12, 24, 43, 31], [13, 21, 42,
        34], [14, 23, 41, 32]]
      else if u = 8 then
       [[1, 11, 43], [2, 22, 31], [3, 33, 24], [4, 44, 12], [10, 32, 13], [14, 21, 20],
        [23, 42, 40], [30, 41, 34]]
      else if u = 12 then
       [[1, 4], [2, 3], [10, 40], [11, 44], [12, 43], [13, 42], [14, 41], [20, 30], [21,
        34], [22, 33], [23, 32], [24, 31]]
      else [])"

definition Pn_TO_P0 :: "nat \<Rightarrow> u64 list \<Rightarrow> u64 list" where
  "Pn_TO_P0 u w = fold mov_cycle (keccak_cycles u) w"

definition KECCAK_F_1600 :: "nat \<Rightarrow> u64 list \<Rightarrow> u64 list" where
  \<comment> \<open>\<open>u\<close> is \<open>SPH_KECCAK_UNROLL\<close>: 1, 2, 4, 6, 8, 12, or 0 for a full unroll, where the last
    round leaves the words in place\<close>
  "KECCAK_F_1600 u w =
     (if u = 0 then
        KF_ELT 23 0 (keccak_RC ! 23)
          (fold (\<lambda>j. KF_ELT j (j + 1) (keccak_RC ! j)) [0..<23] w)
      else
        fold (\<lambda>j w. Pn_TO_P0 u (fold (\<lambda>i. KF_ELT i (i + 1) (keccak_RC ! (j + i))) [0..<u] w))
          (map ((*) u) [0..<24 div u]) w)"

section \<open>The permutation of FIPS 202\<close>

text \<open>
  A state is the list of its 25 lanes, the lane at \<open>(x, y)\<close> in position \<open>x + 5 y\<close>.
\<close>

definition at :: "u64 list \<Rightarrow> nat \<Rightarrow> nat \<Rightarrow> u64" where
  "at S x y = S ! (x mod 5 + 5 * (y mod 5))"

definition lanes :: "(nat \<Rightarrow> nat \<Rightarrow> u64) \<Rightarrow> u64 list" where
  "lanes f = map (\<lambda>k. f (k mod 5) (k div 5)) [0..<25]"

definition fips_theta :: "u64 list \<Rightarrow> u64 list" where
  "fips_theta S =
     (let C = (\<lambda>x. at S x 0 XOR at S x 1 XOR at S x 2 XOR at S x 3 XOR at S x 4)
      in lanes (\<lambda>x y. at S x y XOR (C (x + 4) XOR word_rotl 1 (C (x + 1)))))"

fun rho_walk :: "nat \<Rightarrow> nat \<times> nat" where
  "rho_walk 0 = (1, 0)"
| "rho_walk (Suc t) = (case rho_walk t of (x, y) \<Rightarrow> (y, (2 * x + 3 * y) mod 5))"

definition rho_offset :: "nat \<Rightarrow> nat \<Rightarrow> nat" where
  "rho_offset x y =
     (case filter (\<lambda>t. rho_walk t = (x, y)) [0..<24] of
        [] \<Rightarrow> 0
      | t # _ \<Rightarrow> (t + 1) * (t + 2) div 2 mod 64)"

definition fips_rho :: "u64 list \<Rightarrow> u64 list" where
  "fips_rho S = lanes (\<lambda>x y. word_rotl (rho_offset x y) (at S x y))"

definition fips_pi :: "u64 list \<Rightarrow> u64 list" where
  "fips_pi S = lanes (\<lambda>x y. at S (x + 3 * y) x)"

definition fips_chi :: "u64 list \<Rightarrow> u64 list" where
  "fips_chi S = lanes (\<lambda>x y. at S x y XOR (NOT (at S (x + 1) y) AND at S (x + 2) y))"

fun rc_step :: "bool list \<Rightarrow> bool list" where
  "rc_step [r0, r1, r2, r3, r4, r5, r6, r7] =
     [r7, r0, r1, r2, r3 \<noteq> r7, r4 \<noteq> r7, r5 \<noteq> r7, r6]"
| "rc_step R = R"

definition rc_bit :: "nat \<Rightarrow> bool" where
  "rc_bit t = hd ((rc_step ^^ (t mod 255)) (True # replicate 7 False))"

definition fips_RC :: "nat \<Rightarrow> u64" where
  "fips_RC ir = foldr (\<lambda>j w. of_bool (rc_bit (j + 7 * ir)) * 2 ^ (2 ^ j - 1) + w) [0..<7] 0"

definition fips_iota :: "nat \<Rightarrow> u64 list \<Rightarrow> u64 list" where
  "fips_iota ir S = S[0 := at S 0 0 XOR fips_RC ir]"

definition fips_round :: "nat \<Rightarrow> u64 list \<Rightarrow> u64 list" where
  "fips_round ir S = fips_iota ir (fips_chi (fips_pi (fips_rho (fips_theta S))))"

definition keccak_f1600 :: "u64 list \<Rightarrow> u64 list" where
  "keccak_f1600 S = fold fips_round [0..<24] S"

section \<open>The tables\<close>

lemma keccak_RC_fips: "ir < 24 \<Longrightarrow> keccak_RC ! ir = fips_RC ir"
proof -
  have "\<forall>ir \<in> set [0..<24]. keccak_RC ! ir = fips_RC ir"
    by code_simp
  then show "ir < 24 \<Longrightarrow> keccak_RC ! ir = fips_RC ir" by simp
qed

definition goodP :: "nat list \<Rightarrow> bool" where
  "goodP b \<longleftrightarrow> length b = 25 \<and> distinct b \<and> set b = {..<25}"

lemma keccak_P_good: "r < 24 \<Longrightarrow> goodP (keccak_P ! r)"
proof -
  have "\<forall>b \<in> set keccak_P. length b = 25 \<and> distinct b \<and> sort b = [0..<25]" "length keccak_P = 24"
    by code_simp+
  then show "r < 24 \<Longrightarrow> goodP (keccak_P ! r)"
    unfolding goodP_def
    by (metis atLeast0LessThan atLeast_upt nth_mem set_sort)
qed

text \<open>Each parameter list is the one before it, moved along by \<open>pi\<close>.\<close>

definition swapxy :: "nat \<Rightarrow> nat" where
  "swapxy k = 5 * (k mod 5) + k div 5"

lemma keccak_P_pi:
  "r < 24 \<Longrightarrow> x < 5 \<Longrightarrow> y < 5 \<Longrightarrow>
   bpar (keccak_P ! (Suc r mod 24)) x y = bpar (keccak_P ! r) ((x + 3 * y) mod 5) x"
proof -
  have "\<forall>r \<in> set [0..<24]. \<forall>x \<in> set [0..<5]. \<forall>y \<in> set [0..<5].
     bpar (keccak_P ! (Suc r mod 24)) x y = bpar (keccak_P ! r) ((x + 3 * y) mod 5) x"
    by code_simp
  then show "r < 24 \<Longrightarrow> x < 5 \<Longrightarrow> y < 5 \<Longrightarrow>
     bpar (keccak_P ! (Suc r mod 24)) x y = bpar (keccak_P ! r) ((x + 3 * y) mod 5) x" by simp
qed

section \<open>Working in place and in the lanes\<close>

text \<open>
  \<open>pview b s\<close>: the words in the order of the parameter list \<open>b\<close>; \<open>pstate b s\<close>: the FIPS state
  they form. A macro on \<open>b\<close> is, in this view, the macro on the identical list.
\<close>

definition pview :: "nat list \<Rightarrow> u64 list \<Rightarrow> u64 list" where
  "pview b s = map ((!) s) b"

definition pstate :: "nat list \<Rightarrow> u64 list \<Rightarrow> u64 list" where
  "pstate b s = map (\<lambda>k. s ! (b ! swapxy k)) [0..<25]"

lemma pview_nth: "goodP b \<Longrightarrow> k < 25 \<Longrightarrow> pview b s ! k = s ! (b ! k)"
  by (simp add: pview_def goodP_def)

lemma length_pview: "goodP b \<Longrightarrow> length (pview b s) = 25"
  by (simp add: pview_def goodP_def)

lemma goodP_nth_less: "goodP b \<Longrightarrow> k < 25 \<Longrightarrow> b ! k < 25"
  unfolding goodP_def by (metis lessThan_iff nth_mem)

lemma pview_update:
  assumes "goodP b" "k < 25" "length s = 25"
  shows "pview b (s[b ! k := v]) = (pview b s)[k := v]"
proof (rule nth_equalityI)
  fix i assume "i < length (pview b (s[b ! k := v]))"
  then have i: "i < 25" using assms by (simp add: length_pview)
  then have "b ! i = b ! k \<longleftrightarrow> i = k"
    using assms by (simp add: goodP_def nth_eq_iff_index_eq)
  then show "pview b (s[b ! k := v]) ! i = (pview b s)[k := v] ! i"
    using assms i goodP_nth_less [OF assms(1)] by (auto simp: pview_nth nth_list_update length_pview)
qed (use assms in \<open>simp add: length_pview\<close>)

lemma pview_fold:
  assumes "goodP b" "\<forall>(k, n) \<in> set ks. k < 25" "length s = 25"
  shows "pview b (fold (\<lambda>(k, n) s. s[b ! k := f n (s ! (b ! k))]) ks s)
       = fold (\<lambda>(k, n) s. s[k := f n (s ! k)]) ks (pview b s)"
  using assms
proof (induction ks arbitrary: s)
  case (Cons a ks)
  then show ?case
    by (cases a) (simp add: pview_update pview_nth)
qed (simp add: pview_def)

lemma length_fold: "(\<And>a s. length (F a s) = length s) \<Longrightarrow> length (fold F ks s) = length s"
  by (induction ks arbitrary: s) simp_all

lemma length_THETA [simp]: "length (THETA b s) = length s"
  unfolding THETA_def Let_def by (rule length_fold) (auto split: prod.split)

lemma length_RHO [simp]: "length (RHO b s) = length s"
  unfolding RHO_def by (rule length_fold) (auto split: prod.split)

lemma length_khi_row [simp]: "length (khi_row b y c s) = length s"
  unfolding khi_row_def by (rule length_fold) (auto split: prod.split)

lemma length_KHI [simp]: "length (KHI b s) = length s"
  by (simp add: KHI_def Let_def)

lemma fold_upd_map:
  assumes "distinct (map fst ks)" "\<forall>(k, n) \<in> set ks. k < length w"
  shows "fold (\<lambda>(k, n) s. s[k := f n (s ! k)]) ks w
       = map (\<lambda>i. case map_of ks i of None \<Rightarrow> w ! i | Some n \<Rightarrow> f n (w ! i)) [0..<length w]"
  using assms
proof (induction ks arbitrary: w)
  case Nil
  then show ?case by (simp add: map_nth)
next
  case (Cons a ks)
  obtain k n where a: "a = (k, n)" by (cases a)
  have "map_of ks k = None"
    using Cons.prems a by (simp add: map_of_eq_None_iff)
  then show ?case
    using Cons a by (auto simp: nth_list_update intro!: nth_equalityI split: option.split)
qed

lemma pview_ops:
  assumes "goodP b" "length s = 25" "distinct (map fst ks)" "\<forall>(k, n) \<in> set ks. k < 25"
  shows "pview b (fold (\<lambda>(k, n) s. s[b ! k := f n (s ! (b ! k))]) ks s)
       = map (\<lambda>i. case map_of ks i of None \<Rightarrow> pview b s ! i | Some n \<Rightarrow> f n (pview b s ! i)) [0..<25]"
  using assms fold_upd_map [of ks "pview b s" f]
  by (subst pview_fold) (simp_all add: length_pview)

lemma pstate_view: "goodP b \<Longrightarrow> pstate b s = map (\<lambda>k. pview b s ! swapxy k) [0..<25]"
  by (auto simp: pstate_def pview_nth swapxy_def intro!: map_cong)

lemma upt_25: "[0..<25] = [0, 1, 2, 3, 4, 5, 6, 7, 8, 9, 10, 11, 12, 13, 14, 15, 16, 17, 18, 19, 20, 21,
    22, 23, 24 :: nat]"
  by code_simp

lemma upt_5: "[0..<5] = [0, 1, 2, 3, 4 :: nat]"
  by code_simp

lemma view_THETA:
  assumes b: "goodP b" and s: "length s = 25"
  defines "w \<equiv> pview b s"
  defines "bx \<equiv> (\<lambda>x. map (\<lambda>y. w ! (5 * x + y)) [0..<5])"
  shows "pview b (THETA b s) = map (\<lambda>i. w ! i XOR
     [TH_ELT (bx 4) (bx 1), TH_ELT (bx 0) (bx 2), TH_ELT (bx 1) (bx 3), TH_ELT (bx 2) (bx 4),
      TH_ELT (bx 3) (bx 0)] ! (i div 5)) [0..<25]"
proof -
  have bx: "map (\<lambda>y. s ! bpar b x y) [0..<5] = bx x" if "x < 5" for x
    using that b by (auto simp: bx_def w_def pview_nth simp del: upt_conv_Cons upt.simps upt_rec_numeral)
  have b4: "4 < (5::nat)" and b3: "3 < (5::nat)" and b2: "2 < (5::nat)" and b1: "1 < (5::nat)"
    and b0: "0 < (5::nat)" by simp_all
  show ?thesis
    unfolding THETA_def Let_def bx [OF b0] bx [OF b1] bx [OF b2] bx [OF b3] bx [OF b4]
    by (subst pview_ops [where f = "\<lambda>t v. v XOR t", OF b s])
       (simp_all add: w_def upt_25 del: map_eq_conv)
qed

lemma word_rotl_zero: "word_rotl 0 (x :: u64) = x"
  by (rule bit_word_eqI) (simp add: bit_word_rotl_iff)

lemma view_RHO:
  assumes b: "goodP b" and s: "length s = 25"
  shows "pview b (RHO b s) = map (\<lambda>i. SPH_ROTL64 (pview b s ! i)
     ([0, 36, 3, 41, 18, 1, 44, 10, 45, 2, 62, 6, 43, 15, 61, 28, 55, 25, 21, 56, 27, 20, 39, 8, 14] ! i))
     [0..<25]"
  unfolding RHO_def
  by (subst pview_ops [where f = "\<lambda>n v. SPH_ROTL64 v n", OF b s])
     (simp_all add: upt_25 ROTL64_rotl word_rotl_zero del: map_eq_conv)

definition parity5 :: "u64 list \<Rightarrow> u64" where
  "parity5 c = c ! 0 XOR c ! 1 XOR c ! 2 XOR c ! 3 XOR c ! 4"

lemma TH_ELT_parity: "TH_ELT c d = parity5 c XOR word_rotl 1 (parity5 d)"
  by (simp add: TH_ELT_def parity5_def ROTL64_rotl Let_def ac_simps)

lemma theta_rho_fips:
  assumes "goodP b" "length s = 25"
  shows "pstate b (RHO b (THETA b s)) = fips_rho (fips_theta (pstate b s))"
proof -
  define w where "w = pview b s"
  have off: "map (\<lambda>k. rho_offset (k mod 5) (k div 5)) [0..<25] =
      [0, 1, 62, 28, 27, 36, 44, 6, 55, 20, 3, 10, 43, 25, 39, 41, 45, 15, 21, 8, 18, 2, 61, 56, 14]"
    by code_simp
  show ?thesis
    using assms
    by (simp add: pstate_view view_RHO view_THETA fips_rho_def fips_theta_def lanes_def at_def
      TH_ELT_parity parity5_def ROTL64_rotl swapxy_def Let_def upt_25 upt_5
      off [simplified upt_25, simplified] word_rotl_zero del: map_eq_conv
      flip: w_def numeral_2_eq_2)
qed

lemma pi_fips:
  assumes "r < 24"
  shows "pstate (keccak_P ! (Suc r mod 24)) s = fips_pi (pstate (keccak_P ! r) s)"
proof -
  have sw: "swapxy (x mod 5 + 5 * (y mod 5)) = 5 * (x mod 5) + y mod 5" for x y
    by (simp add: swapxy_def)
  have "pstate (keccak_P ! (Suc r mod 24)) s ! k = fips_pi (pstate (keccak_P ! r) s) ! k"
    if k: "k < 25" for k
  proof -
    have xy: "k mod 5 < 5" "k div 5 < 5" using k by auto
    have less: "x mod 5 + 5 * (y mod 5) < 25" for x y :: nat
      by (rule less_le_trans [of _ "5 + 5 * (y mod 5)"]) (auto simp: less_Suc_eq_le)
    show ?thesis
      using k keccak_P_pi [OF assms xy] xy less [of "k mod 5 + 3 * (k div 5)" "k mod 5"]
      by (simp add: fips_pi_def lanes_def at_def pstate_def sw del: upt_conv_Cons upt.simps)
         (simp add: swapxy_def)
  qed
  then show ?thesis
    by (intro nth_equalityI) (simp_all add: pstate_def fips_pi_def lanes_def)
qed

section \<open>The complemented lanes\<close>

text \<open>
  The positions \<open>x + 5 y\<close> the comment on \<open>KHI\<close> lists, before and after it.
\<close>

definition mask_in :: "nat list" where
  "mask_in = map lane [00, 01, 02, 04, 13, 20, 21, 22, 30, 33, 34, 43]"

definition mask_out :: "nat list" where
  "mask_out = map lane [04, 10, 20, 22, 23, 31]"

definition complement :: "nat list \<Rightarrow> u64 list \<Rightarrow> u64 list" where
  "complement M S = map (\<lambda>k. if k \<in> set M then NOT (S ! k) else S ! k) [0..<length S]"

lemma length_lanes [simp]: "length (lanes f) = 25"
  by (simp add: lanes_def)

lemma length_complement [simp]: "length (complement M S) = length S"
  by (simp add: complement_def)

lemma complement_twice [simp]: "complement M (complement M S) = S"
  by (auto simp: complement_def intro!: nth_equalityI)

lemma mask_values:
  "set mask_in = {0, 5, 10, 20, 16, 2, 7, 12, 3, 18, 23, 19}" "set mask_out = {20, 1, 2, 12, 17, 8}"
  by (simp_all add: mask_in_def mask_out_def lane_def)

lemma rotl_NOT: "word_rotl n (NOT x) = NOT (word_rotl n (x :: u64))"
  by (rule bit_word_eqI) (simp add: bit_word_rotl_iff bit_not_iff)

lemma linear_complement:
  assumes "length S = 25"
  shows "fips_pi (fips_rho (fips_theta (complement mask_out S)))
       = complement mask_in (fips_pi (fips_rho (fips_theta S)))"
proof -
  show ?thesis
    using assms
    by (simp add: fips_pi_def fips_rho_def fips_theta_def complement_def lanes_def at_def mask_values
      upt_25 rotl_NOT Let_def del: map_eq_conv flip: numeral_2_eq_2)
qed

lemma view_khi_row:
  assumes b: "goodP b" and s: "length s = 25" and y: "y < 5"
  assumes w: "pview b s = w" and c: "c (w ! y) (w ! (5 + y)) (w ! (10 + y)) (w ! (15 + y)) (w ! (20 + y)) = [c0, c1, c2, c3, c4]"
  shows "pview b (khi_row b y c s) =
     w[y := c0, 5 + y := c1, 10 + y := c2, 15 + y := c3, 20 + y := c4]"
proof -
  have nth: "s ! (b ! k) = w ! k" if "k < 25" for k
    using pview_nth [OF b that, of s] w by simp
  show ?thesis
    using y c w
    by (simp add: khi_row_def upt_5 nth pview_update [OF b] s)
qed

lemma list25:
  assumes "length (w :: 'a list) = 25"
  obtains a b c d e f g h i j k l m n p q r s t u v x y z A where
    "w = [a, b, c, d, e, f, g, h, i, j, k, l, m, n, p, q, r, s, t, u, v, x, y, z, A]"
proof -
  have "w = map ((!) w) [0..<25]" using assms map_nth [of w] by simp
  then show ?thesis unfolding upt_25 list.map by (rule that)
qed

lemma chi_fips:
  assumes b: "goodP b" and s: "length s = 25"
  shows "pstate b (KHI b s) = complement mask_out (fips_chi (complement mask_in (pstate b s)))"
proof -
  have "length (pview b s) = 25" using b by (rule length_pview)
  then obtain w where "pview b s = w" "length w = 25" by blast
  then show ?thesis
    apply -
    apply (erule list25)
    apply hypsubst
    apply (simp add: KHI_def Let_def pstate_view [OF b] view_khi_row [OF b] s)
    apply (simp add: fips_chi_def complement_def lanes_def at_def mask_values swapxy_def upt_25 upt_5 KHI_XO_def KHI_XA_def NOT64_def Let_def del: map_eq_conv flip: numeral_2_eq_2)
    apply (intro conjI; rule bit_word_eqI; auto simp: bit_simps)
    done
qed
section \<open>The rounds\<close>

definition kst :: "nat \<Rightarrow> u64 list \<Rightarrow> u64 list" where
  \<comment> \<open>the state the words stand for before a round whose parameter list is \<open>Pr\<close>\<close>
  "kst r w = complement mask_out (pstate (keccak_P ! r) w)"

lemma length_KF_ELT [simp]: "length (KF_ELT r s k w) = length w"
  by (simp add: KF_ELT_def KF_IOTA_def Let_def)

lemma keccak_P_0: "r < 24 \<Longrightarrow> keccak_P ! r ! 0 = 0"
proof -
  have "\<forall>r \<in> set [0..<24]. keccak_P ! r ! 0 = 0"
    by code_simp
  then show "r < 24 \<Longrightarrow> keccak_P ! r ! 0 = 0" by simp
qed

lemma pstate_iota:
  assumes r: "r < 24" and w: "length w = 25"
  shows "complement mask_out (pstate (keccak_P ! r) (KF_IOTA k w))
    = (complement mask_out (pstate (keccak_P ! r) w))[0 := complement mask_out (pstate (keccak_P ! r) w) ! 0 XOR k]"
proof -
  let ?b = "keccak_P ! r"
  have b: "goodP ?b" using r by (rule keccak_P_good)
  have z: "?b ! 0 = lane 0" using keccak_P_0 [OF r] by (simp add: lane_def)
  have upd: "pview ?b (KF_IOTA k w) = (pview ?b w)[0 := pview ?b w ! 0 XOR k]"
    unfolding KF_IOTA_def z [symmetric]
    using pview_update [OF b _ w, of 0] by (simp add: pview_nth [OF b])
  show ?thesis
    by (simp add: pstate_view [OF b] upd complement_def upt_25 swapxy_def mask_values length_pview [OF b])
qed

lemma KF_ELT_round:
  assumes r: "r < 24" and ir: "ir < 24" and w: "length w = 25"
  shows "kst (Suc r mod 24) (KF_ELT r (Suc r mod 24) (keccak_RC ! ir) w) = fips_round ir (kst r w)"
proof -
  let ?b = "keccak_P ! r" and ?c = "keccak_P ! (Suc r mod 24)"
  have b: "goodP ?b" and c: "goodP ?c" and r': "Suc r mod 24 < 24"
    using r by (simp_all add: keccak_P_good)
  have len: "length (pstate b w) = 25" for b by (simp add: pstate_def)
  let ?S = "kst r w" and ?u = "RHO ?b (THETA ?b w)"
  have "complement mask_in (pstate ?c ?u) = fips_pi (fips_rho (fips_theta ?S))"
    using linear_complement [of ?S] len
    by (simp add: pi_fips [OF r] theta_rho_fips [OF b w] kst_def)
  then have "complement mask_out (pstate ?c (KHI ?c ?u)) = fips_chi (fips_pi (fips_rho (fips_theta ?S)))"
    by (simp add: chi_fips [OF c] w)
  then show ?thesis
    using pstate_iota [OF r', of "KHI ?c ?u" "keccak_RC ! ir"] w
    by (simp only: kst_def KF_ELT_def Let_def length_KHI length_RHO length_THETA keccak_RC_fips [OF ir]
        fips_round_def fips_iota_def) (simp add: at_def)
qed

lemma KF_rounds:
  assumes "n < 24" "j + n \<le> 24" "length w = 25"
  shows "kst n (fold (\<lambda>i. KF_ELT i (i + 1) (keccak_RC ! (j + i))) [0..<n] w)
       = fold fips_round [j..<j + n] (kst 0 w)"
    and "length (fold (\<lambda>i. KF_ELT i (i + 1) (keccak_RC ! (j + i))) [0..<n] w) = 25"
  using assms
proof (induction n)
  case (Suc n)
  let ?s = "fold (\<lambda>i. KF_ELT i (i + 1) (keccak_RC ! (j + i))) [0..<n] w"
  { case 1
    then show ?case
      using Suc.IH KF_ELT_round [of n "j + n" ?s] by simp
  next
    case 2
    then show ?case using Suc.IH by simp
  }
qed simp_all

lemma length_mov_chain [simp]: "length (mov_chain t ds w) = length w"
  by (induction t ds w rule: mov_chain.induct) simp_all

lemma length_Pn [simp]: "length (Pn_TO_P0 u w) = length w"
  unfolding Pn_TO_P0_def by (rule length_fold) (simp add: mov_cycle_def)

definition unrolls :: "nat set" where
  "unrolls = {1, 2, 4, 6, 8, 12}"

definition keccak_perm :: "nat \<Rightarrow> nat list" where
  "keccak_perm r = map (\<lambda>k. keccak_P ! r ! swapxy k) [0..<25]"

lemma pstate_perm: "pstate (keccak_P ! r) w = map ((!) w) (keccak_perm r)"
  by (simp add: pstate_def keccak_perm_def comp_def)

lemma keccak_perm_values:
  "keccak_perm 0 = [0, 1, 2, 3, 4, 5, 6, 7, 8, 9, 10, 11, 12, 13, 14, 15, 16, 17, 18, 19, 20, 21, 22, 23,
     24]"
  "keccak_perm (Suc 0) = [0, 6, 12, 18, 24, 3, 9, 10, 16, 22, 1, 7, 13, 19, 20, 4, 5, 11, 17, 23, 2, 8, 14, 15,
     21]"
  "keccak_perm 2 = [0, 9, 13, 17, 21, 18, 22, 1, 5, 14, 6, 10, 19, 23, 2, 24, 3, 7, 11, 15, 12, 16, 20, 4,
     8]"
  "keccak_perm 4 = [0, 14, 23, 7, 16, 11, 20, 9, 18, 2, 22, 6, 15, 4, 13, 8, 17, 1, 10, 24, 19, 3, 12, 21,
     5]"
  "keccak_perm 6 = [0, 2, 4, 1, 3, 10, 12, 14, 11, 13, 20, 22, 24, 21, 23, 5, 7, 9, 6, 8, 15, 17, 19, 16,
     18]"
  "keccak_perm 8 = [0, 13, 21, 9, 17, 6, 19, 2, 10, 23, 12, 20, 8, 16, 4, 18, 1, 14, 22, 5, 24, 7, 15, 3,
     11]"
  "keccak_perm 12 = [0, 4, 3, 2, 1, 20, 24, 23, 22, 21, 15, 19, 18, 17, 16, 10, 14, 13, 12, 11, 5, 9, 8, 7,
     6]"
  by code_simp+

lemma pstate_0: "length w = 25 \<Longrightarrow> pstate (keccak_P ! 0) w = w"
  by (erule list25) (simp add: pstate_perm keccak_perm_values)

lemma Pn_moves:
  assumes "u \<in> unrolls" "length w = 25"
  shows "kst 0 (Pn_TO_P0 u w) = kst u w"
proof -
  have "pstate (keccak_P ! 0) (Pn_TO_P0 u w) = pstate (keccak_P ! u) w"
  proof (rule list25 [OF assms(2)])
    fix a b c d e f g h i j k l m n p q r s t u' v x y z A
    assume "w = [a, b, c, d, e, f, g, h, i, j, k, l, m, n, p, q, r, s, t, u', v, x, y, z, A]"
    then show ?thesis
      using assms(1) unfolding unrolls_def
      by (elim insertE emptyE)
         (simp_all add: Pn_TO_P0_def keccak_cycles_def mov_cycle_def pstate_perm keccak_perm_values
           lane_def)
  qed
  then show ?thesis by (simp add: kst_def)
qed

lemma KF_block:
  assumes u: "u \<in> unrolls" and j: "j + u \<le> 24" and w: "length w = 25"
  defines "w' \<equiv> Pn_TO_P0 u (fold (\<lambda>i. KF_ELT i (i + 1) (keccak_RC ! (j + i))) [0..<u] w)"
  shows "kst 0 w' = fold fips_round [j..<j + u] (kst 0 w)" "length w' = 25"
proof -
  have "u < 24" using u by (auto simp: unrolls_def)
  note r = KF_rounds [OF this j w]
  show "kst 0 w' = fold fips_round [j..<j + u] (kst 0 w)" "length w' = 25"
    using r Pn_moves [OF u r(2)] by (simp_all add: w'_def)
qed

lemma KF_blocks:
  assumes u: "u \<in> unrolls" and n: "u * n \<le> 24" and w: "length w = 25"
  defines "F \<equiv> \<lambda>j w. Pn_TO_P0 u (fold (\<lambda>i. KF_ELT i (i + 1) (keccak_RC ! (j + i))) [0..<u] w)"
  shows "kst 0 (fold F (map ((*) u) [0..<n]) w) = fold fips_round [0..<u * n] (kst 0 w)
    \<and> length (fold F (map ((*) u) [0..<n]) w) = 25"
  using n
proof (induction n)
  case (Suc n)
  let ?W = "fold F (map ((*) u) [0..<n]) w"
  have j: "u * n + u \<le> 24" using Suc.prems by simp
  have W: "kst 0 ?W = fold fips_round [0..<u * n] (kst 0 w)" "length ?W = 25"
    using Suc by simp_all
  have "[0..<u * Suc n] = [0..<u * n] @ [u * n..<u * n + u]"
    using upt_add_eq_append [of 0 "u * n" u] by (simp add: add.commute)
  then show ?case
    using KF_block [OF u j W(2)] W(1) by (simp add: F_def)
qed (simp_all add: w)

text \<open>Whatever the unrolling, the code is the permutation, on lanes of which six are complemented.\<close>

theorem keccak_f_code:
  assumes u: "u \<in> insert 0 unrolls" and w: "length w = 25"
  shows "complement mask_out (KECCAK_F_1600 u w) = keccak_f1600 (complement mask_out w)"
    and "length (KECCAK_F_1600 u w) = 25"
proof -
  have k0: "kst 0 v = complement mask_out v" if "length v = 25" for v
    using that by (simp add: kst_def pstate_0)
  have "kst 0 (KECCAK_F_1600 u w) = keccak_f1600 (kst 0 w) \<and> length (KECCAK_F_1600 u w) = 25"
  proof (cases "u = 0")
    case True
    let ?s = "fold (\<lambda>i. KF_ELT i (i + 1) (keccak_RC ! (0 + i))) [0..<23] w"
    have s: "kst 23 ?s = fold fips_round [0..<23] (kst 0 w)" "length ?s = 25"
      using KF_rounds [of 23 0 w] w by simp_all
    have F: "KECCAK_F_1600 u w = KF_ELT 23 0 (keccak_RC ! 23) ?s"
      unfolding KECCAK_F_1600_def True by simp
    have "[0..<24] = [0..<23] @ [23 :: nat]"
      by code_simp
    then show ?thesis
      using KF_ELT_round [of 23 23 ?s] s by (simp add: F keccak_f1600_def)
  next
    case False
    then have "u \<in> unrolls" using u by simp
    moreover from this have "u * (24 div u) = 24" by (auto simp: unrolls_def)
    ultimately show ?thesis
      using KF_blocks [of u "24 div u" w] w False by (simp add: KECCAK_F_1600_def keccak_f1600_def)
  qed
  then show "complement mask_out (KECCAK_F_1600 u w) = keccak_f1600 (complement mask_out w)"
    and "length (KECCAK_F_1600 u w) = 25"
    using k0 [OF w] k0 [of "KECCAK_F_1600 u w"] by simp_all
qed

lemma keccak_f_code_eq:
  assumes "u \<in> insert 0 unrolls" "length w = 25"
  shows "KECCAK_F_1600 u w = complement mask_out (keccak_f1600 (complement mask_out w))"
  using arg_cong [OF keccak_f_code(1) [OF assms], of "complement mask_out"] by simp

section \<open>Properties\<close>

text \<open>
  C38: \<open>KECCAK_F_1600\<close>, for every unrolling the file offers, is Keccak-f[1600] of FIPS 202, read
  through the complement mask: with the lanes \<open>a04 a10 a20 a22 a23 a31\<close> complemented before and
  after, all 24 rounds compute theta, rho, pi, chi and iota.
\<close>

theorem keccak_f_is_fips:
  assumes "u \<in> {0, 1, 2, 4, 6, 8, 12}" "length w = 25"
  shows "complement mask_out (KECCAK_F_1600 u w) = keccak_f1600 (complement mask_out w)"
  using assms by (intro keccak_f_code) (auto simp: unrolls_def)

theorem keccak_f_is_fips_witness:
  "complement mask_out (KECCAK_F_1600 8 (replicate 25 0))
   = keccak_f1600 (complement mask_out (replicate 25 0))"
  by (rule keccak_f_is_fips) simp_all

text \<open>
  The build option \<open>SPH_KECCAK_UNROLL\<close> does not change the result: on a state of 25 words all
  the unrolled loops compute the same words, in the same places.
\<close>

theorem keccak_unroll_irrelevant:
  assumes "u \<in> {0, 1, 2, 4, 6, 8, 12}" "v \<in> {0, 1, 2, 4, 6, 8, 12}" "length w = 25"
  shows "KECCAK_F_1600 u w = KECCAK_F_1600 v w"
proof -
  have "u \<in> insert 0 unrolls" "v \<in> insert 0 unrolls"
    using assms by (auto simp: unrolls_def)
  then show ?thesis by (simp add: keccak_f_code_eq assms(3))
qed

theorem keccak_unroll_irrelevant_witness:
  "KECCAK_F_1600 2 (replicate 25 5) = KECCAK_F_1600 12 (replicate 25 5)"
  by (rule keccak_unroll_irrelevant) simp_all

end
