(* ===== verification/Sph_Core.thy ===== *)
theory Sph_Core
  imports Streaming
begin

text \<open>
  The data loop that the sphlib hashes in \<^verbatim>\<open>src/crypto/ghostrider\<close> outside the template
  \<^verbatim>\<open>md_helper.c\<close> each write out: a buffer of which \<open>ptr\<close> bytes are filled, compressed whenever
  \<open>lim\<close> bytes are there. The state \<open>v\<close> and its compression function \<open>f\<close> differ from hash to hash
  and are arguments; the locale \<open>sph_stream\<close> turns a hash built this way into a \<open>stream_hash\<close>.
\<close>

section \<open>The loop\<close>

function sph_loop ::
  "nat \<Rightarrow> (bytes \<Rightarrow> 'v \<Rightarrow> 'v) \<Rightarrow> bytes \<Rightarrow> bytes \<times> nat \<times> 'v \<Rightarrow> (bytes \<times> nat \<times> 'v) option" where
  \<comment> \<open>\<open>while (len > 0)\<close>. With \<open>ptr\<close> at or past \<open>lim\<close> the C loop would copy nothing for ever or
    leave the buffer; that is \<open>None\<close>.\<close>
  "sph_loop lim f data (buf, ptr, v) =
     (if data = [] then Some (buf, ptr, v)
      else if lim \<le> ptr then None
      else let clen = min (lim - ptr) (length data)
           in memcpy_in buf ptr (take clen data) \<bind> (\<lambda>buf.
              let ptr = ptr + clen; data = drop clen data
              in if ptr = lim then sph_loop lim f data (buf, 0, f buf v)
                 else sph_loop lim f data (buf, ptr, v)))"
  by pat_completeness auto
termination
  by (relation "measure (\<lambda>(lim, f, data, s). length data)") auto

declare sph_loop.simps [simp del]

fun sph_core ::
  "nat \<Rightarrow> (bytes \<Rightarrow> 'v \<Rightarrow> 'v) \<Rightarrow> bytes \<Rightarrow> bytes \<times> nat \<times> 'v \<Rightarrow> (bytes \<times> nat \<times> 'v) option" where
  \<comment> \<open>\<open>lim - ptr\<close> is a \<open>size_t\<close>: with \<open>ptr\<close> past \<open>lim\<close> it would wrap and the copy leave the buffer\<close>
  "sph_core lim f data (buf, ptr, v) =
     (if lim < ptr then None
      else if length data < lim - ptr
      then memcpy_in buf ptr data \<bind> (\<lambda>buf. Some (buf, ptr + length data, v))
      else sph_loop lim f data (buf, ptr, v))"

declare sph_core.simps [simp del]

text \<open>A byte and the zeros after it, as the closing functions write them.\<close>

lemma store_memset:
  "ptr + Suc k \<le> length buf \<Longrightarrow>
   store_in buf ptr x \<bind> (\<lambda>buf. memset_in buf (Suc ptr) c k) = memcpy_in buf ptr (x # replicate k c)"
  by (simp add: mem_simps take_Suc_conv_app_nth)

section \<open>The last byte of a message of bits\<close>

definition sph_pad_byte :: "u32 \<Rightarrow> nat \<Rightarrow> u8" where
  "sph_pad_byte ub n =
     (let z = drop_bit n (0x80 :: u32) in ucast (((ub AND - z) OR z) AND 0xFF))"

definition byte_of_bits :: "bool list \<Rightarrow> u8" where
  \<comment> \<open>the first bit is the most significant\<close>
  "byte_of_bits bs = horner_sum of_bool 2 (rev bs)"

definition top_bits :: "nat \<Rightarrow> u32 \<Rightarrow> bool list" where
  \<comment> \<open>bits 7 down to \<open>8 - n\<close> of the last byte of \<open>ub\<close>\<close>
  "top_bits n ub = map (\<lambda>i. bit ub (7 - i)) [0..<n]"

lemma bit_byte_of_bits:
  "bit (byte_of_bits bs) i \<longleftrightarrow> i < 8 \<and> i < length bs \<and> bs ! (length bs - 1 - i)"
  by (auto simp: byte_of_bits_def bit_horner_sum_bit_word_iff rev_nth)

lemma less_8: "(i::nat) < 8 \<longleftrightarrow> i = 0 \<or> i = 1 \<or> i = 2 \<or> i = 3 \<or> i = 4 \<or> i = 5 \<or> i = 6 \<or> i = 7"
  by arith

lemma sph_pad_byte_bits:
  assumes "n < 8"
  shows "sph_pad_byte ub n = byte_of_bits (top_bits n ub @ True # replicate (7 - n) False)"
proof (rule bit_word_eqI)
  let ?bs = "top_bits n ub @ True # replicate (7 - n) False"
  fix i assume "i < LENGTH(8)"
  then have i: "i < 8" by simp
  have "drop_bit n 0x80 = (2 ^ (7 - n) :: u32)" "(0xFF :: u32) = mask 8"
    using assms by (auto simp: less_8 mask_eq_exp_minus_1)
  then have "sph_pad_byte ub n = ucast (((ub AND NOT (mask (7 - n))) OR 2 ^ (7 - n)) AND mask 8)"
    unfolding sph_pad_byte_def Let_def by (simp only: minus_exp_eq_not_mask)
  then have "bit (sph_pad_byte ub n) i \<longleftrightarrow> 7 - n \<le> i \<and> bit ub i \<or> i = 7 - n"
    using i by (auto simp: bit_simps)
  moreover have "bit (byte_of_bits ?bs) i \<longleftrightarrow> ?bs ! (7 - i)"
    using i assms by (simp add: bit_byte_of_bits top_bits_def)
  moreover have "?bs ! (7 - i) \<longleftrightarrow> 7 - n \<le> i \<and> bit ub i \<or> i = 7 - n"
  proof (cases rule: linorder_cases [of i "7 - n"])
    case less
    then have "\<not> 7 - i < n" "7 - i - n \<noteq> 0" "7 - i - n - 1 < 7 - n" using assms by linarith+
    then show ?thesis using less by (simp add: nth_append top_bits_def nth_Cons')
  next
    case equal
    then show ?thesis using assms by (simp add: nth_append top_bits_def)
  next
    case greater
    then have "7 - i < n" using i assms by linarith
    then show ?thesis using greater i by (simp add: nth_append top_bits_def)
  qed
  ultimately show "bit (sph_pad_byte ub n) i = bit (byte_of_bits ?bs) i"
    by simp
qed

section \<open>What the state holds of the message\<close>

fun sph_holds :: "nat \<Rightarrow> (bytes \<Rightarrow> 'v \<Rightarrow> 'v) \<Rightarrow> 'v \<Rightarrow> bytes \<Rightarrow> bytes \<times> nat \<times> 'v \<Rightarrow> bool" where
  "sph_holds lim f v0 m (buf, ptr, v) \<longleftrightarrow>
     lim \<le> length buf \<and> ptr = length (rest (lim - 1) lim m) \<and> take ptr buf = rest (lim - 1) lim m
     \<and> v = absorb (lim - 1) lim f m v0"

fun sph_fresh :: "nat \<Rightarrow> 'v \<Rightarrow> bytes \<times> nat \<times> 'v \<Rightarrow> bool" where
  "sph_fresh lim v0 (buf, ptr, v) \<longleftrightarrow> lim \<le> length buf \<and> ptr = 0 \<and> v = v0"

lemma sph_fresh_holds: "sph_fresh lim v0 s \<Longrightarrow> sph_holds lim f v0 [] s"
  by (cases s) simp

declare sph_holds.simps [simp del]

locale sph_block =
  fixes lim :: nat
    and f :: "bytes \<Rightarrow> 'v \<Rightarrow> 'v"
  assumes lim_pos: "0 < lim"
    and reads_block: "lim \<le> length buf \<Longrightarrow> f (take lim buf) v = f buf v"
begin

lemma holds_ptr: "sph_holds lim f v0 m (buf, ptr, v) \<Longrightarrow> ptr < lim"
  using rest_bound [of lim "lim - 1" m] lim_pos by (auto simp: sph_holds.simps)

lemma holds_small:
  assumes h: "sph_holds lim f v0 m (buf, ptr, v)" and d: "ptr + length d < lim"
  shows "\<exists>buf'. memcpy_in buf ptr d = Some buf' \<and> length buf' = length buf
    \<and> sph_holds lim f v0 (m @ d) (buf', ptr + length d, v)"
proof -
  let ?r = "rest (lim - 1) lim"
  have r: "?r (m @ d) = ?r m @ d" "absorb (lim - 1) lim f (m @ d) v0 = v"
    using h d lim_pos by (simp_all add: sph_holds.simps rest_append [of lim _ m d] absorb_append [of lim _ _ m d])
  show ?thesis
    using h d r by (auto simp: sph_holds.simps mem_simps)
qed

lemma holds_fill:
  assumes h: "sph_holds lim f v0 m (buf, ptr, v)" and d: "ptr + length d = lim"
  shows "\<exists>buf'. memcpy_in buf ptr d = Some buf' \<and> length buf' = length buf
    \<and> sph_holds lim f v0 (m @ d) (buf', 0, f buf' v)"
proof -
  let ?r = "rest (lim - 1) lim"
  have len: "length (?r m @ d) = lim" using h d by (simp add: sph_holds.simps)
  have r: "?r (m @ d) = []" "absorb (lim - 1) lim f (m @ d) v0 = f (?r m @ d) v"
    using h lim_pos len
    by (simp_all add: sph_holds.simps rest_append [of lim _ m d] absorb_append [of lim _ _ m d] absorb_block rest_block)
  let ?b = "take ptr buf @ d @ drop lim buf"
  have mem: "memcpy_in buf ptr d = Some ?b" "length ?b = length buf"
    using h d by (auto simp: sph_holds.simps mem_simps)
  have "take lim ?b = ?r m @ d"
    using h d by (auto simp: sph_holds.simps)
  then have "f ?b v = f (?r m @ d) v"
    using reads_block [of ?b v] mem h by (simp add: sph_holds.simps)
  then show ?thesis
    using mem r h by (auto simp: sph_holds.simps)
qed

lemma loop_holds:
  "sph_holds lim f v0 m s \<Longrightarrow>
   \<exists>s'. sph_loop lim f data s = Some s' \<and> sph_holds lim f v0 (m @ data) s' \<and> length (fst s') = length (fst s)"
proof (induction data arbitrary: m s rule: length_induct)
  case (1 data)
  obtain buf ptr v where s: "s = (buf, ptr, v)" by (cases s)
  show ?case
  proof (cases "data = []")
    case True
    then show ?thesis using "1.prems" by (simp add: s sph_loop.simps)
  next
    case False
    let ?clen = "min (lim - ptr) (length data)"
    have ptr: "ptr < lim" using "1.prems" unfolding s by (rule holds_ptr)
    have less: "length (drop ?clen data) < length data" using False ptr by simp
    note IH = "1.IH" [rule_format, OF less]
    show ?thesis
    proof (cases "ptr + ?clen = lim")
      case full: True
      then obtain buf' where "memcpy_in buf ptr (take ?clen data) = Some buf'" "length buf' = length buf"
        "sph_holds lim f v0 (m @ take ?clen data) (buf', 0, f buf' v)"
        using holds_fill [of v0 m buf ptr v "take ?clen data"] "1.prems" by (auto simp: s)
      with IH [of "m @ take ?clen data" "(buf', 0, f buf' v)"] False ptr full show ?thesis
        by (simp add: s sph_loop.simps [of lim f data] Let_def)
    next
      case part: False
      then have all: "ptr + length data < lim" using ptr by (simp add: min_def split: if_splits)
      then obtain buf' where "memcpy_in buf ptr data = Some buf'" "length buf' = length buf"
        "sph_holds lim f v0 (m @ data) (buf', ptr + length data, v)"
        using holds_small [of v0 m buf ptr v data] "1.prems" by (auto simp: s)
      with all False show ?thesis
        by (simp add: s sph_loop.simps [of lim f data] sph_loop.simps [of lim f "[]"])
    qed
  qed
qed

lemma core_holds:
  assumes "sph_holds lim f v0 m s"
  shows "\<exists>s'. sph_core lim f data s = Some s' \<and> sph_holds lim f v0 (m @ data) s'
    \<and> length (fst s') = length (fst s)"
proof -
  obtain buf ptr v where s: "s = (buf, ptr, v)" by (cases s)
  have ptr: "ptr < lim" using assms unfolding s by (rule holds_ptr)
  show ?thesis
  proof (cases "length data < lim - ptr")
    case True
    then show ?thesis
      using holds_small [of v0 m buf ptr v data] assms ptr by (fastforce simp: s sph_core.simps)
  next
    case False
    then show ?thesis
      using loop_holds [OF assms, of data] ptr by (simp add: s sph_core.simps)
  qed
qed

text \<open>A piece that fills the buffer exactly, in whatever state the hash is.\<close>

lemma core_block:
  assumes "lim \<le> length buf" "ptr + length d = lim" "d \<noteq> []"
  shows "\<exists>buf'. sph_core lim f d (buf, ptr, v) = Some (buf', 0, f (take ptr buf @ d) v) \<and> length buf' = length buf"
proof -
  let ?b = "take ptr buf @ d @ drop lim buf"
  have mem: "memcpy_in buf ptr d = Some ?b" "length ?b = length buf"
    using assms by (auto simp: mem_simps)
  have "take lim ?b = take ptr buf @ d" using assms by auto
  then have "f ?b v = f (take ptr buf @ d) v"
    using reads_block [of ?b v] mem assms(1) by simp
  then show ?thesis
    using mem assms by (auto simp: sph_core.simps sph_loop.simps [of lim f d] sph_loop.simps [of lim f "[]"])
qed

text \<open>After whole blocks the buffer is empty and everything has been compressed.\<close>

lemma holds_whole:
  assumes "sph_holds lim f v0 m (buf, ptr, v)" "length m mod lim = 0"
  shows "ptr = 0 \<and> v = absorb (lim - 1) lim f m v0"
  using assms length_rest_eager [OF lim_pos, of m] by (auto simp: sph_holds.simps)

end

section \<open>A hash built on the loop\<close>

text \<open>
  \<open>view s\<close>: buffer, pointer and state in the hash's context. The provider shows that its update is
  the loop on the view, and what its close gives on a context that holds a message.
\<close>

locale sph_stream = sph_block lim f for lim :: nat and f :: "bytes \<Rightarrow> 'v \<Rightarrow> 'v" +
  fixes view :: "'s \<Rightarrow> bytes \<times> nat \<times> 'v"
    and v0 :: 'v
    and upd :: "'s \<Rightarrow> bytes \<Rightarrow> 's option"
    and close :: "'s \<Rightarrow> 'd option"
    and digest :: "bytes \<Rightarrow> 'd"
    and ok :: "bytes \<Rightarrow> bool"
  assumes upd_core: "sph_core lim f d (view s) = Some t \<Longrightarrow> \<exists>s'. upd s d = Some s' \<and> view s' = t"
    and close_holds: "sph_holds lim f v0 m (view s) \<Longrightarrow> ok m \<Longrightarrow> close s = Some (digest m)"

sublocale sph_stream \<subseteq> stream_hash "\<lambda>s. sph_fresh lim v0 (view s)" upd close
  "\<lambda>s m. sph_holds lim f v0 m (view s)" digest ok
proof unfold_locales
  show "\<exists>s'. upd s d = Some s' \<and> sph_holds lim f v0 (m @ d) (view s')"
    if "sph_holds lim f v0 m (view s)" for s m d
    using core_holds [OF that, of d] upd_core by fastforce
qed (simp_all add: sph_fresh_holds close_holds)

end
