(* ===== verification/Keccak.thy ===== *)
theory Keccak
  imports Keccak_F Sph_Core
begin

text \<open>
  \<^verbatim>\<open>src/crypto/ghostrider/sph_keccak.c\<close>, the hash functions: the context of \<^verbatim>\<open>sph_keccak.h\<close>, its
  initialisation, the data loop \<open>keccak_core\<close>, the closing function the macro \<open>DEFCLOSE\<close> writes
  once per output size, and the twelve entry points around them. The words are those of the 64-bit
  build with the default unrolling, which by \<open>keccak_unroll_irrelevant\<close> is as good as any.
  The global variable \<open>hard_coded_eb\<close>, the first padding byte, is an argument \<open>eb\<close>.
\<close>

section \<open>The code\<close>

record keccak_ctx =
  kc_buf :: bytes
  kc_ptr :: nat
  kc_lim :: nat
  kc_wide :: "u64 list"

definition INPUT_BUF :: "nat \<Rightarrow> bytes \<Rightarrow> u64 list \<Rightarrow> u64 list" where
  \<comment> \<open>\<open>for (j = 0; j < size; j += 8)\<close>; the sizes are multiples of 8\<close>
  "INPUT_BUF sz buf w =
     fold (\<lambda>j w. w[j div 8 := w ! (j div 8) XOR sph_dec64le (drop j buf)])
       (map ((*) 8) [0..<sz div 8]) w"

definition keccak_block :: "nat \<Rightarrow> bytes \<Rightarrow> u64 list \<Rightarrow> u64 list" where
  "keccak_block lim buf w = KECCAK_F_1600 8 (INPUT_BUF lim buf w)"

definition keccak_init :: "nat \<Rightarrow> keccak_ctx \<Rightarrow> keccak_ctx" where
  "keccak_init out_size kc =
     kc\<lparr>kc_wide := (replicate 25 0)
          [1 := 0xFFFFFFFFFFFFFFFF, 2 := 0xFFFFFFFFFFFFFFFF, 8 := 0xFFFFFFFFFFFFFFFF,
           12 := 0xFFFFFFFFFFFFFFFF, 17 := 0xFFFFFFFFFFFFFFFF, 20 := 0xFFFFFFFFFFFFFFFF],
        kc_ptr := 0,
        kc_lim := 200 - out_size div 4\<rparr>"

definition kc_view :: "keccak_ctx \<Rightarrow> bytes \<times> nat \<times> u64 list" where
  "kc_view kc = (kc_buf kc, kc_ptr kc, kc_wide kc)"

definition keccak_core :: "nat \<Rightarrow> keccak_ctx \<Rightarrow> bytes \<Rightarrow> keccak_ctx option" where
  \<comment> \<open>\<open>lim\<close> is the argument of the C function, not the field\<close>
  "keccak_core lim kc data =
     sph_core lim (keccak_block lim) data (kc_view kc) \<bind> (\<lambda>(buf, ptr, w).
     Some (kc\<lparr>kc_buf := buf, kc_ptr := ptr, kc_wide := w\<rparr>))"

definition keccak_tmp :: "u32 \<Rightarrow> nat \<Rightarrow> nat \<Rightarrow> nat \<Rightarrow> bytes option" where
  \<comment> \<open>the first \<open>j\<close> bytes of \<open>u.tmp\<close>; past the last position of the buffer \<open>lim - kc->ptr\<close> and
    \<open>j - 2\<close> wrap around and \<open>memset\<close> leaves the array\<close>
  "keccak_tmp eb lim ptr n =
     (if ptr = lim - 1 then
        if n = 7 then Some (ucast eb # replicate (lim - 1) 0 @ [0x80])
        else Some [ucast (eb OR 0x80)]
      else if lim - 1 < ptr then None
      else let j = lim - ptr in Some (ucast eb # replicate (j - 2) 0 @ [0x80]))"

definition keccak_close ::
  "u32 \<Rightarrow> nat \<Rightarrow> nat \<Rightarrow> keccak_ctx \<Rightarrow> u32 \<Rightarrow> nat \<Rightarrow> (keccak_ctx \<times> bytes) option" where
  \<comment> \<open>\<open>DEFCLOSE(d, lim)\<close>: the context left behind and the \<open>d\<close> bytes written to \<open>dst\<close>. The words
    are encoded into \<open>u.tmp\<close>, which has \<open>lim + 1\<close> bytes, and \<open>d\<close> bytes copied from there.\<close>
  "keccak_close eb d lim kc ub n =
     keccak_tmp eb lim (kc_ptr kc) n \<bind> (\<lambda>tmp.
     keccak_core lim kc tmp \<bind> (\<lambda>kc.
     let w = kc_wide kc;
         w = w[1 := NOT (w ! 1)];
         w = w[2 := NOT (w ! 2)];
         w = w[8 := NOT (w ! 8)];
         w = w[12 := NOT (w ! 12)];
         w = w[17 := NOT (w ! 17)];
         w = w[20 := NOT (w ! 20)]
     in Some (kc\<lparr>kc_wide := w\<rparr>,
              take d (concat (map (\<lambda>j. sph_enc64le (w ! (j div 8)))
                                  (map ((*) 8) [0..<(d + 7) div 8]))))))"

definition sph_keccak224_init :: "keccak_ctx \<Rightarrow> keccak_ctx" where
  "sph_keccak224_init cc = keccak_init 224 cc"

definition sph_keccak224 :: "keccak_ctx \<Rightarrow> bytes \<Rightarrow> keccak_ctx option" where
  "sph_keccak224 cc data = keccak_core 144 cc data"

definition sph_keccak224_addbits_and_close ::
  "u32 \<Rightarrow> keccak_ctx \<Rightarrow> u32 \<Rightarrow> nat \<Rightarrow> (keccak_ctx \<times> bytes) option" where
  "sph_keccak224_addbits_and_close eb cc ub n = keccak_close eb 28 144 cc ub n"

definition sph_keccak224_close :: "u32 \<Rightarrow> keccak_ctx \<Rightarrow> (keccak_ctx \<times> bytes) option" where
  "sph_keccak224_close eb cc = sph_keccak224_addbits_and_close eb cc 0 0"

definition sph_keccak256_init :: "keccak_ctx \<Rightarrow> keccak_ctx" where
  "sph_keccak256_init cc = keccak_init 256 cc"

definition sph_keccak256 :: "keccak_ctx \<Rightarrow> bytes \<Rightarrow> keccak_ctx option" where
  "sph_keccak256 cc data = keccak_core 136 cc data"

definition sph_keccak256_addbits_and_close ::
  "u32 \<Rightarrow> keccak_ctx \<Rightarrow> u32 \<Rightarrow> nat \<Rightarrow> (keccak_ctx \<times> bytes) option" where
  "sph_keccak256_addbits_and_close eb cc ub n = keccak_close eb 32 136 cc ub n"

definition sph_keccak256_close :: "u32 \<Rightarrow> keccak_ctx \<Rightarrow> (keccak_ctx \<times> bytes) option" where
  "sph_keccak256_close eb cc = sph_keccak256_addbits_and_close eb cc 0 0"

definition sph_keccak384_init :: "keccak_ctx \<Rightarrow> keccak_ctx" where
  "sph_keccak384_init cc = keccak_init 384 cc"

definition sph_keccak384 :: "keccak_ctx \<Rightarrow> bytes \<Rightarrow> keccak_ctx option" where
  "sph_keccak384 cc data = keccak_core 104 cc data"

definition sph_keccak384_addbits_and_close ::
  "u32 \<Rightarrow> keccak_ctx \<Rightarrow> u32 \<Rightarrow> nat \<Rightarrow> (keccak_ctx \<times> bytes) option" where
  "sph_keccak384_addbits_and_close eb cc ub n = keccak_close eb 48 104 cc ub n"

definition sph_keccak384_close :: "u32 \<Rightarrow> keccak_ctx \<Rightarrow> (keccak_ctx \<times> bytes) option" where
  "sph_keccak384_close eb cc = sph_keccak384_addbits_and_close eb cc 0 0"

definition sph_keccak512_init :: "keccak_ctx \<Rightarrow> keccak_ctx" where
  "sph_keccak512_init cc = keccak_init 512 cc"

definition sph_keccak512 :: "keccak_ctx \<Rightarrow> bytes \<Rightarrow> keccak_ctx option" where
  "sph_keccak512 cc data = keccak_core 72 cc data"

definition sph_keccak512_addbits_and_close ::
  "u32 \<Rightarrow> keccak_ctx \<Rightarrow> u32 \<Rightarrow> nat \<Rightarrow> (keccak_ctx \<times> bytes) option" where
  "sph_keccak512_addbits_and_close eb cc ub n = keccak_close eb 64 72 cc ub n"

definition sph_keccak512_close :: "u32 \<Rightarrow> keccak_ctx \<Rightarrow> (keccak_ctx \<times> bytes) option" where
  "sph_keccak512_close eb cc = sph_keccak512_addbits_and_close eb cc 0 0"

section \<open>The sponge\<close>

definition sponge_pad :: "nat \<Rightarrow> u8 \<Rightarrow> bytes \<Rightarrow> bytes" where
  \<comment> \<open>the domain byte \<open>eb\<close>, zeros, and the last bit of the block set\<close>
  "sponge_pad rate eb m =
     (let q = rate - length m mod rate
      in m @ (if q = 1 then [eb OR 0x80] else eb # replicate (q - 2) 0 @ [0x80]))"

definition sponge_block :: "nat \<Rightarrow> bytes \<Rightarrow> u64 list \<Rightarrow> u64 list" where
  "sponge_block rate b S =
     keccak_f1600 (map (\<lambda>k. if k < rate div 8 then S ! k XOR sph_dec64le (take 8 (drop (8 * k) b)) else S ! k)
                   [0..<25])"

definition sponge_state :: "nat \<Rightarrow> u8 \<Rightarrow> bytes \<Rightarrow> u64 list" where
  "sponge_state rate eb m =
     absorb (rate - 1) rate (sponge_block rate) (sponge_pad rate eb m) (replicate 25 0)"

definition squeeze :: "nat \<Rightarrow> u64 list \<Rightarrow> bytes" where
  "squeeze d S = take d (concat (map sph_enc64le S))"

definition keccak_digest :: "nat \<Rightarrow> nat \<Rightarrow> u8 \<Rightarrow> bytes \<Rightarrow> bytes" where
  "keccak_digest rate d eb m = squeeze d (sponge_state rate eb m)"

section \<open>The block function\<close>

lemma INPUT_BUF_map:
  "INPUT_BUF sz buf w
       = map (\<lambda>k. if k < sz div 8 then w ! k XOR sph_dec64le (drop (8 * k) buf) else w ! k) [0..<length w]"
proof -
  have "fold (\<lambda>j w. w[j div 8 := w ! (j div 8) XOR sph_dec64le (drop j buf)]) (map ((*) 8) [0..<n]) w
      = map (\<lambda>k. if k < n then w ! k XOR sph_dec64le (drop (8 * k) buf) else w ! k) [0..<length w]"
    for n
  proof (induction n)
    case 0
    then show ?case by (simp add: map_nth)
  next
    case (Suc n)
    then show ?case by (auto simp: nth_list_update less_Suc_eq intro!: nth_equalityI)
  qed
  then show ?thesis by (simp add: INPUT_BUF_def)
qed

lemma dec64le_take: "8 \<le> n \<Longrightarrow> sph_dec64le (take n b) = sph_dec64le b"
  by (simp add: codec_defs)

lemma keccak_block_take: "keccak_block lim (take lim buf) w = keccak_block lim buf w"
proof -
  have "sph_dec64le (drop (8 * k) (take lim buf)) = sph_dec64le (drop (8 * k) buf)" if "k < lim div 8" for k
    using that by (subst drop_take) (rule dec64le_take, linarith)
  then show ?thesis
    by (simp add: keccak_block_def INPUT_BUF_map cong: if_cong)
qed

lemma length_keccak_block [simp]:
  "length w = 25 \<Longrightarrow> length (keccak_block lim buf w) = 25"
  using keccak_f_code(2) [of 8] by (simp add: keccak_block_def INPUT_BUF_map unrolls_def)

lemma complement_map_xor:
  "complement M (map (\<lambda>k. if P k then w ! k XOR f k else w ! k) [0..<length w])
   = map (\<lambda>k. if P k then complement M w ! k XOR f k else complement M w ! k) [0..<length w]"
  by (rule nth_equalityI) (auto simp: complement_def)

lemma keccak_block_sponge:
  assumes "length w = 25"
  shows "complement mask_out (keccak_block lim buf w) = sponge_block lim buf (complement mask_out w)"
proof -
  have "complement mask_out (keccak_block lim buf w) = keccak_f1600 (complement mask_out (INPUT_BUF lim buf w))"
    using keccak_f_code(1) [of 8 "INPUT_BUF lim buf w"] assms
    by (simp add: keccak_block_def unrolls_def INPUT_BUF_map)
  moreover have "complement mask_out (INPUT_BUF lim buf w)
      = map (\<lambda>k. if k < lim div 8 then complement mask_out w ! k XOR sph_dec64le (take 8 (drop (8 * k) buf))
                 else complement mask_out w ! k) [0..<25]"
    using complement_map_xor [of mask_out "\<lambda>k. k < lim div 8" w "\<lambda>k. sph_dec64le (drop (8 * k) buf)"] assms
    by (simp add: INPUT_BUF_map dec64le_take)
  ultimately show ?thesis by (simp add: sponge_block_def)
qed

section \<open>Closing\<close>

lemma tmp_pad:
  assumes "0 < lim" "n \<noteq> 7"
  shows "\<exists>tmp. keccak_tmp eb lim (length m mod lim) n = Some tmp \<and> m @ tmp = sponge_pad lim (ucast eb) m
    \<and> length (m @ tmp) mod lim = 0"
proof -
  let ?p = "length m mod lim"
  have p: "?p < lim" using assms by simp
  have w: "(length m + (lim - ?p)) mod lim = 0"
    using p by (metis add.commute le_add_diff_inverse2 less_imp_le_nat mod_add_left_eq mod_self)
  have eb: "(ucast (eb OR 0x80) :: u8) = ucast eb OR 0x80"
    by (rule bit_word_eqI) (auto simp: bit_simps)
  show ?thesis
  proof (cases "?p = lim - 1")
    case True
    then have "lim - ?p = 1" using assms by simp
    then show ?thesis using w True assms by (simp add: keccak_tmp_def sponge_pad_def eb)
  next
    case False
    define q where "q = lim - ?p"
    have q: "q \<noteq> 1" "2 \<le> q" "\<not> lim - 1 < ?p" using p False unfolding q_def by linarith+
    from q(2) obtain z where z: "q = z + 2" by (metis le_add_diff_inverse2)
    show ?thesis
      using q False w by (simp add: keccak_tmp_def sponge_pad_def Let_def z flip: q_def)
  qed
qed

definition keccak_iv :: "u64 list" where
  "keccak_iv = [0, -1, -1, 0, 0, 0, 0, 0, -1, 0, 0, 0, -1, 0, 0, 0, 0, -1, 0, 0, -1, 0, 0, 0, 0]"

lemma replicate_25: "replicate 25 x = [x, x, x, x, x, x, x, x, x, x, x, x, x, x, x, x, x, x, x, x, x, x, x, x, x]"
  by (simp add: numeral_eq_Suc)

lemma init_view: "kc_view (keccak_init out_size kc) = (kc_buf kc, 0, keccak_iv)"
  by (simp add: kc_view_def keccak_init_def keccak_iv_def replicate_25)

lemma keccak_iv_zero: "length keccak_iv = 25" "complement mask_out keccak_iv = replicate 25 0"
  by (simp_all add: keccak_iv_def complement_def mask_values upt_25 replicate_25)

lemma keccak_absorb:
  assumes "length w = 25"
  shows "complement mask_out (absorb k lim (keccak_block lim) m w)
       = absorb k lim (sponge_block lim) m (complement mask_out w)"
    and "length (absorb k lim (keccak_block lim) m w) = 25"
  using absorb_commute [of "\<lambda>w. length w = 25" w "keccak_block lim" "complement mask_out" "sponge_block lim" k lim m]
    assms by (simp_all add: keccak_block_sponge)

text \<open>Undoing the complement, the last step before the digest is read.\<close>

lemma finalize_complement:
  assumes "length w = 25"
  shows "(let w = w[1 := NOT (w ! 1)]; w = w[2 := NOT (w ! 2)]; w = w[8 := NOT (w ! 8)];
     w = w[12 := NOT (w ! 12)]; w = w[17 := NOT (w ! 17)] in w[20 := NOT (w ! 20)])
   = complement mask_out w"
  using assms by (elim list25) (simp add: complement_def mask_values upt_25)

lemma squeeze_take:
  assumes "length S = 25" "d \<le> 200"
  shows "take d (concat (map (\<lambda>j. sph_enc64le (S ! (j div 8))) (map ((*) 8) [0..<(d + 7) div 8]))) = squeeze d S"
proof -
  let ?n = "(d + 7) div 8"
  have n: "?n \<le> 25" "d \<le> 8 * ?n" using assms by linarith+
  have "map (\<lambda>j. sph_enc64le (S ! (j div 8))) (map ((*) 8) [0..<?n]) = map sph_enc64le (take ?n S)"
    using n assms by (auto intro!: nth_equalityI)
  moreover have "concat (map sph_enc64le S) = concat (map sph_enc64le (take ?n S)) @ concat (map sph_enc64le (drop ?n S))"
    by (metis append_take_drop_id concat_append map_append)
  moreover have "length (concat (map sph_enc64le (take ?n S))) = 8 * ?n"
    using n assms by (simp add: length_concat comp_def sum_list_triv)
  ultimately show ?thesis using n by (simp add: squeeze_def)
qed

lemma keccak_sph_block: "0 < lim \<Longrightarrow> sph_block lim (keccak_block lim)"
  by unfold_locales (simp_all add: keccak_block_take)

lemma keccak_close_digest:
  assumes h: "sph_holds lim (keccak_block lim) keccak_iv m (kc_view kc)"
    and lim: "0 < lim" and d: "d \<le> 200" and n: "n \<noteq> 7"
  shows "\<exists>buf. keccak_close eb d lim kc ub n =
     Some (kc\<lparr>kc_buf := buf, kc_ptr := 0, kc_wide := sponge_state lim (ucast eb) m\<rparr>,
           keccak_digest lim d (ucast eb) m)"
proof -
  note blk = keccak_sph_block [OF lim]
  have "kc_ptr kc = length m mod lim"
    using h length_rest_eager [OF lim, of m] by (simp add: kc_view_def sph_holds.simps)
  then obtain tmp where tmp: "keccak_tmp eb lim (kc_ptr kc) n = Some tmp"
    "m @ tmp = sponge_pad lim (ucast eb) m" "length (m @ tmp) mod lim = 0"
    using tmp_pad [OF lim n] by metis
  obtain buf ptr w where core: "sph_core lim (keccak_block lim) tmp (kc_view kc) = Some (buf, ptr, w)"
    "sph_holds lim (keccak_block lim) keccak_iv (m @ tmp) (buf, ptr, w)"
    using sph_block.core_holds [OF blk h, of tmp] by auto
  have w: "ptr = 0" "w = absorb (lim - 1) lim (keccak_block lim) (m @ tmp) keccak_iv"
    using sph_block.holds_whole [OF blk core(2) tmp(3)] by simp_all
  then have len: "length w = 25" and S: "complement mask_out w = sponge_state lim (ucast eb) m"
    using keccak_absorb [OF keccak_iv_zero(1), of "lim - 1" lim "m @ tmp"]
    by (simp_all add: keccak_iv_zero sponge_state_def tmp(2))
  let ?kc = "kc\<lparr>kc_buf := buf, kc_ptr := 0, kc_wide := w\<rparr>"
  have fin: "keccak_close eb d lim kc ub n = Some (?kc\<lparr>kc_wide := complement mask_out w\<rparr>,
      take d (concat (map (\<lambda>j. sph_enc64le (complement mask_out w ! (j div 8))) (map ((*) 8) [0..<(d + 7) div 8]))))"
    unfolding finalize_complement [OF len, symmetric]
    by (simp add: keccak_close_def keccak_core_def tmp(1) core(1) w(1) Let_def)
  have "length (sponge_state lim (ucast eb) m) = 25"
    using len by (simp flip: S)
  from squeeze_take [OF this d] fin show ?thesis
    by (auto simp: S keccak_digest_def)
qed

lemma keccak_upd_core:
  "sph_core lim (keccak_block lim) d (kc_view kc) = Some t \<Longrightarrow>
   \<exists>kc'. keccak_core lim kc d = Some kc' \<and> kc_view kc' = t"
  by (cases t) (simp add: keccak_core_def kc_view_def)

lemma keccak_close_snd:
  assumes "sph_holds lim (keccak_block lim) keccak_iv m (kc_view kc)" "0 < lim" "d \<le> 200" "n \<noteq> 7"
  shows "map_option snd (keccak_close eb d lim kc ub n) = Some (keccak_digest lim d (ucast eb) m)"
  using keccak_close_digest [OF assms, of eb ub] by auto

section \<open>The four hashes as streams\<close>

text \<open>
  Each variant, on the code's own functions, is a \<open>stream_hash\<close>: the laws of the loop are
  \<open>sph_stream\<close>'s, the digest is the sponge's.
\<close>

interpretation keccak224: sph_stream 144 "keccak_block 144" kc_view keccak_iv sph_keccak224
  "\<lambda>kc. map_option snd (sph_keccak224_close eb kc)" "keccak_digest 144 28 (ucast eb)" "\<lambda>_. True"
  for eb
  by unfold_locales
     (simp_all add: keccak_block_take keccak_upd_core sph_keccak224_def keccak_close_snd
       sph_keccak224_close_def sph_keccak224_addbits_and_close_def)

interpretation keccak256: sph_stream 136 "keccak_block 136" kc_view keccak_iv sph_keccak256
  "\<lambda>kc. map_option snd (sph_keccak256_close eb kc)" "keccak_digest 136 32 (ucast eb)" "\<lambda>_. True"
  for eb
  by unfold_locales
     (simp_all add: keccak_block_take keccak_upd_core sph_keccak256_def keccak_close_snd
       sph_keccak256_close_def sph_keccak256_addbits_and_close_def)

interpretation keccak384: sph_stream 104 "keccak_block 104" kc_view keccak_iv sph_keccak384
  "\<lambda>kc. map_option snd (sph_keccak384_close eb kc)" "keccak_digest 104 48 (ucast eb)" "\<lambda>_. True"
  for eb
  by unfold_locales
     (simp_all add: keccak_block_take keccak_upd_core sph_keccak384_def keccak_close_snd
       sph_keccak384_close_def sph_keccak384_addbits_and_close_def)

interpretation keccak512: sph_stream 72 "keccak_block 72" kc_view keccak_iv sph_keccak512
  "\<lambda>kc. map_option snd (sph_keccak512_close eb kc)" "keccak_digest 72 64 (ucast eb)" "\<lambda>_. True"
  for eb
  by unfold_locales
     (simp_all add: keccak_block_take keccak_upd_core sph_keccak512_def keccak_close_snd
       sph_keccak512_close_def sph_keccak512_addbits_and_close_def)

lemma keccak_fresh:
  "length (kc_buf cc) = 144 \<Longrightarrow> lim \<le> 144 \<Longrightarrow> sph_fresh lim keccak_iv (kc_view (keccak_init b cc))"
  by (simp add: init_view)

lemma keccak_holds:
  assumes "length (kc_buf cc) = 144" "feed sph_keccak512 (sph_keccak512_init cc) ds = Some kc"
  shows "sph_holds 72 (keccak_block 72) keccak_iv (concat ds) (kc_view kc)"
  using keccak512.feed_fresh [of "sph_keccak512_init cc" ds] keccak_fresh [OF assms(1), of 72 512] assms(2)
  by (auto simp: sph_keccak512_init_def)

definition keccak_blank :: keccak_ctx where
  \<comment> \<open>a context for the witnesses\<close>
  "keccak_blank = \<lparr>kc_buf = replicate 144 7, kc_ptr = 3, kc_lim = 0, kc_wide = []\<rparr>"

section \<open>Properties\<close>

text \<open>
  C5: initialise, update in pieces of any size, close: the four functions compute the Keccak
  sponge with capacity of twice the digest length over Keccak-f[1600] of FIPS 202, with the first
  padding byte \<open>hard_coded_eb\<close> (1 gives Keccak as submitted, 6 gives SHA-3), and never leave their
  buffers.
\<close>

theorem keccak_hashes_are_sponges:
  assumes "length (kc_buf cc) = 144"
  shows
    "feed sph_keccak224 (sph_keccak224_init cc) ds \<bind> (\<lambda>kc. map_option snd (sph_keccak224_close eb kc))
     = Some (keccak_digest 144 28 (ucast eb) (concat ds)) \<and>
    feed sph_keccak256 (sph_keccak256_init cc) ds \<bind> (\<lambda>kc. map_option snd (sph_keccak256_close eb kc))
     = Some (keccak_digest 136 32 (ucast eb) (concat ds)) \<and>
    feed sph_keccak384 (sph_keccak384_init cc) ds \<bind> (\<lambda>kc. map_option snd (sph_keccak384_close eb kc))
     = Some (keccak_digest 104 48 (ucast eb) (concat ds)) \<and>
    feed sph_keccak512 (sph_keccak512_init cc) ds \<bind> (\<lambda>kc. map_option snd (sph_keccak512_close eb kc))
     = Some (keccak_digest 72 64 (ucast eb) (concat ds))"
  using assms
  by (simp add: keccak224.hash_chunks keccak256.hash_chunks keccak384.hash_chunks
    keccak512.hash_chunks keccak_fresh sph_keccak224_init_def sph_keccak256_init_def
    sph_keccak384_init_def sph_keccak512_init_def)

theorem keccak_hashes_are_sponges_witness:
  "feed sph_keccak512 (sph_keccak512_init keccak_blank) [[1, 2], replicate 80 9]
     \<bind> (\<lambda>kc. map_option snd (sph_keccak512_close 1 kc))
   = Some (keccak_digest 72 64 (ucast (1 :: u32)) (1 # 2 # replicate 80 9))"
  using keccak_hashes_are_sponges [of keccak_blank "[[1, 2], replicate 80 9]" 1]
  by (simp add: keccak_blank_def)

text \<open>
  \<open>sph_keccak512_addbits_and_close\<close> does not hash the extra bits it is given: for \<open>n < 7\<close> the
  digest is that of the whole bytes alone, so messages that differ in their last bits collide.
  The header promises that the \<open>n\<close> bits are added to the message.
\<close>

theorem keccak_drops_extra_bits:
  assumes "length (kc_buf cc) = 144" "feed sph_keccak512 (sph_keccak512_init cc) ds = Some kc"
    and "n < 7"
  shows "map_option snd (sph_keccak512_addbits_and_close eb kc ub n)
       = Some (keccak_digest 72 64 (ucast eb) (concat ds))"
  using keccak_close_snd [OF keccak_holds [OF assms(1,2)], of 64 n eb ub] assms(3)
  by (simp add: sph_keccak512_addbits_and_close_def)

theorem keccak_drops_extra_bits_witness:
  "map_option snd (sph_keccak512_addbits_and_close 1 (sph_keccak512_init keccak_blank) 0xE0 3)
   = Some (keccak_digest 72 64 (ucast (1 :: u32)) [])"
  using keccak_drops_extra_bits [where cc = keccak_blank and ds = "[]" and n = 3 and eb = 1 and ub = "0xE0"]
  by (simp add: keccak_blank_def)

text \<open>
  Closing does not reinitialise the context, though the header says it does: the words left in
  it are the final state of the sponge, not complemented, and the digest can be read off them.
\<close>

theorem keccak_close_leaves_state:
  assumes "length (kc_buf cc) = 144" "feed sph_keccak512 (sph_keccak512_init cc) ds = Some kc"
  shows "\<exists>kc'. sph_keccak512_close eb kc = Some (kc', squeeze 64 (kc_wide kc'))
    \<and> kc_wide kc' = sponge_state 72 (ucast eb) (concat ds) \<and> kc_ptr kc' = 0"
  using keccak_close_digest [OF keccak_holds [OF assms], of 64 0 eb 0]
  by (auto simp: sph_keccak512_close_def sph_keccak512_addbits_and_close_def keccak_digest_def)

theorem keccak_close_leaves_state_witness:
  "\<exists>kc'. sph_keccak512_close 1 (sph_keccak512_init keccak_blank) = Some (kc', squeeze 64 (kc_wide kc'))
    \<and> kc_wide kc' = sponge_state 72 (ucast (1 :: u32)) [] \<and> kc_ptr kc' = 0"
  using keccak_close_leaves_state [where cc = keccak_blank and ds = "[]" and eb = 1]
  by (simp add: keccak_blank_def)

end
