(* ===== verification/Checked.thy ===== *)
theory Checked
  imports Prelude
begin

text \<open>
  What the theories on \<^verbatim>\<open>src/base/tools/cryptonote/crypto-ops.c\<close> share. The code computes on
  arrays of signed limbs, in \<open>int32_t\<close> and \<open>int64_t\<close>; a signed overflow is undefined, so an
  operation here is one on integers whose result is checked, and \<^term>\<open>None\<close> when it does not
  fit. \<open>a >> n\<close> of a negative number is the arithmetic shift, \<open>div\<close>, and \<open>a << n\<close> the product
  with \<open>2^n\<close>, the value every compiler of this code gives them.

  A bounds analysis goes with it: \<open>bounded b s\<close> bounds the limbs \<open>s\<close> by the numbers \<open>b\<close>, each
  operation has a shadow on bounds, and one evaluation of the shadow of a whole function shows
  that the function never overflows.
\<close>

section \<open>Checked arithmetic\<close>

definition in64 :: "int \<Rightarrow> bool" where
  "in64 x \<longleftrightarrow> - (2 ^ 63) \<le> x \<and> x < 2 ^ 63"

definition in32 :: "int \<Rightarrow> bool" where
  "in32 x \<longleftrightarrow> - (2 ^ 31) \<le> x \<and> x < 2 ^ 31"

definition i64 :: "int \<Rightarrow> int option" where
  "i64 x = (if in64 x then Some x else None)"

definition i32 :: "int \<Rightarrow> int option" where
  "i32 x = (if in32 x then Some x else None)"

lemma i64_Some: "\<bar>x\<bar> < 2 ^ 63 \<Longrightarrow> i64 x = Some x"
  by (auto simp: i64_def in64_def)

lemma i32_Some: "\<bar>x\<bar> < 2 ^ 31 \<Longrightarrow> i32 x = Some x"
  by (auto simp: i32_def in32_def)

text \<open>\<open>x0*y0 + x1*y1 + ...\<close>, every product and every partial sum checked.\<close>

fun dot64_from :: "int \<Rightarrow> (int \<times> int) list \<Rightarrow> int option" where
  "dot64_from acc [] = Some acc"
| "dot64_from acc ((x, y) # ps) =
     i64 (x * y) \<bind> (\<lambda>p. i64 (acc + p) \<bind> (\<lambda>acc. dot64_from acc ps))"

definition dot64 :: "(int \<times> int) list \<Rightarrow> int option" where
  "dot64 ps =
     (case ps of
        [] \<Rightarrow> Some 0
      | (x, y) # ps \<Rightarrow> i64 (x * y) \<bind> (\<lambda>acc. dot64_from acc ps))"

fun seqM :: "('i \<Rightarrow> 's \<Rightarrow> 's option) \<Rightarrow> 'i list \<Rightarrow> 's \<Rightarrow> 's option" where
  \<comment> \<open>the operations of a straight-line block, one after the other\<close>
  "seqM f [] s = Some s"
| "seqM f (i # is) s = f i s \<bind> seqM f is"

lemma seqM_append: "seqM f (xs @ ys) s = seqM f xs s \<bind> seqM f ys"
proof (induction xs arbitrary: s)
  case (Cons x xs)
  then show ?case by (cases "f x s") simp_all
qed simp

lemma those_map_Some: "(\<And>x. x \<in> set xs \<Longrightarrow> f x = Some (g x)) \<Longrightarrow> those (map f xs) = Some (map g xs)"
  by (induction xs) auto

lemma map_upt_eqI: "(\<And>k. m \<le> k \<Longrightarrow> k < n \<Longrightarrow> f k = g k) \<Longrightarrow> map f [m..<n] = map g [m..<n]"
  by simp

lemma those_Some [simp]: "those (map Some xs) = Some xs"
  by (induction xs) simp_all

section \<open>Bounds\<close>

definition bounded :: "int list \<Rightarrow> int list \<Rightarrow> bool" where
  "bounded b s \<longleftrightarrow> length s = length b \<and> (\<forall>i < length b. \<bar>s ! i\<bar> \<le> b ! i)"

lemma bounded_length: "bounded b s \<Longrightarrow> length s = length b"
  by (simp add: bounded_def)

lemma bounded_nth: "bounded b s \<Longrightarrow> i < length b \<Longrightarrow> \<bar>s ! i\<bar> \<le> b ! i"
  by (simp add: bounded_def)

lemma bounded_pos: "bounded b s \<Longrightarrow> i < length b \<Longrightarrow> 0 \<le> b ! i"
  using bounded_nth [of b s i] by linarith

lemma bounded_update:
  assumes "bounded b s" "\<bar>x\<bar> \<le> m"
  shows "bounded (b[i := m]) (s[i := x])"
  unfolding bounded_def
proof (intro conjI allI impI)
  fix j assume "j < length (b[i := m])"
  then show "\<bar>s[i := x] ! j\<bar> \<le> b[i := m] ! j"
    using assms by (cases "j = i") (simp_all add: bounded_def)
qed (use assms in \<open>simp add: bounded_def\<close>)

lemma bounded_mono:
  "bounded b s \<Longrightarrow> length b = length c \<Longrightarrow> (\<And>i. i < length b \<Longrightarrow> b ! i \<le> c ! i) \<Longrightarrow> bounded c s"
  unfolding bounded_def by fastforce

definition shadows ::
  "('i \<Rightarrow> int list \<Rightarrow> int list option) \<Rightarrow> ('i \<Rightarrow> int list \<Rightarrow> int list option) \<Rightarrow> bool" where
  \<comment> \<open>the second, run on bounds, says where the first takes what they bound\<close>
  "shadows f g \<longleftrightarrow>
     (\<forall>i b b' s. bounded b s \<and> g i b = Some b' \<longrightarrow> (\<exists>s'. f i s = Some s' \<and> bounded b' s'))"

lemma shadowsI:
  "(\<And>i b b' s. bounded b s \<Longrightarrow> g i b = Some b' \<Longrightarrow> \<exists>s'. f i s = Some s' \<and> bounded b' s') \<Longrightarrow> shadows f g"
  by (auto simp: shadows_def)

lemma shadowsD:
  "shadows f g \<Longrightarrow> bounded b s \<Longrightarrow> g i b = Some b' \<Longrightarrow> \<exists>s'. f i s = Some s' \<and> bounded b' s'"
  by (auto simp: shadows_def)

lemma shadows_seqM: "shadows f g \<Longrightarrow> shadows (seqM f) (seqM g)"
proof (rule shadowsI)
  fix "is" b b' s
  assume "shadows f g" "bounded b s" "seqM g is b = Some b'"
  then show "\<exists>s'. seqM f is s = Some s' \<and> bounded b' s'"
  proof (induction "is" arbitrary: b s)
    case Nil
    then show ?case by simp
  next
    case (Cons i "is")
    from Cons.prems(3) obtain b1 where b1: "g i b = Some b1" "seqM g is b1 = Some b'"
      by (auto simp: bind_Some_iff)
    obtain s1 where "f i s = Some s1" "bounded b1 s1"
      using shadowsD [OF Cons.prems(1,2) b1(1)] by blast
    with Cons.IH [OF Cons.prems(1) _ b1(2)] show ?case by simp
  qed
qed

fun bdot :: "(int \<times> int) list \<Rightarrow> int" where
  "bdot [] = 0"
| "bdot ((x, y) # ps) = x * y + bdot ps"

lemma bdot_nonneg: "\<forall>(x, y) \<in> set ps. 0 \<le> x \<and> 0 \<le> y \<Longrightarrow> 0 \<le> bdot ps"
  by (induction ps rule: bdot.induct) auto

text \<open>If the dot product of the bounds fits, so does every partial sum, and nothing overflows.\<close>

lemma dot64_from_bdot:
  assumes "list_all2 (\<lambda>(x, y) (a, b). \<bar>x\<bar> \<le> a \<and> \<bar>y\<bar> \<le> b) ps bs" "\<bar>acc\<bar> \<le> m" "m + bdot bs < 2 ^ 63"
  shows "dot64_from acc ps = Some (acc + bdot ps) \<and> \<bar>acc + bdot ps\<bar> \<le> m + bdot bs"
  using assms
proof (induction ps bs arbitrary: acc m rule: list_all2_induct)
  case Nil
  then show ?case by simp
next
  case (Cons p ps q qs)
  obtain x y where p: "p = (x, y)" by (cases p)
  obtain a b where q: "q = (a, b)" by (cases q)
  have xy: "\<bar>x\<bar> \<le> a" "\<bar>y\<bar> \<le> b" using Cons.hyps(1) by (simp_all add: p q)
  then have ab: "\<bar>x * y\<bar> \<le> a * b" by (simp add: abs_mult mult_mono)
  have "0 \<le> bdot qs"
    using Cons.hyps(2)
    by (intro bdot_nonneg) (fastforce simp: list_all2_conv_all_nth in_set_conv_nth)
  with ab Cons.prems have "\<bar>x * y\<bar> < 2 ^ 63" "\<bar>acc + x * y\<bar> < 2 ^ 63" "\<bar>acc + x * y\<bar> \<le> m + a * b"
    by (simp_all add: q)
  with Cons.IH [of "acc + x * y" "m + a * b"] Cons.prems(2) show ?case
    by (simp add: p q i64_Some add.assoc)
qed

lemma dot64_bdot:
  assumes "list_all2 (\<lambda>(x, y) (a, b). \<bar>x\<bar> \<le> a \<and> \<bar>y\<bar> \<le> b) ps bs" "bdot bs < 2 ^ 63"
  shows "dot64 ps = Some (bdot ps) \<and> \<bar>bdot ps\<bar> \<le> bdot bs"
proof (cases ps)
  case Nil
  with assms show ?thesis by (simp add: dot64_def)
next
  case (Cons p ps')
  obtain x y where p: "p = (x, y)" by (cases p)
  obtain q qs where bs: "bs = q # qs" using assms(1) Cons by (cases bs) auto
  obtain a b where q: "q = (a, b)" by (cases q)
  have "\<bar>x\<bar> \<le> a" "\<bar>y\<bar> \<le> b" using assms(1) by (simp_all add: Cons p bs q)
  then have "\<bar>x * y\<bar> \<le> a * b" by (simp add: abs_mult mult_mono)
  moreover have "0 \<le> bdot qs"
    using assms(1) unfolding Cons bs
    by (intro bdot_nonneg) (fastforce simp: list_all2_conv_all_nth in_set_conv_nth)
  ultimately show ?thesis
    using dot64_from_bdot [of ps' qs "x * y" "a * b"] assms
    by (simp add: Cons p bs q dot64_def i64_Some)
qed

section \<open>The number an array of limbs stands for\<close>

definition limbs_val :: "(nat \<Rightarrow> nat) \<Rightarrow> nat \<Rightarrow> int list \<Rightarrow> int" where
  \<comment> \<open>the first \<open>n\<close> limbs, limb \<open>i\<close> with the weight \<open>2^e(i)\<close>\<close>
  "limbs_val e n s = (\<Sum>i<n. s ! i * 2 ^ e i)"

lemma limbs_val_update:
  assumes "i < n" "i < length s"
  shows "limbs_val e n (s[i := x]) = limbs_val e n s + (x - s ! i) * 2 ^ e i"
proof -
  have "(\<Sum>j<n. s[i := x] ! j * 2 ^ e j) = (\<Sum>j<n. s ! j * 2 ^ e j + (if j = i then (x - s ! i) * 2 ^ e i else 0))"
    by (rule sum.cong) (use assms in \<open>auto simp: nth_list_update algebra_simps\<close>)
  also have "\<dots> = (\<Sum>j<n. s ! j * 2 ^ e j) + (x - s ! i) * 2 ^ e i"
    using assms(1) by (simp add: sum.distrib)
  finally show ?thesis by (simp add: limbs_val_def)
qed

lemma limbs_val_dead: "n \<le> i \<Longrightarrow> limbs_val e n (s[i := x]) = limbs_val e n s"
  unfolding limbs_val_def by (rule sum.cong) auto

lemma limbs_val_Suc: "limbs_val e (Suc n) s = limbs_val e n s + s ! n * 2 ^ e n"
  by (simp add: limbs_val_def)

lemma limbs_val_zero: "s ! n = 0 \<Longrightarrow> limbs_val e (Suc n) s = limbs_val e n s"
  by (simp add: limbs_val_Suc)

lemma bounded_val:
  assumes "bounded b s" "n \<le> length b"
  shows "\<bar>limbs_val e n s\<bar> \<le> limbs_val e n b"
proof -
  have "\<bar>limbs_val e n s\<bar> \<le> (\<Sum>i<n. \<bar>s ! i * 2 ^ e i\<bar>)"
    unfolding limbs_val_def by (rule sum_abs)
  also have "\<dots> \<le> limbs_val e n b"
    unfolding limbs_val_def
    by (rule sum_mono) (use assms bounded_nth [OF assms(1)] in \<open>simp add: abs_mult\<close>)
  finally show ?thesis .
qed

text \<open>Limbs that are digits of their widths are the fields of the number.\<close>

lemma radix_bound:
  assumes "\<And>i. e (Suc i) = e i + w i" "e 0 = 0" "\<forall>i<n. 0 \<le> s ! i \<and> s ! i < 2 ^ w i"
  shows "0 \<le> limbs_val e n s \<and> limbs_val e n s < 2 ^ e n"
  using assms(3)
proof (induction n)
  case 0
  then show ?case by (simp add: limbs_val_def assms(2))
next
  case (Suc n)
  then have IH: "0 \<le> limbs_val e n s" "limbs_val e n s < 2 ^ e n" and d: "0 \<le> s ! n" "s ! n \<le> 2 ^ w n - 1"
    by simp_all
  have "s ! n * 2 ^ e n \<le> (2 ^ w n - 1) * 2 ^ e n"
    using d by (intro mult_right_mono) simp_all
  also have "\<dots> = 2 ^ e (Suc n) - 2 ^ e n"
    by (simp add: assms(1) power_add algebra_simps)
  finally have "s ! n * 2 ^ e n \<le> 2 ^ e (Suc n) - 2 ^ e n" .
  moreover have "0 \<le> s ! n * 2 ^ e n" using d by simp
  ultimately show ?case using IH unfolding limbs_val_Suc by linarith
qed

lemma radix_mono:
  assumes "\<And>i. e (Suc i) = e i + (w i :: nat)" "i < n"
  shows "e i + w i \<le> e n"
  using assms(2) by (induction n) (auto simp: assms(1) less_Suc_eq)

lemma radix_nth:
  assumes "\<And>i. e (Suc i) = e i + w i" "e 0 = 0" "\<forall>i<n. 0 \<le> s ! i \<and> s ! i < 2 ^ w i" "i < n"
  shows "s ! i = take_bit (w i) (drop_bit (e i) (limbs_val e n s))"
  using assms(3,4)
proof (induction n)
  case 0
  then show ?case by simp
next
  case (Suc n)
  show ?case
  proof (cases "i = n")
    case True
    have "0 \<le> limbs_val e n s \<and> limbs_val e n s < 2 ^ e n"
      by (rule radix_bound [OF assms(1,2)]) (use Suc.prems in simp)
    then have "limbs_val e (Suc n) s div 2 ^ e n = s ! n"
      by (simp add: limbs_val_Suc div_add1_eq [of "limbs_val e n s"])
    then show ?thesis
      using True Suc.prems by (simp add: drop_bit_eq_div take_bit_int_eq_self)
  next
    case False
    then have i: "i < n" using Suc.prems by simp
    obtain k where k: "e n = e i + (w i + k)"
      using radix_mono [of e w i n] assms(1) i by (metis le_Suc_ex add.assoc)
    have "limbs_val e (Suc n) s = limbs_val e n s + 2 ^ e i * (2 ^ w i * (s ! n * 2 ^ k))"
      by (simp add: limbs_val_Suc k power_add mult_ac)
    then have "drop_bit (e i) (limbs_val e (Suc n) s) = drop_bit (e i) (limbs_val e n s) + 2 ^ w i * (s ! n * 2 ^ k)"
      by (simp add: drop_bit_eq_div)
    then have "take_bit (w i) (drop_bit (e i) (limbs_val e (Suc n) s)) = take_bit (w i) (drop_bit (e i) (limbs_val e n s))"
      by (simp only: take_bit_eq_mod mod_mult_self2)
    then show ?thesis using Suc.IH i Suc.prems by simp
  qed
qed

section \<open>Little-endian byte strings\<close>

fun le_nat :: "bytes \<Rightarrow> nat" where
  "le_nat [] = 0"
| "le_nat (b # bs) = unat b + 256 * le_nat bs"

lemma le_nat_bound: "le_nat bs < 256 ^ length bs"
proof (induction bs)
  case (Cons b bs)
  have "unat b < 256" using unsigned_less [of b] by simp
  with Cons show ?case by simp
qed simp

lemma le_nat_append: "le_nat (xs @ ys) = le_nat xs + 256 ^ length xs * le_nat ys"
  by (induction xs) simp_all

lemma le_nat_take: "le_nat (take k bs) = le_nat bs mod 256 ^ k"
proof (cases "k \<le> length bs")
  case True
  have "le_nat bs = le_nat (take k bs) + 256 ^ k * le_nat (drop k bs)"
    using le_nat_append [of "take k bs" "drop k bs"] True by simp
  moreover have "le_nat (take k bs) < 256 ^ k"
    using le_nat_bound [of "take k bs"] True by simp
  ultimately show ?thesis by simp
next
  case False
  then have "le_nat bs < 256 ^ k"
    using le_nat_bound [of bs] by (meson less_le_trans less_imp_le_nat not_le one_le_numeral power_increasing)
  with False show ?thesis by simp
qed

lemma le_nat_drop: "le_nat (drop k bs) = le_nat bs div 256 ^ k"
proof (cases "k \<le> length bs")
  case True
  have "le_nat bs = le_nat (take k bs) + 256 ^ k * le_nat (drop k bs)"
    using le_nat_append [of "take k bs" "drop k bs"] True by simp
  moreover have "le_nat (take k bs) < 256 ^ k"
    using le_nat_bound [of "take k bs"] True by simp
  ultimately show ?thesis by simp
next
  case False
  then have "le_nat bs < 256 ^ k"
    using le_nat_bound [of bs] by (meson less_le_trans less_imp_le_nat not_le one_le_numeral power_increasing)
  with False show ?thesis by simp
qed

lemma le_nat_field:
  "le_nat (take k (drop j bs)) = le_nat bs div 256 ^ j mod 256 ^ k"
  by (simp add: le_nat_take le_nat_drop)

lemma le_nat_le_bytes: "le_nat (le_bytes k x) = x mod 256 ^ k"
proof (induction k arbitrary: x)
  case 0
  then show ?case by (simp add: le_bytes_def)
next
  case (Suc k)
  have "[0..<Suc k] = 0 # map Suc [0..<k]" by (simp add: map_Suc_upt upt_conv_Cons del: upt_Suc)
  then have "le_bytes (Suc k) x = of_nat x # le_bytes k (x div 256)"
    by (simp add: le_bytes_def comp_def drop_bit_eq_div div_mult2_eq [symmetric] power_add del: upt_Suc)
  then show ?case
    by (simp add: Suc unat_of_nat mod_mult2_eq)
qed

text \<open>The test both \<open>sc_isnonzero\<close> and \<open>fe_isnonzero\<close> end with.\<close>

definition any_byte :: "bytes \<Rightarrow> int" where
  \<comment> \<open>\<open>(((int) (s[0] | s[1] | ... | s[31]) - 1) >> 8) + 1\<close>\<close>
  "any_byte s = (uint (foldl (OR) (s ! 0) (map ((!) s) [1..<32])) - 1) div 2 ^ 8 + 1"

lemma foldl_or_zero: "foldl (OR) x ys = 0 \<longleftrightarrow> x = 0 \<and> (\<forall>y \<in> set ys. y = (0 :: u8))"
  by (induction ys arbitrary: x) (auto simp: or_eq_0_iff)

lemma any_byte_eq:
  assumes "length s = 32"
  shows "any_byte s = (if le_nat s = 0 then 0 else 1)"
proof -
  let ?o = "foldl (OR) (s ! 0) (map ((!) s) [1..<32])"
  have "s = map ((!) s) [0..<32]" using assms map_nth [of s] by simp
  also have "[0..<32] = 0 # [1..<32::nat]" by (simp add: upt_conv_Cons)
  finally have "set s = insert (s ! 0) (set (map ((!) s) [1..<32]))" by (metis list.set(2) list.simps(9))
  then have "?o = 0 \<longleftrightarrow> (\<forall>y \<in> set s. y = 0)" unfolding foldl_or_zero by simp
  also have "\<dots> \<longleftrightarrow> le_nat s = 0" by (induction s) (auto simp: unat_eq_zero)
  finally have o: "?o = 0 \<longleftrightarrow> le_nat s = 0" .
  have small: "(x - 1) div 2 ^ 8 + 1 = (if x = 0 then 0 else 1)" if "0 \<le> x" "x < 256" for x :: int
  proof (cases "x = 0")
    case False
    then have "0 \<le> x - 1" "x - 1 < 256" using that by simp_all
    then have "(x - 1) div 256 = 0" by (rule div_pos_pos_trivial)
    with False show ?thesis by simp
  qed simp
  have "(uint ?o - 1) div 2 ^ 8 + 1 = (if uint ?o = 0 then 0 else 1)"
    by (rule small) (use uint_lt2p [of ?o] in simp_all)
  then show ?thesis using o by (simp only: any_byte_def uint_0_iff)
qed

end
