(* ===== verification/Cubehash.thy ===== *)
theory Cubehash
  imports Sph_Core Checked
begin

text \<open>
  \<^verbatim>\<open>src/crypto/ghostrider/sph_cubehash.c\<close>: CubeHash16/32. The macro \<open>ROUND_EVEN\<close> computes a round
  without the swaps of the definition, leaving the words where they are, and \<open>ROUND_ODD\<close> one that
  takes the words from there; the two are straight-line blocks on 32 words, given here as the list
  of their statements. The reference is Bernstein's round of ten steps.
\<close>

section \<open>The code\<close>

datatype cube_stmt =
    Add nat nat \<comment> \<open>\<open>xd = T32(xs + xd)\<close>\<close>
  | Rot nat nat \<comment> \<open>\<open>xd = ROTL32(xd, n)\<close>\<close>
  | Xor nat nat \<comment> \<open>\<open>xd ^= xs\<close>\<close>

fun cube_do :: "cube_stmt \<Rightarrow> u32 list \<Rightarrow> u32 list" where
  "cube_do (Add d s) x = x[d := SPH_T32 (x ! s + x ! d)]"
| "cube_do (Rot d n) x = x[d := SPH_ROTL32 (x ! d) n]"
| "cube_do (Xor d s) x = x[d := x ! d XOR x ! s]"

definition cube_IV224 :: "u32 list" where
  "cube_IV224 =
    [0xB0FC8217, 0x1BEE1A90, 0x829E1A22, 0x6362C342, 0x24D91C30, 0x03A7AA24, 0xA63721C8,
     0x85B0E2EF, 0xF35D13F3, 0x41DA807D, 0x21A70CA6, 0x1F4E9774, 0xB3E1C932, 0xEB0A79A8,
     0xCDDAAA66, 0xE2F6ECAA, 0x0A713362, 0xAA3080E0, 0xD8F23A32, 0xCEF15E28, 0xDB086314,
     0x7F709DF7, 0xACD228A4, 0x704D6ECE, 0xAA3EC95F, 0xE387C214, 0x3A6445FF, 0x9CAB81C3,
     0xC73D4B98, 0xD277AEBE, 0xFD20151C, 0x00CB573E]"

definition cube_IV256 :: "u32 list" where
  "cube_IV256 =
    [0xEA2BD4B4, 0xCCD6F29F, 0x63117E71, 0x35481EAE, 0x22512D5B, 0xE5D94E63, 0x7E624131,
     0xF4CC12BE, 0xC2D0B696, 0x42AF2070, 0xD0720C35, 0x3361DA8C, 0x28CCECA4, 0x8EF8AD83,
     0x4680AC00, 0x40E5FBAB, 0xD89041C3, 0x6107FBD5, 0x6C859D41, 0xF0B26679, 0x09392549,
     0x5FA25603, 0x65C892FD, 0x93CB6285, 0x2AF2B5AE, 0x9E4B4E60, 0x774ABFDD, 0x85254725,
     0x15815AEB, 0x4AB6AAD6, 0x9CDAF8AF, 0xD6032C0A]"

definition cube_IV384 :: "u32 list" where
  "cube_IV384 =
    [0xE623087E, 0x04C00C87, 0x5EF46453, 0x69524B13, 0x1A05C7A9, 0x3528DF88, 0x6BDD01B5,
     0x5057B792, 0x6AA7A922, 0x649C7EEE, 0xF426309F, 0xCB629052, 0xFC8E20ED, 0xB3482BAB,
     0xF89E5E7E, 0xD83D4DE4, 0x44BFC10D, 0x5FC1E63D, 0x2104E6CB, 0x17958F7F, 0xDBEAEF70,
     0xB4B97E1E, 0x32C195F6, 0x6184A8E4, 0x796C2543, 0x23DE176D, 0xD33BBAEC, 0x0C12E5D2,
     0x4EB95A7B, 0x2D18BA01, 0x04EE475F, 0x1FC5F22E]"

definition cube_IV512 :: "u32 list" where
  "cube_IV512 =
    [0x2AEA2A61, 0x50F494D4, 0x2D538B8B, 0x4167D83E, 0x3FEE2313, 0xC701CF8C, 0xCC39968E,
     0x50AC5695, 0x4D42C787, 0xA647A8B3, 0x97CF0BEF, 0x825B4537, 0xEEF864D2, 0xF22090C4,
     0xD0E5CD33, 0xA23911AE, 0xFCD398D9, 0x148FE485, 0x1B017BEF, 0xB6444532, 0x6A536159,
     0x2FF5781C, 0x91FA7934, 0x0DBADEA9, 0xD65C8A2B, 0xA5A70E75, 0xB1C62456, 0xBC796576,
     0x1921C8F7, 0xE7989AF1, 0x7795D246, 0xD43E3B44]"

definition ROUND_EVEN :: "u32 list \<Rightarrow> u32 list" where
  "ROUND_EVEN = fold cube_do
      ([Add 16 0, Rot 0 7, Add 17 1, Rot 1 7, Add 18 2, Rot 2 7, Add 19 3, Rot 3 7, Add 20 4,
        Rot 4 7, Add 21 5, Rot 5 7, Add 22 6, Rot 6 7, Add 23 7, Rot 7 7, Add 24 8, Rot 8 7,
        Add 25 9, Rot 9 7, Add 26 10, Rot 10 7, Add 27 11, Rot 11 7, Add 28 12, Rot 12 7,
        Add 29 13, Rot 13 7, Add 30 14, Rot 14 7, Add 31 15, Rot 15 7] @
       [Xor 8 16, Xor 9 17, Xor 10 18, Xor 11 19, Xor 12 20, Xor 13 21, Xor 14 22, Xor 15 23,
        Xor 0 24, Xor 1 25, Xor 2 26, Xor 3 27, Xor 4 28, Xor 5 29, Xor 6 30, Xor 7 31] @
       [Add 18 8, Rot 8 11, Add 19 9, Rot 9 11, Add 16 10, Rot 10 11, Add 17 11, Rot 11 11,
        Add 22 12, Rot 12 11, Add 23 13, Rot 13 11, Add 20 14, Rot 14 11, Add 21 15,
        Rot 15 11, Add 26 0, Rot 0 11, Add 27 1, Rot 1 11, Add 24 2, Rot 2 11, Add 25 3,
        Rot 3 11, Add 30 4, Rot 4 11, Add 31 5, Rot 5 11, Add 28 6, Rot 6 11, Add 29 7,
        Rot 7 11] @
       [Xor 12 18, Xor 13 19, Xor 14 16, Xor 15 17, Xor 8 22, Xor 9 23, Xor 10 20, Xor 11 21,
        Xor 4 26, Xor 5 27, Xor 6 24, Xor 7 25, Xor 0 30, Xor 1 31, Xor 2 28, Xor 3 29])"

definition ROUND_ODD :: "u32 list \<Rightarrow> u32 list" where
  "ROUND_ODD = fold cube_do
      ([Add 19 12, Rot 12 7, Add 18 13, Rot 13 7, Add 17 14, Rot 14 7, Add 16 15, Rot 15 7,
        Add 23 8, Rot 8 7, Add 22 9, Rot 9 7, Add 21 10, Rot 10 7, Add 20 11, Rot 11 7,
        Add 27 4, Rot 4 7, Add 26 5, Rot 5 7, Add 25 6, Rot 6 7, Add 24 7, Rot 7 7, Add 31 0,
        Rot 0 7, Add 30 1, Rot 1 7, Add 29 2, Rot 2 7, Add 28 3, Rot 3 7] @
       [Xor 4 19, Xor 5 18, Xor 6 17, Xor 7 16, Xor 0 23, Xor 1 22, Xor 2 21, Xor 3 20,
        Xor 12 27, Xor 13 26, Xor 14 25, Xor 15 24, Xor 8 31, Xor 9 30, Xor 10 29, Xor 11 28] @
       [Add 17 4, Rot 4 11, Add 16 5, Rot 5 11, Add 19 6, Rot 6 11, Add 18 7, Rot 7 11,
        Add 21 0, Rot 0 11, Add 20 1, Rot 1 11, Add 23 2, Rot 2 11, Add 22 3, Rot 3 11,
        Add 25 12, Rot 12 11, Add 24 13, Rot 13 11, Add 27 14, Rot 14 11, Add 26 15,
        Rot 15 11, Add 29 8, Rot 8 11, Add 28 9, Rot 9 11, Add 31 10, Rot 10 11, Add 30 11,
        Rot 11 11] @
       [Xor 0 17, Xor 1 16, Xor 2 19, Xor 3 18, Xor 4 21, Xor 5 20, Xor 6 23, Xor 7 22,
        Xor 8 25, Xor 9 24, Xor 10 27, Xor 11 26, Xor 12 29, Xor 13 28, Xor 14 31, Xor 15 30])"

definition SIXTEEN_ROUNDS :: "nat \<Rightarrow> u32 list \<Rightarrow> u32 list" where
  \<comment> \<open>\<open>u\<close> is \<open>SPH_CUBEHASH_UNROLL\<close>: 2, 4 or 8 rounds in the body of a loop, or all of them\<close>
  "SIXTEEN_ROUNDS u x =
     (if u = 2 then fold (\<lambda>j x. ROUND_ODD (ROUND_EVEN x)) [0..<8] x
      else if u = 4 then
        fold (\<lambda>j x. ROUND_ODD (ROUND_EVEN (ROUND_ODD (ROUND_EVEN x)))) [0..<4] x
      else if u = 8 then
        fold (\<lambda>j x. ROUND_ODD (ROUND_EVEN (ROUND_ODD (ROUND_EVEN
                     (ROUND_ODD (ROUND_EVEN (ROUND_ODD (ROUND_EVEN x)))))))) [0..<2] x
      else
        ROUND_ODD (ROUND_EVEN (ROUND_ODD (ROUND_EVEN (ROUND_ODD (ROUND_EVEN (ROUND_ODD (ROUND_EVEN
         (ROUND_ODD (ROUND_EVEN (ROUND_ODD (ROUND_EVEN (ROUND_ODD (ROUND_EVEN (ROUND_ODD (ROUND_EVEN
           x))))))))))))))))"

record cubehash_ctx =
  cb_buf :: bytes
  cb_ptr :: nat
  cb_state :: "u32 list"

definition cube_INPUT_BLOCK :: "bytes \<Rightarrow> u32 list \<Rightarrow> u32 list" where
  "cube_INPUT_BLOCK buf x =
     fold (\<lambda>i x. x[i := x ! i XOR sph_dec32le (drop (4 * i) buf)]) [0, 1, 2, 3, 4, 5, 6, 7] x"

definition cube_block :: "nat \<Rightarrow> bytes \<Rightarrow> u32 list \<Rightarrow> u32 list" where
  "cube_block u buf x = SIXTEEN_ROUNDS u (cube_INPUT_BLOCK buf x)"

definition cubehash_init :: "cubehash_ctx \<Rightarrow> u32 list \<Rightarrow> cubehash_ctx" where
  "cubehash_init sc iv = sc\<lparr>cb_state := iv, cb_ptr := 0\<rparr>"

definition cb_view :: "cubehash_ctx \<Rightarrow> bytes \<times> nat \<times> u32 list" where
  "cb_view sc = (cb_buf sc, cb_ptr sc, cb_state sc)"

definition cubehash_core :: "nat \<Rightarrow> cubehash_ctx \<Rightarrow> bytes \<Rightarrow> cubehash_ctx option" where
  \<comment> \<open>\<open>sizeof sc->buf\<close> is 32\<close>
  "cubehash_core u sc data =
     sph_core 32 (cube_block u) data (cb_view sc) \<bind> (\<lambda>(buf, ptr, x).
     Some (sc\<lparr>cb_buf := buf, cb_ptr := ptr, cb_state := x\<rparr>))"

definition cubehash_close ::
  "nat \<Rightarrow> cubehash_ctx \<Rightarrow> u32 \<Rightarrow> nat \<Rightarrow> nat \<Rightarrow> (cubehash_ctx \<times> bytes) option" where
  \<comment> \<open>the context left behind and the \<open>out_size_w32\<close> words written to \<open>dst\<close>\<close>
  "cubehash_close u sc ub n out_size_w32 =
     (let ptr = cb_ptr sc
      in store_in (cb_buf sc) ptr (sph_pad_byte ub n) \<bind> (\<lambda>buf.
         let ptr = ptr + 1
         in memset_in buf ptr 0 (32 - ptr) \<bind> (\<lambda>buf.
            let x = cube_INPUT_BLOCK buf (cb_state sc);
                x = fold (\<lambda>i x. let x = SIXTEEN_ROUNDS u x
                                 in if i = 0 then x[31 := x ! 31 XOR 1] else x)
                      [0..<11] x;
                sc = sc\<lparr>cb_buf := buf, cb_state := x\<rparr>
            in those (map (\<lambda>z. if z < length x then Some (sph_enc32le (x ! z)) else None)
                          [0..<out_size_w32]) \<bind> (\<lambda>out.
               Some (sc, concat out)))))"

definition sph_cubehash224_init :: "cubehash_ctx \<Rightarrow> cubehash_ctx" where
  "sph_cubehash224_init cc = cubehash_init cc cube_IV224"

definition sph_cubehash224 :: "nat \<Rightarrow> cubehash_ctx \<Rightarrow> bytes \<Rightarrow> cubehash_ctx option" where
  "sph_cubehash224 u cc data = cubehash_core u cc data"

definition sph_cubehash224_addbits_and_close ::
  "nat \<Rightarrow> cubehash_ctx \<Rightarrow> u32 \<Rightarrow> nat \<Rightarrow> (cubehash_ctx \<times> bytes) option" where
  "sph_cubehash224_addbits_and_close u cc ub n =
     cubehash_close u cc ub n 7 \<bind> (\<lambda>(cc, dst). Some (sph_cubehash224_init cc, dst))"

definition sph_cubehash224_close :: "nat \<Rightarrow> cubehash_ctx \<Rightarrow> (cubehash_ctx \<times> bytes) option" where
  "sph_cubehash224_close u cc = sph_cubehash224_addbits_and_close u cc 0 0"

definition sph_cubehash256_init :: "cubehash_ctx \<Rightarrow> cubehash_ctx" where
  "sph_cubehash256_init cc = cubehash_init cc cube_IV256"

definition sph_cubehash256 :: "nat \<Rightarrow> cubehash_ctx \<Rightarrow> bytes \<Rightarrow> cubehash_ctx option" where
  "sph_cubehash256 u cc data = cubehash_core u cc data"

definition sph_cubehash256_addbits_and_close ::
  "nat \<Rightarrow> cubehash_ctx \<Rightarrow> u32 \<Rightarrow> nat \<Rightarrow> (cubehash_ctx \<times> bytes) option" where
  "sph_cubehash256_addbits_and_close u cc ub n =
     cubehash_close u cc ub n 8 \<bind> (\<lambda>(cc, dst). Some (sph_cubehash256_init cc, dst))"

definition sph_cubehash256_close :: "nat \<Rightarrow> cubehash_ctx \<Rightarrow> (cubehash_ctx \<times> bytes) option" where
  "sph_cubehash256_close u cc = sph_cubehash256_addbits_and_close u cc 0 0"

definition sph_cubehash384_init :: "cubehash_ctx \<Rightarrow> cubehash_ctx" where
  "sph_cubehash384_init cc = cubehash_init cc cube_IV384"

definition sph_cubehash384 :: "nat \<Rightarrow> cubehash_ctx \<Rightarrow> bytes \<Rightarrow> cubehash_ctx option" where
  "sph_cubehash384 u cc data = cubehash_core u cc data"

definition sph_cubehash384_addbits_and_close ::
  "nat \<Rightarrow> cubehash_ctx \<Rightarrow> u32 \<Rightarrow> nat \<Rightarrow> (cubehash_ctx \<times> bytes) option" where
  "sph_cubehash384_addbits_and_close u cc ub n =
     cubehash_close u cc ub n 12 \<bind> (\<lambda>(cc, dst). Some (sph_cubehash384_init cc, dst))"

definition sph_cubehash384_close :: "nat \<Rightarrow> cubehash_ctx \<Rightarrow> (cubehash_ctx \<times> bytes) option" where
  "sph_cubehash384_close u cc = sph_cubehash384_addbits_and_close u cc 0 0"

definition sph_cubehash512_init :: "cubehash_ctx \<Rightarrow> cubehash_ctx" where
  "sph_cubehash512_init cc = cubehash_init cc cube_IV512"

definition sph_cubehash512 :: "nat \<Rightarrow> cubehash_ctx \<Rightarrow> bytes \<Rightarrow> cubehash_ctx option" where
  "sph_cubehash512 u cc data = cubehash_core u cc data"

definition sph_cubehash512_addbits_and_close ::
  "nat \<Rightarrow> cubehash_ctx \<Rightarrow> u32 \<Rightarrow> nat \<Rightarrow> (cubehash_ctx \<times> bytes) option" where
  "sph_cubehash512_addbits_and_close u cc ub n =
     cubehash_close u cc ub n 16 \<bind> (\<lambda>(cc, dst). Some (sph_cubehash512_init cc, dst))"

definition sph_cubehash512_close :: "nat \<Rightarrow> cubehash_ctx \<Rightarrow> (cubehash_ctx \<times> bytes) option" where
  "sph_cubehash512_close u cc = sph_cubehash512_addbits_and_close u cc 0 0"

section \<open>CubeHash\<close>

text \<open>
  The state is 32 words \<open>x_ijklm\<close>, the index in binary. The ten steps of a round, on all words
  with \<open>i = 0\<close> or \<open>i = 1\<close> at once; to swap the words that differ in one bit of the index is to
  read each from the index with that bit flipped.
\<close>

definition add_upper :: "u32 list \<Rightarrow> u32 list" where
  \<comment> \<open>add \<open>x_0jklm\<close> into \<open>x_1jklm\<close>\<close>
  "add_upper x = take 16 x @ map (\<lambda>i. x ! (i XOR 16) + x ! i) [16..<32]"

definition xor_lower :: "u32 list \<Rightarrow> u32 list" where
  \<comment> \<open>xor \<open>x_1jklm\<close> into \<open>x_0jklm\<close>\<close>
  "xor_lower x = map (\<lambda>i. x ! i XOR x ! (i XOR 16)) [0..<16] @ drop 16 x"

definition rot_lower :: "nat \<Rightarrow> u32 list \<Rightarrow> u32 list" where
  "rot_lower n x = map (word_rotl n) (take 16 x) @ drop 16 x"

definition swap_lower :: "nat \<Rightarrow> u32 list \<Rightarrow> u32 list" where
  "swap_lower b x = map (\<lambda>i. x ! (i XOR b)) [0..<16] @ drop 16 x"

definition swap_upper :: "nat \<Rightarrow> u32 list \<Rightarrow> u32 list" where
  "swap_upper b x = take 16 x @ map (\<lambda>i. x ! (i XOR b)) [16..<32]"

definition cube_round :: "u32 list \<Rightarrow> u32 list" where
  "cube_round x =
     swap_upper 1 (xor_lower (swap_lower 4 (rot_lower 11 (add_upper
       (swap_upper 2 (xor_lower (swap_lower 8 (rot_lower 7 (add_upper x)))))))))"

definition cube_input :: "bytes \<Rightarrow> u32 list \<Rightarrow> u32 list" where
  \<comment> \<open>a 32-byte block, little-endian, is xored into the first eight words\<close>
  "cube_input b x = map (\<lambda>i. if i < 8 then x ! i XOR sph_dec32le (take 4 (drop (4 * i) b)) else x ! i) [0..<32]"

definition cube_pad :: "bytes \<Rightarrow> bool list \<Rightarrow> bytes" where
  \<comment> \<open>the message with fewer than 8 extra bits, a 1, and zeros up to a whole block\<close>
  "cube_pad m bs =
     m @ byte_of_bits (bs @ True # replicate (7 - length bs) False) # replicate (31 - length m mod 32) 0"

definition cube_digest :: "u32 list \<Rightarrow> nat \<Rightarrow> bytes \<Rightarrow> bool list \<Rightarrow> bytes" where
  \<comment> \<open>16 rounds per block of 32 bytes; at the end the last word is xored with 1 and 160 rounds follow\<close>
  "cube_digest iv w m bs =
     (let x = absorb 31 32 (\<lambda>b x. (cube_round ^^ 16) (cube_input b x)) (cube_pad m bs) iv;
          x = x[31 := x ! 31 XOR 1]
      in concat (map sph_enc32le (take w ((cube_round ^^ 160) x))))"

section \<open>The rounds\<close>

definition cube_moved :: "nat list" where
  \<comment> \<open>where \<open>ROUND_EVEN\<close> leaves the words\<close>
  "cube_moved = map (\<lambda>i. i XOR (if i < 16 then 12 else 3)) [0..<32]"

lemma upt_0_32: "[0..<32] = [0, 1, 2, 3, 4, 5, 6, 7, 8, 9, 10, 11, 12, 13, 14, 15, 16, 17, 18, 19,
    20, 21, 22, 23, 24, 25, 26, 27, 28, 29, 30, 31 :: nat]"
  by code_simp

lemma upt_halves: "[0..<16] = [0, 1, 2, 3, 4, 5, 6, 7, 8, 9, 10, 11, 12, 13, 14, 15 :: nat]"
  "[16..<32] = [16, 17, 18, 19, 20, 21, 22, 23, 24, 25, 26, 27, 28, 29, 30, 31 :: nat]"
  by code_simp+

lemma length_cube_do [simp]: "length (cube_do p x) = length x"
  by (cases p) simp_all

lemma length_cube_dos [simp]: "length (fold cube_do ps x) = length x"
  by (induction ps arbitrary: x) simp_all

lemma length_rounds [simp]: "length (ROUND_EVEN x) = length x" "length (ROUND_ODD x) = length x"
  by (simp_all only: ROUND_EVEN_def ROUND_ODD_def length_cube_dos)

lemmas cube_steps = add_upper_def xor_lower_def rot_lower_def swap_lower_def swap_upper_def

lemma length_steps [simp]:
  "length x = 32 \<Longrightarrow> length (add_upper x) = 32" "length x = 32 \<Longrightarrow> length (xor_lower x) = 32"
  "length x = 32 \<Longrightarrow> length (rot_lower n x) = 32" "length x = 32 \<Longrightarrow> length (swap_lower n x) = 32"
  "length x = 32 \<Longrightarrow> length (swap_upper n x) = 32"
  by (simp_all add: cube_steps)

lemma length_cube_round [simp]: "length x = 32 \<Longrightarrow> length (cube_round x) = 32"
  by (simp add: cube_round_def)

lemma list32:
  assumes "length (x :: 'a list) = 32"
  obtains a b c d e f g h i j k l m n p q r s t u v w y z A B C D E F G H where
    "x = [a, b, c, d, e, f, g, h, i, j, k, l, m, n, p, q, r, s, t, u, v, w, y, z, A, B, C, D, E, F, G, H]"
proof -
  have "x = map ((!) x) [0..<32]" using assms map_nth [of x] by simp
  then show ?thesis unfolding upt_0_32 list.map by (rule that)
qed

lemma index_xor:
  "(0::nat) XOR 16 = 16" "(1::nat) XOR 16 = 17" "(2::nat) XOR 16 = 18"
  "(3::nat) XOR 16 = 19" "(4::nat) XOR 16 = 20" "(5::nat) XOR 16 = 21"
  "(6::nat) XOR 16 = 22" "(7::nat) XOR 16 = 23" "(8::nat) XOR 16 = 24"
  "(9::nat) XOR 16 = 25" "(10::nat) XOR 16 = 26" "(11::nat) XOR 16 = 27"
  "(12::nat) XOR 16 = 28" "(13::nat) XOR 16 = 29" "(14::nat) XOR 16 = 30"
  "(15::nat) XOR 16 = 31" "(16::nat) XOR 16 = 0" "(17::nat) XOR 16 = 1"
  "(18::nat) XOR 16 = 2" "(19::nat) XOR 16 = 3" "(20::nat) XOR 16 = 4"
  "(21::nat) XOR 16 = 5" "(22::nat) XOR 16 = 6" "(23::nat) XOR 16 = 7"
  "(24::nat) XOR 16 = 8" "(25::nat) XOR 16 = 9" "(26::nat) XOR 16 = 10"
  "(27::nat) XOR 16 = 11" "(28::nat) XOR 16 = 12" "(29::nat) XOR 16 = 13"
  "(30::nat) XOR 16 = 14" "(31::nat) XOR 16 = 15" "(0::nat) XOR 8 = 8"
  "(1::nat) XOR 8 = 9" "(2::nat) XOR 8 = 10" "(3::nat) XOR 8 = 11"
  "(4::nat) XOR 8 = 12" "(5::nat) XOR 8 = 13" "(6::nat) XOR 8 = 14"
  "(7::nat) XOR 8 = 15" "(8::nat) XOR 8 = 0" "(9::nat) XOR 8 = 1"
  "(10::nat) XOR 8 = 2" "(11::nat) XOR 8 = 3" "(12::nat) XOR 8 = 4"
  "(13::nat) XOR 8 = 5" "(14::nat) XOR 8 = 6" "(15::nat) XOR 8 = 7"
  "(0::nat) XOR 4 = 4" "(1::nat) XOR 4 = 5" "(2::nat) XOR 4 = 6"
  "(3::nat) XOR 4 = 7" "(4::nat) XOR 4 = 0" "(5::nat) XOR 4 = 1"
  "(6::nat) XOR 4 = 2" "(7::nat) XOR 4 = 3" "(8::nat) XOR 4 = 12"
  "(9::nat) XOR 4 = 13" "(10::nat) XOR 4 = 14" "(11::nat) XOR 4 = 15"
  "(12::nat) XOR 4 = 8" "(13::nat) XOR 4 = 9" "(14::nat) XOR 4 = 10"
  "(15::nat) XOR 4 = 11" "(16::nat) XOR 2 = 18" "(17::nat) XOR 2 = 19"
  "(18::nat) XOR 2 = 16" "(19::nat) XOR 2 = 17" "(20::nat) XOR 2 = 22"
  "(21::nat) XOR 2 = 23" "(22::nat) XOR 2 = 20" "(23::nat) XOR 2 = 21"
  "(24::nat) XOR 2 = 26" "(25::nat) XOR 2 = 27" "(26::nat) XOR 2 = 24"
  "(27::nat) XOR 2 = 25" "(28::nat) XOR 2 = 30" "(29::nat) XOR 2 = 31"
  "(30::nat) XOR 2 = 28" "(31::nat) XOR 2 = 29" "(16::nat) XOR 1 = 17"
  "(17::nat) XOR 1 = 16" "(18::nat) XOR 1 = 19" "(19::nat) XOR 1 = 18"
  "(20::nat) XOR 1 = 21" "(21::nat) XOR 1 = 20" "(22::nat) XOR 1 = 23"
  "(23::nat) XOR 1 = 22" "(24::nat) XOR 1 = 25" "(25::nat) XOR 1 = 24"
  "(26::nat) XOR 1 = 27" "(27::nat) XOR 1 = 26" "(28::nat) XOR 1 = 29"
  "(29::nat) XOR 1 = 28" "(30::nat) XOR 1 = 31" "(31::nat) XOR 1 = 30"
  by simp_all

lemma cube_moved_list: "cube_moved = [12, 13, 14, 15,
    8, 9, 10, 11, 4, 5, 6, 7, 0, 1, 2, 3, 19, 18, 17, 16, 23, 22, 21, 20, 27, 26, 25, 24, 31, 30, 29, 28]"
  by code_simp

lemma index_one: "(a # x) ! 1 = x ! 0" "(a # x)[1 := v] = a # x[0 := v]"
  by simp_all

lemmas cube_eval = cube_moved_list cube_steps upt_0_32 upt_halves index_xor index_one ROTL32_rotl

lemma cube_ops: "fold cube_do (p # ps) x = fold cube_do ps (cube_do p x)" "fold cube_do [] x = x"
  "cube_do (Add d s) x = x[d := x ! s + x ! d]" "cube_do (Xor d s) x = x[d := x ! d XOR x ! s]"
  "cube_do (Rot d 7) x = x[d := word_rotl 7 (x ! d)]" "cube_do (Rot d 11) x = x[d := word_rotl 11 (x ! d)]"
  by (simp_all add: ROTL32_rotl)

text \<open>The four blocks of statements of each macro.\<close>

lemma even_1:
  "fold cube_do
       [Add 16 0, Rot 0 7, Add 17 1, Rot 1 7, Add 18 2, Rot 2 7, Add 19 3, Rot 3 7, Add 20 4,
        Rot 4 7, Add 21 5, Rot 5 7, Add 22 6, Rot 6 7, Add 23 7, Rot 7 7, Add 24 8, Rot 8 7,
        Add 25 9, Rot 9 7, Add 26 10, Rot 10 7, Add 27 11, Rot 11 7, Add 28 12, Rot 12 7,
        Add 29 13, Rot 13 7, Add 30 14, Rot 14 7, Add 31 15, Rot 15 7]
     [a, b, c, d, e, f, g, h, i, j, k, l, m, n, p, q, r, s, t, u, v, w, y, z, A, B, C, D, E, F, G, H]
   =
     [word_rotl 7 a, word_rotl 7 b, word_rotl 7 c, word_rotl 7 d, word_rotl 7 e,
      word_rotl 7 f, word_rotl 7 g, word_rotl 7 h, word_rotl 7 i, word_rotl 7 j,
      word_rotl 7 k, word_rotl 7 l, word_rotl 7 m, word_rotl 7 n, word_rotl 7 p,
      word_rotl 7 q, a + r, b + s, c + t, d + u, e + v, f + w, g + y, h + z, i + A, j + B,
      k + C, l + D, m + E, n + F, p + G, q + H]"
  by (simp add: cube_ops ROTL32_rotl)

lemma even_2:
  "fold cube_do
       [Xor 8 16, Xor 9 17, Xor 10 18, Xor 11 19, Xor 12 20, Xor 13 21, Xor 14 22, Xor 15 23,
        Xor 0 24, Xor 1 25, Xor 2 26, Xor 3 27, Xor 4 28, Xor 5 29, Xor 6 30, Xor 7 31]
     [a, b, c, d, e, f, g, h, i, j, k, l, m, n, p, q, r, s, t, u, v, w, y, z, A, B, C, D, E, F, G, H]
   =
     [a XOR A, b XOR B, c XOR C, d XOR D, e XOR E, f XOR F, g XOR G, h XOR H, i XOR r,
      j XOR s, k XOR t, l XOR u, m XOR v, n XOR w, p XOR y, q XOR z, r, s, t, u, v, w, y, z,
      A, B, C, D, E, F, G, H]"
  by (simp add: cube_ops ROTL32_rotl)

lemma even_3:
  "fold cube_do
       [Add 18 8, Rot 8 11, Add 19 9, Rot 9 11, Add 16 10, Rot 10 11, Add 17 11, Rot 11 11,
        Add 22 12, Rot 12 11, Add 23 13, Rot 13 11, Add 20 14, Rot 14 11, Add 21 15,
        Rot 15 11, Add 26 0, Rot 0 11, Add 27 1, Rot 1 11, Add 24 2, Rot 2 11, Add 25 3,
        Rot 3 11, Add 30 4, Rot 4 11, Add 31 5, Rot 5 11, Add 28 6, Rot 6 11, Add 29 7,
        Rot 7 11]
     [a, b, c, d, e, f, g, h, i, j, k, l, m, n, p, q, r, s, t, u, v, w, y, z, A, B, C, D, E, F, G, H]
   =
     [word_rotl 11 a, word_rotl 11 b, word_rotl 11 c, word_rotl 11 d, word_rotl 11 e,
      word_rotl 11 f, word_rotl 11 g, word_rotl 11 h, word_rotl 11 i, word_rotl 11 j,
      word_rotl 11 k, word_rotl 11 l, word_rotl 11 m, word_rotl 11 n, word_rotl 11 p,
      word_rotl 11 q, k + r, l + s, i + t, j + u, p + v, q + w, m + y, n + z, c + A, d + B,
      a + C, b + D, g + E, h + F, e + G, f + H]"
  by (simp add: cube_ops ROTL32_rotl)

lemma even_4:
  "fold cube_do
       [Xor 12 18, Xor 13 19, Xor 14 16, Xor 15 17, Xor 8 22, Xor 9 23, Xor 10 20, Xor 11 21,
        Xor 4 26, Xor 5 27, Xor 6 24, Xor 7 25, Xor 0 30, Xor 1 31, Xor 2 28, Xor 3 29]
     [a, b, c, d, e, f, g, h, i, j, k, l, m, n, p, q, r, s, t, u, v, w, y, z, A, B, C, D, E, F, G, H]
   =
     [a XOR G, b XOR H, c XOR E, d XOR F, e XOR C, f XOR D, g XOR A, h XOR B, i XOR y,
      j XOR z, k XOR v, l XOR w, m XOR t, n XOR u, p XOR r, q XOR s, r, s, t, u, v, w, y, z,
      A, B, C, D, E, F, G, H]"
  by (simp add: cube_ops ROTL32_rotl)

lemma odd_1:
  "fold cube_do
       [Add 19 12, Rot 12 7, Add 18 13, Rot 13 7, Add 17 14, Rot 14 7, Add 16 15, Rot 15 7,
        Add 23 8, Rot 8 7, Add 22 9, Rot 9 7, Add 21 10, Rot 10 7, Add 20 11, Rot 11 7,
        Add 27 4, Rot 4 7, Add 26 5, Rot 5 7, Add 25 6, Rot 6 7, Add 24 7, Rot 7 7, Add 31 0,
        Rot 0 7, Add 30 1, Rot 1 7, Add 29 2, Rot 2 7, Add 28 3, Rot 3 7]
     [a, b, c, d, e, f, g, h, i, j, k, l, m, n, p, q, r, s, t, u, v, w, y, z, A, B, C, D, E, F, G, H]
   =
     [word_rotl 7 a, word_rotl 7 b, word_rotl 7 c, word_rotl 7 d, word_rotl 7 e,
      word_rotl 7 f, word_rotl 7 g, word_rotl 7 h, word_rotl 7 i, word_rotl 7 j,
      word_rotl 7 k, word_rotl 7 l, word_rotl 7 m, word_rotl 7 n, word_rotl 7 p,
      word_rotl 7 q, q + r, p + s, n + t, m + u, l + v, k + w, j + y, i + z, h + A, g + B,
      f + C, e + D, d + E, c + F, b + G, a + H]"
  by (simp add: cube_ops ROTL32_rotl)

lemma odd_2:
  "fold cube_do
       [Xor 4 19, Xor 5 18, Xor 6 17, Xor 7 16, Xor 0 23, Xor 1 22, Xor 2 21, Xor 3 20,
        Xor 12 27, Xor 13 26, Xor 14 25, Xor 15 24, Xor 8 31, Xor 9 30, Xor 10 29, Xor 11 28]
     [a, b, c, d, e, f, g, h, i, j, k, l, m, n, p, q, r, s, t, u, v, w, y, z, A, B, C, D, E, F, G, H]
   =
     [a XOR z, b XOR y, c XOR w, d XOR v, e XOR u, f XOR t, g XOR s, h XOR r, i XOR H,
      j XOR G, k XOR F, l XOR E, m XOR D, n XOR C, p XOR B, q XOR A, r, s, t, u, v, w, y, z,
      A, B, C, D, E, F, G, H]"
  by (simp add: cube_ops ROTL32_rotl)

lemma odd_3:
  "fold cube_do
       [Add 17 4, Rot 4 11, Add 16 5, Rot 5 11, Add 19 6, Rot 6 11, Add 18 7, Rot 7 11,
        Add 21 0, Rot 0 11, Add 20 1, Rot 1 11, Add 23 2, Rot 2 11, Add 22 3, Rot 3 11,
        Add 25 12, Rot 12 11, Add 24 13, Rot 13 11, Add 27 14, Rot 14 11, Add 26 15,
        Rot 15 11, Add 29 8, Rot 8 11, Add 28 9, Rot 9 11, Add 31 10, Rot 10 11, Add 30 11,
        Rot 11 11]
     [a, b, c, d, e, f, g, h, i, j, k, l, m, n, p, q, r, s, t, u, v, w, y, z, A, B, C, D, E, F, G, H]
   =
     [word_rotl 11 a, word_rotl 11 b, word_rotl 11 c, word_rotl 11 d, word_rotl 11 e,
      word_rotl 11 f, word_rotl 11 g, word_rotl 11 h, word_rotl 11 i, word_rotl 11 j,
      word_rotl 11 k, word_rotl 11 l, word_rotl 11 m, word_rotl 11 n, word_rotl 11 p,
      word_rotl 11 q, f + r, e + s, h + t, g + u, b + v, a + w, d + y, c + z, n + A, m + B,
      q + C, p + D, j + E, i + F, l + G, k + H]"
  by (simp add: cube_ops ROTL32_rotl)

lemma odd_4:
  "fold cube_do
       [Xor 0 17, Xor 1 16, Xor 2 19, Xor 3 18, Xor 4 21, Xor 5 20, Xor 6 23, Xor 7 22,
        Xor 8 25, Xor 9 24, Xor 10 27, Xor 11 26, Xor 12 29, Xor 13 28, Xor 14 31, Xor 15 30]
     [a, b, c, d, e, f, g, h, i, j, k, l, m, n, p, q, r, s, t, u, v, w, y, z, A, B, C, D, E, F, G, H]
   =
     [a XOR s, b XOR r, c XOR u, d XOR t, e XOR w, f XOR v, g XOR z, h XOR y, i XOR B,
      j XOR A, k XOR D, l XOR C, m XOR F, n XOR E, p XOR H, q XOR G, r, s, t, u, v, w, y, z,
      A, B, C, D, E, F, G, H]"
  by (simp add: cube_ops ROTL32_rotl)

lemma round_even:
  assumes "length x = 32"
  shows "map ((!) (ROUND_EVEN x)) cube_moved = cube_round x"
  using assms
  apply (elim list32)
  apply (simp only: ROUND_EVEN_def fold_append comp_apply even_1 even_2 even_3 even_4)
  apply (simp only: cube_moved_list list.map)
  apply (simp add: cube_round_def cube_eval del: One_nat_def)
  done

lemma round_odd:
  assumes "length x = 32"
  shows "ROUND_ODD x = cube_round (map ((!) x) cube_moved)"
  using assms
  apply (elim list32)
  apply (simp only: ROUND_ODD_def fold_append comp_apply odd_1 odd_2 odd_3 odd_4)
  apply (simp add: cube_moved_list cube_round_def cube_eval del: One_nat_def)
  done

lemma two_rounds: "length x = 32 \<Longrightarrow> ROUND_ODD (ROUND_EVEN x) = cube_round (cube_round x)"
  by (simp add: round_odd round_even)

lemma fold_funpow: "fold (\<lambda>j. f) js x = (f ^^ length js) x"
  by (induction js arbitrary: x) (simp_all add: funpow_swap1)

lemma length_rounds_pow [simp]: "length x = 32 \<Longrightarrow> length ((cube_round ^^ n) x) = 32"
  by (induction n) simp_all

lemma two_rounds_pow:
  "length x = 32 \<Longrightarrow> ((\<lambda>x. ROUND_ODD (ROUND_EVEN x)) ^^ n) x = (cube_round ^^ (2 * n)) x"
  by (induction n) (simp_all add: two_rounds)

lemma sixteen_rounds:
  assumes "length x = 32"
  shows "SIXTEEN_ROUNDS u x = (cube_round ^^ 16) x"
proof -
  let ?F = "\<lambda>x. ROUND_ODD (ROUND_EVEN x)"
  have four: "(\<lambda>x. ?F (?F x)) = ?F ^^ 2" and eight: "(\<lambda>x. ?F (?F (?F (?F x)))) = ?F ^^ 4"
    and all: "?F (?F (?F (?F (?F (?F (?F (?F x))))))) = (?F ^^ 8) x"
    by (simp_all add: fun_eq_iff numeral_eq_Suc)
  have "SIXTEEN_ROUNDS u x = (?F ^^ 8) x"
    unfolding SIXTEEN_ROUNDS_def all four eight
    by (simp add: fold_funpow funpow_mult)
  then show ?thesis using two_rounds_pow [OF assms, of 8] by simp
qed

section \<open>Blocks and padding\<close>

lemma cube_INPUT_BLOCK_map:
  "length x = 32 \<Longrightarrow> cube_INPUT_BLOCK buf x = cube_input buf x"
  by (elim list32) (simp add: cube_INPUT_BLOCK_def cube_input_def upt_0_32 codec_defs)

lemma length_cube_input [simp]: "length (cube_input b x) = 32"
  by (simp add: cube_input_def)

lemma cube_block_round:
  "length x = 32 \<Longrightarrow> cube_block u buf x = (cube_round ^^ 16) (cube_input buf x)"
  by (simp add: cube_block_def cube_INPUT_BLOCK_map sixteen_rounds)

lemma dec32le_take: "4 \<le> n \<Longrightarrow> sph_dec32le (take n b) = sph_dec32le b"
  by (simp add: codec_defs)

lemma cube_INPUT_BLOCK_take: "cube_INPUT_BLOCK (take 32 buf) x = cube_INPUT_BLOCK buf x"
  by (simp add: cube_INPUT_BLOCK_def drop_take dec32le_take)

lemma cube_block_take: "cube_block u (take 32 buf) x = cube_block u buf x"
  by (simp add: cube_block_def cube_INPUT_BLOCK_take)

lemma cube_absorb:
  assumes "length x = 32"
  shows "absorb k 32 (cube_block u) m x = absorb k 32 (\<lambda>b x. (cube_round ^^ 16) (cube_input b x)) m x"
    and "length (absorb k 32 (cube_block u) m x) = 32"
proof -
  let ?f = "\<lambda>b x. (cube_round ^^ 16) (cube_input b x)"
  have *: "id (absorb k 32 (cube_block u) m x) = absorb k 32 ?f m (id x)
      \<and> length (absorb k 32 (cube_block u) m x) = 32"
    by (rule absorb_commute) (simp_all add: cube_block_round assms)
  show "absorb k 32 (cube_block u) m x = absorb k 32 ?f m x"
    using * by simp
  show "length (absorb k 32 (cube_block u) m x) = 32"
    using * by (rule conjunct2)
qed

section \<open>Closing\<close>

lemma cube_sph_block: "sph_block 32 (cube_block u)"
  by unfold_locales (simp_all add: cube_block_take)

lemma final_rounds:
  assumes "length x = 32"
  shows "fold (\<lambda>i x. let x = SIXTEEN_ROUNDS u x in if i = 0 then x[31 := x ! 31 XOR 1] else x) [0..<11] x
    = (cube_round ^^ 160) (let x = (cube_round ^^ 16) x in x[31 := x ! 31 XOR 1])"
proof -
  let ?F = "\<lambda>(i :: nat) x. let x = SIXTEEN_ROUNDS u x in if i = 0 then x[31 := x ! 31 XOR 1] else x"
  have rest: "fold ?F js y = (cube_round ^^ (16 * length js)) y" if "length y = 32" "0 \<notin> set js" for js :: "nat list" and y
    using that
  proof (induction js arbitrary: y)
    case (Cons j js)
    then have "fold ?F (j # js) y = (cube_round ^^ (16 * length js)) ((cube_round ^^ 16) y)"
      by (simp add: sixteen_rounds)
    then show ?case by (simp add: funpow_add add.commute [of 16])
  qed simp
  have "[0..<11] = 0 # [1..<11 :: nat]"
    by code_simp
  then have "fold ?F [0..<11] x = fold ?F [1..<11] (?F 0 x)"
    by (simp only: fold_simps)
  also have "\<dots> = (cube_round ^^ (16 * length [1..<11 :: nat])) (?F 0 x)"
    by (rule rest) (simp_all add: assms sixteen_rounds Let_def)
  finally show ?thesis
    by (simp add: sixteen_rounds assms Let_def)
qed

lemma cube_close_digest:
  assumes h: "sph_holds 32 (cube_block u) iv m (cb_view sc)" and iv: "length iv = 32"
    and n: "n < 8" and w: "w \<le> 32"
  shows "\<exists>buf x. cubehash_close u sc ub n w =
      Some (sc\<lparr>cb_buf := buf, cb_state := x\<rparr>, cube_digest iv w m (top_bits n ub))
    \<and> length buf = length (cb_buf sc)"
proof -
  let ?p = "cb_ptr sc" and ?v = "cb_state sc" and ?b = "sph_pad_byte ub n"
  let ?tail = "?b # replicate (31 - ?p) 0"
  have h': "sph_holds 32 (cube_block u) iv m (cb_buf sc, ?p, ?v)" using h by (simp add: cb_view_def)
  have p: "?p < 32" using sph_block.holds_ptr [OF cube_sph_block h'] .
  have pm: "?p = length m mod 32"
    using h' length_rest_eager [of 32 m] by (simp add: sph_holds.simps)
  have "?p + length ?tail = 32" using p by simp
  from sph_block.holds_fill [OF cube_sph_block h' this] obtain buf where
    buf: "memcpy_in (cb_buf sc) ?p ?tail = Some buf"
    and f: "sph_holds 32 (cube_block u) iv (m @ ?tail) (buf, 0, cube_block u buf ?v)" by blast
  have pad: "m @ ?tail = cube_pad m (top_bits n ub)"
    using n by (simp add: cube_pad_def sph_pad_byte_bits top_bits_def pm)
  define x where "x = absorb 31 32 (cube_block u) (m @ ?tail) iv"
  have "cube_block u buf ?v = x"
    using f by (simp add: sph_holds.simps x_def)
  have len: "length x = 32"
    unfolding x_def by (rule cube_absorb(2) [OF iv])
  have xs: "x = absorb 31 32 (\<lambda>b x. (cube_round ^^ 16) (cube_input b x)) (cube_pad m (top_bits n ub)) iv"
    unfolding x_def pad by (rule cube_absorb(1) [OF iv])
  have v: "length ?v = 32"
    using h' cube_absorb(2) [OF iv, of 31 u m] by (simp add: sph_holds.simps)
  let ?y = "(cube_round ^^ 160) (x[31 := x ! 31 XOR 1])"
  have rounds: "fold (\<lambda>i x. let x = SIXTEEN_ROUNDS u x in if i = 0 then x[31 := x ! 31 XOR 1] else x) [0..<11]
      (cube_INPUT_BLOCK buf ?v) = ?y"
    using \<open>cube_block u buf ?v = x\<close> v final_rounds [of "cube_INPUT_BLOCK buf ?v" u]
    by (simp add: cube_INPUT_BLOCK_map cube_block_round Let_def)
  have y: "length ?y = 32" using len by simp
  have out: "those (map (\<lambda>z. if z < length ?y then Some (sph_enc32le (?y ! z)) else None) [0..<w])
      = Some (map (\<lambda>z. sph_enc32le (?y ! z)) [0..<w])"
    using w y by (intro those_map_Some) simp
  have "map (\<lambda>z. sph_enc32le (?y ! z)) [0..<w] = map sph_enc32le (take w ?y)"
    using w y by (auto intro!: nth_equalityI)
  then have dig: "concat (map (\<lambda>z. sph_enc32le (?y ! z)) [0..<w]) = cube_digest iv w m (top_bits n ub)"
    by (simp add: cube_digest_def Let_def flip: xs)
  have "store_in (cb_buf sc) ?p ?b \<bind> (\<lambda>b. memset_in b (?p + 1) 0 (32 - (?p + 1))) = Some buf"
    using store_memset [of ?p "31 - ?p" "cb_buf sc" ?b 0] buf h' p by (simp add: sph_holds.simps)
  then obtain b1 where "store_in (cb_buf sc) ?p ?b = Some b1"
    "memset_in b1 (?p + 1) 0 (32 - (?p + 1)) = Some buf"
    by (auto simp: bind_Some_iff)
  then have "cubehash_close u sc ub n w =
      Some (sc\<lparr>cb_buf := buf, cb_state := ?y\<rparr>, cube_digest iv w m (top_bits n ub))"
    by (simp add: cubehash_close_def Let_def [of _ "\<lambda>x. x"] rounds out dig)
  then show ?thesis using memcpy_in_length [OF buf] by blast
qed

lemma cube_upd_core:
  "sph_core 32 (cube_block u) d (cb_view sc) = Some t \<Longrightarrow>
   \<exists>sc'. cubehash_core u sc d = Some sc' \<and> cb_view sc' = t"
  by (cases t) (simp add: cubehash_core_def cb_view_def)

lemma cube_addbits:
  assumes h: "sph_holds 32 (cube_block u) iv m (cb_view sc)" and iv: "length iv = 32"
    and n: "n < 8" and w: "w \<le> 32"
  shows "\<exists>cc. cubehash_close u sc ub n w \<bind> (\<lambda>(cc, dst). Some (cubehash_init cc iv, dst))
      = Some (cc, cube_digest iv w m (top_bits n ub)) \<and> sph_fresh 32 iv (cb_view cc)"
proof -
  obtain buf x where "cubehash_close u sc ub n w =
      Some (sc\<lparr>cb_buf := buf, cb_state := x\<rparr>, cube_digest iv w m (top_bits n ub))"
    "length buf = length (cb_buf sc)"
    using cube_close_digest [OF assms] by blast
  moreover have "length (cb_buf sc) \<ge> 32" using h by (simp add: cb_view_def sph_holds.simps)
  ultimately show ?thesis by (simp add: cubehash_init_def cb_view_def)
qed

lemma length_cube_IV: "length cube_IV224 = 32" "length cube_IV256 = 32" "length cube_IV384 = 32" "length cube_IV512 = 32"
  by (simp_all add: cube_IV224_def cube_IV256_def cube_IV384_def cube_IV512_def)

lemma cube_fresh: "length (cb_buf cc) = 32 \<Longrightarrow> sph_fresh 32 iv (cb_view (cubehash_init cc iv))"
  by (simp add: cubehash_init_def cb_view_def)

section \<open>The four hashes as streams\<close>

interpretation cube224: sph_stream 32 "cube_block u" cb_view cube_IV224 "sph_cubehash224 u"
  "\<lambda>sc. map_option snd (sph_cubehash224_addbits_and_close u sc ub n)"
  "\<lambda>m. cube_digest cube_IV224 7 m (top_bits n ub)" "\<lambda>_. n < 8"
  for u ub n
proof unfold_locales
  show "map_option snd (sph_cubehash224_addbits_and_close u sc ub n) = Some (cube_digest cube_IV224 7 m (top_bits n ub))"
    if "sph_holds 32 (cube_block u) cube_IV224 m (cb_view sc)" "n < 8" for sc m
    using cube_addbits [OF that(1) length_cube_IV(1) that(2), of 7 ub]
    by (auto simp: sph_cubehash224_addbits_and_close_def sph_cubehash224_init_def)
qed (simp_all add: cube_block_take cube_upd_core sph_cubehash224_def)

interpretation cube256: sph_stream 32 "cube_block u" cb_view cube_IV256 "sph_cubehash256 u"
  "\<lambda>sc. map_option snd (sph_cubehash256_addbits_and_close u sc ub n)"
  "\<lambda>m. cube_digest cube_IV256 8 m (top_bits n ub)" "\<lambda>_. n < 8"
  for u ub n
proof unfold_locales
  show "map_option snd (sph_cubehash256_addbits_and_close u sc ub n) = Some (cube_digest cube_IV256 8 m (top_bits n ub))"
    if "sph_holds 32 (cube_block u) cube_IV256 m (cb_view sc)" "n < 8" for sc m
    using cube_addbits [OF that(1) length_cube_IV(2) that(2), of 8 ub]
    by (auto simp: sph_cubehash256_addbits_and_close_def sph_cubehash256_init_def)
qed (simp_all add: cube_block_take cube_upd_core sph_cubehash256_def)

interpretation cube384: sph_stream 32 "cube_block u" cb_view cube_IV384 "sph_cubehash384 u"
  "\<lambda>sc. map_option snd (sph_cubehash384_addbits_and_close u sc ub n)"
  "\<lambda>m. cube_digest cube_IV384 12 m (top_bits n ub)" "\<lambda>_. n < 8"
  for u ub n
proof unfold_locales
  show "map_option snd (sph_cubehash384_addbits_and_close u sc ub n) = Some (cube_digest cube_IV384 12 m (top_bits n ub))"
    if "sph_holds 32 (cube_block u) cube_IV384 m (cb_view sc)" "n < 8" for sc m
    using cube_addbits [OF that(1) length_cube_IV(3) that(2), of 12 ub]
    by (auto simp: sph_cubehash384_addbits_and_close_def sph_cubehash384_init_def)
qed (simp_all add: cube_block_take cube_upd_core sph_cubehash384_def)

interpretation cube512: sph_stream 32 "cube_block u" cb_view cube_IV512 "sph_cubehash512 u"
  "\<lambda>sc. map_option snd (sph_cubehash512_addbits_and_close u sc ub n)"
  "\<lambda>m. cube_digest cube_IV512 16 m (top_bits n ub)" "\<lambda>_. n < 8"
  for u ub n
proof unfold_locales
  show "map_option snd (sph_cubehash512_addbits_and_close u sc ub n) = Some (cube_digest cube_IV512 16 m (top_bits n ub))"
    if "sph_holds 32 (cube_block u) cube_IV512 m (cb_view sc)" "n < 8" for sc m
    using cube_addbits [OF that(1) length_cube_IV(4) that(2), of 16 ub]
    by (auto simp: sph_cubehash512_addbits_and_close_def sph_cubehash512_init_def)
qed (simp_all add: cube_block_take cube_upd_core sph_cubehash512_def)

definition cube_blank :: cubehash_ctx where
  \<comment> \<open>a context for the witnesses\<close>
  "cube_blank = \<lparr>cb_buf = replicate 32 7, cb_ptr = 3, cb_state = []\<rparr>"

section \<open>Properties\<close>

text \<open>
  C6: initialise, update in pieces of any size, add up to 7 bits and close: the four functions
  compute CubeHash16/32 of the bit string, from the initial values of the file, whichever way the
  rounds are unrolled (\<open>u\<close>), and never leave their buffers.
\<close>

theorem cubehash_is_cubehash:
  assumes "length (cb_buf cc) = 32" "n < 8"
  shows
    "feed (sph_cubehash224 u) (sph_cubehash224_init cc) ds
       \<bind> (\<lambda>sc. map_option snd (sph_cubehash224_addbits_and_close u sc ub n))
     = Some (cube_digest cube_IV224 7 (concat ds) (top_bits n ub)) \<and>
    feed (sph_cubehash256 u) (sph_cubehash256_init cc) ds
       \<bind> (\<lambda>sc. map_option snd (sph_cubehash256_addbits_and_close u sc ub n))
     = Some (cube_digest cube_IV256 8 (concat ds) (top_bits n ub)) \<and>
    feed (sph_cubehash384 u) (sph_cubehash384_init cc) ds
       \<bind> (\<lambda>sc. map_option snd (sph_cubehash384_addbits_and_close u sc ub n))
     = Some (cube_digest cube_IV384 12 (concat ds) (top_bits n ub)) \<and>
    feed (sph_cubehash512 u) (sph_cubehash512_init cc) ds
       \<bind> (\<lambda>sc. map_option snd (sph_cubehash512_addbits_and_close u sc ub n))
     = Some (cube_digest cube_IV512 16 (concat ds) (top_bits n ub))"
  using assms
  by (simp add: cube224.hash_chunks cube256.hash_chunks cube384.hash_chunks cube512.hash_chunks
    cube_fresh sph_cubehash224_init_def sph_cubehash256_init_def sph_cubehash384_init_def
    sph_cubehash512_init_def)

theorem cubehash_is_cubehash_witness:
  "feed (sph_cubehash512 0) (sph_cubehash512_init cube_blank) [[1, 2], replicate 40 9]
     \<bind> (\<lambda>sc. map_option snd (sph_cubehash512_addbits_and_close 0 sc 0xA0 3))
   = Some (cube_digest cube_IV512 16 (1 # 2 # replicate 40 9) (top_bits 3 0xA0))"
  using cubehash_is_cubehash [of cube_blank 3 0 "[[1, 2], replicate 40 9]" "0xA0"]
  by (simp add: cube_blank_def)

text \<open>
  Closing reinitialises the context, as the header promises: without another call of the
  initialisation, a second message hashed in the same context gets its own digest.
\<close>

theorem cubehash_reuse:
  assumes "length (cb_buf cc) = 32"
  shows "feed (sph_cubehash512 u) (sph_cubehash512_init cc) ds
       \<bind> (\<lambda>sc. sph_cubehash512_close u sc)
       \<bind> (\<lambda>(sc, dst). feed (sph_cubehash512 u) sc es
       \<bind> (\<lambda>sc. map_option (\<lambda>(sc', dst'). (dst, dst')) (sph_cubehash512_close u sc)))
     = Some (cube_digest cube_IV512 16 (concat ds) [], cube_digest cube_IV512 16 (concat es) [])"
proof -
  let ?d = "\<lambda>m. cube_digest cube_IV512 16 m []"
  have close: "\<exists>cc. sph_cubehash512_close u sc = Some (cc, ?d m) \<and> sph_fresh 32 cube_IV512 (cb_view cc)"
    if "sph_holds 32 (cube_block u) cube_IV512 m (cb_view sc)" for sc m
    using cube_addbits [OF that length_cube_IV(4), of 0 16 0]
    by (simp add: sph_cubehash512_close_def sph_cubehash512_addbits_and_close_def
      sph_cubehash512_init_def top_bits_def)
  have run: "\<exists>sc' cc'. feed (sph_cubehash512 u) sc ds = Some sc' \<and> sph_cubehash512_close u sc' = Some (cc', ?d (concat ds))
      \<and> sph_fresh 32 cube_IV512 (cb_view cc')"
    if "sph_fresh 32 cube_IV512 (cb_view sc)" for sc ds
    using cube512.feed_fresh [OF that, of u ds] close by blast
  have "sph_fresh 32 cube_IV512 (cb_view (sph_cubehash512_init cc))"
    using assms by (simp add: sph_cubehash512_init_def cube_fresh)
  from run [OF this, of ds] obtain sc1 cc1 where
    1: "feed (sph_cubehash512 u) (sph_cubehash512_init cc) ds = Some sc1"
       "sph_cubehash512_close u sc1 = Some (cc1, ?d (concat ds))"
    and fresh: "sph_fresh 32 cube_IV512 (cb_view cc1)" by blast
  from run [OF fresh, of es] 1 show ?thesis by auto
qed

theorem cubehash_reuse_witness:
  "feed (sph_cubehash512 4) (sph_cubehash512_init cube_blank) [[1]]
     \<bind> (\<lambda>sc. sph_cubehash512_close 4 sc)
     \<bind> (\<lambda>(sc, dst). feed (sph_cubehash512 4) sc []
     \<bind> (\<lambda>sc. map_option (\<lambda>(sc', dst'). (dst, dst')) (sph_cubehash512_close 4 sc)))
   = Some (cube_digest cube_IV512 16 [1] [], cube_digest cube_IV512 16 [] [])"
  using cubehash_reuse [of cube_blank 4 "[[1]]" "[]"] by (simp add: cube_blank_def)

end
