(* ===== verification/Blake.thy ===== *)
theory Blake
  imports Sph_Core Md_Helper
begin

text \<open>
  The hash functions BLAKE as their authors submitted them to the SHA-3 competition, on messages
  of bits and for both word lengths. Two files of the repository implement them, each its own way:
  \<^verbatim>\<open>src/crypto/ghostrider/sph_blake.c\<close> (theory \<open>Sph_Blake\<close>) and
  \<^verbatim>\<open>src/crypto/cn/c_blake256.c\<close> (theory \<open>C_Blake256\<close>). A round works here on the rows of a 4x4
  matrix: the columns, then the rows rotated so that the diagonals become columns.
\<close>

section \<open>The compression function\<close>

record 'w blake_alg =
  bl_bytes :: nat \<comment> \<open>the bytes of a word\<close>
  bl_dec :: "bytes \<Rightarrow> 'w"
  bl_enc :: "'w \<Rightarrow> bytes"
  bl_cst :: "'w list"
  bl_rots :: "nat \<times> nat \<times> nat \<times> nat"
  bl_rounds :: nat

definition blake_sigma :: "nat list list" where
  "blake_sigma =
    [[0, 1, 2, 3, 4, 5, 6, 7, 8, 9, 10, 11, 12, 13, 14, 15],
     [14, 10, 4, 8, 9, 15, 13, 6, 1, 12, 0, 2, 11, 7, 5, 3],
     [11, 8, 12, 0, 5, 2, 15, 13, 10, 14, 3, 6, 7, 1, 9, 4],
     [7, 9, 3, 1, 13, 12, 11, 14, 2, 6, 5, 10, 4, 0, 15, 8],
     [9, 0, 5, 7, 2, 4, 10, 15, 14, 1, 11, 12, 6, 8, 3, 13],
     [2, 12, 6, 10, 0, 11, 8, 3, 4, 13, 7, 5, 15, 14, 1, 9],
     [12, 5, 1, 15, 14, 13, 4, 10, 0, 7, 6, 3, 9, 2, 8, 11],
     [13, 11, 7, 14, 12, 1, 3, 9, 5, 0, 15, 4, 8, 6, 2, 10],
     [6, 15, 14, 9, 11, 3, 0, 8, 12, 2, 13, 7, 1, 4, 10, 5],
     [10, 2, 8, 4, 7, 6, 1, 5, 15, 11, 9, 14, 3, 12, 13, 0]]"

fun blake_G ::
  "nat \<times> nat \<times> nat \<times> nat \<Rightarrow> ('a::len) word \<Rightarrow> 'a word \<Rightarrow> 'a word \<times> 'a word \<times> 'a word \<times> 'a word
   \<Rightarrow> 'a word \<times> 'a word \<times> 'a word \<times> 'a word" where
  "blake_G (r1, r2, r3, r4) x y (a, b, c, d) =
     (let a = a + b + x; d = word_rotr r1 (d XOR a); c = c + d; b = word_rotr r2 (b XOR c);
          a = a + b + y; d = word_rotr r3 (d XOR a); c = c + d; b = word_rotr r4 (b XOR c)
      in (a, b, c, d))"

definition blake_columns ::
  "nat \<times> nat \<times> nat \<times> nat \<Rightarrow> (nat \<Rightarrow> ('a::len) word \<times> 'a word) \<Rightarrow> 'a word list \<Rightarrow> 'a word list" where
  \<comment> \<open>the function \<open>G\<close> on the four columns, given what it mixes into each\<close>
  "blake_columns rots xy v =
     (let q = map (\<lambda>i. blake_G rots (fst (xy i)) (snd (xy i)) (v ! i, v ! (4 + i), v ! (8 + i), v ! (12 + i)))
                [0..<4]
      in map fst q @ map (fst \<circ> snd) q @ map (fst \<circ> snd \<circ> snd) q @ map (snd \<circ> snd \<circ> snd) q)"

definition blake_diag :: "'a list \<Rightarrow> 'a list" where
  \<comment> \<open>row \<open>r\<close> rotated to the left by \<open>r\<close>\<close>
  "blake_diag v = map (\<lambda>i. v ! (4 * (i div 4) + (i mod 4 + i div 4) mod 4)) [0..<16]"

definition blake_undiag :: "'a list \<Rightarrow> 'a list" where
  "blake_undiag v = map (\<lambda>i. v ! (4 * (i div 4) + (i mod 4 + 4 - i div 4) mod 4)) [0..<16]"

definition blake_inputs :: "('a::len) word list \<Rightarrow> 'a word list \<Rightarrow> nat list \<Rightarrow> nat \<Rightarrow> 'a word \<times> 'a word" where
  "blake_inputs c m p i =
     (m ! (p ! (2 * i)) XOR c ! (p ! (2 * i + 1)), m ! (p ! (2 * i + 1)) XOR c ! (p ! (2 * i)))"

definition blake_round ::
  "('a::len) word blake_alg \<Rightarrow> 'a word list \<Rightarrow> nat list \<Rightarrow> 'a word list \<Rightarrow> 'a word list" where
  "blake_round B m p v =
     (let xy = blake_inputs (bl_cst B) m p;
          v = blake_diag (blake_columns (bl_rots B) xy v)
      in blake_undiag (blake_columns (bl_rots B) (\<lambda>i. xy (4 + i)) v))"

definition blake_start ::
  "('a::len) word list \<Rightarrow> 'a word list \<Rightarrow> 'a word \<times> 'a word \<Rightarrow> 'a word list \<Rightarrow> 'a word list" where
  "blake_start c s t h =
     map (\<lambda>i. h ! i) [0..<8] @ map (\<lambda>i. s ! i XOR c ! i) [0..<4]
     @ [fst t XOR c ! 4, fst t XOR c ! 5, snd t XOR c ! 6, snd t XOR c ! 7]"

definition blake_words :: "('a::len) word blake_alg \<Rightarrow> bytes \<Rightarrow> 'a word list" where
  "blake_words B b = map (\<lambda>i. bl_dec B (take (bl_bytes B) (drop (bl_bytes B * i) b))) [0..<16]"

definition blake_compress ::
  "('a::len) word blake_alg \<Rightarrow> 'a word list \<Rightarrow> 'a word \<times> 'a word \<Rightarrow> bytes \<Rightarrow> 'a word list \<Rightarrow> 'a word list" where
  \<comment> \<open>chain value \<open>h\<close>, block \<open>b\<close>, salt \<open>s\<close>, counter \<open>t\<close>\<close>
  "blake_compress B s t b h =
     (let v = fold (\<lambda>r. blake_round B (blake_words B b) (blake_sigma ! (r mod 10))) [0..<bl_rounds B]
                (blake_start (bl_cst B) s t h)
      in map (\<lambda>i. h ! i XOR s ! (i mod 4) XOR v ! i XOR v ! (8 + i)) [0..<8])"

section \<open>Messages of bits\<close>

function bytes_of_bits :: "bool list \<Rightarrow> bytes" where
  "bytes_of_bits bs = (if bs = [] then [] else byte_of_bits (take 8 bs) # bytes_of_bits (drop 8 bs))"
  by pat_completeness auto
termination
  by (relation "measure length") auto

declare bytes_of_bits.simps [simp del]

definition byte_bits :: "u8 \<Rightarrow> bool list" where
  "byte_bits b = map (\<lambda>i. bit b (7 - i)) [0..<8]"

definition bits_of_bytes :: "bytes \<Rightarrow> bool list" where
  "bits_of_bytes m = concat (map byte_bits m)"

definition nat_bits :: "nat \<Rightarrow> nat \<Rightarrow> bool list" where
  \<comment> \<open>\<open>x\<close> in \<open>k\<close> bits, the most significant first\<close>
  "nat_bits k x = map (\<lambda>i. bit x (k - 1 - i)) [0..<k]"

definition blake_pad :: "nat \<Rightarrow> bool \<Rightarrow> bool list \<Rightarrow> bool list" where
  \<comment> \<open>a 1, the least number of zeros, the bit \<open>mark\<close> and the length in two words of \<open>w\<close> bytes,
    so that the whole is a multiple of 16 words\<close>
  "blake_pad w mark bits =
     bits @ True # replicate ((240 * w - 2 - length bits mod (128 * w)) mod (128 * w)) False
     @ mark # nat_bits (16 * w) (length bits)"

section \<open>The hash function\<close>

definition blake_ctr :: "nat \<Rightarrow> ('a::len) word \<times> 'a word" where
  "blake_ctr t = (of_nat t, of_nat (t div 2 ^ LENGTH('a)))"

definition blake_counter :: "nat \<Rightarrow> nat \<Rightarrow> nat \<Rightarrow> nat" where
  \<comment> \<open>the message bits in the blocks up to number \<open>i\<close>; 0 if there is none in that block\<close>
  "blake_counter n l i = (if n * i < l then min l (n * Suc i) else 0)"

fun blake_block ::
  "('a::len) word blake_alg \<Rightarrow> 'a word list \<Rightarrow> nat \<Rightarrow> bytes \<Rightarrow> 'a word list \<times> nat \<Rightarrow> 'a word list \<times> nat" where
  "blake_block B s l b (h, i) =
     (blake_compress B s (blake_ctr (blake_counter (128 * bl_bytes B) l i)) b h, Suc i)"

definition blake_hash ::
  "('a::len) word blake_alg \<Rightarrow> bool \<Rightarrow> 'a word list \<Rightarrow> 'a word list \<Rightarrow> bool list \<Rightarrow> 'a word list" where
  "blake_hash B mark iv s bits =
     fst (absorb (16 * bl_bytes B - 1) (16 * bl_bytes B) (blake_block B s (length bits))
       (bytes_of_bits (blake_pad (bl_bytes B) mark bits)) (iv, 0))"

definition blake_digest ::
  "('a::len) word blake_alg \<Rightarrow> bool \<Rightarrow> nat \<Rightarrow> 'a word list \<Rightarrow> 'a word list \<Rightarrow> bool list \<Rightarrow> bytes" where
  "blake_digest B mark out iv s bits = concat (map (bl_enc B) (take out (blake_hash B mark iv s bits)))"

section \<open>Bits and bytes\<close>

lemma length_byte_bits [simp]: "length (byte_bits b) = 8"
  by (simp add: byte_bits_def)

lemma byte_of_byte_bits [simp]: "byte_of_bits (byte_bits b) = b"
proof (rule bit_word_eqI)
  fix n assume "n < LENGTH(8)"
  then have "[0..<8] ! (7 - n) = 7 - n" "7 - (7 - n) = n" "n < 8" by simp_all
  then show "bit (byte_of_bits (byte_bits b)) n = bit b n"
    by (simp add: bit_byte_of_bits byte_bits_def del: upt_Suc upt_conv_Cons)
qed

lemma length_bits_of_bytes [simp]: "length (bits_of_bytes m) = 8 * length m"
  by (induction m) (simp_all add: bits_of_bytes_def)

lemma bytes_of_bits_Nil [simp]: "bytes_of_bits [] = []"
  by (simp add: bytes_of_bits.simps)

lemma bytes_of_bits_byte: "length x = 8 \<Longrightarrow> bytes_of_bits (x @ y) = byte_of_bits x # bytes_of_bits y"
  by (subst bytes_of_bits.simps) auto

lemma bytes_of_bits_of_bytes: "bytes_of_bits (bits_of_bytes m @ y) = m @ bytes_of_bits y"
  by (induction m) (simp_all add: bits_of_bytes_def bytes_of_bits_byte)

lemma bytes_of_zeros: "bytes_of_bits (replicate (8 * k) False @ y) = replicate k 0 @ bytes_of_bits y"
proof (induction k)
  case (Suc k)
  have "replicate (8 * Suc k) False @ y = replicate 8 False @ (replicate (8 * k) False @ y)"
    by (simp add: replicate_add)
  moreover have "byte_of_bits (replicate 8 False) = 0"
    by (rule bit_word_eqI) (auto simp: bit_byte_of_bits)
  ultimately show ?case by (simp add: bytes_of_bits_byte Suc)
qed simp

lemma bytes_of_nat_bits: "bytes_of_bits (nat_bits (8 * k) x) = be_bytes k x"
proof (induction k)
  case 0
  then show ?case by (simp add: nat_bits_def be_bytes_def)
next
  case (Suc k)
  let ?top = "map (\<lambda>i. bit x (8 * k + 7 - i)) [0..<8]"
  have "[0..<8 * Suc k] = [0..<8] @ map (\<lambda>i. i + 8) [0..<8 * k]"
    using upt_add_eq_append [of 0 8 "8 * k"] by (simp add: map_add_upt add.commute)
  then have "nat_bits (8 * Suc k) x = ?top @ nat_bits (8 * k) x"
    by (simp add: nat_bits_def o_def add.commute [of 7] del: upt_Suc)
  moreover have "byte_of_bits ?top = of_nat (drop_bit (8 * k) x)"
    by (rule bit_word_eqI) (auto simp: bit_byte_of_bits bit_simps add.commute)
  moreover have "be_bytes (Suc k) x = of_nat (drop_bit (8 * k) x) # be_bytes k x"
    by (rule nth_equalityI) (auto simp: be_bytes_def nth_Cons split: nat.splits simp del: upt_Suc)
  ultimately show ?case by (simp add: bytes_of_bits_byte Suc)
qed

lemma byte_of_bits_snoc: "byte_of_bits (xs @ [b]) = 2 * byte_of_bits xs OR of_bool b"
proof -
  have "byte_of_bits (xs @ [b]) = of_bool b + 2 * byte_of_bits xs"
    by (simp add: byte_of_bits_def)
  also have "\<dots> = 2 * byte_of_bits xs OR of_bool b"
    by (cases b) (simp_all add: or_one_eq)
  finally show ?thesis .
qed

lemma byte_of_zeros [simp]: "byte_of_bits (replicate k False) = 0"
  by (rule bit_word_eqI) (auto simp: bit_byte_of_bits)

definition pad_start :: "bool list \<Rightarrow> u8" where
  "pad_start bs = byte_of_bits (bs @ True # replicate (7 - length bs) False)"

definition marked_zeros :: "bool \<Rightarrow> u8 \<Rightarrow> nat \<Rightarrow> bytes" where
  \<comment> \<open>\<open>q\<close> bytes: \<open>b\<close>, zeros, and \<open>mark\<close> as the last bit\<close>
  "marked_zeros mark b q = (let x = b # replicate (q - 1) 0 in x[q - 1 := x ! (q - 1) OR of_bool mark])"

lemma length_marked_zeros [simp]: "0 < q \<Longrightarrow> length (marked_zeros mark b q) = q"
  unfolding marked_zeros_def Let_def length_list_update by simp

lemma marked_bytes:
  assumes "length bs + z + 2 = 8 * q" "length bs < 8"
  shows "bytes_of_bits (bs @ True # replicate z False @ mark # y)
    = marked_zeros mark (pad_start bs) q @ bytes_of_bits y"
proof (cases "q = 1")
  case True
  then have z: "z + 1 = 7 - length bs" "length (bs @ True # replicate z False @ [mark]) = 8"
    using assms by simp_all
  have "byte_of_bits ((bs @ True # replicate z False) @ [mark])
      = byte_of_bits ((bs @ True # replicate z False) @ [False]) OR of_bool mark"
    unfolding byte_of_bits_snoc by simp
  also have "(bs @ True # replicate z False) @ [False] = bs @ True # replicate (7 - length bs) False"
    using z(1) by (simp add: replicate_append_same flip: z(1))
  finally show ?thesis
    using bytes_of_bits_byte [OF z(2), of y] True by (simp add: marked_zeros_def pad_start_def)
next
  case False
  then obtain r where q: "q = Suc (Suc r)"
    using assms by (metis One_nat_def add_is_0 mult_0_right not0_implies_Suc old.nat.exhaust zero_neq_numeral)
  have "z = (7 - length bs) + (8 * r + 7)" using assms q by simp
  then have "bs @ True # replicate z False @ mark # y
      = (bs @ True # replicate (7 - length bs) False) @ replicate (8 * r) False
        @ (replicate 7 False @ [mark]) @ y"
    by (simp only: replicate_add append_assoc append_Cons append_Nil)
  moreover have "length (bs @ True # replicate (7 - length bs) False) = 8" using assms by simp
  ultimately have "bytes_of_bits (bs @ True # replicate z False @ mark # y)
      = pad_start bs # replicate r 0 @ byte_of_bits (replicate 7 False @ [mark]) # bytes_of_bits y"
    by (simp only: bytes_of_bits_byte bytes_of_zeros pad_start_def)
       (use bytes_of_bits_byte [of "replicate 7 False @ [mark]" y] in simp)
  moreover have "byte_of_bits (replicate 7 False @ [mark]) = of_bool mark"
    unfolding byte_of_bits_snoc by simp
  moreover have "marked_zeros mark (pad_start bs) q = pad_start bs # replicate r 0 @ [of_bool mark]"
    by (simp add: marked_zeros_def q replicate_append_same flip: replicate_append_same)
       (simp add: list_update_append nth_append)
  ultimately show ?thesis by simp
qed

definition blake_tail :: "nat \<Rightarrow> bool \<Rightarrow> nat \<Rightarrow> bool list \<Rightarrow> nat \<Rightarrow> bytes" where
  \<comment> \<open>the bytes that the padding puts after a message with \<open>p\<close> bytes in its last block\<close>
  "blake_tail w mark p bs l =
     marked_zeros mark (pad_start bs) ((if 8 * p + length bs \<le> 112 * w - 2 then 14 * w else 30 * w) - p)
     @ be_bytes (2 * w) l"

lemma blake_pad_tail:
  assumes "0 < w" "length bs < 8"
  shows "bytes_of_bits (blake_pad w mark (bits_of_bytes m @ bs))
    = m @ blake_tail w mark (length m mod (16 * w)) bs (8 * length m + length bs)"
proof -
  define p n where "p = length m mod (16 * w)" and "n = length bs"
  have p: "p < 16 * w" using assms by (simp add: p_def)
  have "length m = 16 * w * (length m div (16 * w)) + p" by (simp add: p_def)
  then have "8 * length m + n = 128 * w * (length m div (16 * w)) + (8 * p + n)" by simp
  moreover have less: "8 * p + n < 128 * w" using p assms by (simp add: n_def)
  ultimately have "(8 * length m + n) mod (128 * w) = 8 * p + n"
    by (metis mod_less mod_mult_self4)
  moreover have "(240 * w - 2 - (8 * p + n)) mod (128 * w)
      = (if 8 * p + n \<le> 112 * w - 2 then 112 * w - 2 - (8 * p + n) else 240 * w - 2 - (8 * p + n))"
  proof (cases "8 * p + n \<le> 112 * w - 2")
    case True
    then have e: "240 * w - 2 - (8 * p + n) = 128 * w + (112 * w - 2 - (8 * p + n))"
      using assms(1) by arith
    have "112 * w - 2 - (8 * p + n) < 128 * w" using assms(1) by arith
    then show ?thesis unfolding e mod_add_self1 using True by (simp only: mod_less if_True)
  next
    case False
    then have "240 * w - 2 - (8 * p + n) < 128 * w" using assms(1) by arith
    then show ?thesis using False by simp
  qed
  ultimately have z: "n + (240 * w - 2 - (8 * length m + n) mod (128 * w)) mod (128 * w) + 2
      = 8 * ((if 8 * p + n \<le> 112 * w - 2 then 14 * w else 30 * w) - p)"
  proof -
    assume a: "(8 * length m + n) mod (128 * w) = 8 * p + n" and b:
      "(240 * w - 2 - (8 * p + n)) mod (128 * w)
      = (if 8 * p + n \<le> 112 * w - 2 then 112 * w - 2 - (8 * p + n) else 240 * w - 2 - (8 * p + n))"
    have c: "n + (112 * w - 2 - (8 * p + n)) + 2 = 8 * (14 * w - p)" if "8 * p + n \<le> 112 * w - 2"
      using that assms(1) by arith
    have d: "n + (240 * w - 2 - (8 * p + n)) + 2 = 8 * (30 * w - p)"
      using less assms(1) by arith
    show ?thesis unfolding a b 
      by (cases "8 * p + n \<le> 112 * w - 2") (simp_all only: if_True if_False c d)
  qed
  have "bytes_of_bits (nat_bits (16 * w) x) = be_bytes (2 * w) x" for x
    using bytes_of_nat_bits [of "2 * w"] by simp
  then show ?thesis
    using marked_bytes [OF z [unfolded n_def] assms(2)]
    by (simp add: blake_pad_def bytes_of_bits_of_bytes blake_tail_def p_def n_def)
qed

section \<open>The blocks of a padded message\<close>

lemma length_blake_compress [simp]: "length (blake_compress B s t b h) = 8"
  by (simp add: blake_compress_def Let_def)

lemma blake_words_take: "blake_words B (take (16 * bl_bytes B) b) = blake_words B b"
  unfolding blake_words_def
proof (rule map_cong [OF refl])
  fix i assume "i \<in> set [0..<16 :: nat]"
  then have "bl_bytes B * Suc i \<le> bl_bytes B * 16" by (intro mult_le_mono2) simp
  then have "bl_bytes B \<le> 16 * bl_bytes B - bl_bytes B * i" unfolding mult_Suc_right by linarith
  then show "bl_dec B (take (bl_bytes B) (drop (bl_bytes B * i) (take (16 * bl_bytes B) b)))
      = bl_dec B (take (bl_bytes B) (drop (bl_bytes B * i) b))"
    by (simp add: drop_take min_absorb1)
qed

lemma blake_compress_take:
  "blake_compress B s t (take (16 * bl_bytes B) b) h = blake_compress B s t b h"
  by (simp add: blake_compress_def blake_words_take)

lemma drop_at: "length a = k \<Longrightarrow> drop k (a @ b) = b"
  by simp

lemma blake_compress_at:
  "length a = 16 * bl_bytes B \<Longrightarrow> blake_compress B s t (a @ b) h = blake_compress B s t a h"
  using blake_compress_take [of B s t "a @ b" h] by simp

text \<open>
  While the message lasts, the counter after block \<open>i\<close> is \<open>N * Suc i\<close>: an implementation that
  keeps it in its state absorbs the message as the definition does.
\<close>

lemma blake_absorb:
  fixes B :: "('a::len) word blake_alg" and s :: "'a word list"
  assumes N: "N = 128 * bl_bytes B" "0 < bl_bytes B"
    and f: "\<And>b h i. f b (h, s, blake_ctr (N * i)) =
      (blake_compress B s (blake_ctr (N * Suc i)) b h, s, blake_ctr (N * Suc i))"
    and l: "N * i + 8 * length m \<le> l"
  shows "absorb (16 * bl_bytes B - 1) (16 * bl_bytes B) f m (h, s, blake_ctr (N * i)) =
      (fst (absorb (16 * bl_bytes B - 1) (16 * bl_bytes B) (blake_block B s l) m (h, i)), s,
       blake_ctr (N * (i + length m div (16 * bl_bytes B))))
    \<and> snd (absorb (16 * bl_bytes B - 1) (16 * bl_bytes B) (blake_block B s l) m (h, i))
      = i + length m div (16 * bl_bytes B)"
  using l
proof (induction m arbitrary: h i rule: measure_induct_rule [where f = length])
  case (less m)
  let ?n = "16 * bl_bytes B"
  show ?case
  proof (cases "?n - 1 < length m")
    case False
    then have "length m div ?n = 0" using N(2) by simp
    then show ?thesis using False by simp
  next
    case True
    then have n: "0 < ?n" "?n \<le> length m" using N by simp_all
    then have d: "length m div ?n = Suc (length (drop ?n m) div ?n)" by (simp add: le_div_geq)
    have N8: "8 * ?n = N" using N by simp
    then have "N * Suc i \<le> l" "N * i < l" using less.prems n by auto
    then have step: "blake_counter (128 * bl_bytes B) l i = N * Suc i"
      by (simp add: blake_counter_def N(1))
    have "N * Suc i + 8 * length (drop ?n m) = N * i + (8 * ?n + 8 * length (drop ?n m))"
      using N8 by simp
    also have "\<dots> = N * i + 8 * length m" using n by simp
    finally have "N * Suc i + 8 * length (drop ?n m) \<le> l" using less.prems by simp
    moreover have "length (drop ?n m) < length m" using n by simp
    ultimately have IH: "absorb (?n - 1) ?n f (drop ?n m) (h', s, blake_ctr (N * Suc i)) =
        (fst (absorb (?n - 1) ?n (blake_block B s l) (drop ?n m) (h', Suc i)), s,
         blake_ctr (N * (Suc i + length (drop ?n m) div ?n)))
      \<and> snd (absorb (?n - 1) ?n (blake_block B s l) (drop ?n m) (h', Suc i))
        = Suc i + length (drop ?n m) div ?n" for h'
      by (intro less.IH)
    show ?thesis
      unfolding absorb_block [OF n(1) True] f blake_block.simps step d
      using IH [of "blake_compress B s (blake_ctr (N * Suc i)) (take ?n m) h"] by simp
  qed
qed

text \<open>The last one or two blocks.\<close>

lemma blake_hash_tail:
  assumes w: "w = bl_bytes B" "0 < w" and bs: "length bs < 8"
    and p: "p = length m mod (16 * w)" and l: "l = 8 * length m + length bs"
    and h: "h = fst (absorb (16 * w - 1) (16 * w) (blake_block B s l) m (iv, 0))"
    and k: "snd (absorb (16 * w - 1) (16 * w) (blake_block B s l) m (iv, 0)) = length m div (16 * w)"
    and b: "b = rest (16 * w - 1) (16 * w) m @ blake_tail w mark p bs l"
  shows "blake_hash B mark iv s (bits_of_bytes m @ bs) =
    (if 8 * p + length bs \<le> 112 * w - 2
     then blake_compress B s (blake_ctr (if p = 0 \<and> bs = [] then 0 else l)) b h
     else blake_compress B s (blake_ctr 0) (drop (16 * w) b) (blake_compress B s (blake_ctr l) b h))"
proof -
  let ?n = "16 * w" and ?i = "length m div (16 * w)"
  have pn: "p < ?n" using w p by simp
  have len: "length b = (if 8 * p + length bs \<le> 112 * w - 2 then ?n else 2 * ?n)"
  proof -
    have "length (rest (?n - 1) ?n m) = p"
      using length_rest_eager [of ?n m] w p by simp
    then show ?thesis using pn w by (auto simp: b blake_tail_def)
  qed
  have lm: "l = 128 * w * ?i + (8 * p + length bs)"
  proof -
    have "length m = 16 * w * ?i + p" by (simp add: p)
    then show ?thesis by (simp add: l)
  qed
  have less: "8 * p + length bs < 128 * w" using pn bs by simp
  have c1: "blake_counter (128 * w) l ?i = (if p = 0 \<and> bs = [] then 0 else l)"
    using less by (simp add: blake_counter_def lm)
  have c2: "blake_counter (128 * w) l (Suc ?i) = 0"
    using less by (simp add: blake_counter_def lm)
  have "blake_hash B mark iv s (bits_of_bytes m @ bs)
      = fst (absorb (?n - 1) ?n (blake_block B s l) (m @ blake_tail w mark p bs l) (iv, 0))"
    using blake_pad_tail [OF w(2) bs, of mark m] by (simp add: blake_hash_def w(1) [symmetric] p l)
  also have "\<dots> = fst (absorb (?n - 1) ?n (blake_block B s l) b (h, ?i))"
  proof -
    have "absorb (?n - 1) ?n (blake_block B s l) m (iv, 0) = (h, ?i)"
      using h k by (simp add: prod_eq_iff)
    then show ?thesis
      using w absorb_append [of ?n "?n - 1" "blake_block B s l" m "blake_tail w mark p bs l" "(iv, 0)"]
      by (simp add: b)
  qed
  finally have H: "blake_hash B mark iv s (bits_of_bytes m @ bs)
      = fst (absorb (?n - 1) ?n (blake_block B s l) b (h, ?i))" .
  note take = blake_compress_take [of B, folded w(1)]
  show ?thesis
  proof (cases "8 * p + length bs \<le> 112 * w - 2")
    case True
    then show ?thesis
      using len w(2) c1 by (simp add: H absorb_block take w(1) [symmetric])
  next
    case False
    then have "\<not> (p = 0 \<and> bs = [])" using w by auto
    then have "blake_counter (128 * w) l ?i = l" unfolding c1 by (rule if_not_P)
    then show ?thesis
      using False len w(2) c2
      by (simp add: H absorb_block take w(1) [symmetric])
  qed
qed

section \<open>Counters kept in two words\<close>

definition blake_tick :: "('a::len) word \<Rightarrow> 'a word \<times> 'a word \<Rightarrow> 'a word \<times> 'a word" where
  "blake_tick N t = (let t0 = fst t + N in (t0, if t0 < N then snd t + 1 else snd t))"

lemma blake_ctr_0 [simp]: "blake_ctr 0 = (0, 0)"
  by (simp add: blake_ctr_def)

lemma ctr_within:
  assumes "N * M = 2 ^ LENGTH('a::len)" "b < N"
  shows "unat (of_nat (N * k + b) :: 'a word) = N * (k mod M) + b"
    and "(N * k + b) div 2 ^ LENGTH('a) = k div M"
proof -
  have "0 < M" using assms by (metis mult_0_right not_gr0 zero_less_numeral zero_less_power less_irrefl)
  then have "N * (k mod M) + b < N * M"
    using assms(2) by (metis Suc_leI add.commute add_mult_distrib2 less_le_trans mod_less_divisor mult_Suc_right mult_le_mono2 nat_add_left_cancel_less)
  moreover have "N * k + b = N * M * (k div M) + (N * (k mod M) + b)"
    by (metis add.assoc add_mult_distrib2 mult.assoc mult_div_mod_eq)
  ultimately have "(N * k + b) mod (N * M) = N * (k mod M) + b" "(N * k + b) div (N * M) = k div M"
    by (metis mod_less mod_mult_self4, metis add_cancel_right_right div_less div_mult_self4 gr_implies_not_zero)
  then show "unat (of_nat (N * k + b) :: 'a word) = N * (k mod M) + b"
    "(N * k + b) div 2 ^ LENGTH('a) = k div M"
    by (simp_all add: unat_of_nat assms(1) [symmetric] del: of_nat_add of_nat_mult)
qed

lemma blake_tick_ctr:
  assumes "N * M = 2 ^ LENGTH('a::len)" "1 < M" "0 < N"
  shows "blake_tick (of_nat N) (blake_ctr (N * i)) = (blake_ctr (N * Suc i) :: 'a word \<times> 'a word)"
proof -
  have N: "unat (of_nat N :: 'a word) = N"
    using ctr_within(1) [OF assms(1,3), of 1] assms(2) by simp
  have "unat (of_nat (N * Suc i) :: 'a word) = N * (Suc i mod M)"
    using ctr_within(1) [OF assms(1,3), of "Suc i"] by simp
  then have "(of_nat (N * Suc i) :: 'a word) < of_nat N \<longleftrightarrow> Suc i mod M = 0"
    using assms(3) by (simp add: word_less_nat_alt N del: of_nat_mult)
  moreover have "N * Suc i div 2 ^ LENGTH('a) = Suc i div M" "N * i div 2 ^ LENGTH('a) = i div M"
    using ctr_within(2) [OF assms(1,3), of "Suc i"] ctr_within(2) [OF assms(1,3), of i] by simp_all
  moreover have "of_nat (N * i) + of_nat N = (of_nat (N * Suc i) :: 'a word)"
    by (simp add: algebra_simps)
  ultimately show ?thesis
    by (simp add: blake_tick_def blake_ctr_def div_Suc Let_def del: of_nat_mult mult_Suc_right)
qed

text \<open>How far to set the counter back before the last block that holds message bits.\<close>

lemma blake_tick_last:
  assumes M: "N * M = 2 ^ LENGTH('a::len)" "1 < M" and b: "0 < b" "b < N"
    and t: "(t0, t1) = (blake_ctr (N * k) :: 'a word \<times> 'a word)"
  shows "blake_tick (of_nat N) (if t0 = 0 then (- of_nat N + of_nat b, t1 - 1) else (t0 - (of_nat N - of_nat b), t1))
    = blake_ctr (N * k + b)"
proof -
  have N: "0 < N" "unat (of_nat N :: 'a word) = N"
    using ctr_within(1) [OF M(1), of 0 1] M(2) b by simp_all
  have t': "t0 = of_nat (N * k)" "t1 = of_nat (k div M)"
    using t ctr_within(2) [OF M(1) N(1), of k] by (simp_all add: blake_ctr_def)
  have c: "blake_ctr (N * k + b) = (t0 + of_nat b, t1)"
    using t' ctr_within(2) [OF M(1) b(2), of k] by (simp add: blake_ctr_def)
  have "unat (t0 + of_nat b) = N * (k mod M) + b"
    using ctr_within(1) [OF M(1) b(2), of k] t' by simp
  moreover have "t0 = 0 \<longleftrightarrow> k mod M = 0"
    using ctr_within(1) [OF M(1) N(1), of k] N t' by (simp add: unat_eq_zero [symmetric] del: of_nat_mult unat_eq_zero)
  ultimately have "t0 + of_nat b < of_nat N \<longleftrightarrow> t0 = 0"
    using b by (cases "k mod M") (auto simp: word_less_nat_alt N)
  then show ?thesis
    unfolding c by (auto simp: blake_tick_def Let_def)
qed

lemma blake_tick_none:
  "0 < N \<Longrightarrow> N < 2 ^ LENGTH('a) \<Longrightarrow> blake_tick (of_nat N) (- of_nat N, - 1) = (0, 0 :: ('a::len) word)"
  by (simp add: blake_tick_def Let_def word_less_nat_alt unat_of_nat)

section \<open>Rounds of straight-line code\<close>

lemma upt_0_16: "[0..<16] = [0, 1, 2, 3, 4, 5, 6, 7, 8, 9, 10, 11, 12, 13, 14, 15 :: nat]"
  by code_simp

lemma upt_0_8: "[0..<8] = [0, 1, 2, 3, 4, 5, 6, 7 :: nat]"
  by code_simp

lemma upt_0_4: "[0..<4] = [0, 1, 2, 3 :: nat]"
  by code_simp

lemma length_blake_columns [simp]: "length (blake_columns rots xy v) = 16"
  by (simp add: blake_columns_def Let_def)

lemma list8:
  assumes "length (x :: 'a list) = 8"
  obtains a b c d e f g h where "x = [a, b, c, d, e, f, g, h]"
proof -
  have "x = map ((!) x) [0..<8]" using assms map_nth [of x] by simp
  then show ?thesis unfolding upt_0_8 list.map by (rule that)
qed

lemma list16:
  assumes "length (x :: 'a list) = 16"
  obtains a b c d e f g h i j k l m n p q where "x = [a, b, c, d, e, f, g, h, i, j, k, l, m, n, p, q]"
proof -
  have "x = map ((!) x) [0..<16]" using assms map_nth [of x] by simp
  then show ?thesis unfolding upt_0_16 list.map by (rule that)
qed

definition blake_line ::
  "('a::len) word blake_alg \<Rightarrow> 'a word list \<Rightarrow> nat list \<Rightarrow> nat \<Rightarrow> nat \<times> nat \<times> nat \<times> nat \<Rightarrow> 'a word list \<Rightarrow> 'a word list" where
  \<comment> \<open>the function \<open>G\<close> on four entries of the state, where they lie\<close>
  "blake_line B m p i = (\<lambda>(ia, ib, ic, id) v.
     let xy = blake_inputs (bl_cst B) m p i;
         q = blake_G (bl_rots B) (fst xy) (snd xy) (v ! ia, v ! ib, v ! ic, v ! id)
     in v[ia := fst q, ib := fst (snd q), ic := fst (snd (snd q)), id := snd (snd (snd q))])"

lemma length_blake_line [simp]: "length (blake_line B m p i q v) = length v"
  by (cases q) (simp add: blake_line_def Let_def)

text \<open>Column by column and diagonal by diagonal is a round on the matrix.\<close>

lemma lines_columns:
  "length v = 16 \<Longrightarrow>
   blake_line B m p 3 (3, 7, 11, 15) (blake_line B m p 2 (2, 6, 10, 14)
     (blake_line B m p 1 (1, 5, 9, 13) (blake_line B m p 0 (0, 4, 8, 12) v)))
   = blake_columns (bl_rots B) (blake_inputs (bl_cst B) m p) v"
  by (elim list16) (simp add: blake_line_def blake_columns_def Let_def upt_0_4)

lemma lines_diagonals:
  "length v = 16 \<Longrightarrow>
   blake_line B m p 7 (3, 4, 9, 14) (blake_line B m p 6 (2, 7, 8, 13)
     (blake_line B m p 5 (1, 6, 11, 12) (blake_line B m p 4 (0, 5, 10, 15) v)))
   = blake_undiag (blake_columns (bl_rots B) (\<lambda>i. blake_inputs (bl_cst B) m p (4 + i)) (blake_diag v))"
  by (elim list16) (simp add: blake_line_def blake_columns_def blake_diag_def blake_undiag_def Let_def upt_0_4 upt_0_16)

lemma lines_round:
  "length v = 16 \<Longrightarrow>
   blake_line B m p 7 (3, 4, 9, 14) (blake_line B m p 6 (2, 7, 8, 13)
    (blake_line B m p 5 (1, 6, 11, 12) (blake_line B m p 4 (0, 5, 10, 15)
     (blake_line B m p 3 (3, 7, 11, 15) (blake_line B m p 2 (2, 6, 10, 14)
      (blake_line B m p 1 (1, 5, 9, 13) (blake_line B m p 0 (0, 4, 8, 12) v)))))))
   = blake_round B m p v"
  by (simp only: lines_diagonals lines_columns length_blake_line length_blake_columns blake_round_def Let_def)

lemma length_blake_round [simp]: "length (blake_round B m p v) = 16"
  by (simp add: blake_round_def blake_undiag_def Let_def)

lemma fold_rounds_eq:
  assumes "\<And>z v. length v = 16 \<Longrightarrow> R z v = blake_round B m z v" "length v = 16"
  shows "fold R zs v = fold (blake_round B m) zs v"
  using assms(2) by (induction zs arbitrary: v) (simp_all add: assms(1))

lemma rounds_rows:
  assumes rows: "map row rs = map row' rs'" and R: "\<And>z v. length v = 16 \<Longrightarrow> R z v = blake_round B m z v"
    and v: "length v = 16"
  shows "fold (\<lambda>r. R (row r)) rs v = fold (\<lambda>r. blake_round B m (row' r)) rs' v"
proof -
  have "fold (\<lambda>r. R (row r)) rs v = fold R (map row rs) v" by (simp add: fold_map o_def)
  also have "\<dots> = fold (blake_round B m) (map row' rs') v"
    using fold_rounds_eq [OF R v] by (simp add: rows)
  finally show ?thesis by (simp add: fold_map o_def)
qed

lemma length_blake_start [simp]: "length (blake_start c s t h) = 16"
  by (simp add: blake_start_def)

section \<open>The tail of a padded message in a buffer\<close>

lemma be_bytes_append: "be_bytes (j + k) x = be_bytes j (drop_bit (8 * k) x) @ be_bytes k x"
  by (rule nth_equalityI)
     (auto simp: be_bytes_def nth_append algebra_simps Suc_diff_Suc)

lemma word32_byte: "j + 8 \<le> 32 \<Longrightarrow> ucast (drop_bit j (of_nat x :: u32)) = (of_nat (drop_bit j x) :: u8)"
  by (rule bit_word_eqI) (auto simp: bit_simps)

lemma enc32be_of_nat: "sph_enc32be (of_nat x) = be_bytes 4 x"
  using word32_byte [of 0 x] by (simp add: sph_enc32be_def be_bytes_def upt_0_4 word32_byte)

lemma be_bytes_small: "be_bytes 8 x = sph_enc32be (of_nat (x div 2 ^ 32)) @ sph_enc32be (of_nat x)"
  using be_bytes_append [of 4 4 x] by (simp only: enc32be_of_nat) (simp add: drop_bit_eq_div)

lemma be_bytes_big: "be_bytes 16 x = sph_enc64be (of_nat (x div 2 ^ 64)) @ sph_enc64be (of_nat x)"
  using be_bytes_append [of 8 8 x] by (simp only: enc64be_of_nat) (simp add: drop_bit_eq_div)

lemma marked_zeros_split:
  assumes "0 < i" "0 < j"
  shows "marked_zeros mark x (i + j) = (x # replicate (i - 1) 0) @ replicate (j - 1) 0 @ [of_bool mark]"
proof -
  obtain a b where ij: "i = Suc a" "j = Suc b" using assms by (metis gr0_implies_Suc)
  let ?z = "replicate a 0 @ replicate b 0"
  have "replicate (Suc (a + b)) 0 = ?z @ [0 :: u8]"
    by (simp only: replicate_add [symmetric] replicate_append_same [symmetric] replicate_Suc)
  moreover have "(x # ?z @ [0])[Suc (a + b) := (x # ?z @ [0]) ! Suc (a + b) OR of_bool mark]
      = x # ?z @ [of_bool mark]"
    by (simp add: list_update_append nth_append)
  ultimately show ?thesis
    unfolding marked_zeros_def ij by (simp only: Let_def) simp
qed

text \<open>The statements that write the last block behind the \<open>ptr\<close> bytes of the message in it.\<close>

lemma tail_one:
  assumes "length u = blk" "ptr < k" "k + length e1 + length e2 = blk"
  shows "memset_in (u[ptr := x]) (ptr + 1) 0 (k - 1 - ptr) \<bind> (\<lambda>b.
      let b = (if mark then b[k - 1 := b ! (k - 1) OR 1] else b)
      in memcpy_in b k e1 \<bind> (\<lambda>b. memcpy_in b (k + length e1) e2 \<bind> (\<lambda>b. read_in b ptr (blk - ptr) \<bind> F)))
    = F (marked_zeros mark x (k - ptr) @ e1 @ e2)"
proof -
  let ?z = "x # replicate (k - 1 - ptr) 0"
  have z: "memset_in (u[ptr := x]) (ptr + 1) 0 (k - 1 - ptr) = Some (take ptr u @ ?z @ drop k u)"
    using assms by (simp add: mem_simps take_Suc_conv_app_nth)
  have m: "(if mark then (take ptr u @ ?z @ drop k u)[k - 1 := (take ptr u @ ?z @ drop k u) ! (k - 1) OR 1]
      else take ptr u @ ?z @ drop k u) = take ptr u @ marked_zeros mark x (k - ptr) @ drop k u"
  proof -
    obtain j where k: "k = ptr + Suc j" using assms(2) by (metis add_Suc_right less_imp_Suc_add)
    have "(take ptr u @ z @ D)[k - 1 := (take ptr u @ z @ D) ! (k - 1) OR of_bool mark]
        = take ptr u @ z[j := z ! j OR of_bool mark] @ D" if "length z = Suc j" for z D
      using that assms k by (simp add: list_update_append nth_append)
    from this [of ?z "drop k u"] show ?thesis
      using k by (cases mark) (simp_all add: marked_zeros_def Let_def del: list_update.simps)
  qed
  have l: "length (marked_zeros mark x (k - ptr)) = k - ptr" using assms by simp
  show ?thesis
    unfolding z Option.bind.bind_lunit Let_def m using assms l by (simp add: mem_simps)
qed

text \<open>Or over two blocks: the first is filled up with zeros, the second written from the start.\<close>

lemma tail_two_first:
  assumes "length u = blk" "ptr < blk"
  shows "memset_in (u[ptr := x]) (ptr + 1) 0 (blk - 1 - ptr) = Some (take ptr u @ x # replicate (blk - 1 - ptr) 0)"
  using assms by (simp add: mem_simps take_Suc_conv_app_nth)

lemma tail_two_second:
  assumes "length (b :: bytes) = blk" "0 < k" "k + length e1 + length e2 = blk"
  shows "memset_in b 0 0 k \<bind> (\<lambda>b. let b = (if mark then b[k - 1 := 1] else b)
      in memcpy_in b k e1 \<bind> (\<lambda>b. memcpy_in b (k + length e1) e2 \<bind> F))
    = F (replicate (k - 1) 0 @ [of_bool mark] @ e1 @ e2)"
proof -
  have z: "memset_in b 0 0 k = Some (replicate k 0 @ drop k b)" using assms by (simp add: mem_simps)
  obtain j where k: "k = Suc j" using assms(2) by (metis gr0_implies_Suc)
  have "(replicate j 0 @ [0] @ D)[j := 1] = replicate j 0 @ [1] @ D" for D :: bytes
    by (simp add: list_update_append)
  then have m: "(if mark then (replicate k 0 @ drop k b)[k - 1 := 1] else replicate k 0 @ drop k b)
      = replicate (k - 1) 0 @ [of_bool mark] @ drop k b"
    by (simp add: k replicate_append_same [symmetric] del: replicate_append_same list_update.simps)
  show ?thesis
    unfolding z Option.bind.bind_lunit Let_def m using assms by (simp add: mem_simps)
qed

lemma ctr_plus:
  assumes "N * M = 2 ^ LENGTH('a::len)" "b < N"
  shows "blake_ctr (N * k + b) = (fst (blake_ctr (N * k)) + of_nat b, snd (blake_ctr (N * k)) :: 'a word)"
  using ctr_within(2) [OF assms, of k] ctr_within(2) [OF assms(1), of 0 k] assms(2)
  by (simp add: blake_ctr_def)

text \<open>The hash of a message whose last block has room for the padding, and of one whose last block has not.\<close>

lemma blake_hash_fit:
  assumes w: "w = bl_bytes B" "0 < w" and bs: "length bs < 8"
    and p: "p = length m mod (16 * w)" and l: "l = 8 * length m + length bs"
    and abs: "absorb (16 * w - 1) (16 * w) (blake_block B s l) m (iv, 0) = (h, length m div (16 * w))"
    and fit: "8 * p + length bs \<le> 112 * w - 2"
  shows "blake_hash B mark iv s (bits_of_bytes m @ bs) =
    blake_compress B s (blake_ctr (if p = 0 \<and> bs = [] then 0 else l))
      (rest (16 * w - 1) (16 * w) m @ marked_zeros mark (pad_start bs) (14 * w - p) @ be_bytes (2 * w) l) h"
  using blake_hash_tail [OF w bs p l, of h s iv _ mark, OF _ _ refl] abs fit by (simp add: blake_tail_def)

lemma blake_hash_over:
  assumes w: "w = bl_bytes B" "0 < w" and bs: "length bs < 8"
    and p: "p = length m mod (16 * w)" and l: "l = 8 * length m + length bs"
    and abs: "absorb (16 * w - 1) (16 * w) (blake_block B s l) m (iv, 0) = (h, length m div (16 * w))"
    and over: "\<not> 8 * p + length bs \<le> 112 * w - 2"
  shows "blake_hash B mark iv s (bits_of_bytes m @ bs) =
    blake_compress B s (blake_ctr 0) (replicate (14 * w - 1) 0 @ [of_bool mark] @ be_bytes (2 * w) l)
      (blake_compress B s (blake_ctr l)
        (rest (16 * w - 1) (16 * w) m @ pad_start bs # replicate (16 * w - 1 - p) 0) h)"
proof -
  let ?r = "rest (16 * w - 1) (16 * w) m" and ?e = "be_bytes (2 * w) l"
  let ?a = "?r @ pad_start bs # replicate (16 * w - 1 - p) 0" and ?b = "replicate (14 * w - 1) 0 @ [of_bool mark] @ ?e"
  have p': "p < 16 * w" using p w(2) by simp
  then have "marked_zeros mark (pad_start bs) (30 * w - p)
      = (pad_start bs # replicate (16 * w - 1 - p) 0) @ replicate (14 * w - 1) 0 @ [of_bool mark]"
    using marked_zeros_split [of "16 * w - p" "14 * w" mark "pad_start bs"] w(2) by (simp add: diff_commute)
  then have parts: "?r @ blake_tail w mark p bs l = ?a @ ?b" using over by (simp add: blake_tail_def)
  have "length ?r = p" using length_rest_eager [of "16 * w" m] w(2) p by simp
  then have len: "length ?a = 16 * w" using p' by simp
  have "drop (16 * w) (?a @ ?b) = ?b" by (rule drop_at [OF len])
  moreover have "blake_compress B s (blake_ctr l) (?a @ ?b) h = blake_compress B s (blake_ctr l) ?a h"
    by (rule blake_compress_at) (use len w(1) in simp)
  ultimately show ?thesis
    using blake_hash_tail [OF w bs p l, of h s iv _ mark, OF _ _ refl] abs over by (simp only: parts if_False fst_conv snd_conv)
qed

end
