(* ===== verification/Sph_Blake.thy ===== *)
theory Sph_Blake
  imports Blake
begin

text \<open>
  \<^verbatim>\<open>src/crypto/ghostrider/sph_blake.c\<close>: BLAKE-224 and BLAKE-256 on 32-bit words, BLAKE-384 and
  BLAKE-512 on 64-bit words, in the compact variants with tables and in the unrolled ones. The
  counter of message bits stands one block behind, so closing sets it back to a value from which
  the last blocks bring it to the length of the message, or to zero. Everything is related to the
  definition in theory \<open>Blake\<close>.
\<close>

section \<open>Constants\<close>

definition blake_IV224 :: "u32 list" where
  "blake_IV224 =
    [0xC1059ED8, 0x367CD507, 0x3070DD17, 0xF70E5939,
     0xFFC00B31, 0x68581511, 0x64F98FA7, 0xBEFA4FA4]"

definition blake_IV256 :: "u32 list" where
  "blake_IV256 =
    [0x6A09E667, 0xBB67AE85, 0x3C6EF372, 0xA54FF53A,
     0x510E527F, 0x9B05688C, 0x1F83D9AB, 0x5BE0CD19]"

definition blake_IV384 :: "u64 list" where
  "blake_IV384 =
    [0xCBBB9D5DC1059ED8, 0x629A292A367CD507, 0x9159015A3070DD17, 0x152FECD8F70E5939,
     0x67332667FFC00B31, 0x8EB44A8768581511, 0xDB0C2E0D64F98FA7, 0x47B5481DBEFA4FA4]"

definition blake_IV512 :: "u64 list" where
  "blake_IV512 =
    [0x6A09E667F3BCC908, 0xBB67AE8584CAA73B, 0x3C6EF372FE94F82B, 0xA54FF53A5F1D36F1,
     0x510E527FADE682D1, 0x9B05688C2B3E6C1F, 0x1F83D9ABFB41BD6B, 0x5BE0CD19137E2179]"

definition blake_sigma16 :: "nat list list" where
  \<comment> \<open>the table of the compact variants\<close>
  "blake_sigma16 =
    [[0, 1, 2, 3, 4, 5, 6, 7, 8, 9, 10, 11, 12, 13, 14, 15],
     [14, 10, 4, 8, 9, 15, 13, 6, 1, 12, 0, 2, 11, 7, 5, 3],
     [11, 8, 12, 0, 5, 2, 15, 13, 10, 14, 3, 6, 7, 1, 9, 4],
     [7, 9, 3, 1, 13, 12, 11, 14, 2, 6, 5, 10, 4, 0, 15, 8],
     [9, 0, 5, 7, 2, 4, 10, 15, 14, 1, 11, 12, 6, 8, 3, 13],
     [2, 12, 6, 10, 0, 11, 8, 3, 4, 13, 7, 5, 15, 14, 1, 9],
     [12, 5, 1, 15, 14, 13, 4, 10, 0, 7, 6, 3, 9, 2, 8, 11],
     [13, 11, 7, 14, 12, 1, 3, 9, 5, 0, 15, 4, 8, 6, 2, 10],
     [6, 15, 14, 9, 11, 3, 0, 8, 12, 2, 13, 7, 1, 4, 10, 5],
     [10, 2, 8, 4, 7, 6, 1, 5, 15, 11, 9, 14, 3, 12, 13, 0],
     [0, 1, 2, 3, 4, 5, 6, 7, 8, 9, 10, 11, 12, 13, 14, 15],
     [14, 10, 4, 8, 9, 15, 13, 6, 1, 12, 0, 2, 11, 7, 5, 3],
     [11, 8, 12, 0, 5, 2, 15, 13, 10, 14, 3, 6, 7, 1, 9, 4],
     [7, 9, 3, 1, 13, 12, 11, 14, 2, 6, 5, 10, 4, 0, 15, 8],
     [9, 0, 5, 7, 2, 4, 10, 15, 14, 1, 11, 12, 6, 8, 3, 13],
     [2, 12, 6, 10, 0, 11, 8, 3, 4, 13, 7, 5, 15, 14, 1, 9]]"

definition blake_CS :: "u32 list" where
  "blake_CS =
    [0x243F6A88, 0x85A308D3, 0x13198A2E, 0x03707344,
     0xA4093822, 0x299F31D0, 0x082EFA98, 0xEC4E6C89,
     0x452821E6, 0x38D01377, 0xBE5466CF, 0x34E90C6C,
     0xC0AC29B7, 0xC97C50DD, 0x3F84D5B5, 0xB5470917]"

definition blake_CB :: "u64 list" where
  "blake_CB =
    [0x243F6A8885A308D3, 0x13198A2E03707344, 0xA4093822299F31D0, 0x082EFA98EC4E6C89,
     0x452821E638D01377, 0xBE5466CF34E90C6C, 0xC0AC29B7C97C50DD, 0x3F84D5B5B5470917,
     0x9216D5D98979FB1B, 0xD1310BA698DFB5AC, 0x2FFD72DBD01ADFB7, 0xB8E1AFED6A267E96,
     0xBA7C9045F12C7F99, 0x24A19947B3916CF7, 0x0801F2E2858EFC16, 0x636920D871574E69]"

definition salt_zero_small :: "u32 list" where
  "salt_zero_small = [0, 0, 0, 0]"

definition salt_zero_big :: "u64 list" where
  "salt_zero_big = [0, 0, 0, 0]"

section \<open>Compression\<close>

definition GS :: "u32 \<Rightarrow> u32 \<Rightarrow> u32 \<Rightarrow> u32 \<Rightarrow> u32 \<times> u32 \<times> u32 \<times> u32 \<Rightarrow> u32 \<times> u32 \<times> u32 \<times> u32" where
  "GS m0 m1 c0 c1 = (\<lambda>(a, b, c, d).
     let a = SPH_T32 (a + b + (m0 XOR c1)); d = SPH_ROTR32 (d XOR a) 16;
         c = SPH_T32 (c + d); b = SPH_ROTR32 (b XOR c) 12;
         a = SPH_T32 (a + b + (m1 XOR c0)); d = SPH_ROTR32 (d XOR a) 8;
         c = SPH_T32 (c + d); b = SPH_ROTR32 (b XOR c) 7
     in (a, b, c, d))"

definition GS_on ::
  "nat list \<Rightarrow> u32 list \<Rightarrow> nat \<Rightarrow> nat \<times> nat \<times> nat \<times> nat \<Rightarrow> u32 list \<Rightarrow> u32 list" where
  \<comment> \<open>one line of \<open>ROUND_S\<close>: the entries \<open>i\<close> and \<open>i + 1\<close> of the permutation \<open>z\<close> and four of the variables\<close>
  "GS_on z M i = (\<lambda>(ia, ib, ic, id) V.
     let (a, b, c, d) = GS (M ! (z ! i)) (M ! (z ! (i + 1))) (blake_CS ! (z ! i)) (blake_CS ! (z ! (i + 1)))
                          (V ! ia, V ! ib, V ! ic, V ! id)
     in V[ia := a, ib := b, ic := c, id := d])"

definition ROUND_S :: "nat list \<Rightarrow> u32 list \<Rightarrow> u32 list \<Rightarrow> u32 list" where
  "ROUND_S z M V =
     (let V = GS_on z M 0 (0, 4, 8, 12) V;
          V = GS_on z M 2 (1, 5, 9, 13) V;
          V = GS_on z M 4 (2, 6, 10, 14) V;
          V = GS_on z M 6 (3, 7, 11, 15) V;
          V = GS_on z M 8 (0, 5, 10, 15) V;
          V = GS_on z M 10 (1, 6, 11, 12) V;
          V = GS_on z M 12 (2, 7, 8, 13) V;
          V = GS_on z M 14 (3, 4, 9, 14) V
      in V)"

definition COMPRESS32 :: "bool \<Rightarrow> bytes \<Rightarrow> u32 list \<Rightarrow> u32 list \<Rightarrow> u32 \<Rightarrow> u32 \<Rightarrow> u32 list" where
  \<comment> \<open>\<open>compact\<close> is \<open>SPH_COMPACT_BLAKE_32\<close>\<close>
  "COMPRESS32 compact buf H S T0 T1 =
     (let V = [H ! 0, H ! 1, H ! 2, H ! 3, H ! 4, H ! 5, H ! 6, H ! 7,
               S ! 0 XOR blake_CS ! 0, S ! 1 XOR blake_CS ! 1, S ! 2 XOR blake_CS ! 2, S ! 3 XOR blake_CS ! 3,
               T0 XOR blake_CS ! 4, T0 XOR blake_CS ! 5, T1 XOR blake_CS ! 6, T1 XOR blake_CS ! 7];
          M = map (\<lambda>i. sph_dec32be (drop (4 * i) buf)) [0, 1, 2, 3, 4, 5, 6, 7, 8, 9, 10, 11, 12, 13, 14, 15];
          V = (if compact then fold (\<lambda>r. ROUND_S (blake_sigma16 ! r) M) [0..<14] V
               else fold (\<lambda>r. ROUND_S (blake_sigma ! r) M)
                      [0, 1, 2, 3, 4, 5, 6, 7, 8, 9, 0, 1, 2, 3] V)
      in [H ! 0 XOR (S ! 0 XOR V ! 0 XOR V ! 8), H ! 1 XOR (S ! 1 XOR V ! 1 XOR V ! 9),
          H ! 2 XOR (S ! 2 XOR V ! 2 XOR V ! 10), H ! 3 XOR (S ! 3 XOR V ! 3 XOR V ! 11),
          H ! 4 XOR (S ! 0 XOR V ! 4 XOR V ! 12), H ! 5 XOR (S ! 1 XOR V ! 5 XOR V ! 13),
          H ! 6 XOR (S ! 2 XOR V ! 6 XOR V ! 14), H ! 7 XOR (S ! 3 XOR V ! 7 XOR V ! 15)])"

definition GB :: "u64 \<Rightarrow> u64 \<Rightarrow> u64 \<Rightarrow> u64 \<Rightarrow> u64 \<times> u64 \<times> u64 \<times> u64 \<Rightarrow> u64 \<times> u64 \<times> u64 \<times> u64" where
  "GB m0 m1 c0 c1 = (\<lambda>(a, b, c, d).
     let a = SPH_T64 (a + b + (m0 XOR c1)); d = SPH_ROTR64 (d XOR a) 32;
         c = SPH_T64 (c + d); b = SPH_ROTR64 (b XOR c) 25;
         a = SPH_T64 (a + b + (m1 XOR c0)); d = SPH_ROTR64 (d XOR a) 16;
         c = SPH_T64 (c + d); b = SPH_ROTR64 (b XOR c) 11
     in (a, b, c, d))"

definition GB_on ::
  "nat list \<Rightarrow> u64 list \<Rightarrow> nat \<Rightarrow> nat \<times> nat \<times> nat \<times> nat \<Rightarrow> u64 list \<Rightarrow> u64 list" where
  \<comment> \<open>one line of \<open>ROUND_B\<close>: the entries \<open>i\<close> and \<open>i + 1\<close> of the permutation \<open>z\<close> and four of the variables\<close>
  "GB_on z M i = (\<lambda>(ia, ib, ic, id) V.
     let (a, b, c, d) = GB (M ! (z ! i)) (M ! (z ! (i + 1))) (blake_CB ! (z ! i)) (blake_CB ! (z ! (i + 1)))
                          (V ! ia, V ! ib, V ! ic, V ! id)
     in V[ia := a, ib := b, ic := c, id := d])"

definition ROUND_B :: "nat list \<Rightarrow> u64 list \<Rightarrow> u64 list \<Rightarrow> u64 list" where
  "ROUND_B z M V =
     (let V = GB_on z M 0 (0, 4, 8, 12) V;
          V = GB_on z M 2 (1, 5, 9, 13) V;
          V = GB_on z M 4 (2, 6, 10, 14) V;
          V = GB_on z M 6 (3, 7, 11, 15) V;
          V = GB_on z M 8 (0, 5, 10, 15) V;
          V = GB_on z M 10 (1, 6, 11, 12) V;
          V = GB_on z M 12 (2, 7, 8, 13) V;
          V = GB_on z M 14 (3, 4, 9, 14) V
      in V)"

definition COMPRESS64 :: "bool \<Rightarrow> bytes \<Rightarrow> u64 list \<Rightarrow> u64 list \<Rightarrow> u64 \<Rightarrow> u64 \<Rightarrow> u64 list" where
  \<comment> \<open>\<open>compact\<close> is \<open>SPH_COMPACT_BLAKE_64\<close>\<close>
  "COMPRESS64 compact buf H S T0 T1 =
     (let V = [H ! 0, H ! 1, H ! 2, H ! 3, H ! 4, H ! 5, H ! 6, H ! 7,
               S ! 0 XOR blake_CB ! 0, S ! 1 XOR blake_CB ! 1, S ! 2 XOR blake_CB ! 2, S ! 3 XOR blake_CB ! 3,
               T0 XOR blake_CB ! 4, T0 XOR blake_CB ! 5, T1 XOR blake_CB ! 6, T1 XOR blake_CB ! 7];
          M = map (\<lambda>i. sph_dec64be (drop (8 * i) buf)) [0, 1, 2, 3, 4, 5, 6, 7, 8, 9, 10, 11, 12, 13, 14, 15];
          V = (if compact then fold (\<lambda>r. ROUND_B (blake_sigma16 ! r) M) [0..<16] V
               else fold (\<lambda>r. ROUND_B (blake_sigma ! r) M)
                      [0, 1, 2, 3, 4, 5, 6, 7, 8, 9, 0, 1, 2, 3, 4, 5] V)
      in [H ! 0 XOR (S ! 0 XOR V ! 0 XOR V ! 8), H ! 1 XOR (S ! 1 XOR V ! 1 XOR V ! 9),
          H ! 2 XOR (S ! 2 XOR V ! 2 XOR V ! 10), H ! 3 XOR (S ! 3 XOR V ! 3 XOR V ! 11),
          H ! 4 XOR (S ! 0 XOR V ! 4 XOR V ! 12), H ! 5 XOR (S ! 1 XOR V ! 5 XOR V ! 13),
          H ! 6 XOR (S ! 2 XOR V ! 6 XOR V ! 14), H ! 7 XOR (S ! 3 XOR V ! 7 XOR V ! 15)])"

section \<open>The context, its update and its close\<close>

record 'w blake_ctx =
  bk_buf :: bytes
  bk_ptr :: nat
  bk_H :: "'w list"
  bk_S :: "'w list"
  bk_T0 :: 'w
  bk_T1 :: 'w

definition bk_view :: "'w blake_ctx \<Rightarrow> bytes \<times> nat \<times> 'w list \<times> 'w list \<times> 'w \<times> 'w" where
  "bk_view sc = (bk_buf sc, bk_ptr sc, bk_H sc, bk_S sc, bk_T0 sc, bk_T1 sc)"

definition blake32_init :: "u32 blake_ctx \<Rightarrow> u32 list \<Rightarrow> u32 list \<Rightarrow> u32 blake_ctx" where
  "blake32_init sc iv salt = sc\<lparr>bk_H := iv, bk_S := salt, bk_T0 := 0, bk_T1 := 0, bk_ptr := 0\<rparr>"

fun blake32_block ::
  "bool \<Rightarrow> bytes \<Rightarrow> u32 list \<times> u32 list \<times> u32 \<times> u32 \<Rightarrow> u32 list \<times> u32 list \<times> u32 \<times> u32" where
  \<comment> \<open>what the loop does with a full buffer\<close>
  "blake32_block compact buf (H, S, T0, T1) =
     (let T0 = SPH_T32 (T0 + 512);
          T1 = (if T0 < 512 then SPH_T32 (T1 + 1) else T1)
      in (COMPRESS32 compact buf H S T0 T1, S, T0, T1))"

definition blake32 :: "bool \<Rightarrow> u32 blake_ctx \<Rightarrow> bytes \<Rightarrow> u32 blake_ctx option" where
  \<comment> \<open>\<open>sizeof sc->buf\<close> is 64\<close>
  "blake32 compact sc data =
     sph_core 64 (blake32_block compact) data (bk_view sc) \<bind> (\<lambda>(buf, ptr, H, S, T0, T1).
     Some (sc\<lparr>bk_buf := buf, bk_ptr := ptr, bk_H := H, bk_S := S, bk_T0 := T0, bk_T1 := T1\<rparr>))"

definition blake32_rewind :: "u32 blake_ctx \<Rightarrow> nat \<Rightarrow> u32 \<Rightarrow> u32 blake_ctx" where
  \<comment> \<open>the counter, set back so that the next block leaves it at the length of the message\<close>
  "blake32_rewind sc n bit_len =
     (if bk_ptr sc = 0 \<and> n = 0 then sc\<lparr>bk_T0 := 0xFFFFFE00, bk_T1 := 0xFFFFFFFF\<rparr>
      else if bk_T0 sc = 0 then
        sc\<lparr>bk_T0 := 0xFFFFFE00 + bit_len, bk_T1 := SPH_T32 (bk_T1 sc - 1)\<rparr>
      else sc\<lparr>bk_T0 := bk_T0 sc - (512 - bit_len)\<rparr>)"

definition blake32_close ::
  "bool \<Rightarrow> (nat \<Rightarrow> u8) \<Rightarrow> u32 blake_ctx \<Rightarrow> u32 \<Rightarrow> nat \<Rightarrow> nat \<Rightarrow> (u32 blake_ctx \<times> bytes) option" where
  \<comment> \<open>\<open>u\<close>: what the local buffer \<open>u.buf\<close> holds before it is written\<close>
  "blake32_close compact u sc ub n out_size_w32 =
     (let ptr = bk_ptr sc;
          bit_len = push_bit 3 (of_nat ptr) + of_nat n
      in store_in (map u [0..<64]) ptr (sph_pad_byte ub n) \<bind> (\<lambda>ubuf.
         let tl = bk_T0 sc + bit_len; th = bk_T1 sc;
             sc = blake32_rewind sc n bit_len
         in (if bit_len \<le> 446
             then memset_in ubuf (ptr + 1) 0 (55 - ptr) \<bind> (\<lambda>ubuf.
                  let ubuf = (if out_size_w32 = 8 then ubuf[55 := ubuf ! 55 OR 1] else ubuf)
                  in memcpy_in ubuf 56 (sph_enc32be th) \<bind> (\<lambda>ubuf.
                     memcpy_in ubuf 60 (sph_enc32be tl) \<bind> (\<lambda>ubuf.
                     read_in ubuf ptr (64 - ptr) \<bind> blake32 compact sc)))
             else memset_in ubuf (ptr + 1) 0 (63 - ptr) \<bind> (\<lambda>ubuf.
                  read_in ubuf ptr (64 - ptr) \<bind> blake32 compact sc \<bind> (\<lambda>sc.
                  let sc = sc\<lparr>bk_T0 := 0xFFFFFE00, bk_T1 := 0xFFFFFFFF\<rparr>
                  in memset_in ubuf 0 0 56 \<bind> (\<lambda>ubuf.
                     let ubuf = (if out_size_w32 = 8 then ubuf[55 := 1] else ubuf)
                     in memcpy_in ubuf 56 (sph_enc32be th) \<bind> (\<lambda>ubuf.
                        memcpy_in ubuf 60 (sph_enc32be tl) \<bind> (\<lambda>ubuf.
                        blake32 compact sc ubuf)))))) \<bind> (\<lambda>sc.
            Some (sc, concat (map (\<lambda>k. sph_enc32be (bk_H sc ! k)) [0..<out_size_w32])))))"

definition blake64_init :: "u64 blake_ctx \<Rightarrow> u64 list \<Rightarrow> u64 list \<Rightarrow> u64 blake_ctx" where
  "blake64_init sc iv salt = sc\<lparr>bk_H := iv, bk_S := salt, bk_T0 := 0, bk_T1 := 0, bk_ptr := 0\<rparr>"

fun blake64_block ::
  "bool \<Rightarrow> bytes \<Rightarrow> u64 list \<times> u64 list \<times> u64 \<times> u64 \<Rightarrow> u64 list \<times> u64 list \<times> u64 \<times> u64" where
  \<comment> \<open>what the loop does with a full buffer\<close>
  "blake64_block compact buf (H, S, T0, T1) =
     (let T0 = SPH_T64 (T0 + 1024);
          T1 = (if T0 < 1024 then SPH_T64 (T1 + 1) else T1)
      in (COMPRESS64 compact buf H S T0 T1, S, T0, T1))"

definition blake64 :: "bool \<Rightarrow> u64 blake_ctx \<Rightarrow> bytes \<Rightarrow> u64 blake_ctx option" where
  \<comment> \<open>\<open>sizeof sc->buf\<close> is 128\<close>
  "blake64 compact sc data =
     sph_core 128 (blake64_block compact) data (bk_view sc) \<bind> (\<lambda>(buf, ptr, H, S, T0, T1).
     Some (sc\<lparr>bk_buf := buf, bk_ptr := ptr, bk_H := H, bk_S := S, bk_T0 := T0, bk_T1 := T1\<rparr>))"

definition blake64_rewind :: "u64 blake_ctx \<Rightarrow> nat \<Rightarrow> u32 \<Rightarrow> u64 blake_ctx" where
  \<comment> \<open>the counter, set back so that the next block leaves it at the length of the message\<close>
  "blake64_rewind sc n bit_len =
     (if bk_ptr sc = 0 \<and> n = 0 then sc\<lparr>bk_T0 := 0xFFFFFFFFFFFFFC00, bk_T1 := 0xFFFFFFFFFFFFFFFF\<rparr>
      else if bk_T0 sc = 0 then
        sc\<lparr>bk_T0 := 0xFFFFFFFFFFFFFC00 + ucast bit_len, bk_T1 := SPH_T64 (bk_T1 sc - 1)\<rparr>
      else sc\<lparr>bk_T0 := bk_T0 sc - ucast (1024 - bit_len)\<rparr>)"

definition blake64_close ::
  "bool \<Rightarrow> (nat \<Rightarrow> u8) \<Rightarrow> u64 blake_ctx \<Rightarrow> u32 \<Rightarrow> nat \<Rightarrow> nat \<Rightarrow> (u64 blake_ctx \<times> bytes) option" where
  \<comment> \<open>\<open>u\<close>: what the local buffer \<open>u.buf\<close> holds before it is written\<close>
  "blake64_close compact u sc ub n out_size_w64 =
     (let ptr = bk_ptr sc;
          bit_len = push_bit 3 (of_nat ptr) + of_nat n
      in store_in (map u [0..<128]) ptr (sph_pad_byte ub n) \<bind> (\<lambda>ubuf.
         let tl = bk_T0 sc + ucast bit_len; th = bk_T1 sc;
             sc = blake64_rewind sc n bit_len
         in (if bit_len \<le> 894
             then memset_in ubuf (ptr + 1) 0 (111 - ptr) \<bind> (\<lambda>ubuf.
                  let ubuf = (if out_size_w64 = 8 then ubuf[111 := ubuf ! 111 OR 1] else ubuf)
                  in memcpy_in ubuf 112 (sph_enc64be th) \<bind> (\<lambda>ubuf.
                     memcpy_in ubuf 120 (sph_enc64be tl) \<bind> (\<lambda>ubuf.
                     read_in ubuf ptr (128 - ptr) \<bind> blake64 compact sc)))
             else memset_in ubuf (ptr + 1) 0 (127 - ptr) \<bind> (\<lambda>ubuf.
                  read_in ubuf ptr (128 - ptr) \<bind> blake64 compact sc \<bind> (\<lambda>sc.
                  let sc = sc\<lparr>bk_T0 := 0xFFFFFFFFFFFFFC00, bk_T1 := 0xFFFFFFFFFFFFFFFF\<rparr>
                  in memset_in ubuf 0 0 112 \<bind> (\<lambda>ubuf.
                     let ubuf = (if out_size_w64 = 8 then ubuf[111 := 1] else ubuf)
                     in memcpy_in ubuf 112 (sph_enc64be th) \<bind> (\<lambda>ubuf.
                        memcpy_in ubuf 120 (sph_enc64be tl) \<bind> (\<lambda>ubuf.
                        blake64 compact sc ubuf)))))) \<bind> (\<lambda>sc.
            Some (sc, concat (map (\<lambda>k. sph_enc64be (bk_H sc ! k)) [0..<out_size_w64])))))"

section \<open>The four hashes\<close>

definition sph_blake224_init :: "u32 blake_ctx \<Rightarrow> u32 blake_ctx" where
  "sph_blake224_init cc = blake32_init cc blake_IV224 salt_zero_small"

definition sph_blake224 :: "bool \<Rightarrow> u32 blake_ctx \<Rightarrow> bytes \<Rightarrow> u32 blake_ctx option" where
  "sph_blake224 compact cc data = blake32 compact cc data"

definition sph_blake224_addbits_and_close ::
  "bool \<Rightarrow> (nat \<Rightarrow> u8) \<Rightarrow> u32 blake_ctx \<Rightarrow> u32 \<Rightarrow> nat \<Rightarrow> (u32 blake_ctx \<times> bytes) option" where
  \<comment> \<open>the call that would initialise the context again is commented out\<close>
  "sph_blake224_addbits_and_close compact u cc ub n = blake32_close compact u cc ub n 7"

definition sph_blake224_close :: "bool \<Rightarrow> (nat \<Rightarrow> u8) \<Rightarrow> u32 blake_ctx \<Rightarrow> (u32 blake_ctx \<times> bytes) option" where
  "sph_blake224_close compact u cc = sph_blake224_addbits_and_close compact u cc 0 0"

definition sph_blake256_init :: "u32 blake_ctx \<Rightarrow> u32 blake_ctx" where
  "sph_blake256_init cc = blake32_init cc blake_IV256 salt_zero_small"

definition sph_blake256 :: "bool \<Rightarrow> u32 blake_ctx \<Rightarrow> bytes \<Rightarrow> u32 blake_ctx option" where
  "sph_blake256 compact cc data = blake32 compact cc data"

definition sph_blake256_addbits_and_close ::
  "bool \<Rightarrow> (nat \<Rightarrow> u8) \<Rightarrow> u32 blake_ctx \<Rightarrow> u32 \<Rightarrow> nat \<Rightarrow> (u32 blake_ctx \<times> bytes) option" where
  \<comment> \<open>the call that would initialise the context again is commented out\<close>
  "sph_blake256_addbits_and_close compact u cc ub n = blake32_close compact u cc ub n 8"

definition sph_blake256_close :: "bool \<Rightarrow> (nat \<Rightarrow> u8) \<Rightarrow> u32 blake_ctx \<Rightarrow> (u32 blake_ctx \<times> bytes) option" where
  "sph_blake256_close compact u cc = sph_blake256_addbits_and_close compact u cc 0 0"

definition sph_blake384_init :: "u64 blake_ctx \<Rightarrow> u64 blake_ctx" where
  "sph_blake384_init cc = blake64_init cc blake_IV384 salt_zero_big"

definition sph_blake384 :: "bool \<Rightarrow> u64 blake_ctx \<Rightarrow> bytes \<Rightarrow> u64 blake_ctx option" where
  "sph_blake384 compact cc data = blake64 compact cc data"

definition sph_blake384_addbits_and_close ::
  "bool \<Rightarrow> (nat \<Rightarrow> u8) \<Rightarrow> u64 blake_ctx \<Rightarrow> u32 \<Rightarrow> nat \<Rightarrow> (u64 blake_ctx \<times> bytes) option" where
  \<comment> \<open>the call that would initialise the context again is commented out\<close>
  "sph_blake384_addbits_and_close compact u cc ub n = blake64_close compact u cc ub n 6"

definition sph_blake384_close :: "bool \<Rightarrow> (nat \<Rightarrow> u8) \<Rightarrow> u64 blake_ctx \<Rightarrow> (u64 blake_ctx \<times> bytes) option" where
  "sph_blake384_close compact u cc = sph_blake384_addbits_and_close compact u cc 0 0"

definition sph_blake512_init :: "u64 blake_ctx \<Rightarrow> u64 blake_ctx" where
  "sph_blake512_init cc = blake64_init cc blake_IV512 salt_zero_big"

definition sph_blake512 :: "bool \<Rightarrow> u64 blake_ctx \<Rightarrow> bytes \<Rightarrow> u64 blake_ctx option" where
  "sph_blake512 compact cc data = blake64 compact cc data"

definition sph_blake512_addbits_and_close ::
  "bool \<Rightarrow> (nat \<Rightarrow> u8) \<Rightarrow> u64 blake_ctx \<Rightarrow> u32 \<Rightarrow> nat \<Rightarrow> (u64 blake_ctx \<times> bytes) option" where
  \<comment> \<open>the call that would initialise the context again is commented out\<close>
  "sph_blake512_addbits_and_close compact u cc ub n = blake64_close compact u cc ub n 8"

definition sph_blake512_close :: "bool \<Rightarrow> (nat \<Rightarrow> u8) \<Rightarrow> u64 blake_ctx \<Rightarrow> (u64 blake_ctx \<times> bytes) option" where
  "sph_blake512_close compact u cc = sph_blake512_addbits_and_close compact u cc 0 0"

section \<open>The compression functions are BLAKE's\<close>

definition BLAKE_small :: "u32 blake_alg" where
  "BLAKE_small = \<lparr>bl_bytes = 4, bl_dec = sph_dec32be, bl_enc = sph_enc32be, bl_cst = blake_CS,
     bl_rots = (16, 12, 8, 7), bl_rounds = 14\<rparr>"

definition BLAKE_big :: "u64 blake_alg" where
  "BLAKE_big = \<lparr>bl_bytes = 8, bl_dec = sph_dec64be, bl_enc = sph_enc64be, bl_cst = blake_CB,
     bl_rots = (32, 25, 16, 11), bl_rounds = 16\<rparr>"

lemma BLAKE_small [simp]:
  "bl_bytes BLAKE_small = 4" "bl_dec BLAKE_small = sph_dec32be" "bl_enc BLAKE_small = sph_enc32be"
  "bl_cst BLAKE_small = blake_CS" "bl_rots BLAKE_small = (16, 12, 8, 7)" "bl_rounds BLAKE_small = 14"
  by (simp_all add: BLAKE_small_def)

lemma BLAKE_big [simp]:
  "bl_bytes BLAKE_big = 8" "bl_dec BLAKE_big = sph_dec64be" "bl_enc BLAKE_big = sph_enc64be"
  "bl_cst BLAKE_big = blake_CB" "bl_rots BLAKE_big = (32, 25, 16, 11)" "bl_rounds BLAKE_big = 16"
  by (simp_all add: BLAKE_big_def)

lemma GS_line: "GS_on z M (2 * i) q V = blake_line BLAKE_small M z i q V"
  by (cases q) (simp add: GS_on_def GS_def blake_line_def blake_inputs_def Let_def ROTR32_rotr)

lemma GB_line: "GB_on z M (2 * i) q V = blake_line BLAKE_big M z i q V"
  by (cases q) (simp add: GB_on_def GB_def blake_line_def blake_inputs_def Let_def ROTR64_rotr)

lemmas GS_lines = GS_line [where i = 0, simplified] GS_line [where i = 1, simplified]
  GS_line [where i = 2, simplified] GS_line [where i = 3, simplified] GS_line [where i = 4, simplified]
  GS_line [where i = 5, simplified] GS_line [where i = 6, simplified] GS_line [where i = 7, simplified]

lemmas GB_lines = GB_line [where i = 0, simplified] GB_line [where i = 1, simplified]
  GB_line [where i = 2, simplified] GB_line [where i = 3, simplified] GB_line [where i = 4, simplified]
  GB_line [where i = 5, simplified] GB_line [where i = 6, simplified] GB_line [where i = 7, simplified]

lemma ROUND_S_round: "length V = 16 \<Longrightarrow> ROUND_S z M V = blake_round BLAKE_small M z V"
  using lines_round [of V BLAKE_small M z] by (simp add: ROUND_S_def Let_def GS_lines)

lemma ROUND_B_round: "length V = 16 \<Longrightarrow> ROUND_B z M V = blake_round BLAKE_big M z V"
  using lines_round [of V BLAKE_big M z] by (simp add: ROUND_B_def Let_def GB_lines)

lemma sigma_rows:
  "map ((!) blake_sigma16) [0..<14] = map (\<lambda>r. blake_sigma ! (r mod 10)) [0..<14]"
  "map ((!) blake_sigma16) [0..<16] = map (\<lambda>r. blake_sigma ! (r mod 10)) [0..<16]"
  "map ((!) blake_sigma) [0, 1, 2, 3, 4, 5, 6, 7, 8, 9, 0, 1, 2, 3] = map (\<lambda>r. blake_sigma ! (r mod 10)) [0..<14]"
  "map ((!) blake_sigma) [0, 1, 2, 3, 4, 5, 6, 7, 8, 9, 0, 1, 2, 3, 4, 5] = map (\<lambda>r. blake_sigma ! (r mod 10)) [0..<16]"
  by code_simp+

lemma dec32be_take: "4 \<le> n \<Longrightarrow> sph_dec32be (take n b) = sph_dec32be b"
  by (simp add: codec_defs)

lemma dec64be_take: "8 \<le> n \<Longrightarrow> sph_dec64be (take n b) = sph_dec64be b"
  by (simp add: codec_defs)

lemma COMPRESS32_compress:
  "COMPRESS32 compact buf H S T0 T1 = blake_compress BLAKE_small S (T0, T1) buf H"
proof -
  let ?V = "blake_start blake_CS S (T0, T1) H" and ?M = "blake_words BLAKE_small buf"
  have V: "[H ! 0, H ! 1, H ! 2, H ! 3, H ! 4, H ! 5, H ! 6, H ! 7,
      S ! 0 XOR blake_CS ! 0, S ! 1 XOR blake_CS ! 1, S ! 2 XOR blake_CS ! 2, S ! 3 XOR blake_CS ! 3,
      T0 XOR blake_CS ! 4, T0 XOR blake_CS ! 5, T1 XOR blake_CS ! 6, T1 XOR blake_CS ! 7] = ?V"
    by (simp add: blake_start_def upt_0_8 upt_0_4)
  have M: "map (\<lambda>i. sph_dec32be (drop (4 * i) buf)) [0, 1, 2, 3, 4, 5, 6, 7, 8, 9, 10, 11, 12, 13, 14, 15] = ?M"
    unfolding blake_words_def upt_0_16 [symmetric] by (simp add: dec32be_take)
  have R: "(if compact then fold (\<lambda>r. ROUND_S (blake_sigma16 ! r) ?M) [0..<14] ?V
      else fold (\<lambda>r. ROUND_S (blake_sigma ! r) ?M) [0, 1, 2, 3, 4, 5, 6, 7, 8, 9, 0, 1, 2, 3] ?V)
    = fold (\<lambda>r. blake_round BLAKE_small ?M (blake_sigma ! (r mod 10))) [0..<14] ?V"
    by (cases compact) (simp_all only: if_True if_False ROUND_S_round length_blake_start
      rounds_rows [OF sigma_rows(1), of "\<lambda>z. ROUND_S z ?M" BLAKE_small ?M]
      rounds_rows [OF sigma_rows(3), of "\<lambda>z. ROUND_S z ?M" BLAKE_small ?M])
  show ?thesis
    unfolding COMPRESS32_def V M Let_def R blake_compress_def BLAKE_small upt_0_8
    by (simp only: list.map mod_less) (simp add: xor.assoc)
qed

lemma COMPRESS64_compress:
  "COMPRESS64 compact buf H S T0 T1 = blake_compress BLAKE_big S (T0, T1) buf H"
proof -
  let ?V = "blake_start blake_CB S (T0, T1) H" and ?M = "blake_words BLAKE_big buf"
  have V: "[H ! 0, H ! 1, H ! 2, H ! 3, H ! 4, H ! 5, H ! 6, H ! 7,
      S ! 0 XOR blake_CB ! 0, S ! 1 XOR blake_CB ! 1, S ! 2 XOR blake_CB ! 2, S ! 3 XOR blake_CB ! 3,
      T0 XOR blake_CB ! 4, T0 XOR blake_CB ! 5, T1 XOR blake_CB ! 6, T1 XOR blake_CB ! 7] = ?V"
    by (simp add: blake_start_def upt_0_8 upt_0_4)
  have M: "map (\<lambda>i. sph_dec64be (drop (8 * i) buf)) [0, 1, 2, 3, 4, 5, 6, 7, 8, 9, 10, 11, 12, 13, 14, 15] = ?M"
    unfolding blake_words_def upt_0_16 [symmetric] by (simp add: dec64be_take)
  have R: "(if compact then fold (\<lambda>r. ROUND_B (blake_sigma16 ! r) ?M) [0..<16] ?V
      else fold (\<lambda>r. ROUND_B (blake_sigma ! r) ?M) [0, 1, 2, 3, 4, 5, 6, 7, 8, 9, 0, 1, 2, 3, 4, 5] ?V)
    = fold (\<lambda>r. blake_round BLAKE_big ?M (blake_sigma ! (r mod 10))) [0..<16] ?V"
    by (cases compact) (simp_all only: if_True if_False ROUND_B_round length_blake_start
      rounds_rows [OF sigma_rows(2), of "\<lambda>z. ROUND_B z ?M" BLAKE_big ?M]
      rounds_rows [OF sigma_rows(4), of "\<lambda>z. ROUND_B z ?M" BLAKE_big ?M])
  show ?thesis
    unfolding COMPRESS64_def V M Let_def R blake_compress_def BLAKE_big upt_0_8
    by (simp only: list.map mod_less) (simp add: xor.assoc)
qed

lemma cast_bit_len:
  assumes "b < 1024"
  shows "(ucast (of_nat b :: u32) :: u64) = of_nat b" "(ucast (1024 - of_nat b :: u32) :: u64) = 1024 - of_nat b"
proof -
  have c: "(ucast (of_nat x :: u32) :: u64) = of_nat x" if "x < 2 ^ 32" for x
    using that by (simp add: word_unat_eq_iff unat_of_nat unsigned_ucast_eq take_bit_nat_eq_self)
  show "(ucast (of_nat b :: u32) :: u64) = of_nat b" using assms c by simp
  show "(ucast (1024 - of_nat b :: u32) :: u64) = 1024 - of_nat b"
    using assms c [of "1024 - b"] by (simp add: of_nat_diff)
qed

section \<open>Updates and closing, 32-bit words\<close>

lemma blake32_block_tick:
  "blake32_block c buf (H, S, t) =
     (blake_compress BLAKE_small S (blake_tick 512 t) buf H, S, blake_tick 512 t)"
  by (cases t) (simp add: blake_tick_def COMPRESS32_compress Let_def)

lemma blake32_sph_block: "sph_block 64 (blake32_block c)"
proof
  show "blake32_block c (take 64 buf) v = blake32_block c buf v" for buf v
    using blake_compress_take [of BLAKE_small] by (cases v) (simp only: blake32_block_tick BLAKE_small, simp)
qed simp

lemma words_32: "512 * 2 ^ 23 = (2 :: nat) ^ LENGTH(32)" "(1 :: nat) < 2 ^ 23"
  by simp_all

lemma blake32_absorb:
  assumes "8 * length m \<le> l"
  shows "absorb 63 64 (blake32_block c) m (iv, s, 0, 0) =
      (fst (absorb 63 64 (blake_block BLAKE_small s l) m (iv, 0)), s, blake_ctr (512 * (length m div 64)))
    \<and> snd (absorb 63 64 (blake_block BLAKE_small s l) m (iv, 0)) = length m div 64"
  using blake_absorb [of 512 BLAKE_small "blake32_block c" s 0 m l iv] assms
    blake_tick_ctr [OF words_32]
  by (simp add: blake32_block_tick del: mult_Suc_right)

lemma blake32_full:
  assumes "64 \<le> length (bk_buf sc)" "bk_ptr sc + length d = 64" "bk_ptr sc < 64"
  obtains sc' where "blake32 c (sc\<lparr>bk_T0 := fst t, bk_T1 := snd t\<rparr>) d = Some sc'"
    "bk_H sc' = blake_compress BLAKE_small (bk_S sc) (blake_tick 512 t) (take (bk_ptr sc) (bk_buf sc) @ d) (bk_H sc)"
    "bk_S sc' = bk_S sc" "bk_ptr sc' = 0" "length (bk_buf sc') = length (bk_buf sc)"
proof -
  have "d \<noteq> []" using assms by auto
  from sph_block.core_block [OF blake32_sph_block assms(1,2) this, of c "(bk_H sc, bk_S sc, t)"]
  obtain buf where core: "sph_core 64 (blake32_block c) d (bk_buf sc, bk_ptr sc, bk_H sc, bk_S sc, t)
      = Some (buf, 0, blake32_block c (take (bk_ptr sc) (bk_buf sc) @ d) (bk_H sc, bk_S sc, t))"
    and len: "length buf = length (bk_buf sc)" by blast
  obtain t0 t1 where tick: "blake_tick 512 t = (t0, t1)" by fastforce
  show thesis
    by (rule that [of "sc\<lparr>bk_buf := buf, bk_ptr := 0, bk_H := blake_compress BLAKE_small (bk_S sc) (t0, t1)
          (take (bk_ptr sc) (bk_buf sc) @ d) (bk_H sc), bk_T0 := t0, bk_T1 := t1\<rparr>"]) (use core len in \<open>auto simp: blake32_def bk_view_def blake32_block_tick tick\<close>)
qed

lemma blake32_rewind_tick:
  assumes "bk_ptr sc < 64" "n < 8" and b: "b = 8 * bk_ptr sc + n"
    and t: "(bk_T0 sc, bk_T1 sc) = blake_ctr (512 * k)"
  obtains t where "blake32_rewind sc n (of_nat b) = sc\<lparr>bk_T0 := fst t, bk_T1 := snd t\<rparr>"
    "blake_tick 512 t = blake_ctr (if bk_ptr sc = 0 \<and> n = 0 then 0 else 512 * k + b)"
proof (cases "b = 0")
  case True
  then show ?thesis
    using b that [of "(- 512, - 1)"] blake_tick_none [of 512, where 'a = 32] by (simp add: blake32_rewind_def)
next
  case False
  then have "0 < b" "b < 512" "\<not> (bk_ptr sc = 0 \<and> n = 0)" using assms by auto
  let ?t = "if bk_T0 sc = 0 then (- 512 + of_nat b, bk_T1 sc - 1) else (bk_T0 sc - (512 - of_nat b), bk_T1 sc)"
  have "blake32_rewind sc n (of_nat b) = sc\<lparr>bk_T0 := fst ?t, bk_T1 := snd ?t\<rparr>"
    using \<open>\<not> (bk_ptr sc = 0 \<and> n = 0)\<close> \<open>b < 512\<close> by (cases sc) (auto simp: blake32_rewind_def)
  moreover have "blake_tick 512 ?t = blake_ctr (512 * k + b)"
    using blake_tick_last [OF words_32 \<open>0 < b\<close> \<open>b < 512\<close> t] by (simp only: of_nat_numeral)
  ultimately show ?thesis
    by (intro that [of ?t]) (simp_all only: \<open>\<not> (bk_ptr sc = 0 \<and> n = 0)\<close> if_False)
qed

lemma tick_zero_32: "blake_tick 512 (0xFFFFFE00, 0xFFFFFFFF) = (0, 0 :: u32)"
proof -
  have low: "(0xFFFFFE00 :: u32) = - 512" "(0xFFFFFFFF :: u32) = - 1" by simp_all
  show ?thesis unfolding low using blake_tick_none [of 512, where 'a = 32] by simp
qed

lemma bit_len_32:
  assumes "ptr < 64" "n < 8"
  shows "push_bit 3 (of_nat ptr) + of_nat n = (of_nat (8 * ptr + n) :: u32)"
    and "(of_nat (8 * ptr + n) :: u32) \<le> 446 \<longleftrightarrow> 8 * ptr + n \<le> 446"
  using assms by (simp_all add: push_bit_eq_mult word_le_nat_alt unat_of_nat del: of_nat_add of_nat_mult)
     (simp add: push_bit_eq_mult)


text \<open>What closing writes behind the message, over one block or over two.\<close>

definition blake32_out :: "nat \<Rightarrow> u32 blake_ctx \<Rightarrow> u32 blake_ctx \<times> bytes" where
  "blake32_out out sc = (sc, concat (map (\<lambda>k. sph_enc32be (bk_H sc ! k)) [0..<out]))"

lemma blake32_out: "length (bk_H sc) = 8 \<Longrightarrow> out \<le> 8 \<Longrightarrow> snd (blake32_out out sc) = concat (map sph_enc32be (take out (bk_H sc)))"
  by (auto simp: blake32_out_def take_map [symmetric] intro!: arg_cong [where f = concat] nth_equalityI)

lemma blake32_close_fit:
  assumes p: "bk_ptr sc = p" "p < 56" "n < 8" "8 * p + n \<le> 446" and hw: "bk_T1 sc = hw"
    and lw: "bk_T0 sc + of_nat (8 * p + n) = lw" and rew: "blake32_rewind sc n (of_nat (8 * p + n)) = sc'"
  shows "blake32_close c u sc ub n out =
    blake32 c sc' (marked_zeros (out = 8) (sph_pad_byte ub n) (56 - p) @ sph_enc32be hw @ sph_enc32be lw)
      \<bind> (\<lambda>sc. Some (blake32_out out sc))"
proof -
  let ?u = "map u [0..<64]" and ?x = "sph_pad_byte ub n"
  let ?one = "memset_in (?u[p := ?x]) (p + 1) 0 (55 - p) \<bind> (\<lambda>b.
      let b = (if out = 8 then b[55 := b ! 55 OR 1] else b)
      in memcpy_in b 56 (sph_enc32be hw) \<bind> (\<lambda>b. memcpy_in b 60 (sph_enc32be lw) \<bind> (\<lambda>b.
         read_in b p (64 - p) \<bind> blake32 c sc')))"
  have "store_in ?u p ?x = Some (?u[p := ?x])" using p by (simp add: mem_simps)
  then have "blake32_close c u sc ub n out = ?one \<bind> (\<lambda>sc. Some (blake32_out out sc))"
    using bit_len_32 [of p n] p hw lw rew
    by (simp add: blake32_close_def Let_def blake32_out_def del: of_nat_add of_nat_mult)
  moreover have "?one = blake32 c sc' (marked_zeros (out = 8) ?x (56 - p) @ sph_enc32be hw @ sph_enc32be lw)"
    using tail_one [of ?u 64 p 56 "sph_enc32be hw" "sph_enc32be lw" ?x "out = 8" "blake32 c sc'"] p
    by (simp cong: if_cong)
  ultimately show ?thesis by (simp only:)
qed

lemma blake32_close_over:
  assumes p: "bk_ptr sc = p" "p < 64" "n < 8" "\<not> 8 * p + n \<le> 446" and hw: "bk_T1 sc = hw"
    and lw: "bk_T0 sc + of_nat (8 * p + n) = lw" and rew: "blake32_rewind sc n (of_nat (8 * p + n)) = sc'"
  shows "blake32_close c u sc ub n out =
    blake32 c sc' (sph_pad_byte ub n # replicate (63 - p) 0) \<bind> (\<lambda>sc.
    blake32 c (sc\<lparr>bk_T0 := 0xFFFFFE00, bk_T1 := 0xFFFFFFFF\<rparr>)
      (replicate 55 0 @ [of_bool (out = 8)] @ sph_enc32be hw @ sph_enc32be lw) \<bind> (\<lambda>sc.
    Some (blake32_out out sc)))"
proof -
  let ?u = "map u [0..<64]" and ?x = "sph_pad_byte ub n"
  let ?b = "take p ?u @ ?x # replicate (63 - p) 0"
  have "store_in ?u p ?x = Some (?u[p := ?x])" using p by (simp add: mem_simps)
  moreover have "memset_in (?u[p := ?x]) (Suc p) 0 (63 - p) = Some ?b"
    using tail_two_first [of ?u 64 p ?x] p by simp
  moreover have "read_in ?b p (64 - p) = Some (?x # replicate (63 - p) 0)" using p by (simp add: mem_simps)
  moreover have two: "memset_in ?b 0 0 56 \<bind> (\<lambda>b. let b = (if out = 8 then b[55 := 1] else b)
      in memcpy_in b 56 (sph_enc32be hw) \<bind> (\<lambda>b. memcpy_in b 60 (sph_enc32be lw) \<bind> F))
    = F (replicate 55 0 @ [of_bool (out = 8)] @ sph_enc32be hw @ sph_enc32be lw)" for F :: "bytes \<Rightarrow> (u32 blake_ctx \<times> bytes) option"
    using tail_two_second [of ?b 64 56 "sph_enc32be hw" "sph_enc32be lw" "out = 8" F] p by (simp cong: if_cong)
  ultimately show ?thesis
    using bit_len_32 [of p n] p hw lw rew
    by (simp add: blake32_close_def Let_def blake32_out_def del: of_nat_add of_nat_mult)
qed

lemma blake32_close_digest:
  assumes holds: "sph_holds 64 (blake32_block c) (iv, s, 0, 0) m (bk_view sc)"
    and n: "n < 8" and out: "out \<le> 8"
  shows "\<exists>sc'. blake32_close c u sc ub n out =
    Some (sc', blake_digest BLAKE_small (out = 8) out iv s (bits_of_bytes m @ top_bits n ub))"
proof -
  define p k l where "p = bk_ptr sc" and "k = length m div 64" and "l = 8 * length m + n"
  define r h where "r = rest 63 64 m"
    and "h = fst (absorb 63 64 (blake_block BLAKE_small s l) m (iv, 0))"
  note abs = blake32_absorb [of m l c iv s]
  have len: "64 \<le> length (bk_buf sc)" and buf: "take p (bk_buf sc) = r" and pr: "p = length r"
    and val: "bk_H sc = h" "bk_S sc = s" "(bk_T0 sc, bk_T1 sc) = blake_ctr (512 * k)"
    using holds abs by (auto simp: bk_view_def sph_holds.simps p_def r_def k_def h_def l_def)
  have pm: "p = length m mod 64" using length_rest_eager [of 64 m] by (simp add: pr r_def)
  then have p: "p < 64" and l: "l = 512 * k + (8 * p + n)"
    using div_mult_mod_eq [of "length m" 64] unfolding k_def l_def by (simp, linarith)
  let ?hw = "of_nat (l div 2 ^ 32) :: u32" and ?lw = "of_nat l :: u32"
  have "8 * p + n < 512" using p n by simp
  then have "blake_ctr l = (bk_T0 sc + of_nat (8 * p + n), bk_T1 sc)"
    using ctr_plus [OF words_32(1), of "8 * p + n" k] val(3) by (simp add: l prod_eq_iff)
  then have words: "bk_T1 sc = ?hw" "bk_T0 sc + of_nat (8 * p + n) = ?lw" by (simp_all add: blake_ctr_def)
  obtain t where rew: "blake32_rewind sc n (of_nat (8 * p + n)) = sc\<lparr>bk_T0 := fst t, bk_T1 := snd t\<rparr>"
    and tick: "blake_tick 512 t = blake_ctr (if p = 0 \<and> n = 0 then 0 else l)"
    using blake32_rewind_tick [OF _ n refl val(3), folded p_def, folded l] p by blast
  let ?x = "sph_pad_byte ub n" and ?bs = "top_bits n ub" and ?len = "sph_enc32be ?hw @ sph_enc32be ?lw"
  have bs: "length ?bs = n" "?bs = [] \<longleftrightarrow> n = 0" "pad_start ?bs = ?x"
    using n by (simp_all add: sph_pad_byte_bits pad_start_def top_bits_def)
  have abs': "absorb (16 * 4 - 1) (16 * 4) (blake_block BLAKE_small s l) m (iv, 0) = (h, length m div (16 * 4))"
    using abs by (simp add: h_def l_def prod_eq_iff)
  have result: ?thesis if "blake32_close c u sc ub n out = Some (blake32_out out sc')" "length (bk_H sc') = 8"
    "bk_H sc' = blake_hash BLAKE_small (out = 8) iv s (bits_of_bytes m @ ?bs)" for sc'
    using that blake32_out [of sc' out] out by (cases "blake32_out out sc'") (simp add: blake_digest_def)
  show ?thesis
  proof (cases "8 * p + n \<le> 446")
    case True
    then have pO: "p < 56" by simp
    obtain sc' where sc': "blake32 c (sc\<lparr>bk_T0 := fst t, bk_T1 := snd t\<rparr>) (marked_zeros (out = 8) ?x (56 - p) @ ?len) = Some sc'"
      "bk_H sc' = blake_compress BLAKE_small s (blake_tick 512 t) (r @ marked_zeros (out = 8) ?x (56 - p) @ ?len) h"
      by (rule blake32_full [of sc "marked_zeros (out = 8) ?x (56 - p) @ ?len" c t])
        (use len pO buf val in \<open>simp_all add: p_def [symmetric]\<close>)
    show ?thesis
    proof (rule result)
      show "blake32_close c u sc ub n out = Some (blake32_out out sc')"
        using blake32_close_fit [OF p_def [symmetric] pO n True words rew] sc' by simp
      show "bk_H sc' = blake_hash BLAKE_small (out = 8) iv s (bits_of_bytes m @ ?bs)"
        using blake_hash_fit [where w = 4 and bs = ?bs and B = BLAKE_small, OF _ _ _ _ _ abs', of p "out = 8"] n pm True
        by (simp add: bs l_def sc' tick r_def be_bytes_small)
    qed (simp add: sc')
  next
    case False
    then have pos: "\<not> (p = 0 \<and> n = 0)" by auto
    let ?d1 = "?x # replicate (63 - p) 0" and ?d2 = "replicate 55 0 @ [of_bool (out = 8)] @ ?len"
    obtain sc1 where sc1: "blake32 c (sc\<lparr>bk_T0 := fst t, bk_T1 := snd t\<rparr>) ?d1 = Some sc1"
      "bk_H sc1 = blake_compress BLAKE_small s (blake_tick 512 t) (r @ ?d1) h"
      "bk_S sc1 = s" "bk_ptr sc1 = 0" "64 \<le> length (bk_buf sc1)"
      by (rule blake32_full [of sc ?d1 c t]) (use len p buf val in \<open>simp_all add: p_def [symmetric]\<close>)
    obtain sc2 where sc2: "blake32 c (sc1\<lparr>bk_T0 := 0xFFFFFE00, bk_T1 := 0xFFFFFFFF\<rparr>) ?d2 = Some sc2"
      "bk_H sc2 = blake_compress BLAKE_small s (blake_tick 512 (0xFFFFFE00, 0xFFFFFFFF)) ?d2 (bk_H sc1)"
      by (rule blake32_full [of sc1 ?d2 c "(0xFFFFFE00, 0xFFFFFFFF)"]) (use sc1 in simp_all)
    show ?thesis
    proof (rule result)
      show "blake32_close c u sc ub n out = Some (blake32_out out sc2)"
        using blake32_close_over [OF p_def [symmetric] p n False words rew] sc1 sc2 by simp
      show "bk_H sc2 = blake_hash BLAKE_small (out = 8) iv s (bits_of_bytes m @ ?bs)"
        using blake_hash_over [where w = 4 and bs = ?bs and B = BLAKE_small, OF _ _ _ _ _ abs', of p "out = 8"] n pm False
        by (simp add: bs l_def sc1 sc2 tick if_not_P [OF pos] tick_zero_32 r_def be_bytes_small)
    qed (simp add: sc2)
  qed
qed

section \<open>Updates and closing, 64-bit words\<close>

lemma blake64_block_tick:
  "blake64_block c buf (H, S, t) =
     (blake_compress BLAKE_big S (blake_tick 1024 t) buf H, S, blake_tick 1024 t)"
  by (cases t) (simp add: blake_tick_def COMPRESS64_compress Let_def)

lemma blake64_sph_block: "sph_block 128 (blake64_block c)"
proof
  show "blake64_block c (take 128 buf) v = blake64_block c buf v" for buf v
    using blake_compress_take [of BLAKE_big] by (cases v) (simp only: blake64_block_tick BLAKE_big, simp)
qed simp

lemma words_64: "1024 * 2 ^ 54 = (2 :: nat) ^ LENGTH(64)" "(1 :: nat) < 2 ^ 54"
  by simp_all

lemma blake64_absorb:
  assumes "8 * length m \<le> l"
  shows "absorb 127 128 (blake64_block c) m (iv, s, 0, 0) =
      (fst (absorb 127 128 (blake_block BLAKE_big s l) m (iv, 0)), s, blake_ctr (1024 * (length m div 128)))
    \<and> snd (absorb 127 128 (blake_block BLAKE_big s l) m (iv, 0)) = length m div 128"
  using blake_absorb [of 1024 BLAKE_big "blake64_block c" s 0 m l iv] assms
    blake_tick_ctr [OF words_64]
  by (simp add: blake64_block_tick del: mult_Suc_right)

lemma blake64_full:
  assumes "128 \<le> length (bk_buf sc)" "bk_ptr sc + length d = 128" "bk_ptr sc < 128"
  obtains sc' where "blake64 c (sc\<lparr>bk_T0 := fst t, bk_T1 := snd t\<rparr>) d = Some sc'"
    "bk_H sc' = blake_compress BLAKE_big (bk_S sc) (blake_tick 1024 t) (take (bk_ptr sc) (bk_buf sc) @ d) (bk_H sc)"
    "bk_S sc' = bk_S sc" "bk_ptr sc' = 0" "length (bk_buf sc') = length (bk_buf sc)"
proof -
  have "d \<noteq> []" using assms by auto
  from sph_block.core_block [OF blake64_sph_block assms(1,2) this, of c "(bk_H sc, bk_S sc, t)"]
  obtain buf where core: "sph_core 128 (blake64_block c) d (bk_buf sc, bk_ptr sc, bk_H sc, bk_S sc, t)
      = Some (buf, 0, blake64_block c (take (bk_ptr sc) (bk_buf sc) @ d) (bk_H sc, bk_S sc, t))"
    and len: "length buf = length (bk_buf sc)" by blast
  obtain t0 t1 where tick: "blake_tick 1024 t = (t0, t1)" by fastforce
  show thesis
    by (rule that [of "sc\<lparr>bk_buf := buf, bk_ptr := 0, bk_H := blake_compress BLAKE_big (bk_S sc) (t0, t1)
          (take (bk_ptr sc) (bk_buf sc) @ d) (bk_H sc), bk_T0 := t0, bk_T1 := t1\<rparr>"]) (use core len in \<open>auto simp: blake64_def bk_view_def blake64_block_tick tick\<close>)
qed

lemma blake64_rewind_tick:
  assumes "bk_ptr sc < 128" "n < 8" and b: "b = 8 * bk_ptr sc + n"
    and t: "(bk_T0 sc, bk_T1 sc) = blake_ctr (1024 * k)"
  obtains t where "blake64_rewind sc n (of_nat b) = sc\<lparr>bk_T0 := fst t, bk_T1 := snd t\<rparr>"
    "blake_tick 1024 t = blake_ctr (if bk_ptr sc = 0 \<and> n = 0 then 0 else 1024 * k + b)"
proof (cases "b = 0")
  case True
  then show ?thesis
    using b that [of "(- 1024, - 1)"] blake_tick_none [of 1024, where 'a = 64] by (simp add: blake64_rewind_def)
next
  case False
  then have "0 < b" "b < 1024" "\<not> (bk_ptr sc = 0 \<and> n = 0)" using assms by auto
  let ?t = "if bk_T0 sc = 0 then (- 1024 + of_nat b, bk_T1 sc - 1) else (bk_T0 sc - (1024 - of_nat b), bk_T1 sc)"
  have "blake64_rewind sc n (of_nat b) = sc\<lparr>bk_T0 := fst ?t, bk_T1 := snd ?t\<rparr>"
    using \<open>\<not> (bk_ptr sc = 0 \<and> n = 0)\<close> \<open>b < 1024\<close> by (cases sc) (auto simp: blake64_rewind_def cast_bit_len)
  moreover have "blake_tick 1024 ?t = blake_ctr (1024 * k + b)"
    using blake_tick_last [OF words_64 \<open>0 < b\<close> \<open>b < 1024\<close> t] by (simp only: of_nat_numeral)
  ultimately show ?thesis
    by (intro that [of ?t]) (simp_all only: \<open>\<not> (bk_ptr sc = 0 \<and> n = 0)\<close> if_False)
qed

lemma tick_zero_64: "blake_tick 1024 (0xFFFFFFFFFFFFFC00, 0xFFFFFFFFFFFFFFFF) = (0, 0 :: u64)"
proof -
  have low: "(0xFFFFFFFFFFFFFC00 :: u64) = - 1024" "(0xFFFFFFFFFFFFFFFF :: u64) = - 1" by simp_all
  show ?thesis unfolding low using blake_tick_none [of 1024, where 'a = 64] by simp
qed

lemma bit_len_64:
  assumes "ptr < 128" "n < 8"
  shows "push_bit 3 (of_nat ptr) + of_nat n = (of_nat (8 * ptr + n) :: u32)"
    and "(of_nat (8 * ptr + n) :: u32) \<le> 894 \<longleftrightarrow> 8 * ptr + n \<le> 894"
  using assms by (simp_all add: push_bit_eq_mult word_le_nat_alt unat_of_nat del: of_nat_add of_nat_mult)
     (simp add: push_bit_eq_mult)


text \<open>What closing writes behind the message, over one block or over two.\<close>

definition blake64_out :: "nat \<Rightarrow> u64 blake_ctx \<Rightarrow> u64 blake_ctx \<times> bytes" where
  "blake64_out out sc = (sc, concat (map (\<lambda>k. sph_enc64be (bk_H sc ! k)) [0..<out]))"

lemma blake64_out: "length (bk_H sc) = 8 \<Longrightarrow> out \<le> 8 \<Longrightarrow> snd (blake64_out out sc) = concat (map sph_enc64be (take out (bk_H sc)))"
  by (auto simp: blake64_out_def take_map [symmetric] intro!: arg_cong [where f = concat] nth_equalityI)

lemma blake64_close_fit:
  assumes p: "bk_ptr sc = p" "p < 112" "n < 8" "8 * p + n \<le> 894" and hw: "bk_T1 sc = hw"
    and lw: "bk_T0 sc + of_nat (8 * p + n) = lw" and rew: "blake64_rewind sc n (of_nat (8 * p + n)) = sc'"
  shows "blake64_close c u sc ub n out =
    blake64 c sc' (marked_zeros (out = 8) (sph_pad_byte ub n) (112 - p) @ sph_enc64be hw @ sph_enc64be lw)
      \<bind> (\<lambda>sc. Some (blake64_out out sc))"
proof -
  let ?u = "map u [0..<128]" and ?x = "sph_pad_byte ub n"
  let ?one = "memset_in (?u[p := ?x]) (p + 1) 0 (111 - p) \<bind> (\<lambda>b.
      let b = (if out = 8 then b[111 := b ! 111 OR 1] else b)
      in memcpy_in b 112 (sph_enc64be hw) \<bind> (\<lambda>b. memcpy_in b 120 (sph_enc64be lw) \<bind> (\<lambda>b.
         read_in b p (128 - p) \<bind> blake64 c sc')))"
  have "store_in ?u p ?x = Some (?u[p := ?x])" using p by (simp add: mem_simps)
  then have "blake64_close c u sc ub n out = ?one \<bind> (\<lambda>sc. Some (blake64_out out sc))"
    using bit_len_64 [of p n] p hw lw rew cast_bit_len(1) [of "8 * p + n"]
    by (simp add: blake64_close_def Let_def blake64_out_def del: of_nat_add of_nat_mult)
  moreover have "?one = blake64 c sc' (marked_zeros (out = 8) ?x (112 - p) @ sph_enc64be hw @ sph_enc64be lw)"
    using tail_one [of ?u 128 p 112 "sph_enc64be hw" "sph_enc64be lw" ?x "out = 8" "blake64 c sc'"] p
    by (simp cong: if_cong)
  ultimately show ?thesis by (simp only:)
qed

lemma blake64_close_over:
  assumes p: "bk_ptr sc = p" "p < 128" "n < 8" "\<not> 8 * p + n \<le> 894" and hw: "bk_T1 sc = hw"
    and lw: "bk_T0 sc + of_nat (8 * p + n) = lw" and rew: "blake64_rewind sc n (of_nat (8 * p + n)) = sc'"
  shows "blake64_close c u sc ub n out =
    blake64 c sc' (sph_pad_byte ub n # replicate (127 - p) 0) \<bind> (\<lambda>sc.
    blake64 c (sc\<lparr>bk_T0 := 0xFFFFFFFFFFFFFC00, bk_T1 := 0xFFFFFFFFFFFFFFFF\<rparr>)
      (replicate 111 0 @ [of_bool (out = 8)] @ sph_enc64be hw @ sph_enc64be lw) \<bind> (\<lambda>sc.
    Some (blake64_out out sc)))"
proof -
  let ?u = "map u [0..<128]" and ?x = "sph_pad_byte ub n"
  let ?b = "take p ?u @ ?x # replicate (127 - p) 0"
  have "store_in ?u p ?x = Some (?u[p := ?x])" using p by (simp add: mem_simps)
  moreover have "memset_in (?u[p := ?x]) (Suc p) 0 (127 - p) = Some ?b"
    using tail_two_first [of ?u 128 p ?x] p by simp
  moreover have "read_in ?b p (128 - p) = Some (?x # replicate (127 - p) 0)" using p by (simp add: mem_simps)
  moreover have two: "memset_in ?b 0 0 112 \<bind> (\<lambda>b. let b = (if out = 8 then b[111 := 1] else b)
      in memcpy_in b 112 (sph_enc64be hw) \<bind> (\<lambda>b. memcpy_in b 120 (sph_enc64be lw) \<bind> F))
    = F (replicate 111 0 @ [of_bool (out = 8)] @ sph_enc64be hw @ sph_enc64be lw)" for F :: "bytes \<Rightarrow> (u64 blake_ctx \<times> bytes) option"
    using tail_two_second [of ?b 128 112 "sph_enc64be hw" "sph_enc64be lw" "out = 8" F] p by (simp cong: if_cong)
  ultimately show ?thesis
    using bit_len_64 [of p n] p hw lw rew cast_bit_len(1) [of "8 * p + n"]
    by (simp add: blake64_close_def Let_def blake64_out_def del: of_nat_add of_nat_mult)
qed

lemma blake64_close_digest:
  assumes holds: "sph_holds 128 (blake64_block c) (iv, s, 0, 0) m (bk_view sc)"
    and n: "n < 8" and out: "out \<le> 8"
  shows "\<exists>sc'. blake64_close c u sc ub n out =
    Some (sc', blake_digest BLAKE_big (out = 8) out iv s (bits_of_bytes m @ top_bits n ub))"
proof -
  define p k l where "p = bk_ptr sc" and "k = length m div 128" and "l = 8 * length m + n"
  define r h where "r = rest 127 128 m"
    and "h = fst (absorb 127 128 (blake_block BLAKE_big s l) m (iv, 0))"
  note abs = blake64_absorb [of m l c iv s]
  have len: "128 \<le> length (bk_buf sc)" and buf: "take p (bk_buf sc) = r" and pr: "p = length r"
    and val: "bk_H sc = h" "bk_S sc = s" "(bk_T0 sc, bk_T1 sc) = blake_ctr (1024 * k)"
    using holds abs by (auto simp: bk_view_def sph_holds.simps p_def r_def k_def h_def l_def)
  have pm: "p = length m mod 128" using length_rest_eager [of 128 m] by (simp add: pr r_def)
  then have p: "p < 128" and l: "l = 1024 * k + (8 * p + n)"
    using div_mult_mod_eq [of "length m" 128] unfolding k_def l_def by (simp, linarith)
  let ?hw = "of_nat (l div 2 ^ 64) :: u64" and ?lw = "of_nat l :: u64"
  have "8 * p + n < 1024" using p n by simp
  then have "blake_ctr l = (bk_T0 sc + of_nat (8 * p + n), bk_T1 sc)"
    using ctr_plus [OF words_64(1), of "8 * p + n" k] val(3) by (simp add: l prod_eq_iff)
  then have words: "bk_T1 sc = ?hw" "bk_T0 sc + of_nat (8 * p + n) = ?lw" by (simp_all add: blake_ctr_def)
  obtain t where rew: "blake64_rewind sc n (of_nat (8 * p + n)) = sc\<lparr>bk_T0 := fst t, bk_T1 := snd t\<rparr>"
    and tick: "blake_tick 1024 t = blake_ctr (if p = 0 \<and> n = 0 then 0 else l)"
    using blake64_rewind_tick [OF _ n refl val(3), folded p_def, folded l] p by blast
  let ?x = "sph_pad_byte ub n" and ?bs = "top_bits n ub" and ?len = "sph_enc64be ?hw @ sph_enc64be ?lw"
  have bs: "length ?bs = n" "?bs = [] \<longleftrightarrow> n = 0" "pad_start ?bs = ?x"
    using n by (simp_all add: sph_pad_byte_bits pad_start_def top_bits_def)
  have abs': "absorb (16 * 8 - 1) (16 * 8) (blake_block BLAKE_big s l) m (iv, 0) = (h, length m div (16 * 8))"
    using abs by (simp add: h_def l_def prod_eq_iff)
  have result: ?thesis if "blake64_close c u sc ub n out = Some (blake64_out out sc')" "length (bk_H sc') = 8"
    "bk_H sc' = blake_hash BLAKE_big (out = 8) iv s (bits_of_bytes m @ ?bs)" for sc'
    using that blake64_out [of sc' out] out by (cases "blake64_out out sc'") (simp add: blake_digest_def)
  show ?thesis
  proof (cases "8 * p + n \<le> 894")
    case True
    then have pO: "p < 112" by simp
    obtain sc' where sc': "blake64 c (sc\<lparr>bk_T0 := fst t, bk_T1 := snd t\<rparr>) (marked_zeros (out = 8) ?x (112 - p) @ ?len) = Some sc'"
      "bk_H sc' = blake_compress BLAKE_big s (blake_tick 1024 t) (r @ marked_zeros (out = 8) ?x (112 - p) @ ?len) h"
      by (rule blake64_full [of sc "marked_zeros (out = 8) ?x (112 - p) @ ?len" c t])
        (use len pO buf val in \<open>simp_all add: p_def [symmetric]\<close>)
    show ?thesis
    proof (rule result)
      show "blake64_close c u sc ub n out = Some (blake64_out out sc')"
        using blake64_close_fit [OF p_def [symmetric] pO n True words rew] sc' by simp
      show "bk_H sc' = blake_hash BLAKE_big (out = 8) iv s (bits_of_bytes m @ ?bs)"
        using blake_hash_fit [where w = 8 and bs = ?bs and B = BLAKE_big, OF _ _ _ _ _ abs', of p "out = 8"] n pm True
        by (simp add: bs l_def sc' tick r_def be_bytes_big)
    qed (simp add: sc')
  next
    case False
    then have pos: "\<not> (p = 0 \<and> n = 0)" by auto
    let ?d1 = "?x # replicate (127 - p) 0" and ?d2 = "replicate 111 0 @ [of_bool (out = 8)] @ ?len"
    obtain sc1 where sc1: "blake64 c (sc\<lparr>bk_T0 := fst t, bk_T1 := snd t\<rparr>) ?d1 = Some sc1"
      "bk_H sc1 = blake_compress BLAKE_big s (blake_tick 1024 t) (r @ ?d1) h"
      "bk_S sc1 = s" "bk_ptr sc1 = 0" "128 \<le> length (bk_buf sc1)"
      by (rule blake64_full [of sc ?d1 c t]) (use len p buf val in \<open>simp_all add: p_def [symmetric]\<close>)
    obtain sc2 where sc2: "blake64 c (sc1\<lparr>bk_T0 := 0xFFFFFFFFFFFFFC00, bk_T1 := 0xFFFFFFFFFFFFFFFF\<rparr>) ?d2 = Some sc2"
      "bk_H sc2 = blake_compress BLAKE_big s (blake_tick 1024 (0xFFFFFFFFFFFFFC00, 0xFFFFFFFFFFFFFFFF)) ?d2 (bk_H sc1)"
      by (rule blake64_full [of sc1 ?d2 c "(0xFFFFFFFFFFFFFC00, 0xFFFFFFFFFFFFFFFF)"]) (use sc1 in simp_all)
    show ?thesis
    proof (rule result)
      show "blake64_close c u sc ub n out = Some (blake64_out out sc2)"
        using blake64_close_over [OF p_def [symmetric] p n False words rew] sc1 sc2 by simp
      show "bk_H sc2 = blake_hash BLAKE_big (out = 8) iv s (bits_of_bytes m @ ?bs)"
        using blake_hash_over [where w = 8 and bs = ?bs and B = BLAKE_big, OF _ _ _ _ _ abs', of p "out = 8"] n pm False
        by (simp add: bs l_def sc1 sc2 tick if_not_P [OF pos] tick_zero_64 r_def be_bytes_big)
    qed (simp add: sc2)
  qed
qed

section \<open>The four hashes as streams\<close>

lemma blake_upd_core:
  "sph_core 64 (blake32_block c) d (bk_view sc) = Some t \<Longrightarrow> \<exists>sc'. blake32 c sc d = Some sc' \<and> bk_view sc' = t"
  "sph_core 128 (blake64_block c) d (bk_view bc) = Some v \<Longrightarrow> \<exists>bc'. blake64 c bc d = Some bc' \<and> bk_view bc' = v"
  by (cases t, simp add: blake32_def bk_view_def, cases v, simp add: blake64_def bk_view_def)

lemma blake_fresh:
  "length (bk_buf sc) = 64 \<Longrightarrow> sph_fresh 64 (iv, s, 0, 0) (bk_view (blake32_init sc iv s))"
  "length (bk_buf bc) = 128 \<Longrightarrow> sph_fresh 128 (iv', s', 0, 0) (bk_view (blake64_init bc iv' s'))"
  by (simp_all add: blake32_init_def blake64_init_def bk_view_def)

interpretation blake224: sph_stream 64 "blake32_block c" bk_view "(blake_IV224, salt_zero_small, 0, 0)" "sph_blake224 c"
  "\<lambda>sc. map_option snd (sph_blake224_addbits_and_close c u sc ub n)"
  "\<lambda>m. blake_digest BLAKE_small False 7 blake_IV224 salt_zero_small (bits_of_bytes m @ top_bits n ub)" "\<lambda>_. n < 8"
  for c u ub n
proof (intro sph_stream.intro blake32_sph_block sph_stream_axioms.intro)
  show "map_option snd (sph_blake224_addbits_and_close c u sc ub n)
      = Some (blake_digest BLAKE_small False 7 blake_IV224 salt_zero_small (bits_of_bytes m @ top_bits n ub))"
    if "sph_holds 64 (blake32_block c) (blake_IV224, salt_zero_small, 0, 0) m (bk_view sc)" "n < 8" for sc m
    using blake32_close_digest [OF that, of 7 u ub] by (auto simp: sph_blake224_addbits_and_close_def)
qed (simp_all add: blake_upd_core sph_blake224_def)

interpretation blake256: sph_stream 64 "blake32_block c" bk_view "(blake_IV256, salt_zero_small, 0, 0)" "sph_blake256 c"
  "\<lambda>sc. map_option snd (sph_blake256_addbits_and_close c u sc ub n)"
  "\<lambda>m. blake_digest BLAKE_small True 8 blake_IV256 salt_zero_small (bits_of_bytes m @ top_bits n ub)" "\<lambda>_. n < 8"
  for c u ub n
proof (intro sph_stream.intro blake32_sph_block sph_stream_axioms.intro)
  show "map_option snd (sph_blake256_addbits_and_close c u sc ub n)
      = Some (blake_digest BLAKE_small True 8 blake_IV256 salt_zero_small (bits_of_bytes m @ top_bits n ub))"
    if "sph_holds 64 (blake32_block c) (blake_IV256, salt_zero_small, 0, 0) m (bk_view sc)" "n < 8" for sc m
    using blake32_close_digest [OF that, of 8 u ub] by (auto simp: sph_blake256_addbits_and_close_def)
qed (simp_all add: blake_upd_core sph_blake256_def)

interpretation blake384: sph_stream 128 "blake64_block c" bk_view "(blake_IV384, salt_zero_big, 0, 0)" "sph_blake384 c"
  "\<lambda>sc. map_option snd (sph_blake384_addbits_and_close c u sc ub n)"
  "\<lambda>m. blake_digest BLAKE_big False 6 blake_IV384 salt_zero_big (bits_of_bytes m @ top_bits n ub)" "\<lambda>_. n < 8"
  for c u ub n
proof (intro sph_stream.intro blake64_sph_block sph_stream_axioms.intro)
  show "map_option snd (sph_blake384_addbits_and_close c u sc ub n)
      = Some (blake_digest BLAKE_big False 6 blake_IV384 salt_zero_big (bits_of_bytes m @ top_bits n ub))"
    if "sph_holds 128 (blake64_block c) (blake_IV384, salt_zero_big, 0, 0) m (bk_view sc)" "n < 8" for sc m
    using blake64_close_digest [OF that, of 6 u ub] by (auto simp: sph_blake384_addbits_and_close_def)
qed (simp_all add: blake_upd_core sph_blake384_def)

interpretation blake512: sph_stream 128 "blake64_block c" bk_view "(blake_IV512, salt_zero_big, 0, 0)" "sph_blake512 c"
  "\<lambda>sc. map_option snd (sph_blake512_addbits_and_close c u sc ub n)"
  "\<lambda>m. blake_digest BLAKE_big True 8 blake_IV512 salt_zero_big (bits_of_bytes m @ top_bits n ub)" "\<lambda>_. n < 8"
  for c u ub n
proof (intro sph_stream.intro blake64_sph_block sph_stream_axioms.intro)
  show "map_option snd (sph_blake512_addbits_and_close c u sc ub n)
      = Some (blake_digest BLAKE_big True 8 blake_IV512 salt_zero_big (bits_of_bytes m @ top_bits n ub))"
    if "sph_holds 128 (blake64_block c) (blake_IV512, salt_zero_big, 0, 0) m (bk_view sc)" "n < 8" for sc m
    using blake64_close_digest [OF that, of 8 u ub] by (auto simp: sph_blake512_addbits_and_close_def)
qed (simp_all add: blake_upd_core sph_blake512_def)

definition blake_blank :: "'w \<Rightarrow> nat \<Rightarrow> 'w blake_ctx" where
  \<comment> \<open>a context for the witnesses\<close>
  "blake_blank x k = \<lparr>bk_buf = replicate k 7, bk_ptr = 3, bk_H = [], bk_S = [x], bk_T0 = x, bk_T1 = x\<rparr>"

section \<open>Properties\<close>

text \<open>
  C7: initialise, update in pieces of any size, add up to 7 bits and close: the four functions
  compute the BLAKE digest of the bit string with the zero salt, for every length of the message
  (the counter wraps as the definition says), whichever way the rounds are compiled (\<open>c\<close>),
  whatever the local buffer held (\<open>u\<close>), and never leave their buffers.
\<close>

theorem sph_blake_is_blake:
  assumes "length (bk_buf cs) = 64" "length (bk_buf cb) = 128" "n < 8"
  shows
    "feed (sph_blake224 c) (sph_blake224_init cs) ds
       \<bind> (\<lambda>sc. map_option snd (sph_blake224_addbits_and_close c u sc ub n))
     = Some (blake_digest BLAKE_small False 7 blake_IV224 salt_zero_small (bits_of_bytes (concat ds) @ top_bits n ub)) \<and>
    feed (sph_blake256 c) (sph_blake256_init cs) ds
       \<bind> (\<lambda>sc. map_option snd (sph_blake256_addbits_and_close c u sc ub n))
     = Some (blake_digest BLAKE_small True 8 blake_IV256 salt_zero_small (bits_of_bytes (concat ds) @ top_bits n ub)) \<and>
    feed (sph_blake384 c) (sph_blake384_init cb) ds
       \<bind> (\<lambda>sc. map_option snd (sph_blake384_addbits_and_close c u sc ub n))
     = Some (blake_digest BLAKE_big False 6 blake_IV384 salt_zero_big (bits_of_bytes (concat ds) @ top_bits n ub)) \<and>
    feed (sph_blake512 c) (sph_blake512_init cb) ds
       \<bind> (\<lambda>sc. map_option snd (sph_blake512_addbits_and_close c u sc ub n))
     = Some (blake_digest BLAKE_big True 8 blake_IV512 salt_zero_big (bits_of_bytes (concat ds) @ top_bits n ub))"
  using assms
  by (simp add: blake224.hash_chunks blake256.hash_chunks blake384.hash_chunks blake512.hash_chunks
    blake_fresh sph_blake224_init_def sph_blake256_init_def sph_blake384_init_def sph_blake512_init_def)

theorem sph_blake_is_blake_witness:
  "feed (sph_blake512 True) (sph_blake512_init (blake_blank 0 128)) [[1, 2], replicate 140 9]
     \<bind> (\<lambda>sc. map_option snd (sph_blake512_addbits_and_close True (\<lambda>_. 5) sc 0xA0 3))
   = Some (blake_digest BLAKE_big True 8 blake_IV512 salt_zero_big
       (bits_of_bytes (1 # 2 # replicate 140 9) @ top_bits 3 0xA0))"
  using sph_blake_is_blake [of "blake_blank 0 64" "blake_blank 0 128" 3 True "[[1, 2], replicate 140 9]" "\<lambda>_. 5" "0xA0"]
  by (simp add: blake_blank_def)

end
