(* ===== verification/C_Blake256.thy ===== *)
theory C_Blake256
  imports Sph_Blake
begin

text \<open>
  \<^verbatim>\<open>src/crypto/cn/c_blake256.c\<close>: BLAKE-256 and BLAKE-224 as CryptoNight uses them to finish a hash,
  and HMAC on top of them. Lengths are counted in bits. The theory says exactly what an update does
  (it is right for one call per message, and for most, but not all, ways to cut a message), that
  the one-call functions compute the digest of theory \<open>Blake\<close>, and which function the HMAC
  routines compute.
\<close>

section \<open>Tables and the compression function\<close>

definition U8TO32 :: "bytes \<Rightarrow> u32" where
  "U8TO32 p = push_bit 24 (ucast (p ! 0)) OR push_bit 16 (ucast (p ! 1)) OR push_bit 8 (ucast (p ! 2)) OR ucast (p ! 3)"

definition U32TO8 :: "u32 \<Rightarrow> bytes" where
  "U32TO8 v = [ucast (drop_bit 24 v), ucast (drop_bit 16 v), ucast (drop_bit 8 v), ucast v]"

definition cn_sigma :: "nat list list" where
  "cn_sigma =
    [[0, 1, 2, 3, 4, 5, 6, 7, 8, 9, 10, 11, 12, 13, 14, 15],
     [14, 10, 4, 8, 9, 15, 13, 6, 1, 12, 0, 2, 11, 7, 5, 3],
     [11, 8, 12, 0, 5, 2, 15, 13, 10, 14, 3, 6, 7, 1, 9, 4],
     [7, 9, 3, 1, 13, 12, 11, 14, 2, 6, 5, 10, 4, 0, 15, 8],
     [9, 0, 5, 7, 2, 4, 10, 15, 14, 1, 11, 12, 6, 8, 3, 13],
     [2, 12, 6, 10, 0, 11, 8, 3, 4, 13, 7, 5, 15, 14, 1, 9],
     [12, 5, 1, 15, 14, 13, 4, 10, 0, 7, 6, 3, 9, 2, 8, 11],
     [13, 11, 7, 14, 12, 1, 3, 9, 5, 0, 15, 4, 8, 6, 2, 10],
     [6, 15, 14, 9, 11, 3, 0, 8, 12, 2, 13, 7, 1, 4, 10, 5],
     [10, 2, 8, 4, 7, 6, 1, 5, 15, 11, 9, 14, 3, 12, 13, 0],
     [0, 1, 2, 3, 4, 5, 6, 7, 8, 9, 10, 11, 12, 13, 14, 15],
     [14, 10, 4, 8, 9, 15, 13, 6, 1, 12, 0, 2, 11, 7, 5, 3],
     [11, 8, 12, 0, 5, 2, 15, 13, 10, 14, 3, 6, 7, 1, 9, 4],
     [7, 9, 3, 1, 13, 12, 11, 14, 2, 6, 5, 10, 4, 0, 15, 8]]"

definition cn_cst :: "u32 list" where
  "cn_cst =
    [0x243F6A88, 0x85A308D3, 0x13198A2E, 0x03707344,
     0xA4093822, 0x299F31D0, 0x082EFA98, 0xEC4E6C89,
     0x452821E6, 0x38D01377, 0xBE5466CF, 0x34E90C6C,
     0xC0AC29B7, 0xC97C50DD, 0x3F84D5B5, 0xB5470917]"

definition cn_padding :: bytes where
  "cn_padding = 0x80 # replicate 63 0"

record cn_state =
  st_h :: "u32 list"
  st_s :: "u32 list"
  st_t0 :: u32
  st_t1 :: u32
  st_buflen :: nat
  st_nullt :: nat
  st_buf :: bytes

definition cn_ROT :: "u32 \<Rightarrow> nat \<Rightarrow> u32" where
  "cn_ROT x n = push_bit (32 - n) x OR drop_bit n x"

definition cn_G :: "nat list \<Rightarrow> u32 list \<Rightarrow> nat \<times> nat \<times> nat \<times> nat \<times> nat \<Rightarrow> u32 list \<Rightarrow> u32 list" where
  \<comment> \<open>\<open>sg\<close> is the row \<open>sigma[i]\<close>\<close>
  "cn_G sg m = (\<lambda>(a, b, c, d, e) v.
     let v = v[a := v ! a + ((m ! (sg ! e) XOR cn_cst ! (sg ! (e + 1))) + v ! b)];
         v = v[d := cn_ROT (v ! d XOR v ! a) 16];
         v = v[c := v ! c + v ! d];
         v = v[b := cn_ROT (v ! b XOR v ! c) 12];
         v = v[a := v ! a + ((m ! (sg ! (e + 1)) XOR cn_cst ! (sg ! e)) + v ! b)];
         v = v[d := cn_ROT (v ! d XOR v ! a) 8];
         v = v[c := v ! c + v ! d];
         v = v[b := cn_ROT (v ! b XOR v ! c) 7]
     in v)"

definition cn_round :: "u32 list \<Rightarrow> nat \<Rightarrow> u32 list \<Rightarrow> u32 list" where
  \<comment> \<open>the body of the loop over the rounds\<close>
  "cn_round m i v =
     (let sg = cn_sigma ! i;
          v = cn_G sg m (0, 4, 8, 12, 0) v;
          v = cn_G sg m (1, 5, 9, 13, 2) v;
          v = cn_G sg m (2, 6, 10, 14, 4) v;
          v = cn_G sg m (3, 7, 11, 15, 6) v;
          v = cn_G sg m (3, 4, 9, 14, 14) v;
          v = cn_G sg m (2, 7, 8, 13, 12) v;
          v = cn_G sg m (0, 5, 10, 15, 8) v;
          v = cn_G sg m (1, 6, 11, 12, 10) v
      in v)"

definition blake256_compress :: "cn_state \<Rightarrow> bytes \<Rightarrow> cn_state" where
  "blake256_compress S block =
     (let m = map (\<lambda>i. U8TO32 (drop (i * 4) block)) [0..<16];
          v = map (\<lambda>i. st_h S ! i) [0..<8]
            @ [st_s S ! 0 XOR 0x243F6A88, st_s S ! 1 XOR 0x85A308D3,
               st_s S ! 2 XOR 0x13198A2E, st_s S ! 3 XOR 0x03707344,
               0xA4093822, 0x299F31D0, 0x082EFA98, 0xEC4E6C89];
          v = (if st_nullt S = 0
               then v[12 := v ! 12 XOR st_t0 S, 13 := v ! 13 XOR st_t0 S,
                      14 := v ! 14 XOR st_t1 S, 15 := v ! 15 XOR st_t1 S]
               else v);
          v = fold (cn_round m) [0..<14] v;
          h = fold (\<lambda>i h. h[i mod 8 := h ! (i mod 8) XOR v ! i]) [0..<16] (st_h S);
          h = fold (\<lambda>i h. h[i := h ! i XOR st_s S ! (i mod 4)]) [0..<8] h
      in S\<lparr>st_h := h\<rparr>)"

section \<open>Initialisation, update and the end\<close>

definition blake256_init :: "cn_state \<Rightarrow> cn_state" where
  "blake256_init S = S\<lparr>
     st_h := [0x6A09E667, 0xBB67AE85, 0x3C6EF372, 0xA54FF53A, 0x510E527F, 0x9B05688C, 0x1F83D9AB, 0x5BE0CD19],
     st_t0 := 0, st_t1 := 0, st_buflen := 0, st_nullt := 0, st_s := [0, 0, 0, 0]\<rparr>"

definition blake224_init :: "cn_state \<Rightarrow> cn_state" where
  "blake224_init S = S\<lparr>
     st_h := [0xC1059ED8, 0x367CD507, 0x3070DD17, 0xF70E5939, 0xFFC00B31, 0x68581511, 0x64F98FA7, 0xBEFA4FA4],
     st_t0 := 0, st_t1 := 0, st_buflen := 0, st_nullt := 0, st_s := [0, 0, 0, 0]\<rparr>"

definition cn_count :: "cn_state \<Rightarrow> cn_state" where
  \<comment> \<open>\<open>S->t[0] += 512; if (S->t[0] == 0) S->t[1]++;\<close>\<close>
  "cn_count S =
     (let S = S\<lparr>st_t0 := st_t0 S + 512\<rparr>
      in if st_t0 S = 0 then S\<lparr>st_t1 := st_t1 S + 1\<rparr> else S)"

function cn_blocks :: "cn_state \<Rightarrow> bytes \<Rightarrow> u64 \<Rightarrow> (cn_state \<times> bytes \<times> u64) option" where
  \<comment> \<open>\<open>while (datalen >= 512)\<close>\<close>
  "cn_blocks S data datalen =
     (if 512 \<le> datalen
      then read_in data 0 64 \<bind> (\<lambda>b.
           cn_blocks (blake256_compress (cn_count S) b) (drop 64 data) (datalen - 512))
      else Some (S, data, datalen))"
  by pat_completeness auto
termination
proof (relation "measure (\<lambda>(S, data, datalen). unat datalen)")
  show "((blake256_compress (cn_count S) b, drop 64 data, datalen - 512), (S, data, datalen))
      \<in> measure (\<lambda>(S, data, datalen). unat datalen)" if "512 \<le> datalen" for S data b and datalen :: u64
    using that by (simp add: word_le_nat_alt unat_sub_if')
qed simp

declare cn_blocks.simps [simp del]

definition cn_end :: "cn_state \<Rightarrow> nat \<Rightarrow> bytes \<Rightarrow> u64 \<Rightarrow> cn_state option" where
  \<comment> \<open>from the loop to the end of \<open>blake256_update\<close>\<close>
  "cn_end S left data datalen =
     cn_blocks S data datalen \<bind> (\<lambda>(S, data, datalen).
     if 0 < datalen
     then read_in data 0 (unat (drop_bit 3 datalen)) \<bind> (\<lambda>d.
          memcpy_in (st_buf S) left d \<bind> (\<lambda>buf.
          Some (S\<lparr>st_buf := buf, st_buflen := push_bit 3 left + unat datalen\<rparr>)))
     else Some (S\<lparr>st_buflen := 0\<rparr>))"

definition blake256_update :: "cn_state \<Rightarrow> bytes \<Rightarrow> u64 \<Rightarrow> cn_state option" where
  \<comment> \<open>\<open>datalen\<close> is a number of bits\<close>
  "blake256_update S data datalen =
     (let left = drop_bit 3 (st_buflen S); fill = 64 - left
      in if left \<noteq> 0 \<and> of_nat fill \<le> drop_bit 3 datalen AND 0x3F
         then read_in data 0 fill \<bind> (\<lambda>d.
              memcpy_in (st_buf S) left d \<bind> (\<lambda>buf.
              let S = cn_count (S\<lparr>st_buf := buf\<rparr>);
                  S = blake256_compress S (st_buf S)
              in cn_end S 0 (drop fill data) (datalen - of_nat (push_bit 3 fill))))
         else cn_end S left data datalen)"

definition blake224_update :: "cn_state \<Rightarrow> bytes \<Rightarrow> u64 \<Rightarrow> cn_state option" where
  "blake224_update S data datalen = blake256_update S data datalen"

definition blake256_final_h :: "cn_state \<Rightarrow> u8 \<Rightarrow> u8 \<Rightarrow> (cn_state \<times> bytes) option" where
  \<comment> \<open>the state left behind and the 32 bytes written to \<open>digest\<close>\<close>
  "blake256_final_h S pa pb =
     (let lo = st_t0 S + of_nat (st_buflen S);
          hi = (if lo < of_nat (st_buflen S) then st_t1 S + 1 else st_t1 S);
          msglen = U32TO8 hi @ U32TO8 lo
      in (if st_buflen S = 440
          then blake256_update (S\<lparr>st_t0 := st_t0 S - 8\<rparr>) [pa] 8
          else (if st_buflen S < 440
                then let S = (if st_buflen S = 0 then S\<lparr>st_nullt := 1\<rparr> else S);
                         S = S\<lparr>st_t0 := st_t0 S - of_nat (440 - st_buflen S)\<rparr>
                     in blake256_update S cn_padding (of_nat (440 - st_buflen S))
                else let S = S\<lparr>st_t0 := st_t0 S - of_nat (512 - st_buflen S)\<rparr>
                     in blake256_update S cn_padding (of_nat (512 - st_buflen S)) \<bind> (\<lambda>S.
                        let S = S\<lparr>st_t0 := st_t0 S - 440\<rparr>
                        in blake256_update S (drop 1 cn_padding) 440 \<bind> (\<lambda>S.
                           Some (S\<lparr>st_nullt := 1\<rparr>)))) \<bind> (\<lambda>S.
               blake256_update S [pb] 8 \<bind> (\<lambda>S.
               Some (S\<lparr>st_t0 := st_t0 S - 8\<rparr>)))) \<bind> (\<lambda>S.
         blake256_update (S\<lparr>st_t0 := st_t0 S - 64\<rparr>) msglen 64 \<bind> (\<lambda>S.
         Some (S, concat (map (\<lambda>i. U32TO8 (st_h S ! i)) [0, 1, 2, 3, 4, 5, 6, 7])))))"

definition blake256_final :: "cn_state \<Rightarrow> (cn_state \<times> bytes) option" where
  "blake256_final S = blake256_final_h S 0x81 0x01"

definition blake224_final :: "cn_state \<Rightarrow> (cn_state \<times> bytes) option" where
  "blake224_final S = blake256_final_h S 0x80 0x00"

definition blake256_hash :: "cn_state \<Rightarrow> bytes \<Rightarrow> u64 \<Rightarrow> bytes option" where
  \<comment> \<open>\<open>S\<close> is the local state before its initialisation; \<open>inlen\<close> is a number of bytes\<close>
  "blake256_hash S inp inlen =
     blake256_update (blake256_init S) inp (inlen * 8) \<bind> (\<lambda>S. map_option snd (blake256_final S))"

definition blake224_hash :: "cn_state \<Rightarrow> bytes \<Rightarrow> u64 \<Rightarrow> bytes option" where
  "blake224_hash S inp inlen =
     blake224_update (blake224_init S) inp (inlen * 8) \<bind> (\<lambda>S. map_option snd (blake224_final S))"

section \<open>HMAC\<close>

record cn_hmac =
  hm_inner :: cn_state
  hm_outer :: cn_state

definition xor_key :: "bytes \<Rightarrow> nat \<Rightarrow> bytes \<Rightarrow> bytes option" where
  \<comment> \<open>\<open>for (i = 0; i < keylen; ++i) pad[i] ^= key[i];\<close>\<close>
  "xor_key pad keylen key =
     read_in key 0 keylen \<bind> (\<lambda>k. read_in pad 0 keylen \<bind> (\<lambda>p. memcpy_in pad 0 (map2 (XOR) p k)))"

definition hmac_blake256_init :: "cn_state \<Rightarrow> cn_hmac \<Rightarrow> bytes \<Rightarrow> u64 \<Rightarrow> cn_hmac option" where
  \<comment> \<open>\<open>S0\<close>: the local state of \<open>blake256_hash\<close>; erasing \<open>keyhash\<close> has no effect the caller sees\<close>
  "hmac_blake256_init S0 S key keylen =
     (if 64 < keylen then blake256_hash S0 key keylen \<bind> (\<lambda>keyhash. Some (keyhash, 32))
      else Some (key, keylen)) \<bind> (\<lambda>(key, keylen).
     xor_key (replicate 64 0x36) (unat keylen) key \<bind> (\<lambda>pad.
     blake256_update (blake256_init (hm_inner S)) pad 512 \<bind> (\<lambda>inner.
     xor_key (replicate 64 0x5C) (unat keylen) key \<bind> (\<lambda>pad.
     blake256_update (blake256_init (hm_outer S)) pad 512 \<bind> (\<lambda>outer.
     Some \<lparr>hm_inner = inner, hm_outer = outer\<rparr>)))))"

definition hmac_blake224_init :: "cn_state \<Rightarrow> cn_hmac \<Rightarrow> bytes \<Rightarrow> u64 \<Rightarrow> cn_hmac option" where
  \<comment> \<open>a long key is hashed with \<open>blake256_hash\<close> here too\<close>
  "hmac_blake224_init S0 S key keylen =
     (if 64 < keylen then blake256_hash S0 key keylen \<bind> (\<lambda>keyhash. Some (keyhash, 28))
      else Some (key, keylen)) \<bind> (\<lambda>(key, keylen).
     xor_key (replicate 64 0x36) (unat keylen) key \<bind> (\<lambda>pad.
     blake224_update (blake224_init (hm_inner S)) pad 512 \<bind> (\<lambda>inner.
     xor_key (replicate 64 0x5C) (unat keylen) key \<bind> (\<lambda>pad.
     blake224_update (blake224_init (hm_outer S)) pad 512 \<bind> (\<lambda>outer.
     Some \<lparr>hm_inner = inner, hm_outer = outer\<rparr>)))))"

definition hmac_blake256_update :: "cn_hmac \<Rightarrow> bytes \<Rightarrow> u64 \<Rightarrow> cn_hmac option" where
  "hmac_blake256_update S data datalen =
     blake256_update (hm_inner S) data datalen \<bind> (\<lambda>inner. Some (S\<lparr>hm_inner := inner\<rparr>))"

definition hmac_blake224_update :: "cn_hmac \<Rightarrow> bytes \<Rightarrow> u64 \<Rightarrow> cn_hmac option" where
  "hmac_blake224_update S data datalen =
     blake224_update (hm_inner S) data datalen \<bind> (\<lambda>inner. Some (S\<lparr>hm_inner := inner\<rparr>))"

definition hmac_blake256_final :: "cn_hmac \<Rightarrow> (cn_hmac \<times> bytes) option" where
  "hmac_blake256_final S =
     blake256_final (hm_inner S) \<bind> (\<lambda>(inner, ihash).
     blake256_update (hm_outer S) ihash 256 \<bind> (\<lambda>outer.
     blake256_final outer \<bind> (\<lambda>(outer, digest).
     Some (\<lparr>hm_inner = inner, hm_outer = outer\<rparr>, digest))))"

definition hmac_blake224_final :: "cn_hmac \<Rightarrow> (cn_hmac \<times> bytes) option" where
  "hmac_blake224_final S =
     blake224_final (hm_inner S) \<bind> (\<lambda>(inner, ihash).
     blake224_update (hm_outer S) ihash 224 \<bind> (\<lambda>outer.
     blake224_final outer \<bind> (\<lambda>(outer, digest).
     Some (\<lparr>hm_inner = inner, hm_outer = outer\<rparr>, digest))))"

definition hmac_blake256_hash :: "cn_state \<Rightarrow> cn_hmac \<Rightarrow> bytes \<Rightarrow> u64 \<Rightarrow> bytes \<Rightarrow> u64 \<Rightarrow> bytes option" where
  "hmac_blake256_hash S0 S key keylen inp inlen =
     hmac_blake256_init S0 S key keylen \<bind> (\<lambda>S.
     hmac_blake256_update S inp (inlen * 8) \<bind> (\<lambda>S.
     map_option snd (hmac_blake256_final S)))"

definition hmac_blake224_hash :: "cn_state \<Rightarrow> cn_hmac \<Rightarrow> bytes \<Rightarrow> u64 \<Rightarrow> bytes \<Rightarrow> u64 \<Rightarrow> bytes option" where
  "hmac_blake224_hash S0 S key keylen inp inlen =
     hmac_blake224_init S0 S key keylen \<bind> (\<lambda>S.
     hmac_blake224_update S inp (inlen * 8) \<bind> (\<lambda>S.
     map_option snd (hmac_blake224_final S)))"

section \<open>Compression is BLAKE's\<close>

lemma U_codec: "U8TO32 = sph_dec32be" "U32TO8 = sph_enc32be"
  by (simp_all add: fun_eq_iff U8TO32_def sph_dec32be_def U32TO8_def sph_enc32be_def)

lemma cn_ROT_rotr: "0 < n \<Longrightarrow> n < 32 \<Longrightarrow> cn_ROT x n = word_rotr n x"
  using ROTR32_rotr [of n x] by (simp add: cn_ROT_def SPH_ROTR32_def SPH_ROTL32_def)

lemma cn_cst: "cn_cst = blake_CS"
  by (simp add: cn_cst_def blake_CS_def)

lemma updates_twice:
  assumes "distinct [a, b, c, d]"
  shows "v[a := A, d := D, c := C, b := B, a := A', d := D', c := C', b := B'] = v[a := A', b := B', c := C', d := D']"
proof (rule nth_equalityI)
  fix j assume "j < length (v[a := A, d := D, c := C, b := B, a := A', d := D', c := C', b := B'])"
  then show "v[a := A, d := D, c := C, b := B, a := A', d := D', c := C', b := B'] ! j
      = v[a := A', b := B', c := C', d := D'] ! j"
    using assms by (cases "j = a"; cases "j = b"; cases "j = c"; cases "j = d") (simp_all add: nth_list_update)
qed simp

lemma cn_G_line:
  assumes "distinct [a, b, c, d]" "a < length v" "b < length v" "c < length v" "d < length v"
  shows "cn_G sg m (a, b, c, d, 2 * i) v = blake_line BLAKE_small m sg i (a, b, c, d) v"
proof -
  have ne: "a \<noteq> b" "b \<noteq> a" "a \<noteq> c" "c \<noteq> a" "a \<noteq> d" "d \<noteq> a" "b \<noteq> c" "c \<noteq> b" "b \<noteq> d" "d \<noteq> b" "c \<noteq> d" "d \<noteq> c"
    using assms(1) by auto
  note idx = nth_list_update_eq nth_list_update_neq [OF ne(1)] nth_list_update_neq [OF ne(2)]
    nth_list_update_neq [OF ne(3)] nth_list_update_neq [OF ne(4)] nth_list_update_neq [OF ne(5)]
    nth_list_update_neq [OF ne(6)] nth_list_update_neq [OF ne(7)] nth_list_update_neq [OF ne(8)]
    nth_list_update_neq [OF ne(9)] nth_list_update_neq [OF ne(10)] nth_list_update_neq [OF ne(11)]
    nth_list_update_neq [OF ne(12)] length_list_update assms(2-5)
  show ?thesis
    unfolding cn_G_def Let_def prod.case
    apply (simp only: idx)
    apply (subst updates_twice [OF assms(1)])
    apply (simp add: blake_line_def blake_inputs_def cn_ROT_rotr cn_cst Let_def add_ac)
    done
qed

lemma cn_diagonals:
  "length v = 16 \<Longrightarrow>
   blake_line B m p 5 (1, 6, 11, 12) (blake_line B m p 4 (0, 5, 10, 15)
     (blake_line B m p 6 (2, 7, 8, 13) (blake_line B m p 7 (3, 4, 9, 14) v)))
   = blake_line B m p 7 (3, 4, 9, 14) (blake_line B m p 6 (2, 7, 8, 13)
     (blake_line B m p 5 (1, 6, 11, 12) (blake_line B m p 4 (0, 5, 10, 15) v)))"
  by (elim list16) (simp add: blake_line_def Let_def)

lemmas cn_G_lines = cn_G_line [where i = 0, simplified] cn_G_line [where i = 1, unfolded mult_1_right]
  cn_G_line [where i = 2, simplified] cn_G_line [where i = 3, simplified] cn_G_line [where i = 4, simplified]
  cn_G_line [where i = 5, simplified] cn_G_line [where i = 6, simplified] cn_G_line [where i = 7, simplified]

lemma cn_round_round: "length v = 16 \<Longrightarrow> cn_round m i v = blake_round BLAKE_small m (cn_sigma ! i) v"
  using lines_round [of v BLAKE_small m "cn_sigma ! i"]
  by (simp add: cn_round_def Let_def cn_G_lines cn_diagonals del: One_nat_def)

lemma cn_sigma_rows: "map ((!) cn_sigma) [0..<14] = map (\<lambda>r. blake_sigma ! (r mod 10)) [0..<14]"
  by code_simp

lemma cn_rounds:
  assumes "length v = 16"
  shows "fold (cn_round m) [0..<14] v = fold (\<lambda>r. blake_round BLAKE_small m (blake_sigma ! (r mod 10))) [0..<14] v"
proof -
  have "fold (cn_round m) rs v = fold (\<lambda>r. blake_round BLAKE_small m (cn_sigma ! r)) rs v" for rs
    using assms by (induction rs arbitrary: v) (simp_all add: cn_round_round)
  also have "fold (\<lambda>r. blake_round BLAKE_small m (cn_sigma ! r)) [0..<14] v
      = fold (\<lambda>r. blake_round BLAKE_small m (blake_sigma ! (r mod 10))) [0..<14] v"
    by (rule rounds_rows [OF cn_sigma_rows]) (simp_all add: assms)
  finally show ?thesis .
qed

definition cn_counter :: "nat \<Rightarrow> u32 \<times> u32 \<Rightarrow> u32 \<times> u32" where
  \<comment> \<open>the counter the compression function sees\<close>
  "cn_counter z t = (if z = 0 then t else (0, 0))"

lemma cn_compress:
  assumes h: "length (st_h S) = 8"
  shows "blake256_compress S b =
    S\<lparr>st_h := blake_compress BLAKE_small (st_s S) (cn_counter (st_nullt S) (st_t0 S, st_t1 S)) b (st_h S)\<rparr>"
proof -
  let ?t = "cn_counter (st_nullt S) (st_t0 S, st_t1 S)"
  let ?v = "map (\<lambda>i. st_h S ! i) [0..<8]
    @ [st_s S ! 0 XOR 0x243F6A88, st_s S ! 1 XOR 0x85A308D3, st_s S ! 2 XOR 0x13198A2E, st_s S ! 3 XOR 0x03707344,
       0xA4093822, 0x299F31D0, 0x082EFA98, 0xEC4E6C89]"
  have m: "map (\<lambda>i. U8TO32 (drop (i * 4) b)) [0..<16] = blake_words BLAKE_small b"
    by (simp add: blake_words_def U_codec dec32be_take mult.commute)
  have v: "(if st_nullt S = 0 then ?v[12 := ?v ! 12 XOR st_t0 S, 13 := ?v ! 13 XOR st_t0 S,
        14 := ?v ! 14 XOR st_t1 S, 15 := ?v ! 15 XOR st_t1 S] else ?v)
      = blake_start blake_CS (st_s S) ?t (st_h S)"
    by (simp add: blake_start_def cn_counter_def blake_CS_def upt_0_8 upt_0_4 xor.commute)
  define v' where "v' = fold (\<lambda>r. blake_round BLAKE_small (blake_words BLAKE_small b) (blake_sigma ! (r mod 10))) [0..<14]
      (blake_start blake_CS (st_s S) ?t (st_h S))"
  have "fold (\<lambda>i h. h[i := h ! i XOR st_s S ! (i mod 4)]) [0..<8]
      (fold (\<lambda>i h. h[i mod 8 := h ! (i mod 8) XOR v' ! i]) [0..<16] (st_h S))
    = map (\<lambda>i. st_h S ! i XOR st_s S ! (i mod 4) XOR v' ! i XOR v' ! (8 + i)) [0..<8]"
    using h by (elim list8) (simp add: upt_0_16 upt_0_8 ac_simps)
  then show ?thesis
    unfolding blake256_compress_def Let_def m v cn_rounds [OF length_blake_start] v'_def [symmetric]
      blake_compress_def BLAKE_small
    by simp
qed

section \<open>What a state holds\<close>

definition cn_tick :: "u32 \<times> u32 \<Rightarrow> u32 \<times> u32" where
  "cn_tick t = (fst t + 512, if fst t + 512 = 0 then snd t + 1 else snd t)"

fun cn_block :: "u32 list \<Rightarrow> nat \<Rightarrow> bytes \<Rightarrow> u32 list \<times> u32 \<times> u32 \<Rightarrow> u32 list \<times> u32 \<times> u32" where
  "cn_block s z b (h, t) = (blake_compress BLAKE_small s (cn_counter z (cn_tick t)) b h, cn_tick t)"

text \<open>Chain value and counter, salt and \<open>nullt\<close>, and the bytes \<open>r\<close> waiting in the buffer.\<close>

definition cn_at :: "cn_state \<Rightarrow> u32 list \<Rightarrow> nat \<Rightarrow> u32 list \<times> u32 \<times> u32 \<Rightarrow> bytes \<Rightarrow> bool" where
  "cn_at S s z ht r \<longleftrightarrow>
     (st_h S, st_t0 S, st_t1 S) = ht \<and> length (st_h S) = 8 \<and> st_s S = s \<and> st_nullt S = z
     \<and> length (st_buf S) = 64 \<and> st_buflen S = 8 * length r \<and> length r < 64
     \<and> take (length r) (st_buf S) = r"

lemma cn_step:
  assumes "length (st_h S) = 8"
  shows "blake256_compress (cn_count S) b =
    (let (h, t0, t1) = cn_block (st_s S) (st_nullt S) b (st_h S, st_t0 S, st_t1 S)
     in S\<lparr>st_h := h, st_t0 := t0, st_t1 := t1\<rparr>)"
  using assms by (cases S) (auto simp: cn_count_def Let_def cn_compress cn_tick_def)

lemma cn_step_length: "length h = 8 \<Longrightarrow> length (fst (cn_block s z b (h, t))) = 8"
  by simp

lemma bits_of_nat: "8 * k < 2 ^ 64 \<Longrightarrow> unat (of_nat (8 * k) :: u64) = 8 * k"
  by (simp add: unat_of_nat del: of_nat_mult)

lemma cn_blocks_absorb:
  assumes "length (st_h S) = 8" "8 * length d < 2 ^ 64"
  shows "cn_blocks S (d @ x) (of_nat (8 * length d)) =
    (let (h, t0, t1) = absorb 63 64 (cn_block (st_s S) (st_nullt S)) d (st_h S, st_t0 S, st_t1 S)
     in Some (S\<lparr>st_h := h, st_t0 := t0, st_t1 := t1\<rparr>, rest 63 64 d @ x, of_nat (8 * length (rest 63 64 d))))"
  using assms
proof (induction d arbitrary: S rule: measure_induct_rule [where f = length])
  case (less d)
  let ?n = "of_nat (8 * length d) :: u64"
  have n: "unat ?n = 8 * length d" using less.prems by (intro bits_of_nat)
  show ?case
  proof (cases "63 < length d")
    case False
    then have "\<not> 512 \<le> ?n" by (simp add: word_le_nat_alt n del: of_nat_mult)
    then show ?thesis using False by (simp add: cn_blocks.simps [of S] del: of_nat_mult)
  next
    case True
    then have ge: "512 \<le> ?n" by (simp add: word_le_nat_alt n del: of_nat_mult)
    have "?n - 512 = of_nat (8 * length d - 512)" using True by (simp add: of_nat_diff)
    also have "8 * length d - 512 = 8 * length (drop 64 d)" using True by simp
    finally have sub: "?n - 512 = of_nat (8 * length (drop 64 d))" .
    have rd: "read_in (d @ x) 0 64 = Some (take 64 d)" using True by (simp add: mem_simps)
    obtain h t0 t1 where b: "cn_block (st_s S) (st_nullt S) (take 64 d) (st_h S, st_t0 S, st_t1 S) = (h, t0, t1)"
      by (metis prod_cases3)
    let ?S = "S\<lparr>st_h := h, st_t0 := t0, st_t1 := t1\<rparr>"
    have "length h = 8" using cn_step_length [OF less.prems(1)] b by (metis fst_conv)
    moreover have "length (drop 64 d) < length d" "8 * length (drop 64 d) < 2 ^ 64" using True less.prems by simp_all
    ultimately have IH: "cn_blocks ?S (drop 64 d @ x) (of_nat (8 * length (drop 64 d))) =
      (let (h, t0, t1) = absorb 63 64 (cn_block (st_s ?S) (st_nullt ?S)) (drop 64 d) (st_h ?S, st_t0 ?S, st_t1 ?S)
       in Some (?S\<lparr>st_h := h, st_t0 := t0, st_t1 := t1\<rparr>, rest 63 64 (drop 64 d) @ x, of_nat (8 * length (rest 63 64 (drop 64 d)))))"
      by (intro less.IH) simp_all
    have "cn_blocks S (d @ x) ?n = cn_blocks ?S (drop 64 d @ x) (of_nat (8 * length (drop 64 d)))"
      using ge rd b True by (simp add: cn_blocks.simps [of S] sub cn_step less.prems(1) del: of_nat_mult cn_block.simps)
    then show ?thesis
      unfolding IH using True b by (simp add: absorb_block [of 64 63 d] rest_block [of 64 63 d] split: prod.splits)
  qed
qed

section \<open>Updates\<close>

lemma bytes_of_nat:
  assumes "8 * n < 2 ^ 64"
  shows "unat (drop_bit 3 (of_nat (8 * n) :: u64)) = n"
  using bits_of_nat [OF assms] by (simp add: drop_bit_eq_div unat_div del: of_nat_mult)

lemma update_test:
  "k \<le> 64 \<Longrightarrow> (of_nat k :: u64) \<le> drop_bit 3 n AND 0x3F \<longleftrightarrow> k \<le> unat n div 8 mod 64"
proof -
  assume "k \<le> 64"
  have "(0x3F :: u64) = mask 6" by (simp add: mask_eq_exp_minus_1)
  then have "unat (drop_bit 3 n AND 0x3F) = unat n div 8 mod 64"
    by (simp only: take_bit_eq_mask [symmetric] unsigned_take_bit_eq) (simp add: take_bit_eq_mod drop_bit_eq_div unat_div)
  moreover have "unat (of_nat k :: u64) = k" using \<open>k \<le> 64\<close> by (simp add: unat_of_nat)
  ultimately show ?thesis by (simp only: word_le_nat_alt)
qed

lemma fill_test:
  "k \<le> 64 \<Longrightarrow> 8 * n < 2 ^ 64 \<Longrightarrow>
    (of_nat k :: u64) \<le> drop_bit 3 (of_nat (8 * n)) AND 0x3F \<longleftrightarrow> k \<le> n mod 64"
  by (simp add: update_test bits_of_nat del: of_nat_mult)

lemma left_bytes: "drop_bit 3 (8 * k :: nat) = k" "push_bit 3 (k :: nat) = 8 * k"
  by (simp_all add: drop_bit_eq_div push_bit_eq_mult)

text \<open>
  What follows once the buffer has been dealt with: the blocks of the piece are compressed where
  they lie, and what is left of it is put behind the bytes that are waiting. The array \<open>d @ x\<close>
  may be longer than the piece.
\<close>

lemma update_end:
  assumes S: "cn_at (S\<lparr>st_buflen := 8 * length r\<rparr>) s z ht r" and d: "8 * length d < 2 ^ 64"
    and room: "r = [] \<or> length d mod 64 < 64 - length r"
  shows "\<exists>S'. cn_end S (length r) (d @ x) (of_nat (8 * length d)) = Some S'
    \<and> cn_at S' s z (absorb 63 64 (cn_block s z) d ht) (if rest 63 64 d = [] then [] else r @ rest 63 64 d)"
proof -
  let ?q = "rest 63 64 d"
  obtain h t0 t1 where ht: "absorb 63 64 (cn_block s z) d ht = (h, t0, t1)" by (metis prod_cases3)
  have "length (fst (absorb 63 64 (cn_block s z) d ht)) = 8"
    using absorb_commute [where I = "\<lambda>v. length (fst v) = 8" and h = id and f = "cn_block s z" and g = "cn_block s z" and v = ht] S
    by (auto simp: cn_at_def)
  then have h: "length h = 8" by (simp add: ht)
  have ql: "length ?q = length d mod 64" "length ?q < 64" using length_rest_eager [of 64 d] by simp_all
  have blocks: "cn_blocks S (d @ x) (of_nat (8 * length d))
      = Some (S\<lparr>st_h := h, st_t0 := t0, st_t1 := t1\<rparr>, ?q @ x, of_nat (8 * length ?q))"
    using cn_blocks_absorb [of S d x] S d ht by (simp add: cn_at_def del: of_nat_mult)
  have room': "length r + length ?q < 64" using room ql S by (auto simp: cn_at_def)
  have q64: "8 * length ?q < 2 ^ 64" using ql by simp
  have pos: "0 < (of_nat (8 * length ?q) :: u64) \<longleftrightarrow> ?q \<noteq> []"
    using bits_of_nat [OF q64] by (simp add: word_less_nat_alt del: of_nat_mult)
  have rd: "read_in (?q @ x) 0 (length ?q) = Some ?q" by (simp add: mem_simps)
  have "memcpy_in (st_buf S) (length r) ?q
      = Some (take (length r) (st_buf S) @ ?q @ drop (length r + length ?q) (st_buf S))"
    using S room' by (simp add: cn_at_def mem_simps)
  then show ?thesis
    using S ht h room' by (auto simp: blocks pos bits_of_nat [OF q64] bytes_of_nat [OF q64] rd left_bytes cn_at_def cn_end_def
      simp del: of_nat_mult)
qed

text \<open>The buffer is empty, or the piece does not reach its end.\<close>

lemma update_plain:
  assumes S: "cn_at S s z ht r" and d: "8 * length d < 2 ^ 64"
    and room: "r = [] \<or> length d mod 64 < 64 - length r"
  shows "\<exists>S'. blake256_update S (d @ x) (of_nat (8 * length d)) = Some S'
    \<and> cn_at S' s z (absorb 63 64 (cn_block s z) d ht) (if rest 63 64 d = [] then [] else r @ rest 63 64 d)"
proof -
  have left: "drop_bit 3 (st_buflen S) = length r" using S by (simp add: cn_at_def left_bytes)
  have test: "\<not> (length r \<noteq> 0 \<and> (of_nat (64 - length r) :: u64) \<le> drop_bit 3 (of_nat (8 * length d)) AND 0x3F)"
    using room fill_test [of "64 - length r" "length d"] d by auto
  have "cn_at (S\<lparr>st_buflen := 8 * length r\<rparr>) s z ht r" using S by (simp add: cn_at_def)
  from update_end [OF this d room, of x] show ?thesis
    unfolding blake256_update_def left Let_def if_not_P [OF test] .
qed

text \<open>The piece fills the buffer, and the rest of it is compressed and kept as it should be.\<close>

lemma update_fill:
  assumes S: "cn_at S s z ht r" and d: "8 * length d < 2 ^ 64"
    and full: "r \<noteq> []" "64 - length r \<le> length d mod 64"
  shows "\<exists>S'. blake256_update S (d @ x) (of_nat (8 * length d)) = Some S'
    \<and> cn_at S' s z (absorb 63 64 (cn_block s z) (r @ d) ht) (rest 63 64 (r @ d))"
proof -
  let ?n = "of_nat (8 * length d) :: u64" and ?k = "64 - length r"
  let ?a = "take ?k d" and ?d = "drop ?k d"
  have k: "?k \<le> length d" "length r + ?k = 64" "0 < ?k"
    using full(2) S by (auto simp: cn_at_def intro: le_trans [OF _ mod_less_eq_dividend])
  have left: "drop_bit 3 (st_buflen S) = length r" using S by (simp add: cn_at_def left_bytes)
  have test: "length r \<noteq> 0 \<and> (of_nat ?k :: u64) \<le> drop_bit 3 ?n AND 0x3F"
    using full fill_test [of ?k "length d"] d by simp
  have rd: "read_in (d @ x) 0 ?k = Some ?a" using k by (simp add: mem_simps)
  let ?b = "take (length r) (st_buf S) @ ?a"
  have b: "memcpy_in (st_buf S) (length r) ?a = Some ?b" "?b = r @ ?a" "length (r @ ?a) = 64"
    using S k by (auto simp: cn_at_def mem_simps)
  obtain h t0 t1 where ht: "cn_block s z (r @ ?a) ht = (h, t0, t1)" by (metis prod_cases3)
  let ?S = "S\<lparr>st_buf := ?b\<rparr>"
  let ?S1 = "?S\<lparr>st_h := h, st_t0 := t0, st_t1 := t1\<rparr>"
  have h: "length h = 8" using cn_step_length [of "st_h S" s z "r @ ?a" "(st_t0 S, st_t1 S)"] S ht
    by (auto simp: cn_at_def simp del: cn_block.simps)
  have step: "blake256_compress (cn_count ?S) (st_buf (cn_count ?S)) = ?S1"
    using cn_step [of ?S "r @ ?a"] S ht b(2) by (auto simp: cn_at_def cn_count_def Let_def simp del: cn_block.simps)
  have sub: "?n - of_nat (push_bit 3 ?k) = of_nat (8 * length ?d)"
    using k(1) by (simp add: left_bytes of_nat_diff algebra_simps)
  have dat: "drop ?k (d @ x) = ?d @ x" using k by simp
  have "cn_at (?S1\<lparr>st_buflen := 8 * length []\<rparr>) s z (h, t0, t1) []" "8 * length ?d < 2 ^ 64"
    using S h b d by (auto simp: cn_at_def)
  from update_end [OF this, of x] obtain S' where upd: "cn_end ?S1 0 (?d @ x) (of_nat (8 * length ?d)) = Some S'"
    "cn_at S' s z (absorb 63 64 (cn_block s z) ?d (h, t0, t1)) (rest 63 64 ?d)" by (auto split: if_splits)
  have "blake256_update S (d @ x) ?n = cn_end ?S1 0 (?d @ x) (of_nat (8 * length ?d))"
    unfolding blake256_update_def left Let_def if_P [OF test] rd b(1) Option.bind.bind_lunit step sub dat ..
  have "absorb 63 64 (cn_block s z) (r @ d) ht = absorb 63 64 (cn_block s z) ?d (h, t0, t1)"
    "rest 63 64 (r @ d) = rest 63 64 ?d"
    using absorb_block [of 64 63 "r @ d" "cn_block s z" ht] rest_block [of 64 63 "r @ d"] k ht
    by (simp_all del: cn_block.simps)
  with \<open>blake256_update S (d @ x) ?n = _\<close> show ?thesis using upd by simp
qed

text \<open>Whole blocks in front of a message are compressed on their own.\<close>

lemma whole_blocks:
  assumes "length M mod 64 = 0"
  shows "rest 63 64 M = []" "absorb 63 64 f (M @ X) v = absorb 63 64 f X (absorb 63 64 f M v)"
    "rest 63 64 (M @ X) = rest 63 64 X"
proof -
  show r: "rest 63 64 M = []" using length_rest_eager [of 64 M] assms by simp
  show "absorb 63 64 f (M @ X) v = absorb 63 64 f X (absorb 63 64 f M v)" "rest 63 64 (M @ X) = rest 63 64 X"
    using absorb_append [of 64 63 f M X v] rest_append [of 64 63 M X] by (simp_all add: r)
qed

lemma rest_suffix: "rest 63 64 m = drop (length m - length m mod 64) m"
  and absorb_prefix: "absorb 63 64 f (take (length m - length m mod 64) m) v = absorb 63 64 f m v"
proof -
  let ?k = "length m - length m mod 64"
  have "length (take ?k m) mod 64 = 0" by (simp add: minus_mod_eq_mult_div)
  note w = whole_blocks(2) [OF this, where f = f and v = v and X = "drop ?k m"]
    whole_blocks(3) [OF this, where X = "drop ?k m"]
  have "length (drop ?k m) \<le> 63" using mod_less_divisor [of 64 "length m"] by simp
  then show "rest 63 64 m = drop ?k m" "absorb 63 64 f (take ?k m) v = absorb 63 64 f m v"
    using w by simp_all
qed

definition cn_holds :: "cn_state \<Rightarrow> u32 list \<Rightarrow> u32 list \<Rightarrow> bytes \<Rightarrow> bool" where
  \<comment> \<open>\<open>S\<close>, started from \<open>iv\<close> with salt \<open>s\<close>, has been fed the message \<open>m\<close>\<close>
  "cn_holds S iv s m \<longleftrightarrow> cn_at S s 0 (absorb 63 64 (cn_block s 0) m (iv, 0, 0)) (rest 63 64 m)"

definition cn_fed :: "bytes \<Rightarrow> bytes \<Rightarrow> bytes" where
  \<comment> \<open>the message a state holds after an update with \<open>d\<close>, when it held \<open>m\<close> before\<close>
  "cn_fed m d =
     (let left = length m mod 64; over = length d mod 64
      in if left = 0 \<or> 64 - left \<le> over \<or> d \<noteq> [] \<and> length d < 64 then m @ d
         else take (length m - left) m @ take (length d - over) d
           @ (if over = 0 then [] else drop (length m - left) m @ drop (length d - over) d))"

lemma update_holds:
  assumes S: "cn_holds S iv s m" and d: "8 * length d < 2 ^ 64"
  shows "\<exists>S'. blake256_update S (d @ x) (of_nat (8 * length d)) = Some S' \<and> cn_holds S' iv s (cn_fed m d)"
proof -
  let ?f = "cn_block s 0" and ?r = "rest 63 64 m"
  let ?ht = "absorb 63 64 ?f m (iv, 0, 0)"
  note S' = S [unfolded cn_holds_def]
  have left: "length ?r = length m mod 64" using length_rest_eager [of 64 m] by simp
  have r0: "?r = [] \<longleftrightarrow> length m mod 64 = 0" using left by (metis length_0_conv)
  have app: "absorb 63 64 ?f (m @ d) (iv, 0, 0) = absorb 63 64 ?f (?r @ d) ?ht" "rest 63 64 (m @ d) = rest 63 64 (?r @ d)"
    by (simp_all add: absorb_append [of 64 63 ?f m d] rest_append [of 64 63 m d])
  consider (fill) "?r \<noteq> []" "64 - length ?r \<le> length d mod 64"
    | (append) "?r = [] \<or> d \<noteq> [] \<and> length d < 64" "?r = [] \<or> length d mod 64 < 64 - length ?r"
    | (lossy) "?r \<noteq> []" "d = [] \<or> 64 \<le> length d" "length d mod 64 < 64 - length ?r"
    by linarith
  then show ?thesis
  proof cases
    case fill
    then have "cn_fed m d = m @ d" by (simp add: cn_fed_def left)
    then show ?thesis using update_fill [OF S' d fill, of x] by (simp add: cn_holds_def app)
  next
    case append
    then have m: "cn_fed m d = m @ d" by (auto simp: cn_fed_def r0)
    have "absorb 63 64 ?f (?r @ d) ?ht = absorb 63 64 ?f d ?ht"
      "rest 63 64 (?r @ d) = (if rest 63 64 d = [] then [] else ?r @ rest 63 64 d)"
    proof -
      have "?r = [] \<or> ?r \<noteq> [] \<and> d \<noteq> [] \<and> length d \<le> 63 \<and> length (?r @ d) \<le> 63"
        using append by auto
      then show "absorb 63 64 ?f (?r @ d) ?ht = absorb 63 64 ?f d ?ht"
        "rest 63 64 (?r @ d) = (if rest 63 64 d = [] then [] else ?r @ rest 63 64 d)"
        by (elim disjE conjE; simp)+
    qed
    then show ?thesis using update_plain [OF S' d append(2), of x] by (simp add: cn_holds_def m app)
  next
    case lossy
    let ?M = "take (length m - length m mod 64) m" and ?D = "take (length d - length d mod 64) d"
    let ?E = "if rest 63 64 d = [] then [] else ?r @ rest 63 64 d"
    have "length (rest 63 64 d) = length d mod 64" using length_rest_eager [of 64 d] by simp
    then have e0: "rest 63 64 d = [] \<longleftrightarrow> length d mod 64 = 0" by (metis length_0_conv)
    have m: "cn_fed m d = ?M @ ?D @ ?E"
      using lossy left by (auto simp: cn_fed_def Let_def e0 r0 rest_suffix [symmetric])
    have whole: "length ?M mod 64 = 0" "length ?D mod 64 = 0" by (simp_all add: minus_mod_eq_mult_div)
    have "length ?E < 64" using lossy(3) \<open>length (rest 63 64 d) = length d mod 64\<close> by (auto simp del: length_rest_eager)
    then have "absorb 63 64 ?f (?M @ ?D @ ?E) (iv, 0, 0) = absorb 63 64 ?f d ?ht" "rest 63 64 (?M @ ?D @ ?E) = ?E"
      by (simp_all add: whole_blocks(2,3) [OF whole(1)] whole_blocks(2,3) [OF whole(2)] absorb_prefix)
    then show ?thesis using update_plain [OF S' d, of x] lossy(3) by (simp add: cn_holds_def m)
  qed
qed


section \<open>The end of a message\<close>

text \<open>A short piece that leaves room in the buffer, and one that fills it exactly.\<close>

lemma update_wait:
  assumes "cn_at S s z ht r" "d \<noteq> []" "length r + length d < 64"
  shows "\<exists>S'. blake256_update S (d @ x) (of_nat (8 * length d)) = Some S' \<and> cn_at S' s z ht (r @ d)"
proof -
  have "length d < 2 ^ 64 div 8" "r = [] \<or> length d mod 64 < 64 - length r" using assms(3) by auto
  then show ?thesis using update_plain [OF assms(1), of d x] assms(2,3) by (simp del: of_nat_mult)
qed

lemma update_full:
  assumes "cn_at S s z ht r" "r \<noteq> []" "d \<noteq> []" "length r + length d = 64"
  shows "\<exists>S'. blake256_update S (d @ x) (of_nat (8 * length d)) = Some S' \<and> cn_at S' s z (cn_block s z (r @ d) ht) []"
proof -
  have "0 < length r" using assms(2) by simp
  then have "length d < 64" using assms(4) by linarith
  moreover have "absorb 63 64 (cn_block s z) (r @ d) ht = cn_block s z (r @ d) ht" "rest 63 64 (r @ d) = []"
    using assms(4) absorb_block [of 64 63 "r @ d" "cn_block s z" ht] rest_block [of 64 63 "r @ d"]
    by (simp_all del: cn_block.simps)
  moreover have "64 - length r \<le> length d" using assms(4) by linarith
  ultimately show ?thesis using update_fill [OF assms(1), of d x] assms(2) by (simp del: cn_block.simps of_nat_mult)
qed

lemma at_changes:
  "cn_at S s z (h, t0, t1) r \<Longrightarrow> cn_at (S\<lparr>st_t0 := t\<rparr>) s z (h, t, t1) r"
  "cn_at S s z (h, t0, t1) r \<Longrightarrow> cn_at (S\<lparr>st_nullt := n\<rparr>) s n (h, t0, t1) r"
  "cn_at S s z (h, t0, t1) r \<Longrightarrow> st_t0 S = t0"
  by (auto simp: cn_at_def)

definition cn_out :: "bytes \<Rightarrow> cn_state \<Rightarrow> (cn_state \<times> bytes) option" where
  \<comment> \<open>the last statements of \<open>blake256_final_h\<close>\<close>
  "cn_out msglen S =
     blake256_update (S\<lparr>st_t0 := st_t0 S - 64\<rparr>) msglen 64 \<bind> (\<lambda>S.
     Some (S, concat (map (\<lambda>i. U32TO8 (st_h S ! i)) [0, 1, 2, 3, 4, 5, 6, 7])))"

lemma out_words: "length h = 8 \<Longrightarrow> map (\<lambda>i. f (h ! i)) [0, 1, 2, 3, 4, 5, 6, 7] = map f h"
  by (elim list8) simp

lemma cn_out_last:
  assumes "cn_at S s z (h, t0, t1) r" "length r = 56" "length e = 8"
  shows "\<exists>S'. cn_out e S = Some (S', concat (map U32TO8
    (blake_compress BLAKE_small s (cn_counter z (cn_tick (t0 - 64, t1))) (r @ e) h)))"
proof -
  have "cn_at (S\<lparr>st_t0 := st_t0 S - 64\<rparr>) s z (h, t0 - 64, t1) r"
    using at_changes(1,3) [OF assms(1)] by simp
  from update_full [OF this, of e "[]"] assms obtain S' where
    upd: "blake256_update (S\<lparr>st_t0 := st_t0 S - 64\<rparr>) e 64 = Some S'"
    and at: "cn_at S' s z (cn_block s z (r @ e) (h, t0 - 64, t1)) []" by fastforce
  have "st_h S' = blake_compress BLAKE_small s (cn_counter z (cn_tick (t0 - 64, t1))) (r @ e) h" "length (st_h S') = 8"
    using at by (auto simp: cn_at_def)
  then show ?thesis
    unfolding cn_out_def upd Option.bind.bind_lunit by (simp only: out_words option.inject prod.inject simp_thms)
qed

lemma cn_out_pb:
  assumes "cn_at S s z (h, t0, t1) r" "length r = 55" "length e = 8"
  shows "\<exists>S'. blake256_update S [pb] 8 \<bind> (\<lambda>S. cn_out e (S\<lparr>st_t0 := st_t0 S - 8\<rparr>)) = Some (S', concat (map U32TO8
    (blake_compress BLAKE_small s (cn_counter z (cn_tick (t0 - 72, t1))) (r @ [pb] @ e) h)))"
proof -
  obtain S1 where S1: "blake256_update S [pb] 8 = Some S1" "cn_at S1 s z (h, t0, t1) (r @ [pb])"
    using update_wait [OF assms(1), of "[pb]" "[]"] assms(2) by auto
  have "cn_at (S1\<lparr>st_t0 := st_t0 S1 - 8\<rparr>) s z (h, t0 - 8, t1) (r @ [pb])"
    using at_changes(1,3) [OF S1(2)] by simp
  from cn_out_last [OF this _ assms(3)] show ?thesis using S1 assms(2) by (simp add: algebra_simps)
qed

lemma cn_final_cases:
  fixes S :: cn_state
  defines "e \<equiv> U32TO8 (if st_t0 S + of_nat (st_buflen S) < of_nat (st_buflen S) then st_t1 S + 1 else st_t1 S)
      @ U32TO8 (st_t0 S + of_nat (st_buflen S))"
  shows "st_buflen S = 440 \<Longrightarrow> blake256_final_h S pa pb = blake256_update (S\<lparr>st_t0 := st_t0 S - 8\<rparr>) [pa] 8 \<bind> cn_out e"
    and "st_buflen S < 440 \<Longrightarrow> blake256_final_h S pa pb =
      blake256_update (S\<lparr>st_nullt := if st_buflen S = 0 then 1 else st_nullt S, st_t0 := st_t0 S - of_nat (440 - st_buflen S)\<rparr>)
        cn_padding (of_nat (440 - st_buflen S)) \<bind> (\<lambda>S. blake256_update S [pb] 8 \<bind> (\<lambda>S. cn_out e (S\<lparr>st_t0 := st_t0 S - 8\<rparr>)))"
    and "440 < st_buflen S \<Longrightarrow> blake256_final_h S pa pb =
      blake256_update (S\<lparr>st_t0 := st_t0 S - of_nat (512 - st_buflen S)\<rparr>) cn_padding (of_nat (512 - st_buflen S)) \<bind> (\<lambda>S.
      blake256_update (S\<lparr>st_t0 := st_t0 S - 440\<rparr>) (drop 1 cn_padding) 440 \<bind> (\<lambda>S.
      blake256_update (S\<lparr>st_nullt := 1\<rparr>) [pb] 8 \<bind> (\<lambda>S. cn_out e (S\<lparr>st_t0 := st_t0 S - 8\<rparr>))))"
proof -
  have out: "(\<lambda>S. blake256_update (S\<lparr>st_t0 := st_t0 S - 64\<rparr>) e 64 \<bind> (\<lambda>S.
      Some (S, concat (map (\<lambda>i. U32TO8 (st_h S ! i)) [0, 1, 2, 3, 4, 5, 6, 7])))) = cn_out e"
    by (simp add: fun_eq_iff cn_out_def)
  note unf = blake256_final_h_def [of S pa pb, unfolded Let_def, folded e_def, unfolded out]
  have "S\<lparr>st_nullt := st_nullt S\<rparr> = S" by simp
  then show "st_buflen S = 440 \<Longrightarrow> blake256_final_h S pa pb = blake256_update (S\<lparr>st_t0 := st_t0 S - 8\<rparr>) [pa] 8 \<bind> cn_out e"
    "st_buflen S < 440 \<Longrightarrow> blake256_final_h S pa pb =
      blake256_update (S\<lparr>st_nullt := if st_buflen S = 0 then 1 else st_nullt S, st_t0 := st_t0 S - of_nat (440 - st_buflen S)\<rparr>)
        cn_padding (of_nat (440 - st_buflen S)) \<bind> (\<lambda>S. blake256_update S [pb] 8 \<bind> (\<lambda>S. cn_out e (S\<lparr>st_t0 := st_t0 S - 8\<rparr>)))"
    "440 < st_buflen S \<Longrightarrow> blake256_final_h S pa pb =
      blake256_update (S\<lparr>st_t0 := st_t0 S - of_nat (512 - st_buflen S)\<rparr>) cn_padding (of_nat (512 - st_buflen S)) \<bind> (\<lambda>S.
      blake256_update (S\<lparr>st_t0 := st_t0 S - 440\<rparr>) (drop 1 cn_padding) 440 \<bind> (\<lambda>S.
      blake256_update (S\<lparr>st_nullt := 1\<rparr>) [pb] 8 \<bind> (\<lambda>S. cn_out e (S\<lparr>st_t0 := st_t0 S - 8\<rparr>))))"
    by (auto simp: unf Option.bind_assoc simp del: of_nat_diff)
qed


section \<open>The counter and the last block\<close>

lemma cn_tick_ctr: "cn_tick (blake_ctr (512 * i)) = blake_ctr (512 * Suc i)"
proof -
  have w: "unat (of_nat (512 * Suc i) :: u32) = 512 * (Suc i mod 2 ^ 23)"
    using ctr_within(1) [OF words_32(1), of 0 "Suc i"] by simp
  have "fst (blake_ctr (512 * i)) + 512 = (of_nat (512 * Suc i) :: u32)"
    unfolding blake_ctr_def fst_conv mult_Suc_right of_nat_add by (simp only: of_nat_numeral add.commute)
  moreover have "x = 0 \<longleftrightarrow> x < 512" if "unat x = 512 * j" for x :: u32 and j
  proof -
    have "unat (512 :: u32) = 512" by simp
    moreover have "512 * j = 0 \<longleftrightarrow> 512 * j < 512" by auto
    ultimately show ?thesis using that by (simp only: word_less_nat_alt unat_eq_zero [symmetric])
  qed
  note this [OF w]
  ultimately have "cn_tick (blake_ctr (512 * i)) = blake_tick 512 (blake_ctr (512 * i))"
    by (simp only: cn_tick_def blake_tick_def Let_def)
  then show ?thesis using blake_tick_ctr [OF words_32, of i] by simp
qed

lemma cn_tick_last:
  assumes "0 < b" "b < 512" "(t0, t1) = (blake_ctr (512 * k) :: u32 \<times> u32)"
  shows "cn_tick (t0 + of_nat b - 512, t1) = blake_ctr (512 * k + b)"
proof -
  have w: "unat (t0 + of_nat b) = 512 * (k mod 2 ^ 23) + b"
    using ctr_within(1) [OF words_32(1) assms(2), of k] assms(3) by (simp add: blake_ctr_def)
  have "t0 + of_nat b \<noteq> 0" unfolding unat_eq_zero [symmetric] w using assms(1) by simp
  then show ?thesis
    using ctr_plus [OF words_32(1) assms(2), of k] by (simp add: cn_tick_def assms(3) [symmetric])
qed

lemma cn_absorb:
  assumes "8 * length m \<le> l"
  shows "absorb 63 64 (cn_block s 0) m (iv, 0, 0) =
      (fst (absorb 63 64 (blake_block BLAKE_small s l) m (iv, 0)), blake_ctr (512 * (length m div 64)))
    \<and> snd (absorb 63 64 (blake_block BLAKE_small s l) m (iv, 0)) = length m div 64"
proof -
  define f :: "bytes \<Rightarrow> u32 list \<times> u32 list \<times> u32 \<times> u32 \<Rightarrow> u32 list \<times> u32 list \<times> u32 \<times> u32"
    where "f = (\<lambda>b (h, s, t). (blake_compress BLAKE_small s (cn_tick t) b h, s, cn_tick t))"
  have "absorb 63 64 f m (iv, s, 0, 0) =
      (fst (absorb 63 64 (blake_block BLAKE_small s l) m (iv, 0)), s, blake_ctr (512 * (length m div 64)))
    \<and> snd (absorb 63 64 (blake_block BLAKE_small s l) m (iv, 0)) = length m div 64"
    using blake_absorb [of 512 BLAKE_small f s 0 m l iv] assms cn_tick_ctr by (simp add: f_def del: mult_Suc_right)
  moreover have "(\<lambda>(h, s, t). (h, t)) (absorb 63 64 f m (iv, s, 0, 0)) = absorb 63 64 (cn_block s 0) m (iv, 0, 0)"
    using absorb_commute [where I = "\<lambda>(h, s', t). s' = s" and h = "\<lambda>(h, s, t). (h, t)" and f = f
      and g = "cn_block s 0" and v = "(iv, s, 0, 0)" and k = 63 and n = 64 and m = m]
    by (auto simp: f_def cn_counter_def)
  ultimately show ?thesis by auto
qed

lemma padding_bytes: "k < 64 \<Longrightarrow> 0 < k \<Longrightarrow> take k cn_padding = 0x80 # replicate (k - 1) 0"
  "drop 1 cn_padding = replicate 55 0 @ replicate 8 0"
  by (cases k; simp add: cn_padding_def) (simp add: cn_padding_def replicate_add [symmetric])

lemma cn_padding_split: "cn_padding = take k cn_padding @ drop k cn_padding"
  by simp

lemma final_digest:
  assumes S: "cn_holds S iv s m" and pa: "pa = 0x80 OR of_bool mark" and pb: "pb = of_bool mark"
  shows "\<exists>S'. blake256_final_h S pa pb
    = Some (S', concat (map U32TO8 (blake_hash BLAKE_small mark iv s (bits_of_bytes m))))"
proof -
  define p k l where "p = length m mod 64" and "k = length m div 64" and "l = 8 * length m"
  define r h where "r = rest 63 64 m" and "h = fst (absorb 63 64 (blake_block BLAKE_small s l) m (iv, 0))"
  note abs = cn_absorb [of m l s iv]
  obtain t0 t1 where t: "(t0, t1) = (blake_ctr (512 * k) :: u32 \<times> u32)" by (metis surj_pair)
  have at: "cn_at S s 0 (h, t0, t1) r"
    using S abs by (simp add: cn_holds_def r_def k_def h_def l_def t)
  have r: "length r = p" using length_rest_eager [of 64 m] by (simp add: r_def p_def)
  have p: "p < 64" "l = 512 * k + 8 * p"
    using div_mult_mod_eq [of "length m" 64] unfolding p_def k_def l_def by (simp, linarith)
  have f: "st_t0 S = t0" "st_t1 S = t1" "st_buflen S = 8 * p" using at r by (simp_all add: cn_at_def)
  have lw: "blake_ctr l = (t0 + of_nat (8 * p), t1)"
    using ctr_plus [OF words_32(1), of "8 * p" k] p t by (simp add: prod_eq_iff)
  have "unat (t0 + of_nat (8 * p)) = 512 * (k mod 2 ^ 23) + 8 * p"
    using ctr_within(1) [OF words_32(1), of "8 * p" k] p t by (simp add: blake_ctr_def)
  then have "\<not> t0 + of_nat (8 * p) < of_nat (8 * p)"
    using p by (simp add: word_less_nat_alt unat_of_nat del: of_nat_mult)
  moreover have "be_bytes 8 l = U32TO8 t1 @ U32TO8 (t0 + of_nat (8 * p))"
    using lw by (simp add: be_bytes_small U_codec blake_ctr_def)
  ultimately have e: "U32TO8 (if st_t0 S + of_nat (st_buflen S) < of_nat (st_buflen S) then st_t1 S + 1 else st_t1 S)
      @ U32TO8 (st_t0 S + of_nat (st_buflen S)) = be_bytes 8 l" (is "?e = _")
    by (simp add: f del: of_nat_mult)
  note cases = cn_final_cases [of S pa pb, unfolded e]
  have le: "length (be_bytes 8 l) = 8" by simp
  have abs': "absorb (16 * 4 - 1) (16 * 4) (blake_block BLAKE_small s l) m (iv, 0) = (h, length m div (16 * 4))"
    using abs by (simp add: h_def l_def prod_eq_iff)
  have start: "pad_start [] = 0x80" by (simp add: pad_start_def) code_simp
  note fit = blake_hash_fit [where w = 4 and bs = "[]" and B = BLAKE_small, OF _ _ _ _ _ abs', of p mark,
      unfolded start, simplified, folded l_def p_def r_def]
  note over = blake_hash_over [where w = 4 and bs = "[]" and B = BLAKE_small, OF _ _ _ _ _ abs', of p mark,
      unfolded start, simplified, folded l_def p_def r_def]
  consider (one) "p = 55" | (fits) "p < 55" | (two) "55 < p" by linarith
  then show ?thesis
  proof cases
    case one
    have "cn_at (S\<lparr>st_t0 := st_t0 S - 8\<rparr>) s 0 (h, t0 - 8, t1) r" using at_changes(1) [OF at] f by simp
    from update_wait [OF this, of "[pa]" "[]"] r one obtain S1
      where S1: "blake256_update (S\<lparr>st_t0 := st_t0 S - 8\<rparr>) [pa] 8 = Some S1" "cn_at S1 s 0 (h, t0 - 8, t1) (r @ [pa])"
      by auto
    obtain S2 where S2: "cn_out (be_bytes 8 l) S1 = Some (S2, concat (map U32TO8
        (blake_compress BLAKE_small s (cn_counter 0 (cn_tick (t0 - 8 - 64, t1))) ((r @ [pa]) @ be_bytes 8 l) h)))"
      using cn_out_last [OF S1(2) _ le] r one by auto
    have "cn_tick (t0 - 8 - 64, t1) = blake_ctr l"
      using cn_tick_last [of 440, OF _ _ t] p one by simp
    moreover have "marked_zeros mark 0x80 1 = [pa]" by (simp add: marked_zeros_def pa)
    ultimately have "blake_compress BLAKE_small s (cn_counter 0 (cn_tick (t0 - 8 - 64, t1))) ((r @ [pa]) @ be_bytes 8 l) h
        = blake_hash BLAKE_small mark iv s (bits_of_bytes m)"
      using fit one by (simp add: cn_counter_def)
    then show ?thesis using S1 S2 cases(1) f one by simp
  next
    case fits
    define z where "z = (if p = 0 then 1 else 0 :: nat)"
    let ?t = "t0 - of_nat (440 - 8 * p)" and ?d = "take (55 - p) cn_padding"
    let ?S = "S\<lparr>st_nullt := z, st_t0 := ?t\<rparr>"
    have S: "S\<lparr>st_nullt := if st_buflen S = 0 then 1 else st_nullt S, st_t0 := st_t0 S - of_nat (440 - st_buflen S)\<rparr> = ?S"
      using at by (simp add: f z_def cn_at_def del: of_nat_diff)
    have d: "length ?d = 55 - p" "?d = 0x80 # replicate (54 - p) 0" using fits padding_bytes(1) [of "55 - p"] by simp_all
    have n: "440 - 8 * p = 8 * length ?d" using d fits by simp
    have "cn_at ?S s z (h, ?t, t1) r" using at_changes(1,2) at by metis
    moreover have "?d \<noteq> []" "length r + length ?d < 64" using fits d r by simp_all
    ultimately have "\<exists>S1. blake256_update ?S (?d @ drop (55 - p) cn_padding) (of_nat (8 * length ?d)) = Some S1
      \<and> cn_at S1 s z (h, ?t, t1) (r @ ?d)" by (rule update_wait)
    then obtain S1 where S1: "blake256_update ?S cn_padding (of_nat (440 - 8 * p)) = Some S1"
      "cn_at S1 s z (h, ?t, t1) (r @ ?d)"
      unfolding append_take_drop_id n by blast
    obtain S2 where S2: "blake256_update S1 [pb] 8 \<bind> (\<lambda>S. cn_out (be_bytes 8 l) (S\<lparr>st_t0 := st_t0 S - 8\<rparr>)) = Some (S2, concat (map U32TO8
        (blake_compress BLAKE_small s (cn_counter z (cn_tick (?t - 72, t1))) ((r @ ?d) @ [pb] @ be_bytes 8 l) h)))"
      using cn_out_pb [OF S1(2) _ le] r d fits by fastforce
    have "?t - 72 = t0 + of_nat (8 * p) - 512" using fits by (simp add: of_nat_diff)
    then have "p \<noteq> 0 \<Longrightarrow> cn_tick (?t - 72, t1) = blake_ctr l"
      using cn_tick_last [of "8 * p", OF _ _ t] p by (simp only: mult_eq_0_iff)
    then have "cn_counter z (cn_tick (?t - 72, t1)) = blake_ctr (if p = 0 then 0 else l)"
      by (simp add: cn_counter_def z_def)
    moreover have "marked_zeros mark 0x80 (56 - p) = ?d @ [pb]"
    proof -
      have "56 - p = (55 - p) + 1" using fits by simp
      then show ?thesis
        using marked_zeros_split [of "55 - p" 1 mark "0x80"] fits by (simp only:) (simp add: d pb)
    qed
    ultimately have "blake_compress BLAKE_small s (cn_counter z (cn_tick (?t - 72, t1))) ((r @ ?d) @ [pb] @ be_bytes 8 l) h
        = blake_hash BLAKE_small mark iv s (bits_of_bytes m)"
      using fit fits by simp
    then show ?thesis using S1 S2 cases(2) [unfolded S] f fits by simp
  next
    case two
    let ?t = "t0 - of_nat (512 - 8 * p)" and ?d = "take (64 - p) cn_padding"
    let ?S = "S\<lparr>st_t0 := ?t\<rparr>"
    have d: "length ?d = 64 - p" "?d = 0x80 # replicate (63 - p) 0"
      using two p padding_bytes(1) [of "64 - p"] by (simp_all add: cn_padding_def)
    have n: "512 - 8 * p = 8 * length ?d" using d p by simp
    define h1 where "h1 = blake_compress BLAKE_small s (blake_ctr l) (r @ ?d) h"
    have "?t = t0 + of_nat (8 * p) - 512" using p by (simp add: of_nat_diff)
    moreover have "cn_tick (t0 + of_nat (8 * p) - 512, t1) = blake_ctr l"
      using cn_tick_last [of "8 * p", OF _ _ t] p two by simp
    ultimately have "cn_tick (?t, t1) = blake_ctr l" by (simp only:)
    then have block: "cn_block s 0 (r @ ?d) (h, ?t, t1) = (h1, t0 + of_nat (8 * p), t1)"
      by (simp add: h1_def cn_counter_def lw)
    have "cn_at ?S s 0 (h, ?t, t1) r" using at_changes(1) [OF at] .
    moreover have "r \<noteq> []" "?d \<noteq> []" "length r + length ?d = 64" using two p d r by auto
    ultimately have "\<exists>S1. blake256_update ?S (?d @ drop (64 - p) cn_padding) (of_nat (8 * length ?d)) = Some S1
      \<and> cn_at S1 s 0 (cn_block s 0 (r @ ?d) (h, ?t, t1)) []" by (rule update_full)
    then have "\<exists>S1. blake256_update ?S cn_padding (of_nat (8 * length ?d)) = Some S1
      \<and> cn_at S1 s 0 (h1, t0 + of_nat (8 * p), t1) []" unfolding append_take_drop_id block .
    then obtain S1 where S1: "blake256_update ?S cn_padding (of_nat (512 - 8 * p)) = Some S1"
      "cn_at S1 s 0 (h1, t0 + of_nat (8 * p), t1) []"
      unfolding n [symmetric] by blast
    let ?S1 = "S1\<lparr>st_t0 := st_t0 S1 - 440\<rparr>" and ?z = "replicate 55 0 :: bytes"
    obtain t2 where "cn_at ?S1 s 0 (h1, t2, t1) []" using at_changes(1) [OF S1(2)] by blast
    from update_wait [OF this, of ?z "replicate 8 0"] obtain S2
      where S2: "blake256_update ?S1 (drop 1 cn_padding) 440 = Some S2" "cn_at S2 s 0 (h1, t2, t1) ?z"
      unfolding padding_bytes(2) by auto
    obtain S3 where S3: "blake256_update (S2\<lparr>st_nullt := 1\<rparr>) [pb] 8 \<bind> (\<lambda>S. cn_out (be_bytes 8 l) (S\<lparr>st_t0 := st_t0 S - 8\<rparr>))
        = Some (S3, concat (map U32TO8 (blake_compress BLAKE_small s (0, 0) (?z @ [pb] @ be_bytes 8 l) h1)))"
      using cn_out_pb [OF at_changes(2) [OF S2(2)] _ le, of 1 pb] by (auto simp: cn_counter_def)
    have "blake_compress BLAKE_small s (0, 0) (?z @ [pb] @ be_bytes 8 l) h1
        = blake_hash BLAKE_small mark iv s (bits_of_bytes m)"
      using over two by (simp add: h1_def d pb)
    then show ?thesis using S1 S2 S3 cases(3) f two by simp
  qed
qed


section \<open>The hash functions\<close>

lemma fresh_holds:
  assumes "length (st_buf S) = 64"
  shows "cn_holds (blake256_init S) blake_IV256 salt_zero_small []"
    and "cn_holds (blake224_init S) blake_IV224 salt_zero_small []"
  using assms
  by (simp_all add: cn_holds_def cn_at_def blake256_init_def blake224_init_def blake_IV256_def blake_IV224_def salt_zero_small_def)

text \<open>The first piece of a message is always taken in as it is, and so is any piece after whole blocks.\<close>

lemma update_whole:
  assumes "cn_holds S iv s m" "length m mod 64 = 0" "8 * length d < 2 ^ 64"
  obtains S' where "blake256_update S (d @ x) (of_nat (8 * length d)) = Some S'" "cn_holds S' iv s (m @ d)"
  using update_holds [OF assms(1,3), of x] assms(2) by (auto simp: cn_fed_def)

definition blake_hash8 :: "bool \<Rightarrow> u32 list \<Rightarrow> bytes \<Rightarrow> bytes" where
  \<comment> \<open>all eight words of the final chain value\<close>
  "blake_hash8 mark iv m = blake_digest BLAKE_small mark 8 iv salt_zero_small (bits_of_bytes m)"

lemma length_blake_hash: "length (blake_hash BLAKE_small mark iv s (bits_of_bytes m)) = 8"
proof -
  define l where "l = 8 * length m"
  have "\<exists>h. absorb (16 * 4 - 1) (16 * 4) (blake_block BLAKE_small s l) m (iv, 0) = (h, length m div (16 * 4))"
    using cn_absorb [of m l s iv] by (simp add: l_def prod_eq_iff)
  then obtain h where abs: "absorb (16 * 4 - 1) (16 * 4) (blake_block BLAKE_small s l) m (iv, 0) = (h, length m div (16 * 4))" ..
  show ?thesis
    using blake_hash_fit [where w = 4 and bs = "[]" and B = BLAKE_small, OF _ _ _ refl _ abs, of mark]
      blake_hash_over [where w = 4 and bs = "[]" and B = BLAKE_small, OF _ _ _ refl _ abs, of mark]
    by (cases "8 * (length m mod (16 * 4)) + length ([] :: bool list) \<le> 112 * 4 - 2") (simp_all add: l_def)
qed

lemma hash8_words: "blake_hash8 mark iv m = concat (map U32TO8 (blake_hash BLAKE_small mark iv salt_zero_small (bits_of_bytes m)))"
  using length_blake_hash by (simp add: blake_hash8_def blake_digest_def U_codec)

lemma length_hash8: "length (blake_hash8 mark iv m) = 32"
proof -
  have "length (concat (map U32TO8 h)) = 4 * length h" for h
    by (induction h) (simp_all add: U32TO8_def)
  then show ?thesis by (simp add: hash8_words length_blake_hash)
qed

lemma hash8_digests:
  "blake_digest BLAKE_small mark 8 iv salt_zero_small (bits_of_bytes m) = blake_hash8 mark iv m"
  "blake_digest BLAKE_small mark 7 iv salt_zero_small (bits_of_bytes m) = take 28 (blake_hash8 mark iv m)"
proof -
  have "take 28 (concat (map U32TO8 h)) = concat (map U32TO8 (take 7 h))" if "length h = 8" for h
    using that by (elim list8) (simp add: U32TO8_def)
  then show "blake_digest BLAKE_small mark 8 iv salt_zero_small (bits_of_bytes m) = blake_hash8 mark iv m"
    "blake_digest BLAKE_small mark 7 iv salt_zero_small (bits_of_bytes m) = take 28 (blake_hash8 mark iv m)"
    using length_blake_hash by (simp_all add: hash8_words) (simp_all add: blake_digest_def U_codec length_blake_hash)
qed

lemma final_hash:
  assumes "cn_holds S blake_IV256 salt_zero_small m"
  obtains S' where "blake256_final S = Some (S', blake_hash8 True blake_IV256 m)"
  using final_digest [OF assms, of "0x81" True "1"] by (auto simp: blake256_final_def hash8_words)

lemma final_hash_224:
  assumes "cn_holds S blake_IV224 salt_zero_small m"
  obtains S' where "blake224_final S = Some (S', blake_hash8 False blake_IV224 m)"
  using final_digest [OF assms, of "0x80" False "0"] by (auto simp: blake224_final_def hash8_words)

lemma bit_count: "of_nat n * 8 = (of_nat (8 * n) :: u64)"
  by simp

lemma hash_256:
  assumes "length (st_buf S) = 64" "8 * length m < 2 ^ 64"
  shows "blake256_hash S m (of_nat (length m)) = Some (blake_hash8 True blake_IV256 m)"
proof -
  obtain S1 where "blake256_update (blake256_init S) m (of_nat (8 * length m)) = Some S1"
    "cn_holds S1 blake_IV256 salt_zero_small m"
    using update_whole [OF fresh_holds(1) [OF assms(1)] _ assms(2), of "[]"] by auto
  moreover then obtain S2 where "blake256_final S1 = Some (S2, blake_hash8 True blake_IV256 m)" by (auto elim: final_hash)
  ultimately show ?thesis unfolding blake256_hash_def bit_count by simp
qed

lemma hash_224:
  assumes "length (st_buf S) = 64" "8 * length m < 2 ^ 64"
  shows "blake224_hash S m (of_nat (length m)) = Some (blake_hash8 False blake_IV224 m)"
proof -
  obtain S1 where "blake224_update (blake224_init S) m (of_nat (8 * length m)) = Some S1"
    "cn_holds S1 blake_IV224 salt_zero_small m"
    unfolding blake224_update_def using update_whole [OF fresh_holds(2) [OF assms(1)] _ assms(2), of "[]"] by auto
  moreover then obtain S2 where "blake224_final S1 = Some (S2, blake_hash8 False blake_IV224 m)" by (auto elim: final_hash_224)
  ultimately show ?thesis unfolding blake224_hash_def bit_count by simp
qed

section \<open>HMAC with either hash\<close>

definition hmac_key :: "(bytes \<Rightarrow> bytes) \<Rightarrow> bytes \<Rightarrow> bytes" where
  \<comment> \<open>RFC 2104 for blocks of 64 bytes: the key, hashed when it is longer than a block, with zeros\<close>
  "hmac_key H K = (let K = (if 64 < length K then H K else K) in K @ replicate (64 - length K) 0)"

definition hmac_of :: "(bytes \<Rightarrow> bytes) \<Rightarrow> bytes \<Rightarrow> bytes \<Rightarrow> bytes" where
  \<comment> \<open>\<open>hmac_of H K0 m\<close>, for a key of one block\<close>
  "hmac_of H K0 m = H (map ((XOR) 0x5C) K0 @ H (map ((XOR) 0x36) K0 @ m))"

lemma xor_key_pad:
  assumes "n \<le> 64" "n \<le> length key"
  shows "xor_key (replicate 64 c) n key = Some (map ((XOR) c) (take n key @ replicate (64 - n) 0))"
proof -
  have "map2 (XOR) (replicate (length ks) c) ks = map ((XOR) c) ks" for ks :: bytes
    by (induction ks) auto
  from this [of "take n key"] show ?thesis
    using assms by (simp add: xor_key_def mem_simps min_absorb2 replicate_add [symmetric])
qed

definition hm_ready :: "cn_hmac \<Rightarrow> u32 list \<Rightarrow> bytes \<Rightarrow> bytes \<Rightarrow> bool" where
  \<comment> \<open>the two states after the key \<open>K0\<close> and the message bytes \<open>m\<close>\<close>
  "hm_ready S iv K0 m \<longleftrightarrow> cn_holds (hm_inner S) iv salt_zero_small (map ((XOR) 0x36) K0 @ m)
     \<and> cn_holds (hm_outer S) iv salt_zero_small (map ((XOR) 0x5C) K0) \<and> length K0 = 64"

lemma update_pad:
  assumes "cn_holds S iv s []" "length K0 = 64"
  obtains S' where "blake256_update S (map ((XOR) c) K0) 512 = Some S'" "cn_holds S' iv s (map ((XOR) c) K0)"
  using update_whole [OF assms(1), of "map ((XOR) c) K0" "[]"] assms(2) by auto

lemma hmac_pads:
  assumes n: "n \<le> 64" "n \<le> length key" and S: "cn_holds A iv salt_zero_small []" "cn_holds B iv salt_zero_small []"
    and K0: "K0 = take n key @ replicate (64 - n) 0"
  obtains T where "xor_key (replicate 64 0x36) n key \<bind> (\<lambda>pad. blake256_update A pad 512 \<bind> (\<lambda>inner.
     xor_key (replicate 64 0x5C) n key \<bind> (\<lambda>pad. blake256_update B pad 512 \<bind> (\<lambda>outer.
     Some \<lparr>hm_inner = inner, hm_outer = outer\<rparr>)))) = Some T" "hm_ready T iv K0 []"
proof -
  have len: "length K0 = 64" using n by (simp add: K0)
  obtain A' where A: "blake256_update A (map ((XOR) 0x36) K0) 512 = Some A'" "cn_holds A' iv salt_zero_small (map ((XOR) 0x36) K0)"
    using update_pad [OF S(1) len] .
  obtain B' where B: "blake256_update B (map ((XOR) 0x5C) K0) 512 = Some B'" "cn_holds B' iv salt_zero_small (map ((XOR) 0x5C) K0)"
    using update_pad [OF S(2) len] .
  show thesis
    by (rule that [of "\<lparr>hm_inner = A', hm_outer = B'\<rparr>"])
       (use A B len in \<open>simp_all add: xor_key_pad [OF n] hm_ready_def flip: K0\<close>)
qed

lemma hmac_final_256:
  assumes "hm_ready T blake_IV256 K0 m"
  obtains T' where "hmac_blake256_final T = Some (T', hmac_of (blake_hash8 True blake_IV256) K0 m)"
proof -
  let ?H = "blake_hash8 True blake_IV256"
  let ?i = "?H (map ((XOR) 0x36) K0 @ m)"
  note r = assms [unfolded hm_ready_def]
  obtain A where A: "blake256_final (hm_inner T) = Some (A, ?i)" using r by (auto elim: final_hash)
  obtain B where B: "blake256_update (hm_outer T) ?i 256 = Some B" "cn_holds B blake_IV256 salt_zero_small (map ((XOR) 0x5C) K0 @ ?i)"
    using update_whole [of "hm_outer T" blake_IV256 salt_zero_small "map ((XOR) 0x5C) K0" ?i "[]"] r by (auto simp: length_hash8)
  obtain C where C: "blake256_final B = Some (C, ?H (map ((XOR) 0x5C) K0 @ ?i))" using B(2) by (auto elim: final_hash)
  show thesis
    by (rule that [of "\<lparr>hm_inner = A, hm_outer = C\<rparr>"]) (simp add: hmac_blake256_final_def A B(1) C hmac_of_def)
qed

lemma hmac_final_224:
  fixes K0 m :: bytes
  defines "H \<equiv> \<lambda>x. take 28 (blake_hash8 False blake_IV224 x)"
  assumes "hm_ready T blake_IV224 K0 m"
  obtains T' d where "hmac_blake224_final T = Some (T', d)" "take 28 d = hmac_of H K0 m"
proof -
  let ?h = "blake_hash8 False blake_IV224 (map ((XOR) 0x36) K0 @ m)"
  let ?i = "take 28 ?h"
  note r = assms(2) [unfolded hm_ready_def]
  obtain A where A: "blake224_final (hm_inner T) = Some (A, ?h)" using r by (auto elim: final_hash_224)
  obtain B where B: "blake256_update (hm_outer T) (?i @ drop 28 ?h) 224 = Some B"
    "cn_holds B blake_IV224 salt_zero_small (map ((XOR) 0x5C) K0 @ ?i)"
    using update_whole [of "hm_outer T" blake_IV224 salt_zero_small "map ((XOR) 0x5C) K0" ?i "drop 28 ?h"] r by (auto simp: length_hash8 simp del: append_take_drop_id)
  obtain C where C: "blake224_final B = Some (C, blake_hash8 False blake_IV224 (map ((XOR) 0x5C) K0 @ ?i))"
    using B(2) by (auto elim: final_hash_224)
  show thesis
    by (rule that [of "\<lparr>hm_inner = A, hm_outer = C\<rparr>"])
       (use B(1) in \<open>simp_all add: hmac_blake224_final_def blake224_update_def A C hmac_of_def H_def\<close>)
qed

lemma hmac_init_256:
  assumes "length (st_buf S0) = 64" "length (st_buf (hm_inner S)) = 64" "length (st_buf (hm_outer S)) = 64"
    and key: "8 * length key < 2 ^ 64"
  obtains T where "hmac_blake256_init S0 S key (of_nat (length key)) = Some T"
    "hm_ready T blake_IV256 (hmac_key (blake_hash8 True blake_IV256) key) []"
proof -
  let ?H = "blake_hash8 True blake_IV256"
  have k: "unat (of_nat (length key) :: u64) = length key" using key by (simp add: unat_of_nat)
  have long: "64 < (of_nat (length key) :: u64) \<longleftrightarrow> 64 < length key" by (simp add: word_less_nat_alt k)
  note h = fresh_holds(1) [OF assms(2)] fresh_holds(1) [OF assms(3)]
  show thesis
  proof (cases "64 < length key")
    case True
    obtain T where "(xor_key (replicate 64 0x36) 32 (?H key) \<bind> (\<lambda>pad. blake256_update (blake256_init (hm_inner S)) pad 512 \<bind> (\<lambda>inner.
       xor_key (replicate 64 0x5C) 32 (?H key) \<bind> (\<lambda>pad. blake256_update (blake256_init (hm_outer S)) pad 512 \<bind> (\<lambda>outer.
       Some \<lparr>hm_inner = inner, hm_outer = outer\<rparr>))))) = Some T"
      "hm_ready T blake_IV256 (take 32 (?H key) @ replicate (64 - 32) 0) []"
      using hmac_pads [OF _ _ h refl, of 32 "?H key"] by (auto simp: length_hash8)
    then show ?thesis
      using True by (intro that [of T]) (simp_all add: hmac_blake256_init_def long hash_256 [OF assms(1) key] hmac_key_def length_hash8)
  next
    case False
    obtain T where "(xor_key (replicate 64 0x36) (length key) key \<bind> (\<lambda>pad. blake256_update (blake256_init (hm_inner S)) pad 512 \<bind> (\<lambda>inner.
       xor_key (replicate 64 0x5C) (length key) key \<bind> (\<lambda>pad. blake256_update (blake256_init (hm_outer S)) pad 512 \<bind> (\<lambda>outer.
       Some \<lparr>hm_inner = inner, hm_outer = outer\<rparr>))))) = Some T"
      "hm_ready T blake_IV256 (take (length key) key @ replicate (64 - length key) 0) []"
      using hmac_pads [OF _ _ h refl, of "length key" key] False by auto
    then show ?thesis
      using False by (intro that [of T]) (simp_all add: hmac_blake256_init_def long k hmac_key_def)
  qed
qed

lemma hmac_init_224:
  assumes "length (st_buf S0) = 64" "length (st_buf (hm_inner S)) = 64" "length (st_buf (hm_outer S)) = 64"
    and key: "8 * length key < 2 ^ 64"
  obtains T where "hmac_blake224_init S0 S key (of_nat (length key)) = Some T"
    "hm_ready T blake_IV224 (hmac_key (\<lambda>x. take 28 (blake_hash8 True blake_IV256 x)) key) []"
proof -
  let ?H = "blake_hash8 True blake_IV256"
  have k: "unat (of_nat (length key) :: u64) = length key" using key by (simp add: unat_of_nat)
  have long: "64 < (of_nat (length key) :: u64) \<longleftrightarrow> 64 < length key" by (simp add: word_less_nat_alt k)
  note h = fresh_holds(2) [OF assms(2)] fresh_holds(2) [OF assms(3)]
  show thesis
  proof (cases "64 < length key")
    case True
    obtain T where "(xor_key (replicate 64 0x36) 28 (?H key) \<bind> (\<lambda>pad. blake256_update (blake224_init (hm_inner S)) pad 512 \<bind> (\<lambda>inner.
       xor_key (replicate 64 0x5C) 28 (?H key) \<bind> (\<lambda>pad. blake256_update (blake224_init (hm_outer S)) pad 512 \<bind> (\<lambda>outer.
       Some \<lparr>hm_inner = inner, hm_outer = outer\<rparr>))))) = Some T"
      "hm_ready T blake_IV224 (take 28 (?H key) @ replicate (64 - 28) 0) []"
      using hmac_pads [OF _ _ h refl, of 28 "?H key"] by (auto simp: length_hash8)
    then show ?thesis
      using True by (intro that [of T])
        (simp_all add: hmac_blake224_init_def blake224_update_def long hash_256 [OF assms(1) key] hmac_key_def length_hash8)
  next
    case False
    obtain T where "(xor_key (replicate 64 0x36) (length key) key \<bind> (\<lambda>pad. blake256_update (blake224_init (hm_inner S)) pad 512 \<bind> (\<lambda>inner.
       xor_key (replicate 64 0x5C) (length key) key \<bind> (\<lambda>pad. blake256_update (blake224_init (hm_outer S)) pad 512 \<bind> (\<lambda>outer.
       Some \<lparr>hm_inner = inner, hm_outer = outer\<rparr>))))) = Some T"
      "hm_ready T blake_IV224 (take (length key) key @ replicate (64 - length key) 0) []"
      using hmac_pads [OF _ _ h refl, of "length key" key] False by auto
    then show ?thesis
      using False by (intro that [of T]) (simp_all add: hmac_blake224_init_def blake224_update_def long k hmac_key_def)
  qed
qed

lemma hmac_update_ready:
  assumes "hm_ready T iv K0 []" "8 * length m < 2 ^ 64"
  obtains I where "blake256_update (hm_inner T) m (of_nat (8 * length m)) = Some I" "hm_ready (T\<lparr>hm_inner := I\<rparr>) iv K0 m"
  using update_whole [of "hm_inner T" iv salt_zero_small "map ((XOR) 0x36) K0" m "[]"] assms
  by (auto simp: hm_ready_def)

section \<open>An update never leaves its buffers\<close>

lemma step_buffer:
  "st_buf (blake256_compress (cn_count S) b) = st_buf S" "st_buflen (blake256_compress (cn_count S) b) = st_buflen S"
  "st_buf (cn_count S) = st_buf S"
  by (simp_all add: blake256_compress_def cn_count_def Let_def)

lemma cn_blocks_returns:
  assumes "unat n div 8 \<le> length data"
  shows "\<exists>S' n'. cn_blocks S data n = Some (S', drop (64 * (unat n div 512)) data, n') \<and> unat n' = unat n mod 512
    \<and> st_buf S' = st_buf S \<and> st_buflen S' = st_buflen S"
  using assms
proof (induction S data n rule: cn_blocks.induct)
  case (1 S data n)
  show ?case
  proof (cases "512 \<le> n")
    case False
    then show ?thesis by (simp add: cn_blocks.simps [of S] word_le_nat_alt)
  next
    case True
    then have n: "512 \<le> unat n" "unat (n - 512) = unat n - 512" by (simp_all add: word_le_nat_alt unat_sub_if')
    then have len: "64 \<le> length data" "(unat n - 512) div 8 \<le> length (drop 64 data)" using "1.prems" by simp_all
    have rd: "read_in data 0 64 = Some (take 64 data)" using len by (simp add: mem_simps)
    have "512 * 1 \<le> unat n" using n by simp
    then have dm: "unat n div 512 = Suc ((unat n - 512) div 512)" "(unat n - 512) mod 512 = unat n mod 512"
      using n by (simp_all add: le_div_geq le_mod_geq)
    from "1.IH" [OF True, of "take 64 data"] len n show ?thesis
      using True by (simp add: cn_blocks.simps [of S data] rd dm step_buffer add.commute)
  qed
qed

lemma cn_end_returns:
  assumes "length (st_buf S) = 64" "left < 64" "unat n div 8 \<le> length d" "left = 0 \<or> unat n div 8 mod 64 < 64 - left"
  shows "\<exists>S'. cn_end S left d n = Some S' \<and> length (st_buf S') = 64 \<and> st_buflen S' < 512"
proof -
  from cn_blocks_returns [OF assms(3), of S] obtain S' n' where b:
    "cn_blocks S d n = Some (S', drop (64 * (unat n div 512)) d, n')" "unat n' = unat n mod 512" "st_buf S' = st_buf S" by auto
  have m: "unat n mod 512 div 8 = unat n div 8 mod 64" "unat n div 8 = 64 * (unat n div 512) + unat n mod 512 div 8"
    using mod_mult2_eq [of "unat n" 8 64] div_mult2_eq [of "unat n" 8 64] by (simp_all add: mod_div_decomp)
  have k: "unat (drop_bit 3 n') = unat n mod 512 div 8" using b(2) by (simp add: drop_bit_eq_div unat_div)
  have "unat n mod 512 div 8 \<le> length (drop (64 * (unat n div 512)) d)"
    unfolding length_drop using m(2) assms(3) by linarith
  then have rd: "read_in (drop (64 * (unat n div 512)) d) 0 (unat n mod 512 div 8)
      = Some (take (unat n mod 512 div 8) (drop (64 * (unat n div 512)) d))" by (simp add: mem_simps)
  let ?c = "take (unat n mod 512 div 8) (drop (64 * (unat n div 512)) d)"
  have room: "left + unat n mod 512 div 8 < 64" using assms(2,4) m(1) by auto
  then have "left + length ?c \<le> length (st_buf S')" using assms(1) b(3) by simp
  then obtain buf where cp: "memcpy_in (st_buf S') left ?c = Some buf" "length buf = length (st_buf S')"
    by (auto simp: mem_simps)
  have "unat n mod 512 < 8 * (unat n mod 512 div 8) + 8" by simp
  then have "8 * left + unat n mod 512 < 512" using room by linarith
  then show ?thesis
    using b(2,3) assms(1) cp(2)
    by (simp add: cn_end_def b(1) k rd cp(1) [unfolded b(3)] push_bit_eq_mult mult.commute)
qed

section \<open>Properties\<close>

definition cn_blank :: "u32 \<Rightarrow> cn_state" where
  \<comment> \<open>a state for the witnesses\<close>
  "cn_blank x = \<lparr>st_h = [x], st_s = [x], st_t0 = x, st_t1 = x, st_buflen = 13, st_nullt = 1, st_buf = replicate 64 7\<rparr>"

text \<open>
  C8: the one-call functions: for every message shorter than \<open>2\<^sup>6\<^sup>1\<close> bytes, whatever the local state
  held, \<open>blake256_hash\<close> writes the BLAKE-256 digest; \<open>blake224_hash\<close> writes 32 bytes, of which
  the first 28 are the BLAKE-224 digest.
\<close>

theorem blake256_hash_is_blake:
  assumes "length (st_buf S) = 64" "length m < 2 ^ 61"
  shows "blake256_hash S m (of_nat (length m))
      = Some (blake_digest BLAKE_small True 8 blake_IV256 salt_zero_small (bits_of_bytes m)) \<and>
    (\<exists>d. blake224_hash S m (of_nat (length m)) = Some d \<and> length d = 32
      \<and> take 28 d = blake_digest BLAKE_small False 7 blake_IV224 salt_zero_small (bits_of_bytes m))"
  using assms hash_256 [of S m] hash_224 [of S m] by (simp add: length_hash8 hash8_digests)

theorem blake256_hash_is_blake_witness:
  "blake256_hash (cn_blank 5) (replicate 70 9) 70
      = Some (blake_digest BLAKE_small True 8 blake_IV256 salt_zero_small (bits_of_bytes (replicate 70 9)))"
  using blake256_hash_is_blake [of "cn_blank 5" "replicate 70 9"] by (simp add: cn_blank_def)

text \<open>
  C26: what an update does to the message a state holds. With a piece that is not empty and shorter
  than a block, or one that reaches the end of the buffer, the piece is appended. With another
  piece (empty, or of a block or more whose last part does not reach the end of the buffer) the
  blocks of the piece overtake the bytes that were waiting, and these are dropped when nothing
  follows the blocks: \<open>cn_fed\<close>.
\<close>

theorem blake256_update_exact:
  assumes "cn_holds S iv s m" "length d < 2 ^ 61"
  shows "(\<exists>S'. blake256_update S d (of_nat (8 * length d)) = Some S' \<and> cn_holds S' iv s (cn_fed m d)) \<and>
    (d \<noteq> [] \<and> length d < 64 \<or> length m mod 64 = 0 \<longrightarrow> cn_fed m d = m @ d) \<and>
    (length d = 0 \<longrightarrow> cn_fed m d = take (length m - length m mod 64) m) \<and>
    (length d = 64 \<and> length m mod 64 \<noteq> 0 \<longrightarrow> cn_fed m d = take (length m - length m mod 64) m @ d)"
proof -
  have "8 * length d < 2 ^ 64" using assms(2) by simp
  from update_holds [OF assms(1) this, of "[]"] show ?thesis by (auto simp: cn_fed_def Let_def)
qed

theorem blake256_update_exact_witness:
  "\<exists>S1 S2. blake256_update (blake256_init (cn_blank 5)) [1, 2, 3] 24 = Some S1
    \<and> cn_holds S1 blake_IV256 salt_zero_small [1, 2, 3]
    \<and> blake256_update S1 [] 0 = Some S2 \<and> cn_holds S2 blake_IV256 salt_zero_small []"
proof -
  have h: "cn_holds (blake256_init (cn_blank 5)) blake_IV256 salt_zero_small []"
    by (rule fresh_holds) (simp add: cn_blank_def)
  from blake256_update_exact [OF this, of "[1, 2, 3]"] obtain S1
    where S1: "blake256_update (blake256_init (cn_blank 5)) [1, 2, 3] 24 = Some S1"
      "cn_holds S1 blake_IV256 salt_zero_small [1, 2, 3]" by auto
  with blake256_update_exact [OF S1(2), of "[]"] show ?thesis by auto
qed

lemma feed_short:
  assumes "cn_holds S iv s m" "\<forall>d\<in>set ds. d \<noteq> [] \<and> length d < 64"
  shows "\<exists>S'. feed (\<lambda>S d. blake256_update S d (of_nat (8 * length d))) S ds = Some S' \<and> cn_holds S' iv s (m @ concat ds)"
  using assms
proof (induction ds arbitrary: S m)
  case (Cons d ds)
  have d: "8 * length d < 2 ^ 64" "cn_fed m d = m @ d" using Cons.prems(2) by (auto simp: cn_fed_def)
  from update_holds [OF Cons.prems(1) d(1), of "[]"] d(2) obtain S'
    where S': "blake256_update S d (of_nat (8 * length d)) = Some S'" "cn_holds S' iv s (m @ d)" by auto
  from Cons.IH [OF S'(2)] Cons.prems(2) show ?case unfolding feed.simps S'(1) by simp
qed simp

text \<open>
  C27: a message handed over in pieces, none empty and each shorter than a block, has the digest of
  their concatenation.
\<close>

theorem blake256_short_pieces:
  assumes "length (st_buf S) = 64" "\<forall>d\<in>set ds. d \<noteq> [] \<and> length d < 64"
  shows "feed (\<lambda>S d. blake256_update S d (of_nat (8 * length d))) (blake256_init S) ds
      \<bind> (\<lambda>S. map_option snd (blake256_final S))
    = Some (blake_digest BLAKE_small True 8 blake_IV256 salt_zero_small (bits_of_bytes (concat ds)))"
proof -
  from feed_short [OF fresh_holds(1) [OF assms(1)] assms(2)] obtain S1
    where S1: "feed (\<lambda>S d. blake256_update S d (of_nat (8 * length d))) (blake256_init S) ds = Some S1"
      "cn_holds S1 blake_IV256 salt_zero_small (concat ds)" by auto
  then obtain S2 where "blake256_final S1 = Some (S2, blake_hash8 True blake_IV256 (concat ds))" by (auto elim: final_hash)
  then show ?thesis unfolding S1(1) by (simp add: hash8_digests)
qed

theorem blake256_short_pieces_witness:
  "feed (\<lambda>S d. blake256_update S d (of_nat (8 * length d))) (blake256_init (cn_blank 5)) [replicate 40 1, replicate 50 2]
      \<bind> (\<lambda>S. map_option snd (blake256_final S))
    = Some (blake_digest BLAKE_small True 8 blake_IV256 salt_zero_small (bits_of_bytes (replicate 40 1 @ replicate 50 2)))"
  using blake256_short_pieces [of "cn_blank 5" "[replicate 40 1, replicate 50 2]"] by (simp add: cn_blank_def)

text \<open>
  C28: an update always returns, for every number of bits and every fill of the buffer, reads no more
  than \<open>datalen div 8\<close> bytes of the piece, and never writes outside its buffer.
\<close>

theorem blake256_update_returns:
  assumes "length (st_buf S) = 64" "st_buflen S < 512" "unat n div 8 \<le> length d"
  shows "\<exists>S'. blake256_update S d n = Some S' \<and> length (st_buf S') = 64 \<and> st_buflen S' < 512"
proof -
  let ?l = "drop_bit 3 (st_buflen S)"
  have l: "?l < 64" using assms(2) by (simp add: drop_bit_eq_div)
  show ?thesis
  proof (cases "?l \<noteq> 0 \<and> 64 - ?l \<le> unat n div 8 mod 64")
    case True
    let ?k = "64 - ?l"
    have k: "?k \<le> unat n div 8" using True le_trans mod_less_eq_dividend by blast
    have rd: "read_in d 0 ?k = Some (take ?k d)" using k assms(3) by (simp add: mem_simps)
    have cp: "memcpy_in (st_buf S) ?l (take ?k d) = Some (take ?l (st_buf S) @ take ?k d)"
      using l k assms by (simp add: mem_simps)
    have n: "unat (n - of_nat (push_bit 3 ?k)) = unat n - 8 * ?k"
    proof -
      have "unat (of_nat (push_bit 3 ?k) :: u64) = 8 * ?k" by (simp add: unat_of_nat push_bit_eq_mult del: of_nat_mult of_nat_diff)
      then show ?thesis using k by (simp add: unat_sub_if' del: of_nat_diff)
    qed
    show ?thesis
      using cn_end_returns [of "blake256_compress (cn_count (S\<lparr>st_buf := take ?l (st_buf S) @ take ?k d\<rparr>))
          (take ?l (st_buf S) @ take ?k d)" 0 "n - of_nat (push_bit 3 ?k)" "drop ?k d"] True l k assms
      by (simp add: blake256_update_def Let_def update_test rd cp n step_buffer)
  next
    case False
    then show ?thesis
      using cn_end_returns [of S ?l n d] l assms by (auto simp: blake256_update_def Let_def update_test)
  qed
qed


theorem blake256_update_returns_witness:
  "\<exists>S'. blake256_update (cn_blank 5) (replicate 80 1) 637 = Some S' \<and> length (st_buf S') = 64 \<and> st_buflen S' < 512"
  using blake256_update_returns [of "cn_blank 5" 637 "replicate 80 1"] by (simp add: cn_blank_def)

text \<open>
  C25: the HMAC routines. \<open>hmac_blake256_hash\<close> is HMAC (RFC 2104) with BLAKE-256, for keys and
  messages of every length below \<open>2\<^sup>6\<^sup>1\<close>. The first 28 bytes of what \<open>hmac_blake224_hash\<close> writes are HMAC
  with BLAKE-224, except that a key of more than 64 bytes is replaced by the first 28 bytes of its
  BLAKE-256 digest, not by its BLAKE-224 digest.
\<close>

theorem hmac_hash_is_hmac:
  fixes H H' :: "bytes \<Rightarrow> bytes"
  defines "H \<equiv> \<lambda>m. blake_digest BLAKE_small True 8 blake_IV256 salt_zero_small (bits_of_bytes m)"
    and "H' \<equiv> \<lambda>m. blake_digest BLAKE_small False 7 blake_IV224 salt_zero_small (bits_of_bytes m)"
  assumes "length (st_buf S0) = 64" "length (st_buf (hm_inner S)) = 64" "length (st_buf (hm_outer S)) = 64"
    and "length key < 2 ^ 61" "length m < 2 ^ 61"
  shows "hmac_blake256_hash S0 S key (of_nat (length key)) m (of_nat (length m))
      = Some (hmac_of H (hmac_key H key) m) \<and>
    map_option (take 28) (hmac_blake224_hash S0 S key (of_nat (length key)) m (of_nat (length m)))
      = Some (hmac_of H' (hmac_key (\<lambda>k. take 28 (H k)) key) m)"
proof
  have len: "8 * length key < 2 ^ 64" "8 * length m < 2 ^ 64" using assms(6,7) by simp_all
  obtain T where T: "hmac_blake256_init S0 S key (of_nat (length key)) = Some T"
    "hm_ready T blake_IV256 (hmac_key (blake_hash8 True blake_IV256) key) []"
    using hmac_init_256 [OF assms(3-5) len(1)] .
  obtain I where I: "blake256_update (hm_inner T) m (of_nat (8 * length m)) = Some I"
    "hm_ready (T\<lparr>hm_inner := I\<rparr>) blake_IV256 (hmac_key (blake_hash8 True blake_IV256) key) m"
    using hmac_update_ready [OF T(2) len(2)] .
  show "hmac_blake256_hash S0 S key (of_nat (length key)) m (of_nat (length m)) = Some (hmac_of H (hmac_key H key) m)"
    unfolding hmac_blake256_hash_def bit_count hmac_blake256_update_def T(1) Option.bind.bind_lunit I(1)
    by (rule hmac_final_256 [OF I(2)]) (simp add: H_def hash8_digests)
  obtain T where T: "hmac_blake224_init S0 S key (of_nat (length key)) = Some T"
    "hm_ready T blake_IV224 (hmac_key (\<lambda>x. take 28 (blake_hash8 True blake_IV256 x)) key) []"
    using hmac_init_224 [OF assms(3-5) len(1)] .
  obtain I where I: "blake256_update (hm_inner T) m (of_nat (8 * length m)) = Some I"
    "hm_ready (T\<lparr>hm_inner := I\<rparr>) blake_IV224 (hmac_key (\<lambda>x. take 28 (blake_hash8 True blake_IV256 x)) key) m"
    using hmac_update_ready [OF T(2) len(2)] .
  show "map_option (take 28) (hmac_blake224_hash S0 S key (of_nat (length key)) m (of_nat (length m)))
      = Some (hmac_of H' (hmac_key (\<lambda>k. take 28 (H k)) key) m)"
    unfolding hmac_blake224_hash_def bit_count hmac_blake224_update_def blake224_update_def T(1) Option.bind.bind_lunit I(1)
    by (rule hmac_final_224 [OF I(2)]) (simp add: H_def H'_def hash8_digests)
qed

theorem hmac_hash_is_hmac_witness:
  "map_option (take 28) (hmac_blake224_hash (cn_blank 5) \<lparr>hm_inner = cn_blank 6, hm_outer = cn_blank 7\<rparr> [1, 2] 2 [3] 1)
    = Some (hmac_of (\<lambda>m. blake_digest BLAKE_small False 7 blake_IV224 salt_zero_small (bits_of_bytes m))
        ([1, 2] @ replicate 62 0) [3])"
  using hmac_hash_is_hmac [of "cn_blank 5" "\<lparr>hm_inner = cn_blank 6, hm_outer = cn_blank 7\<rparr>" "[1, 2]" "[3]"]
  by (simp add: cn_blank_def hmac_key_def)

end
