(* ===== verification/Skein.thy ===== *)
theory Skein
  imports Blake
begin

text \<open>
  Skein-512 as its designers define it (version 1.3): the block cipher Threefish-512, the chaining
  mode UBI with its tweak, and the hash function on bit strings with an output of any length.
\<close>

section \<open>Threefish-512\<close>

definition tf_rotations :: "nat list list" where
  "tf_rotations =
    [[46, 36, 19, 37], [33, 27, 14, 42], [17, 49, 36, 39], [44, 9, 54, 56],
     [39, 30, 34, 24], [13, 50, 10, 17], [25, 29, 39, 43], [8, 35, 56, 22]]"

definition tf_perm :: "nat list" where
  "tf_perm = [2, 1, 4, 7, 6, 5, 0, 3]"

definition tf_key :: "u64 list \<Rightarrow> u64 list" where
  "tf_key K = K @ [foldl (XOR) 0x1BD11BDAA9FC1A22 K]"

fun tf_tweak :: "u64 \<times> u64 \<Rightarrow> u64 list" where
  "tf_tweak (t0, t1) = [t0, t1, t0 XOR t1]"

definition tf_subkey :: "u64 list \<Rightarrow> u64 list \<Rightarrow> nat \<Rightarrow> u64 list" where
  "tf_subkey k t s = map (\<lambda>i. k ! ((s + i) mod 9)
     + (if i = 5 then t ! (s mod 3) else if i = 6 then t ! ((s + 1) mod 3) else if i = 7 then of_nat s else 0)) [0..<8]"

definition tf_mix :: "nat list \<Rightarrow> u64 list \<Rightarrow> u64 list" where
  "tf_mix r v = concat (map (\<lambda>j. let y = v ! (2 * j) + v ! (2 * j + 1)
     in [y, word_rotl (r ! j) (v ! (2 * j + 1)) XOR y]) [0..<4])"

definition tf_round :: "u64 list \<Rightarrow> u64 list \<Rightarrow> nat \<Rightarrow> u64 list \<Rightarrow> u64 list" where
  "tf_round k t d v =
     (let v = (if d mod 4 = 0 then map2 (+) v (tf_subkey k t (d div 4)) else v)
      in map ((!) (tf_mix (tf_rotations ! (d mod 8)) v)) tf_perm)"

definition threefish :: "u64 list \<Rightarrow> u64 \<times> u64 \<Rightarrow> u64 list \<Rightarrow> u64 list" where
  "threefish K T P =
     (let k = tf_key K; t = tf_tweak T
      in map2 (+) (fold (tf_round k t) [0..<72] P) (tf_subkey k t 18))"

section \<open>Unique block iteration\<close>

definition skein_words :: "bytes \<Rightarrow> u64 list" where
  "skein_words b = map (\<lambda>i. sph_dec64le (drop (8 * i) b)) [0..<8]"

definition skein_tweak :: "nat \<Rightarrow> bool \<Rightarrow> nat \<Rightarrow> bool \<Rightarrow> bool \<Rightarrow> u64 \<times> u64" where
  \<comment> \<open>position, bit padding, type, first and final block: a number of 128 bits, low word first\<close>
  "skein_tweak pos pad ty first final =
     (let T = pos + 2 ^ 119 * of_bool pad + 2 ^ 120 * ty + 2 ^ 126 * of_bool first + 2 ^ 127 * of_bool final
      in (of_nat T, of_nat (T div 2 ^ 64)))"

definition ubi_block :: "u64 \<times> u64 \<Rightarrow> bytes \<Rightarrow> u64 list \<Rightarrow> u64 list" where
  "ubi_block T b G = map2 (XOR) (threefish G T (skein_words b)) (skein_words b)"

fun ubi_step :: "nat \<Rightarrow> bytes \<Rightarrow> u64 list \<times> nat \<Rightarrow> u64 list \<times> nat" where
  "ubi_step ty b (G, i) = (ubi_block (skein_tweak (64 * Suc i) False ty (i = 0) False) b G, Suc i)"

definition ubi :: "nat \<Rightarrow> bool \<Rightarrow> bytes \<Rightarrow> u64 list \<Rightarrow> u64 list" where
  \<comment> \<open>\<open>pad\<close>: the last byte holds fewer than 8 bits. The last block is filled up with zeros.\<close>
  "ubi ty pad M G =
     (let (G, i) = absorb 64 64 (ubi_step ty) M (G, 0); b = rest 64 64 M
      in ubi_block (skein_tweak (length M) pad ty (i = 0) True) (b @ replicate (64 - length b) 0) G)"

section \<open>The hash function\<close>

definition skein_bytes :: "bool list \<Rightarrow> bytes" where
  "skein_bytes bits = bytes_of_bits
     (if length bits mod 8 = 0 then bits else bits @ True # replicate (7 - length bits mod 8) False)"

definition skein_config :: "nat \<Rightarrow> u64 list" where
  \<comment> \<open>the chain value a hash with outputs of \<open>n\<close> bits starts from: schema \<open>SHA3\<close>, version 1, no tree\<close>
  "skein_config n = ubi 4 False
     (sph_enc64le 0x133414853 @ sph_enc64le (of_nat n) @ replicate 16 0) (replicate 8 0)"

definition skein_output :: "nat \<Rightarrow> u64 list \<Rightarrow> bytes" where
  \<comment> \<open>\<open>n\<close> bytes, 64 for every value of a counter\<close>
  "skein_output n G = take n (concat (map (\<lambda>i. concat (map sph_enc64le (ubi 63 False (sph_enc64le (of_nat i)) G)))
     [0..<(n + 63) div 64]))"

definition skein_chain :: "u64 list \<Rightarrow> bool list \<Rightarrow> u64 list" where
  "skein_chain iv bits = ubi 48 (length bits mod 8 \<noteq> 0) (skein_bytes bits) iv"

definition skein :: "nat \<Rightarrow> bool list \<Rightarrow> bytes" where
  \<comment> \<open>Skein-512 with an output of \<open>n\<close> bits\<close>
  "skein n bits = skein_output ((n + 7) div 8) (skein_chain (skein_config n) bits)"


section \<open>Lengths\<close>

lemma length_tf_subkey [simp]: "length (tf_subkey k t s) = 8"
  by (simp add: tf_subkey_def)

lemma length_tf_round [simp]: "length (tf_round k t d v) = 8"
  by (simp add: tf_round_def tf_perm_def Let_def)

lemma length_tf_rounds: "length v = 8 \<Longrightarrow> length (fold (tf_round k t) ds v) = 8"
  by (induction ds arbitrary: v) simp_all

lemma length_skein_words [simp]: "length (skein_words b) = 8"
  by (simp add: skein_words_def)

lemma length_threefish: "length P = 8 \<Longrightarrow> length (threefish K T P) = 8"
  by (simp add: threefish_def length_tf_rounds Let_def)

lemma length_ubi_block [simp]: "length (ubi_block T b G) = 8"
  by (simp add: ubi_block_def length_threefish)

section \<open>Four rounds on eight variables\<close>

text \<open>
  An implementation keeps the words in place and permutes the names instead: after a round, the
  word number \<open>i\<close> of the state is in the variable number \<open>idx ! i\<close>; after four rounds the names
  are back.
\<close>

definition tf_mixes :: "nat list \<Rightarrow> nat list \<Rightarrow> u64 list \<Rightarrow> u64 list" where
  "tf_mixes idx r v = fold (\<lambda>j v. let a = idx ! (2 * j); b = idx ! (2 * j + 1); y = v ! a + v ! b
     in v[a := y, b := word_rotl (r ! j) (v ! b) XOR y]) [0..<4] v"

definition tf_four :: "u64 list \<Rightarrow> u64 list \<Rightarrow> nat \<Rightarrow> u64 list \<Rightarrow> u64 list" where
  "tf_four k t s v = fold (\<lambda>r v. map ((!) (tf_mix r v)) tf_perm)
     (if even s then take 4 tf_rotations else drop 4 tf_rotations) (map2 (+) v (tf_subkey k t s))"

lemma length_tf_mixes [simp]: "length (tf_mixes idx r v) = length v"
  unfolding tf_mixes_def upt_0_4 by (simp add: Let_def)

lemma tf_mixes_first:
  "length v = 8 \<Longrightarrow> map ((!) (tf_mixes [0, 1, 2, 3, 4, 5, 6, 7] r v)) [2, 1, 4, 7, 6, 5, 0, 3]
    = map ((!) (tf_mix r v)) tf_perm"
  by (elim list8) (simp add: tf_mixes_def tf_mix_def tf_perm_def upt_0_4 Let_def)

lemma tf_mixes_second:
  "length v = 8 \<Longrightarrow> map ((!) (tf_mixes [2, 1, 4, 7, 6, 5, 0, 3] r v)) [4, 1, 6, 3, 0, 5, 2, 7]
    = map ((!) (tf_mix r (map ((!) v) [2, 1, 4, 7, 6, 5, 0, 3]))) tf_perm"
  by (elim list8) (simp add: tf_mixes_def tf_mix_def tf_perm_def upt_0_4 Let_def)

lemma tf_mixes_third:
  "length v = 8 \<Longrightarrow> map ((!) (tf_mixes [4, 1, 6, 3, 0, 5, 2, 7] r v)) [6, 1, 0, 7, 2, 5, 4, 3]
    = map ((!) (tf_mix r (map ((!) v) [4, 1, 6, 3, 0, 5, 2, 7]))) tf_perm"
  by (elim list8) (simp add: tf_mixes_def tf_mix_def tf_perm_def upt_0_4 Let_def)

lemma tf_mixes_fourth:
  "length v = 8 \<Longrightarrow> tf_mixes [6, 1, 0, 7, 2, 5, 4, 3] r v
    = map ((!) (tf_mix r (map ((!) v) [6, 1, 0, 7, 2, 5, 4, 3]))) tf_perm"
  by (elim list8) (simp add: tf_mixes_def tf_mix_def tf_perm_def upt_0_4 Let_def)

lemma tf_four_mixes:
  assumes "length v = 8"
    and r: "(if even s then take 4 tf_rotations else drop 4 tf_rotations) = [r0, r1, r2, r3]"
  shows "tf_mixes [6, 1, 0, 7, 2, 5, 4, 3] r3 (tf_mixes [4, 1, 6, 3, 0, 5, 2, 7] r2
      (tf_mixes [2, 1, 4, 7, 6, 5, 0, 3] r1 (tf_mixes [0, 1, 2, 3, 4, 5, 6, 7] r0 (map2 (+) v (tf_subkey k t s)))))
    = tf_four k t s v"
proof -
  define v0 where "v0 = map2 (+) v (tf_subkey k t s)"
  define v1 where "v1 = tf_mixes [0, 1, 2, 3, 4, 5, 6, 7] r0 v0"
  define v2 where "v2 = tf_mixes [2, 1, 4, 7, 6, 5, 0, 3] r1 v1"
  define v3 where "v3 = tf_mixes [4, 1, 6, 3, 0, 5, 2, 7] r2 v2"
  have len: "length v0 = 8" "length v1 = 8" "length v2 = 8" "length v3 = 8"
    using assms(1) by (simp_all add: v0_def v1_def v2_def v3_def)
  show ?thesis
    unfolding tf_four_def r fold_simps o_apply id_apply v0_def [symmetric] v1_def [symmetric] v2_def [symmetric] v3_def [symmetric]
      tf_mixes_first [OF len(1), folded v1_def, symmetric] tf_mixes_second [OF len(2), folded v2_def, symmetric]
      tf_mixes_third [OF len(3), folded v3_def, symmetric] tf_mixes_fourth [OF len(4)] ..
qed

lemma tf_four_rounds: "tf_four k t s v = fold (tf_round k t) [4 * s, 4 * s + 1, 4 * s + 2, 4 * s + 3] v"
proof -
  have d: "4 * s mod 4 = 0" "(4 * s + 1) mod 4 \<noteq> 0" "(4 * s + 2) mod 4 \<noteq> 0" "(4 * s + 3) mod 4 \<noteq> 0" by presburger+
  show ?thesis
  proof (cases "even s")
    case True
    then have "4 * s mod 8 = 0" "(4 * s + 1) mod 8 = 1" "(4 * s + 2) mod 8 = 2" "(4 * s + 3) mod 8 = 3" by presburger+
    then show ?thesis using True d by (simp add: tf_four_def tf_round_def tf_rotations_def Let_def)
  next
    case False
    then have "4 * s mod 8 = 4" "(4 * s + 1) mod 8 = 5" "(4 * s + 2) mod 8 = 6" "(4 * s + 3) mod 8 = 7" by presburger+
    then show ?thesis using False d by (simp add: tf_four_def tf_round_def tf_rotations_def Let_def)
  qed
qed

lemma fold_fours: "fold (tf_four k t) [0..<n] v = fold (tf_round k t) [0..<4 * n] v"
proof (induction n)
  case (Suc n)
  have "[0..<4 * n + 4] = [0..<4 * n] @ [4 * n..<4 * n + 4]" by (rule upt_add_eq_append) simp
  moreover have "[4 * n..<4 * n + 4] = [4 * n, 4 * n + 1, 4 * n + 2, 4 * n + 3]" by (simp add: upt_conv_Cons)
  ultimately have "[0..<4 * Suc n] = [0..<4 * n] @ [4 * n, 4 * n + 1, 4 * n + 2, 4 * n + 3]" by (simp add: add.commute)
  then show ?case using Suc by (simp add: tf_four_rounds)
qed simp

lemma length_tf_four [simp]: "length (tf_four k t s v) = 8"
  unfolding tf_four_rounds by simp

lemma threefish_fours:
  "threefish K T P = (let k = tf_key K; t = tf_tweak T in map2 (+) (fold (tf_four k t) [0..<18] P) (tf_subkey k t 18))"
  using fold_fours [of _ _ 18] by (simp add: threefish_def)

section \<open>How many blocks have been chained\<close>

lemma ubi_absorb_length: "length G = 8 \<Longrightarrow> length (fst (absorb 64 64 (ubi_step ty) M (G, i))) = 8"
  using absorb_commute [where I = "\<lambda>v. length (fst v) = 8" and h = id and f = "ubi_step ty" and g = "ubi_step ty"
      and v = "(G, i)" and k = 64 and n = 64 and m = M] by auto

lemma ubi_absorb_count:
  "64 * snd (absorb 64 64 (ubi_step ty) M (G, i)) + length (rest 64 64 M) = 64 * i + length M"
proof (induction M arbitrary: G i rule: measure_induct_rule [where f = length])
  case (less M)
  show ?case
  proof (cases "64 < length M")
    case True
    have "length (drop 64 M) < length M" using True by simp
    from less.IH [OF this, of "fst (ubi_step ty (take 64 M) (G, i))" "Suc i"] show ?thesis
      using True by (simp add: absorb_block [of 64 64 M] rest_block [of 64 64 M])
  qed simp
qed

end
