(* ===== verification/Skein_IV.thy ===== *)
theory Skein_IV
  imports Skein
begin

text \<open>
  The chain values Skein-512 starts from for outputs of 224, 256, 384 and 512 bits, computed from
  the configuration block in the kernel.
\<close>

section \<open>Evaluation on numerals\<close>

text \<open>Words as integers in range, so that the simplifier computes with them.\<close>

definition word_at :: "int \<Rightarrow> u64" where
  "word_at x = word_of_int x"

lemma word_at_plus:
  "word_at x + word_at y = (if x + y < 18446744073709551616 then word_at (x + y) else word_at (x + y - 18446744073709551616))"
proof -
  have "(18446744073709551616 :: u64) = 0" by simp
  then have "word_at (z - 18446744073709551616) = word_at z" for z
    unfolding word_at_def of_int_diff of_int_numeral by (simp only: diff_0_right)
  then show ?thesis by (simp add: word_at_def)
qed

lemma word_at_xor: "word_at x XOR word_at y = word_at (x XOR y)"
  by (rule bit_word_eqI) (auto simp: word_at_def bit_simps)

lemma word_at_rotl:
  assumes "0 < n" "n < 64" "0 \<le> y" "y < 2 ^ 64"
  shows "word_rotl n (word_at y) = word_at (push_bit n y - drop_bit (64 - n) y * 18446744073709551615)"
proof -
  let ?a = "push_bit n (take_bit (64 - n) y)" and ?b = "drop_bit (64 - n) y"
  have y: "bit y j \<longleftrightarrow> j < 64 \<and> bit y j" for j
    using assms by (metis bit_take_bit_iff take_bit_int_eq_self)
  have "bit (word_rotl n (word_at y)) i = bit (word_at (?a OR ?b)) i" if i: "i < 64" for i
  proof (cases "i < n")
    case True
    then have "(i + (64 - n)) mod 64 = 64 - n + i" "64 - n + i < 64" using assms by simp_all
    then show ?thesis using True i assms by (simp only: word_at_def bit_word_rotl_iff bit_simps) simp
  next
    case False
    then have "(i + (64 - n)) mod 64 = i - n" "i - n < 64 - n" using assms i by (simp_all add: le_mod_geq)
    moreover have "\<not> bit y (64 - n + i)" using y [of "64 - n + i"] False assms by linarith
    ultimately show ?thesis using False i assms by (simp only: word_at_def bit_word_rotl_iff bit_simps) auto
  qed
  then have "word_rotl n (word_at y) = word_at (?a OR ?b)" by (intro bit_word_eqI) simp
  also have "?a OR ?b = ?a + ?b"
    by (rule disjunctive_add [symmetric]) (auto simp: bit_eq_iff bit_simps dest: y [THEN iffD1])
  also have "?a + ?b = push_bit n y - ?b * 18446744073709551615"
  proof -
    have "y = ?b * 2 ^ (64 - n) + take_bit (64 - n) y" by (simp only: drop_bit_eq_div take_bit_eq_mod div_mult_mod_eq)
    then have "y * 2 ^ n = ?b * (2 ^ (64 - n) * 2 ^ n) + take_bit (64 - n) y * 2 ^ n"
      by (metis distrib_right mult.assoc)
    also have "2 ^ (64 - n) * 2 ^ n = (18446744073709551616 :: int)"
      using assms by (simp add: power_add [symmetric])
    finally show ?thesis by (simp add: push_bit_eq_mult)
  qed
  finally show ?thesis .
qed

lemma word_at_num: "0 = word_at 0" "1 = word_at 1" "numeral n = word_at (numeral n)"
  by (simp_all add: word_at_def)

definition tf_out :: "nat \<Rightarrow> u64 \<Rightarrow> u64 \<Rightarrow> u64" where
  "tf_out n x y = word_rotl n y XOR x"

lemma tf_out_at:
  "0 < n \<Longrightarrow> n < 64 \<Longrightarrow> 0 \<le> y \<Longrightarrow> y < 18446744073709551616 \<Longrightarrow>
   tf_out n (word_at x) (word_at y) = word_at ((push_bit n y - drop_bit (64 - n) y * 18446744073709551615) XOR x)"
  using word_at_rotl [of n y] by (simp add: tf_out_def word_at_xor)

lemma tf_mix_list: "map ((!) (tf_mix [r, s, t, u] [a, b, c, d, e, f, g, h])) tf_perm =
  [c + d, tf_out r (a + b) b, e + f, tf_out u (g + h) h, g + h, tf_out t (e + f) f, a + b, tf_out s (c + d) d]"
  by (simp add: tf_mix_def upt_0_4 tf_perm_def tf_out_def Let_def)

lemma skein_config_words:
  "skein_config n = map2 (XOR) (threefish (replicate 8 0) (skein_tweak 32 False 4 True True) [0x133414853, of_nat n, 0, 0, 0, 0, 0, 0])
     [0x133414853, of_nat n, 0, 0, 0, 0, 0, 0]"
  (is "_ = map2 _ (threefish _ _ ?w) _")
proof -
  let ?M = "sph_enc64le 0x133414853 @ sph_enc64le (of_nat n) @ replicate 16 0 :: bytes"
  have len: "length ?M = 32" by simp
  have dec: "sph_dec64le (sph_enc64le x @ y) = x" for x y
    using dec64le_enc64le [of x] by (simp add: sph_dec64le_def nth_append)
  have z: "sph_dec64le (replicate k 0) = 0" if "8 \<le> k" for k
    using that by (simp add: sph_dec64le_def)
  have "skein_words (?M @ replicate 32 0) = ?w"
    unfolding skein_words_def upt_0_8 by (simp add: dec z replicate_add [symmetric])
  then show ?thesis
    using len by (simp add: skein_config_def ubi_def ubi_block_def)
qed

lemma config_tweak: "skein_tweak 32 False 4 True True = (word_at 32, word_at 0xC400000000000000)"
  by (simp add: skein_tweak_def word_at_def)

lemma config_key: "tf_key (replicate 8 0) = [word_at 0, word_at 0, word_at 0, word_at 0,
    word_at 0, word_at 0, word_at 0, word_at 0, word_at 0x1BD11BDAA9FC1A22]"
  by (simp add: tf_key_def word_at_def numeral_eq_Suc)

lemma config_tf_tweak:
  "tf_tweak (word_at 32, word_at 0xC400000000000000) = [word_at 32, word_at 0xC400000000000000, word_at 0xC400000000000020]"
  by (simp add: word_at_xor)

lemma upt_0_18: "[0..<18] = [0, 1, 2, 3, 4, 5, 6, 7, 8, 9, 10, 11, 12, 13, 14, 15, 16, 17 :: nat]"
  by (simp add: upt_rec)

lemma of_nat_numeral_at: "of_nat (numeral n) = word_at (numeral n)"
  by (simp add: word_at_def)

lemmas skein_config_eval = skein_config_words [of "numeral n" for n] threefish_fours config_tweak config_key config_tf_tweak
  Let_def of_nat_numeral_at upt_0_18

lemmas tf_eval = word_at_plus word_at_xor tf_out_at tf_mix_list tf_four_def tf_rotations_def tf_subkey_def upt_0_8 word_at_num

lemma skein_config_224: "skein_config 224 =
    [0xCCD0616248677224, 0xCBA65CF3A92339EF, 0x8CCD69D652FF4B64, 0x398AED7B3AB890B4,
     0x0F59D1B1457D2BD0, 0x6776FE6575D4EB3D, 0x99FBC70E997413E9, 0x9E2CFCCFE1C41EF7]"
  unfolding skein_config_eval by (simp add: tf_eval)

lemma skein_config_256: "skein_config 256 =
    [0xCCD044A12FDB3E13, 0xE83590301A79A9EB, 0x55AEA0614F816E6F, 0x2A2767A4AE9B94DB,
     0xEC06025E74DD7683, 0xE7A436CDC4746251, 0xC36FBAF9393AD185, 0x3EEDBA1833EDFC13]"
  unfolding skein_config_eval by (simp add: tf_eval)

lemma skein_config_384: "skein_config 384 =
    [0xA3F6C6BF3A75EF5F, 0xB0FEF9CCFD84FAA4, 0x9D77DD663D770CFE, 0xD798CBF3B468FDDA,
     0x1BC4A6668A0E4465, 0x7ED7D434E5807407, 0x548FC1ACD4EC44D6, 0x266E17546AA18FF8]"
  unfolding skein_config_eval by (simp add: tf_eval)

lemma skein_config_512: "skein_config 512 =
    [0x4903ADFF749C51CE, 0x0D95DE399746DF03, 0x8FD1934127C79BCE, 0x9A255629FF352CB1,
     0x5DB62599DF6CA7B0, 0xEABE394CA9D5C3F4, 0x991112C71A75B523, 0xAE18A40B660FCC33]"
  unfolding skein_config_eval by (simp add: tf_eval)

end
