(* ===== verification/Sph_Skein.thy ===== *)
theory Sph_Skein
  imports Skein_IV
begin

text \<open>
  \<^verbatim>\<open>src/crypto/ghostrider/sph_skein.c\<close>: Skein-512 with outputs of 224, 256, 384 and 512 bits. The
  file has two compilations of the compression (unrolled with macro tables, or the small footprint
  loop over an extended key); both are modelled. A full block is kept back until more data comes.
\<close>

section \<open>Tables and macros\<close>

definition skein_M9 :: "nat list list" where
  "skein_M9 =
    [[0, 1, 2, 3, 4, 5, 6, 7],
     [1, 2, 3, 4, 5, 6, 7, 8],
     [2, 3, 4, 5, 6, 7, 8, 0],
     [3, 4, 5, 6, 7, 8, 0, 1],
     [4, 5, 6, 7, 8, 0, 1, 2],
     [5, 6, 7, 8, 0, 1, 2, 3],
     [6, 7, 8, 0, 1, 2, 3, 4],
     [7, 8, 0, 1, 2, 3, 4, 5],
     [8, 0, 1, 2, 3, 4, 5, 6],
     [0, 1, 2, 3, 4, 5, 6, 7],
     [1, 2, 3, 4, 5, 6, 7, 8],
     [2, 3, 4, 5, 6, 7, 8, 0],
     [3, 4, 5, 6, 7, 8, 0, 1],
     [4, 5, 6, 7, 8, 0, 1, 2],
     [5, 6, 7, 8, 0, 1, 2, 3],
     [6, 7, 8, 0, 1, 2, 3, 4],
     [7, 8, 0, 1, 2, 3, 4, 5],
     [8, 0, 1, 2, 3, 4, 5, 6],
     [0, 1, 2, 3, 4, 5, 6, 7]]"

definition skein_M3 :: "nat list list" where
  "skein_M3 =
    [[0, 1],
     [1, 2],
     [2, 0],
     [0, 1],
     [1, 2],
     [2, 0],
     [0, 1],
     [1, 2],
     [2, 0],
     [0, 1],
     [1, 2],
     [2, 0],
     [0, 1],
     [1, 2],
     [2, 0],
     [0, 1],
     [1, 2],
     [2, 0],
     [0, 1]]"

definition skein_IV224 :: "u64 list" where
  "skein_IV224 =
    [0xCCD0616248677224, 0xCBA65CF3A92339EF, 0x8CCD69D652FF4B64, 0x398AED7B3AB890B4,
     0x0F59D1B1457D2BD0, 0x6776FE6575D4EB3D, 0x99FBC70E997413E9, 0x9E2CFCCFE1C41EF7]"

definition skein_IV256 :: "u64 list" where
  "skein_IV256 =
    [0xCCD044A12FDB3E13, 0xE83590301A79A9EB, 0x55AEA0614F816E6F, 0x2A2767A4AE9B94DB,
     0xEC06025E74DD7683, 0xE7A436CDC4746251, 0xC36FBAF9393AD185, 0x3EEDBA1833EDFC13]"

definition skein_IV384 :: "u64 list" where
  "skein_IV384 =
    [0xA3F6C6BF3A75EF5F, 0xB0FEF9CCFD84FAA4, 0x9D77DD663D770CFE, 0xD798CBF3B468FDDA,
     0x1BC4A6668A0E4465, 0x7ED7D434E5807407, 0x548FC1ACD4EC44D6, 0x266E17546AA18FF8]"

definition skein_IV512 :: "u64 list" where
  "skein_IV512 =
    [0x4903ADFF749C51CE, 0x0D95DE399746DF03, 0x8FD1934127C79BCE, 0x9A255629FF352CB1,
     0x5DB62599DF6CA7B0, 0xEABE394CA9D5C3F4, 0x991112C71A75B523, 0xAE18A40B660FCC33]"

definition SKBI :: "u64 list \<Rightarrow> nat \<Rightarrow> nat \<Rightarrow> u64" where
  "SKBI k s i = k ! (skein_M9 ! s ! i)"

definition SKBT :: "u64 list \<Rightarrow> nat \<Rightarrow> nat \<Rightarrow> u64" where
  "SKBT t s v = t ! (skein_M3 ! s ! v)"

definition TFBIG_KINIT :: "u64 list \<Rightarrow> u64 \<Rightarrow> u64 \<Rightarrow> u64 \<times> u64" where
  \<comment> \<open>\<open>k8\<close> and \<open>t2\<close>\<close>
  "TFBIG_KINIT k t0 t1 =
     (((k ! 0 XOR k ! 1) XOR (k ! 2 XOR k ! 3)) XOR ((k ! 4 XOR k ! 5) XOR (k ! 6 XOR k ! 7)) XOR 0x1BD11BDAA9FC1A22,
      t0 XOR t1)"

definition TFBIG_ADDKEY :: "u64 list \<Rightarrow> u64 list \<Rightarrow> nat \<Rightarrow> u64 list \<Rightarrow> u64 list" where
  "TFBIG_ADDKEY k t s p =
     [SPH_T64 (p ! 0 + SKBI k s 0), SPH_T64 (p ! 1 + SKBI k s 1), SPH_T64 (p ! 2 + SKBI k s 2),
      SPH_T64 (p ! 3 + SKBI k s 3), SPH_T64 (p ! 4 + SKBI k s 4), SPH_T64 (p ! 5 + SKBI k s 5 + SKBT t s 0),
      SPH_T64 (p ! 6 + SKBI k s 6 + SKBT t s 1), SPH_T64 (p ! 7 + SKBI k s 7 + of_nat s)]"

definition TFBIG_ADDKEY_small :: "u64 list \<Rightarrow> nat \<Rightarrow> u64 \<Rightarrow> u64 \<Rightarrow> u64 list \<Rightarrow> u64 list" where
  "TFBIG_ADDKEY_small h s tt0 tt1 p =
     [SPH_T64 (p ! 0 + h ! (s + 0)), SPH_T64 (p ! 1 + h ! (s + 1)), SPH_T64 (p ! 2 + h ! (s + 2)),
      SPH_T64 (p ! 3 + h ! (s + 3)), SPH_T64 (p ! 4 + h ! (s + 4)), SPH_T64 (p ! 5 + h ! (s + 5) + tt0),
      SPH_T64 (p ! 6 + h ! (s + 6) + tt1), SPH_T64 (p ! 7 + h ! (s + 7) + of_nat s)]"

definition TFBIG_MIX :: "nat \<Rightarrow> nat \<Rightarrow> nat \<Rightarrow> u64 list \<Rightarrow> u64 list" where
  \<comment> \<open>on the variables number \<open>i0\<close> and \<open>i1\<close>\<close>
  "TFBIG_MIX i0 i1 rc p =
     (let p = p[i0 := SPH_T64 (p ! i0 + p ! i1)]
      in p[i1 := SPH_ROTL64 (p ! i1) rc XOR p ! i0])"

definition TFBIG_MIX8 :: "nat list \<Rightarrow> nat list \<Rightarrow> u64 list \<Rightarrow> u64 list" where
  "TFBIG_MIX8 w rc p =
     (let p = TFBIG_MIX (w ! 0) (w ! 1) (rc ! 0) p;
          p = TFBIG_MIX (w ! 2) (w ! 3) (rc ! 1) p;
          p = TFBIG_MIX (w ! 4) (w ! 5) (rc ! 2) p
      in TFBIG_MIX (w ! 6) (w ! 7) (rc ! 3) p)"

definition TFBIG_mixes_e :: "u64 list \<Rightarrow> u64 list" where
  \<comment> \<open>the lines of \<open>TFBIG_4e\<close> after the first\<close>
  "TFBIG_mixes_e p =
     (let p = TFBIG_MIX8 [0, 1, 2, 3, 4, 5, 6, 7] [46, 36, 19, 37] p;
          p = TFBIG_MIX8 [2, 1, 4, 7, 6, 5, 0, 3] [33, 27, 14, 42] p;
          p = TFBIG_MIX8 [4, 1, 6, 3, 0, 5, 2, 7] [17, 49, 36, 39] p
      in TFBIG_MIX8 [6, 1, 0, 7, 2, 5, 4, 3] [44, 9, 54, 56] p)"

definition TFBIG_mixes_o :: "u64 list \<Rightarrow> u64 list" where
  "TFBIG_mixes_o p =
     (let p = TFBIG_MIX8 [0, 1, 2, 3, 4, 5, 6, 7] [39, 30, 34, 24] p;
          p = TFBIG_MIX8 [2, 1, 4, 7, 6, 5, 0, 3] [13, 50, 10, 17] p;
          p = TFBIG_MIX8 [4, 1, 6, 3, 0, 5, 2, 7] [25, 29, 39, 43] p
      in TFBIG_MIX8 [6, 1, 0, 7, 2, 5, 4, 3] [8, 35, 56, 22] p)"

definition TFBIG_4e :: "u64 list \<Rightarrow> u64 list \<Rightarrow> nat \<Rightarrow> u64 list \<Rightarrow> u64 list" where
  "TFBIG_4e h t s p = TFBIG_mixes_e (TFBIG_ADDKEY h t s p)"

definition TFBIG_4o :: "u64 list \<Rightarrow> u64 list \<Rightarrow> nat \<Rightarrow> u64 list \<Rightarrow> u64 list" where
  "TFBIG_4o h t s p = TFBIG_mixes_o (TFBIG_ADDKEY h t s p)"

definition UBI_words :: "bytes \<Rightarrow> u64 list" where
  "UBI_words buf = map (\<lambda>i. sph_dec64le (drop (8 * i) buf)) [0, 1, 2, 3, 4, 5, 6, 7]"

definition UBI_tweak :: "nat \<Rightarrow> nat \<Rightarrow> u64 \<Rightarrow> u64 \<times> u64" where
  "UBI_tweak etype extra bcount =
     (SPH_T64 (push_bit 6 bcount) + of_nat extra, drop_bit 58 bcount + push_bit 55 (of_nat etype))"

definition UBI_BIG :: "nat \<Rightarrow> nat \<Rightarrow> bytes \<Rightarrow> u64 list \<Rightarrow> u64 \<Rightarrow> u64 list" where
  \<comment> \<open>unrolled\<close>
  "UBI_BIG etype extra buf h bcount =
     (let m = UBI_words buf; p = m;
          (t0, t1) = UBI_tweak etype extra bcount;
          (h8, t2) = TFBIG_KINIT h t0 t1;
          k = h @ [h8]; t = [t0, t1, t2];
          p = TFBIG_4e k t 0 p; p = TFBIG_4o k t 1 p; p = TFBIG_4e k t 2 p; p = TFBIG_4o k t 3 p;
          p = TFBIG_4e k t 4 p; p = TFBIG_4o k t 5 p; p = TFBIG_4e k t 6 p; p = TFBIG_4o k t 7 p;
          p = TFBIG_4e k t 8 p; p = TFBIG_4o k t 9 p; p = TFBIG_4e k t 10 p; p = TFBIG_4o k t 11 p;
          p = TFBIG_4e k t 12 p; p = TFBIG_4o k t 13 p; p = TFBIG_4e k t 14 p; p = TFBIG_4o k t 15 p;
          p = TFBIG_4e k t 16 p; p = TFBIG_4o k t 17 p;
          p = TFBIG_ADDKEY k t 18 p
      in map (\<lambda>i. m ! i XOR p ! i) [0, 1, 2, 3, 4, 5, 6, 7])"

definition UBI_small_step :: "u64 list \<Rightarrow> nat \<Rightarrow> u64 list \<times> u64 \<times> u64 \<times> u64 \<Rightarrow> u64 list \<times> u64 \<times> u64 \<times> u64" where
  \<comment> \<open>the body of \<open>for (u = 0; u < 9; u ++)\<close>\<close>
  "UBI_small_step h u = (\<lambda>(p, t0, t1, t2).
     let s = push_bit 1 u;
         p = TFBIG_mixes_e (TFBIG_ADDKEY_small h s t0 t1 p);
         p = TFBIG_mixes_o (TFBIG_ADDKEY_small h (s + 1) t1 t2 p)
     in (p, t2, t0, t1))"

definition UBI_BIG_small :: "nat \<Rightarrow> nat \<Rightarrow> bytes \<Rightarrow> u64 list \<Rightarrow> u64 \<Rightarrow> u64 list" where
  \<comment> \<open>\<open>SPH_SMALL_FOOTPRINT_SKEIN\<close>: \<open>h\<close> is an array of 27 words, 8 of which are the state\<close>
  "UBI_BIG_small etype extra buf h bcount =
     (let m = UBI_words buf; p = m;
          (t0, t1) = UBI_tweak etype extra bcount;
          (h8, t2) = TFBIG_KINIT h t0 t1;
          h = h @ [h8] @ replicate 18 0;
          h = fold (\<lambda>u h. h[u + 9 := h ! (u + 0), u + 10 := h ! (u + 1), u + 11 := h ! (u + 2)]) [0, 3, 6, 9, 12, 15] h;
          (p, t0, t1, t2) = fold (UBI_small_step h) [0..<9] (p, t0, t1, t2);
          p = TFBIG_ADDKEY_small h 18 t0 t1 p
      in map (\<lambda>i. m ! i XOR p ! i) [0, 1, 2, 3, 4, 5, 6, 7])"

definition UBI :: "bool \<Rightarrow> nat \<Rightarrow> nat \<Rightarrow> bytes \<Rightarrow> u64 list \<Rightarrow> u64 \<Rightarrow> u64 list" where
  \<comment> \<open>the build option\<close>
  "UBI small = (if small then UBI_BIG_small else UBI_BIG)"

section \<open>The context\<close>

record skein_ctx =
  sk_buf :: bytes
  sk_ptr :: nat
  sk_h :: "u64 list"
  sk_bcount :: u64

definition skein_big_init :: "skein_ctx \<Rightarrow> u64 list \<Rightarrow> skein_ctx" where
  "skein_big_init sc iv = sc\<lparr>sk_h := iv, sk_bcount := 0, sk_ptr := 0\<rparr>"

function skein_loop ::
  "bool \<Rightarrow> bytes \<Rightarrow> bytes \<times> nat \<times> u64 list \<times> u64 \<times> nat \<Rightarrow> (bytes \<times> nat \<times> u64 list \<times> u64) option" where
  \<comment> \<open>the \<open>do\<close> loop. With \<open>ptr\<close> past 64 the size of the copy would wrap and leave the buffer: \<open>None\<close>.\<close>
  "skein_loop small data (buf, ptr, h, bcount, first) =
     (if 64 < ptr then None else
      let (ptr, h, bcount, first) =
            (if ptr = 64 then (0, UBI small (96 + first) 0 buf h (bcount + 1), bcount + 1, 0)
             else (ptr, h, bcount, first));
          clen = min (64 - ptr) (length data)
      in memcpy_in buf ptr (take clen data) \<bind> (\<lambda>buf.
         let ptr = ptr + clen; data = drop clen data
         in if data = [] then Some (buf, ptr, h, bcount)
            else skein_loop small data (buf, ptr, h, bcount, first)))"
  by pat_completeness auto
termination
  by (relation "measure (\<lambda>(small, data, s). length data)") (auto split: if_splits)

declare skein_loop.simps [simp del]

definition skein_big_core :: "bool \<Rightarrow> skein_ctx \<Rightarrow> bytes \<Rightarrow> skein_ctx option" where
  "skein_big_core small sc data =
     (let buf = sk_buf sc; ptr = sk_ptr sc
      in if 64 < ptr then None
         else if length data \<le> 64 - ptr
         then memcpy_in buf ptr data \<bind> (\<lambda>buf. Some (sc\<lparr>sk_buf := buf, sk_ptr := ptr + length data\<rparr>))
         else let first = (if sk_bcount sc = 0 then push_bit 7 1 else 0)
              in skein_loop small data (buf, ptr, sk_h sc, sk_bcount sc, first) \<bind> (\<lambda>(buf, ptr, h, bcount).
                 Some (sc\<lparr>sk_buf := buf, sk_ptr := ptr, sk_h := h, sk_bcount := bcount\<rparr>)))"

fun skein_put :: "nat list \<Rightarrow> u64 list \<Rightarrow> bytes \<Rightarrow> bytes option" where
  "skein_put [] h buf = Some buf"
| "skein_put (u # us) h buf = memcpy_in buf u (sph_enc64le (h ! (u div 8))) \<bind> skein_put us h"

definition skein_big_close :: "bool \<Rightarrow> skein_ctx \<Rightarrow> u32 \<Rightarrow> nat \<Rightarrow> nat \<Rightarrow> (skein_ctx \<times> bytes) option" where
  \<comment> \<open>the chain value is not written back to the context\<close>
  "skein_big_close small sc ub n out_len =
     (if n \<noteq> 0 then skein_big_core small sc [sph_pad_byte ub n] else Some sc) \<bind> (\<lambda>sc.
      let ptr = sk_ptr sc; h = sk_h sc; bcount = sk_bcount sc
      in (if 64 < ptr then None else memset_in (sk_buf sc) ptr 0 (64 - ptr)) \<bind> (\<lambda>buf.
         let et = 352 + (if bcount = 0 then push_bit 7 1 else 0) + (if n \<noteq> 0 then 1 else 0);
             h = UBI small et ptr buf h bcount
         in memset_in buf 0 0 64 \<bind> (\<lambda>buf.
            let h = UBI small 510 8 buf h 0
            in skein_put (if small then filter (\<lambda>u. u mod 8 = 0) [0..<out_len] else [0, 8, 16, 24, 32, 40, 48, 56]) h buf \<bind> (\<lambda>buf.
               Some (sc\<lparr>sk_buf := buf\<rparr>, take out_len buf)))))"

section \<open>The four hashes\<close>

definition sph_skein224_init :: "skein_ctx \<Rightarrow> skein_ctx" where
  "sph_skein224_init sc = skein_big_init sc skein_IV224"

definition sph_skein224 :: "bool \<Rightarrow> skein_ctx \<Rightarrow> bytes \<Rightarrow> skein_ctx option" where
  "sph_skein224 small sc data = skein_big_core small sc data"

definition sph_skein224_addbits_and_close :: "bool \<Rightarrow> skein_ctx \<Rightarrow> u32 \<Rightarrow> nat \<Rightarrow> (skein_ctx \<times> bytes) option" where
  "sph_skein224_addbits_and_close small sc ub n = skein_big_close small sc ub n 28"

definition sph_skein224_close :: "bool \<Rightarrow> skein_ctx \<Rightarrow> (skein_ctx \<times> bytes) option" where
  "sph_skein224_close small sc = sph_skein224_addbits_and_close small sc 0 0"

definition sph_skein256_init :: "skein_ctx \<Rightarrow> skein_ctx" where
  "sph_skein256_init sc = skein_big_init sc skein_IV256"

definition sph_skein256 :: "bool \<Rightarrow> skein_ctx \<Rightarrow> bytes \<Rightarrow> skein_ctx option" where
  "sph_skein256 small sc data = skein_big_core small sc data"

definition sph_skein256_addbits_and_close :: "bool \<Rightarrow> skein_ctx \<Rightarrow> u32 \<Rightarrow> nat \<Rightarrow> (skein_ctx \<times> bytes) option" where
  "sph_skein256_addbits_and_close small sc ub n = skein_big_close small sc ub n 32"

definition sph_skein256_close :: "bool \<Rightarrow> skein_ctx \<Rightarrow> (skein_ctx \<times> bytes) option" where
  "sph_skein256_close small sc = sph_skein256_addbits_and_close small sc 0 0"

definition sph_skein384_init :: "skein_ctx \<Rightarrow> skein_ctx" where
  "sph_skein384_init sc = skein_big_init sc skein_IV384"

definition sph_skein384 :: "bool \<Rightarrow> skein_ctx \<Rightarrow> bytes \<Rightarrow> skein_ctx option" where
  "sph_skein384 small sc data = skein_big_core small sc data"

definition sph_skein384_addbits_and_close :: "bool \<Rightarrow> skein_ctx \<Rightarrow> u32 \<Rightarrow> nat \<Rightarrow> (skein_ctx \<times> bytes) option" where
  "sph_skein384_addbits_and_close small sc ub n = skein_big_close small sc ub n 48"

definition sph_skein384_close :: "bool \<Rightarrow> skein_ctx \<Rightarrow> (skein_ctx \<times> bytes) option" where
  "sph_skein384_close small sc = sph_skein384_addbits_and_close small sc 0 0"

definition sph_skein512_init :: "skein_ctx \<Rightarrow> skein_ctx" where
  "sph_skein512_init sc = skein_big_init sc skein_IV512"

definition sph_skein512 :: "bool \<Rightarrow> skein_ctx \<Rightarrow> bytes \<Rightarrow> skein_ctx option" where
  "sph_skein512 small sc data = skein_big_core small sc data"

definition sph_skein512_addbits_and_close :: "bool \<Rightarrow> skein_ctx \<Rightarrow> u32 \<Rightarrow> nat \<Rightarrow> (skein_ctx \<times> bytes) option" where
  "sph_skein512_addbits_and_close small sc ub n = skein_big_close small sc ub n 64"

definition sph_skein512_close :: "bool \<Rightarrow> skein_ctx \<Rightarrow> (skein_ctx \<times> bytes) option" where
  "sph_skein512_close small sc = sph_skein512_addbits_and_close small sc 0 0"

section \<open>The compression is Threefish in UBI mode\<close>

lemma TFBIG_MIX_eq:
  "a \<noteq> b \<Longrightarrow> a < length p \<Longrightarrow> rc < 64 \<Longrightarrow>
   TFBIG_MIX a b rc p = (let y = p ! a + p ! b in p[a := y, b := word_rotl rc (p ! b) XOR y])"
  by (simp add: TFBIG_MIX_def ROTL64_rotl Let_def)

lemma TFBIG_mixes_eq:
  "length p = 8 \<Longrightarrow> TFBIG_mixes_e p = tf_mixes [6, 1, 0, 7, 2, 5, 4, 3] [44, 9, 54, 56]
     (tf_mixes [4, 1, 6, 3, 0, 5, 2, 7] [17, 49, 36, 39] (tf_mixes [2, 1, 4, 7, 6, 5, 0, 3] [33, 27, 14, 42]
     (tf_mixes [0, 1, 2, 3, 4, 5, 6, 7] [46, 36, 19, 37] p)))"
  "length p = 8 \<Longrightarrow> TFBIG_mixes_o p = tf_mixes [6, 1, 0, 7, 2, 5, 4, 3] [8, 35, 56, 22]
     (tf_mixes [4, 1, 6, 3, 0, 5, 2, 7] [25, 29, 39, 43] (tf_mixes [2, 1, 4, 7, 6, 5, 0, 3] [13, 50, 10, 17]
     (tf_mixes [0, 1, 2, 3, 4, 5, 6, 7] [39, 30, 34, 24] p)))"
proof -
  have m: "TFBIG_MIX8 w rc q = tf_mixes w rc q"
    if "length q = 8" "w ! 0 \<noteq> w ! 1" "w ! 2 \<noteq> w ! 3" "w ! 4 \<noteq> w ! 5" "w ! 6 \<noteq> w ! 7"
      "w ! 0 < 8" "w ! 2 < 8" "w ! 4 < 8" "w ! 6 < 8" "rc ! 0 < 64" "rc ! 1 < 64" "rc ! 2 < 64" "rc ! 3 < 64" for w rc q
    using that by (simp add: TFBIG_MIX8_def tf_mixes_def TFBIG_MIX_eq upt_0_4 Let_def)
  show "length p = 8 \<Longrightarrow> TFBIG_mixes_e p = tf_mixes [6, 1, 0, 7, 2, 5, 4, 3] [44, 9, 54, 56]
     (tf_mixes [4, 1, 6, 3, 0, 5, 2, 7] [17, 49, 36, 39] (tf_mixes [2, 1, 4, 7, 6, 5, 0, 3] [33, 27, 14, 42]
     (tf_mixes [0, 1, 2, 3, 4, 5, 6, 7] [46, 36, 19, 37] p)))"
    "length p = 8 \<Longrightarrow> TFBIG_mixes_o p = tf_mixes [6, 1, 0, 7, 2, 5, 4, 3] [8, 35, 56, 22]
     (tf_mixes [4, 1, 6, 3, 0, 5, 2, 7] [25, 29, 39, 43] (tf_mixes [2, 1, 4, 7, 6, 5, 0, 3] [13, 50, 10, 17]
     (tf_mixes [0, 1, 2, 3, 4, 5, 6, 7] [39, 30, 34, 24] p)))"
    by (simp_all add: TFBIG_mixes_e_def TFBIG_mixes_o_def Let_def m)
qed

lemma skein_tables:
  "skein_M9 = map (\<lambda>s. map (\<lambda>i. (s + i) mod 9) [0..<8]) [0..<19]"
  "skein_M3 = map (\<lambda>s. map (\<lambda>i. (s + i) mod 3) [0..<2]) [0..<19]"
  by code_simp+

lemma SK_index:
  "s < 19 \<Longrightarrow> i < 8 \<Longrightarrow> SKBI k s i = k ! ((s + i) mod 9)" "s < 19 \<Longrightarrow> i < 2 \<Longrightarrow> SKBT t s i = t ! ((s + i) mod 3)"
  by (simp_all add: SKBI_def SKBT_def skein_tables del: upt_Suc)

lemma TFBIG_ADDKEY_subkey:
  "length p = 8 \<Longrightarrow> s < 19 \<Longrightarrow> TFBIG_ADDKEY k t s p = map2 (+) p (tf_subkey k t s)"
  by (elim list8) (simp add: TFBIG_ADDKEY_def tf_subkey_def upt_0_8 SK_index add.assoc)

lemma TFBIG_ADDKEY_small_subkey:
  assumes "length p = 8" "\<And>i. i < 8 \<Longrightarrow> h ! (s + i) = k ! ((s + i) mod 9)"
  shows "TFBIG_ADDKEY_small h s (t ! (s mod 3)) (t ! ((s + 1) mod 3)) p = map2 (+) p (tf_subkey k t s)"
  using assms(1) assms(2) [of 0] assms(2) [of 1] assms(2) [of 2] assms(2) [of 3] assms(2) [of 4] assms(2) [of 5]
    assms(2) [of 6] assms(2) [of 7]
  by (elim list8) (simp add: TFBIG_ADDKEY_small_def tf_subkey_def upt_0_8 add.assoc)

lemma TFBIG_mixes_four:
  "length p = 8 \<Longrightarrow> even s \<Longrightarrow> TFBIG_mixes_e (map2 (+) p (tf_subkey k t s)) = tf_four k t s p"
  "length p = 8 \<Longrightarrow> odd s \<Longrightarrow> TFBIG_mixes_o (map2 (+) p (tf_subkey k t s)) = tf_four k t s p"
  using tf_four_mixes [of p s] by (simp_all add: TFBIG_mixes_eq tf_rotations_def)

lemma TFBIG_four:
  "length p = 8 \<Longrightarrow> even s \<Longrightarrow> s < 18 \<Longrightarrow> TFBIG_4e k t s p = tf_four k t s p"
  "length p = 8 \<Longrightarrow> odd s \<Longrightarrow> s < 18 \<Longrightarrow> TFBIG_4o k t s p = tf_four k t s p"
  by (simp_all add: TFBIG_4e_def TFBIG_4o_def TFBIG_ADDKEY_subkey TFBIG_mixes_four)

lemma UBI_words_words: "UBI_words buf = skein_words buf"
  by (simp add: UBI_words_def skein_words_def upt_0_8)

lemma KINIT_key:
  "length h = 8 \<Longrightarrow> TFBIG_KINIT h t0 t1 = (c, t2) \<Longrightarrow> h @ [c] = tf_key h \<and> [t0, t1, t2] = tf_tweak (t0, t1)"
  by (elim list8) (auto simp: TFBIG_KINIT_def tf_key_def ac_simps)

lemma feed_forward:
  "length p = 8 \<Longrightarrow> length m = 8 \<Longrightarrow> map (\<lambda>i. m ! i XOR p ! i) [0, 1, 2, 3, 4, 5, 6, 7] = map2 (XOR) p (m :: u64 list)"
  by (elim list8) (simp add: xor.commute)

lemma UBI_BIG_block:
  assumes "length h = 8"
  shows "UBI_BIG et ex buf h bc = ubi_block (UBI_tweak et ex bc) buf h"
proof -
  obtain t0 t1 where t: "UBI_tweak et ex bc = (t0, t1)" by fastforce
  obtain c t2 where k: "TFBIG_KINIT h t0 t1 = (c, t2)" by fastforce
  note key = KINIT_key [OF assms k, THEN conjunct1] KINIT_key [OF assms k, THEN conjunct2]
  show ?thesis
    unfolding UBI_BIG_def Let_def t prod.case k key UBI_words_words
    by (subst feed_forward) (simp_all add: TFBIG_four TFBIG_ADDKEY_subkey ubi_block_def threefish_fours upt_0_18 Let_def
      del: tf_tweak.simps)
qed

lemma extended_key:
  assumes "length h = 8"
  shows "fold (\<lambda>u h. h[u + 9 := h ! (u + 0), u + 10 := h ! (u + 1), u + 11 := h ! (u + 2)]) [0, 3, 6, 9, 12, 15]
      (h @ [c] @ replicate 18 0) = (h @ [c]) @ (h @ [c]) @ (h @ [c :: u64])"
proof -
  have "replicate 18 0 = [0, 0, 0, 0, 0, 0, 0, 0, 0, 0, 0, 0, 0, 0, 0, 0, 0, 0 :: u64]" by (simp add: numeral_eq_Suc)
  then show ?thesis using assms by (elim list8) simp
qed

lemma thrice_nth: "length k = 9 \<Longrightarrow> j < 27 \<Longrightarrow> (k @ k @ k) ! j = k ! (j mod 9)"
  by (simp add: nth_append le_mod_geq)

lemma UBI_small_steps:
  assumes "length k = 9" "length p = 8" "n \<le> 9"
  shows "fold (UBI_small_step (k @ k @ k)) [0..<n] (p, t ! 0, t ! 1, t ! 2)
    = (fold (tf_four k t) [0..<2 * n] p, t ! (2 * n mod 3), t ! ((2 * n + 1) mod 3), t ! ((2 * n + 2) mod 3))"
  using assms(3)
proof (induction n)
  case (Suc n)
  let ?p = "fold (tf_four k t) [0..<2 * n] p"
  have len: "length ?p = 8" unfolding fold_fours by (rule length_tf_rounds [OF assms(2)])
  have k: "(k @ k @ k) ! (s + i) = k ! ((s + i) mod 9)" if "i < 8" "s \<le> 18" for s i
    using that by (intro thrice_nth [OF assms(1)]) simp
  have m: "(2 * n + 1 + 1) mod 3 = (2 * n + 2) mod 3" "2 * Suc n mod 3 = (2 * n + 2) mod 3" "(2 * Suc n + 1) mod 3 = 2 * n mod 3"
    "(2 * Suc n + 2) mod 3 = (2 * n + 1) mod 3" "(4 + 2 * n) mod 3 = Suc (2 * n) mod 3" by presburger+
  have u: "push_bit 1 n = 2 * n" by (simp add: push_bit_eq_mult)
  have "UBI_small_step (k @ k @ k) n (?p, t ! (2 * n mod 3), t ! ((2 * n + 1) mod 3), t ! ((2 * n + 2) mod 3))
      = (tf_four k t (2 * n + 1) (tf_four k t (2 * n) ?p), t ! ((2 * n + 2) mod 3), t ! (2 * n mod 3), t ! ((2 * n + 1) mod 3))"
    using TFBIG_ADDKEY_small_subkey [OF len k, of "2 * n" t] Suc.prems
      TFBIG_ADDKEY_small_subkey [OF length_tf_four k, of "2 * n + 1" t k t "2 * n" ?p]
    unfolding UBI_small_step_def Let_def prod.case u
    by (simp add: TFBIG_mixes_four len m)
  then show ?case using Suc by (simp add: m)
qed (simp add: numeral_2_eq_2)

lemma UBI_block:
  assumes "length h = 8"
  shows "UBI small et ex buf h bc = ubi_block (UBI_tweak et ex bc) buf h"
proof -
  obtain t0 t1 where t: "UBI_tweak et ex bc = (t0, t1)" by fastforce
  obtain c t2 where k: "TFBIG_KINIT h t0 t1 = (c, t2)" by fastforce
  note key = KINIT_key [OF assms k, THEN conjunct1] KINIT_key [OF assms k, THEN conjunct2]
  define K T where "K = h @ [c]" and "T = [t0, t1, t2]"
  have K: "length K = 9" using assms by (simp add: K_def)
  have T: "t0 = T ! 0" "t1 = T ! 1" "t2 = T ! 2" by (simp_all add: T_def)
  let ?p = "fold (tf_four K T) [0..<18] (skein_words buf)"
  have len: "length ?p = 8" using fold_fours [of K T 18] length_tf_rounds by simp
  have loop: "fold (UBI_small_step (K @ K @ K)) [0..<9] (skein_words buf, t0, t1, t2) = (?p, t0, t1, t2)"
    unfolding T using UBI_small_steps [OF K length_skein_words, of 9 buf T] by simp
  have key18: "TFBIG_ADDKEY_small (K @ K @ K) 18 t0 t1 ?p = map2 (+) ?p (tf_subkey K T 18)"
    using TFBIG_ADDKEY_small_subkey [OF len, of "K @ K @ K" 18 K T] thrice_nth [OF K] by (simp add: T)
  have "UBI_BIG_small et ex buf h bc = ubi_block (UBI_tweak et ex bc) buf h"
    unfolding UBI_BIG_small_def Let_def t prod.case k UBI_words_words extended_key [OF assms] K_def [symmetric]
      loop [unfolded K_def T_def, folded K_def]
    unfolding ubi_block_def threefish_fours key [symmetric] Let_def K_def [symmetric] T_def [symmetric]
    unfolding key18
    by (rule feed_forward) (simp_all add: len)
  then show ?thesis by (simp add: UBI_def t UBI_BIG_block [OF assms])
qed

lemma UBI_tweak_skein:
  assumes "64 * unat bc + ex < 2 ^ 64" "ty < 64"
    and et: "et = of_bool pad + 2 * ty + 128 * of_bool first + 256 * of_bool final"
  shows "UBI_tweak et ex bc = skein_tweak (64 * unat bc + ex) pad ty first final"
proof -
  let ?T = "64 * unat bc + ex + 2 ^ 64 * (2 ^ 55 * et)"
  have T: "64 * unat bc + ex + 2 ^ 119 * of_bool pad + 2 ^ 120 * ty + 2 ^ 126 * of_bool first + 2 ^ 127 * of_bool final = ?T"
    unfolding et by (simp add: algebra_simps)
  have "unat bc < 2 ^ 58" using assms(1) by simp
  then have "unat (drop_bit 58 bc) = 0" by (simp add: drop_bit_eq_div unat_div)
  then have "drop_bit 58 bc = 0" by (simp only: unat_eq_zero)
  moreover have "?T div 2 ^ 64 = 2 ^ 55 * et" using assms(1) by simp
  moreover have "(of_nat ?T :: u64) = push_bit 6 bc + of_nat ex"
  proof -
    have "(of_nat ?T :: u64) = of_nat (64 * unat bc + ex) + 2 ^ 64 * of_nat (2 ^ 55 * et)"
      by (simp only: of_nat_add of_nat_mult of_nat_power of_nat_numeral)
    also have "(2 ^ 64 :: u64) = 0" by simp
    finally show ?thesis unfolding mult_zero_left add_0_right by (simp add: push_bit_eq_mult mult.commute)
  qed
  moreover have "push_bit 55 (of_nat et) = (of_nat (2 ^ 55 * et) :: u64)" by (simp add: push_bit_eq_mult)
  ultimately show ?thesis unfolding UBI_tweak_def skein_tweak_def Let_def T by simp
qed

section \<open>What a context holds\<close>

lemma UBI_message_block:
  assumes "64 * Suc (unat bc) < 2 ^ 64" "length h = 8"
  shows "(UBI small (96 + (if bc = 0 then 128 else 0)) 0 buf h (bc + 1), unat (bc + 1)) = ubi_step 48 buf (h, unat bc)"
proof -
  have bc: "unat (bc + 1) = Suc (unat bc)" using assms(1) by (simp add: unat_plus_if')
  have "bc = 0 \<longleftrightarrow> unat bc = 0" by (simp add: unat_eq_zero)
  then show ?thesis
    using UBI_tweak_skein [of "bc + 1" 0 48 "96 + (if bc = 0 then 128 else 0)" False "bc = 0" False] assms bc
    by (cases "bc = 0") (simp_all add: UBI_block)
qed

lemma skein_loop_holds:
  assumes "length buf = 64" "ptr = length r" "ptr \<le> 64" "take ptr buf = r" "length h = 8" "data \<noteq> []"
  shows "\<exists>buf' h' bc'. skein_loop small data (buf, ptr, h, bc, first) = Some (buf', length (rest 64 64 (r @ data)), h', bc')
    \<and> length buf' = 64 \<and> take (length (rest 64 64 (r @ data))) buf' = rest 64 64 (r @ data) \<and> length h' = 8
    \<and> (64 * unat bc + length (r @ data) < 2 ^ 64 \<and> first = (if bc = 0 then 128 else 0)
       \<longrightarrow> (h', unat bc') = absorb 64 64 (ubi_step 48) (r @ data) (h, unat bc))"
  using assms
proof (induction data arbitrary: buf ptr r h bc first rule: measure_induct_rule [where f = length])
  case (less data)
  let ?f = "ubi_step 48"
  have "\<exists>ptr1 h1 bc1 first1 r1. (if ptr = 64 then (0, UBI small (96 + first) 0 buf h (bc + 1), bc + 1, 0) else (ptr, h, bc, first))
      = (ptr1, h1, bc1, first1) \<and> ptr1 < 64 \<and> ptr1 = length r1 \<and> take ptr1 buf = r1 \<and> length h1 = 8
      \<and> rest 64 64 (r @ data) = rest 64 64 (r1 @ data)
      \<and> (64 * unat bc + length (r @ data) < 2 ^ 64 \<and> first = (if bc = 0 then 128 else 0) \<longrightarrow>
         64 * unat bc1 + length (r1 @ data) < 2 ^ 64 \<and> first1 = (if bc1 = 0 then 128 else 0)
         \<and> absorb 64 64 ?f (r @ data) (h, unat bc) = absorb 64 64 ?f (r1 @ data) (h1, unat bc1))"
    (is "\<exists>ptr1 h1 bc1 first1 r1. ?step ptr1 h1 bc1 first1 r1")
  proof (cases "ptr = 64")
    case True
    then have r: "r = buf" "length r = 64" using less.prems by simp_all
    have data: "0 < length data" using less.prems(6) by simp
    let ?h = "UBI small (96 + first) 0 buf h (bc + 1)"
    have "64 * unat (bc + 1) + length data < 2 ^ 64 \<and> (bc + 1 \<noteq> 0)
        \<and> absorb 64 64 ?f (r @ data) (h, unat bc) = absorb 64 64 ?f data (?h, unat (bc + 1))"
      if b: "64 * unat bc + length (r @ data) < 2 ^ 64" "first = (if bc = 0 then 128 else 0)"
    proof -
      have b': "64 * Suc (unat bc) + length data < 2 ^ 64" using b(1) r by simp
      then have bc: "64 * Suc (unat bc) < 2 ^ 64" by linarith
      note blk = UBI_message_block [OF bc less.prems(5), of small buf, folded b(2)]
      have u: "unat (bc + 1) = Suc (unat bc)" using blk by simp
      then have "bc + 1 \<noteq> 0" by (metis nat.distinct(1) unat_0)
      then show ?thesis
        using b' u blk data less.prems(1) by (simp add: absorb_block [of 64 64 "buf @ data"] r(1) del: ubi_step.simps)
    qed
    then have "?step 0 ?h (bc + 1) 0 []"
      using True r data less.prems(1) by (simp add: rest_block [of 64 64 "buf @ data"] UBI_block less.prems(5))
    then show ?thesis by blast
  next
    case False
    then have "?step ptr h bc first r" using less.prems by simp
    then show ?thesis by blast
  qed
  then obtain ptr1 h1 bc1 first1 r1 where step: "?step ptr1 h1 bc1 first1 r1" by blast
  let ?clen = "min (64 - ptr1) (length data)"
  let ?buf = "take ptr1 buf @ take ?clen data @ drop (ptr1 + ?clen) buf"
  have "length (take ?clen data) = ?clen" "ptr1 + ?clen \<le> length buf" using step less.prems(1) by auto
  then have mc: "memcpy_in buf ptr1 (take ?clen data) = Some ?buf" by (simp only: memcpy_in_def if_True)
  have unf: "skein_loop small data (buf, ptr, h, bc, first) =
      (if drop ?clen data = [] then Some (?buf, ptr1 + ?clen, h1, bc1)
       else skein_loop small (drop ?clen data) (?buf, ptr1 + ?clen, h1, bc1, first1))"
  proof -
    have "\<not> 64 < ptr" using less.prems(3) by simp
    then show ?thesis
      by (simp only: skein_loop.simps [of small data] if_False step [THEN conjunct1] Let_def prod.case mc Option.bind.bind_lunit)
  qed
  have len: "length ?buf = 64" "take (ptr1 + ?clen) ?buf = r1 @ take ?clen data"
    using step less.prems(1) by auto
  show ?case
  proof (cases "length data \<le> 64 - ptr1")
    case True
    then have c: "?clen = length data" "length (r1 @ data) \<le> 64" using step by auto
    have "skein_loop small data (buf, ptr, h, bc, first) = Some (?buf, ptr1 + ?clen, h1, bc1)"
      unfolding unf by (simp add: c(1))
    moreover have "rest 64 64 (r @ data) = r1 @ data" "ptr1 + ?clen = length (r1 @ data)"
      "absorb 64 64 ?f (r1 @ data) (h1, unat bc1) = (h1, unat bc1)" using step c by auto
    moreover have "take (length (r1 @ data)) ?buf = r1 @ data" using len(2) c step by simp
    ultimately show ?thesis using step len(1) by auto
  next
    case False
    then have c: "?clen = 64 - ptr1" "drop ?clen data \<noteq> []" "length (drop ?clen data) < length data" using step by auto
    have r: "ptr1 + ?clen = length (r1 @ take ?clen data)" "ptr1 + ?clen \<le> 64" using c step by auto
    have app: "(r1 @ take ?clen data) @ drop ?clen data = r1 @ data" by simp
    show ?thesis
      using less.IH [OF c(3) len(1) r len(2) _ c(2), of h1 bc1 first1] step c(2) unfolding app unf
      by auto
  qed
qed

definition skein_holds :: "u64 list \<Rightarrow> skein_ctx \<Rightarrow> bytes \<Rightarrow> bool" where
  \<comment> \<open>the number of blocks is counted exactly for messages below \<open>2^64\<close> bytes\<close>
  "skein_holds iv sc m \<longleftrightarrow>
     length (sk_buf sc) = 64 \<and> sk_ptr sc = length (rest 64 64 m) \<and> take (sk_ptr sc) (sk_buf sc) = rest 64 64 m
     \<and> length (sk_h sc) = 8
     \<and> (length m < 2 ^ 64 \<longrightarrow> (sk_h sc, unat (sk_bcount sc)) = absorb 64 64 (ubi_step 48) m (iv, 0))"

definition skein_fresh :: "u64 list \<Rightarrow> skein_ctx \<Rightarrow> bool" where
  "skein_fresh iv sc \<longleftrightarrow> length (sk_buf sc) = 64 \<and> sk_ptr sc = 0 \<and> sk_h sc = iv \<and> sk_bcount sc = 0 \<and> length iv = 8"

lemma skein_fresh_holds: "skein_fresh iv sc \<Longrightarrow> skein_holds iv sc []"
  by (simp add: skein_fresh_def skein_holds_def)

lemma skein_core_holds:
  assumes S: "skein_holds iv sc m"
  shows "\<exists>sc'. skein_big_core small sc d = Some sc' \<and> skein_holds iv sc' (m @ d)"
proof -
  let ?r = "rest 64 64 m" and ?f = "ubi_step 48"
  note s = S [unfolded skein_holds_def]
  have p: "length ?r \<le> 64" by (rule rest_bound) simp
  have app: "rest 64 64 (m @ d) = rest 64 64 (?r @ d)"
    "absorb 64 64 ?f (m @ d) (iv, 0) = absorb 64 64 ?f (?r @ d) (absorb 64 64 ?f m (iv, 0))"
    by (simp_all add: rest_append [of 64 64 m d] absorb_append [of 64 64 ?f m d])
  show ?thesis
  proof (cases "length d \<le> 64 - length ?r")
    case True
    then have "length (?r @ d) \<le> 64" using p by simp
    then show ?thesis
      using True s p by (auto simp: skein_big_core_def skein_holds_def Let_def mem_simps app)
  next
    case False
    then have d: "d \<noteq> []" by auto
    let ?first = "if sk_bcount sc = 0 then push_bit 7 1 else 0 :: nat"
    have q: "length (sk_buf sc) = 64" "sk_ptr sc = length ?r" "sk_ptr sc \<le> 64" "take (sk_ptr sc) (sk_buf sc) = ?r"
      "length (sk_h sc) = 8" using s p by auto
    from skein_loop_holds [OF q d, of small "sk_bcount sc" ?first] obtain buf' h' bc' where loop:
      "skein_loop small d (sk_buf sc, sk_ptr sc, sk_h sc, sk_bcount sc, ?first) = Some (buf', length (rest 64 64 (?r @ d)), h', bc')"
      "length buf' = 64" "take (length (rest 64 64 (?r @ d))) buf' = rest 64 64 (?r @ d)" "length h' = 8"
      and chain: "64 * unat (sk_bcount sc) + length (?r @ d) < 2 ^ 64 \<and> ?first = (if sk_bcount sc = 0 then 128 else 0)
        \<longrightarrow> (h', unat bc') = absorb 64 64 ?f (?r @ d) (sk_h sc, unat (sk_bcount sc))"
      by blast
    have "?first = (if sk_bcount sc = 0 then 128 else 0)" by (simp add: push_bit_eq_mult)
    note chain = chain [rule_format, OF conjI, OF _ this]
    have "(h', unat bc') = absorb 64 64 ?f (m @ d) (iv, 0)" if "length (m @ d) < 2 ^ 64"
    proof -
      have v: "(sk_h sc, unat (sk_bcount sc)) = absorb 64 64 ?f m (iv, 0)" using s that by simp
      then have "64 * unat (sk_bcount sc) + length ?r = length m" using ubi_absorb_count [of 48 m iv 0] by (metis mult_0_right plus_nat.add_0 snd_conv)
      then show ?thesis using chain that by (simp add: app v)
    qed
    then show ?thesis
      using False loop s p by (auto simp: skein_big_core_def skein_holds_def Let_def app)
  qed
qed

section \<open>Closing\<close>

lemma filter_eights: "filter (\<lambda>u. u mod 8 = 0) [0..<out] = map ((*) 8) [0..<(out + 7) div 8]"
proof (induction out)
  case (Suc n)
  show ?case
  proof (cases "n mod 8 = 0")
    case True
    then have "(Suc n + 7) div 8 = Suc ((n + 7) div 8)" "8 * ((n + 7) div 8) = n" by presburger+
    then show ?thesis using True Suc by simp
  next
    case False
    then have "(Suc n + 7) div 8 = (n + 7) div 8" by presburger
    then show ?thesis using False Suc by simp
  qed
qed simp

lemma skein_put_words:
  "length buf = 64 \<Longrightarrow> length h = 8 \<Longrightarrow> j \<le> k \<Longrightarrow> k \<le> 8 \<Longrightarrow> skein_put (map ((*) 8) [j..<k]) h buf
    = Some (take (8 * j) buf @ concat (map sph_enc64le (take (k - j) (drop j h))) @ drop (8 * k) buf)"
proof (induction "k - j" arbitrary: j buf)
  case (Suc n)
  then have j: "j < k" "[j..<k] = j # [Suc j..<k]" "8 * j + 8 \<le> 64" by (simp_all add: upt_conv_Cons)
  let ?buf = "take (8 * j) buf @ sph_enc64le (h ! j) @ drop (8 * j + 8) buf"
  have mc: "memcpy_in buf (8 * j) (sph_enc64le (h ! j)) = Some ?buf"
    using Suc.prems(1) j by (simp add: mem_simps)
  have "skein_put (map ((*) 8) [Suc j..<k]) h ?buf
      = Some (take (8 * Suc j) ?buf @ concat (map sph_enc64le (take (k - Suc j) (drop (Suc j) h))) @ drop (8 * k) ?buf)"
    using Suc.hyps(2) Suc.prems j by (intro Suc.hyps(1)) simp_all
  moreover have "take (8 * Suc j) ?buf = take (8 * j) buf @ sph_enc64le (h ! j)" "drop (8 * k) ?buf = drop (8 * k) buf"
    using Suc.prems j by (simp_all add: min_absorb2)
  moreover have "take (k - j) (drop j h) = h ! j # take (k - Suc j) (drop (Suc j) h)"
    using Suc.prems j by (simp add: Cons_nth_drop_Suc [symmetric] Suc_diff_Suc [symmetric])
  ultimately show ?case using j by (simp add: mc)
qed simp

lemma skein_put_out:
  assumes "length buf = 64" "length h = 8" "out \<le> 64"
  shows "\<exists>buf'. skein_put (if small then filter (\<lambda>u. u mod 8 = 0) [0..<out] else [0, 8, 16, 24, 32, 40, 48, 56]) h buf = Some buf'
    \<and> take out buf' = take out (concat (map sph_enc64le h))"
proof -
  let ?k = "if small then (out + 7) div 8 else 8"
  have k: "?k \<le> 8" "out \<le> 8 * ?k" using assms(3) by auto
  have "map ((*) 8) [0..<8] = [0, 8, 16, 24, 32, 40, 48, 56 :: nat]" by (simp add: upt_0_8)
  then have us: "(if small then filter (\<lambda>u. u mod 8 = 0) [0..<out] else [0, 8, 16, 24, 32, 40, 48, 56]) = map ((*) 8) [0..<?k]"
    by (simp add: filter_eights)
  have "length (concat (map sph_enc64le x)) = 8 * length x" for x by (induction x) simp_all
  then have "length (concat (map sph_enc64le (take ?k h))) = 8 * ?k" using k(1) assms(2) by simp
  moreover have "concat (map sph_enc64le h) = concat (map sph_enc64le (take ?k h)) @ concat (map sph_enc64le (drop ?k h))"
    by (metis append_take_drop_id concat_append map_append)
  ultimately show ?thesis
    unfolding us using skein_put_words [of buf h 0 ?k] assms k by (simp del: if_split)
qed

lemma ubi_counter: "ubi 63 False (sph_enc64le 0) G = ubi_block (skein_tweak 8 False 63 True True) (replicate 64 0) G"
proof -
  have "sph_enc64le 0 @ replicate 56 0 = replicate 8 0 @ replicate 56 (0 :: u8)" by (simp add: sph_enc64le_def numeral_eq_Suc)
  then have "sph_enc64le 0 @ replicate 56 0 = replicate 64 (0 :: u8)" by (simp add: replicate_add [symmetric])
  then show ?thesis by (simp add: ubi_def)
qed

lemma skein_message:
  assumes "n < 8"
  shows "length (bits_of_bytes m @ top_bits n ub) mod 8 \<noteq> 0 \<longleftrightarrow> n \<noteq> 0"
    and "skein_bytes (bits_of_bytes m @ top_bits n ub) = (if n \<noteq> 0 then m @ [sph_pad_byte ub n] else m)"
proof -
  have l: "length (top_bits n ub) = n" by (simp add: top_bits_def)
  then show "length (bits_of_bytes m @ top_bits n ub) mod 8 \<noteq> 0 \<longleftrightarrow> n \<noteq> 0" using assms by simp
  let ?t = "top_bits n ub @ True # replicate (7 - n) False"
  have "bytes_of_bits ?t = [sph_pad_byte ub n]"
    using bytes_of_bits_byte [of ?t "[]"] assms by (simp add: l sph_pad_byte_bits)
  then show "skein_bytes (bits_of_bytes m @ top_bits n ub) = (if n \<noteq> 0 then m @ [sph_pad_byte ub n] else m)"
    using bytes_of_bits_of_bytes [of m "[]"] bytes_of_bits_of_bytes [of m ?t] assms l
    by (auto simp: skein_bytes_def)
qed

lemma skein_close_digest:
  assumes S: "skein_holds iv sc m" and n: "n < 8" and m: "length m + 1 < 2 ^ 64" and out: "0 < out" "out \<le> 64"
  shows "\<exists>sc'. skein_big_close small sc ub n out
    = Some (sc', skein_output out (skein_chain iv (bits_of_bytes m @ top_bits n ub)))"
proof -
  let ?M = "if n \<noteq> 0 then m @ [sph_pad_byte ub n] else m"
  obtain sc1 where sc1: "(if n \<noteq> 0 then skein_big_core small sc [sph_pad_byte ub n] else Some sc) = Some sc1"
    and S1: "skein_holds iv sc1 ?M"
    using S skein_core_holds [OF S, of small "[sph_pad_byte ub n]"] by (cases "n = 0") auto
  have M: "length ?M < 2 ^ 64" using m by auto
  define r h bc where "r = rest 64 64 ?M" and "h = sk_h sc1" and "bc = sk_bcount sc1"
  have s: "length (sk_buf sc1) = 64" "sk_ptr sc1 = length r" "take (length r) (sk_buf sc1) = r" "length h = 8"
    and v: "absorb 64 64 (ubi_step 48) ?M (iv, 0) = (h, unat bc)"
    using S1 M by (auto simp: skein_holds_def r_def h_def bc_def)
  have p: "length r \<le> 64" unfolding r_def by (rule rest_bound) simp
  have pos: "64 * unat bc + length r = length ?M" using ubi_absorb_count [of 48 ?M iv 0] v by (simp add: r_def)
  let ?buf = "r @ replicate (64 - length r) 0"
  let ?et = "352 + (if bc = 0 then push_bit 7 1 else 0) + (if n \<noteq> 0 then 1 else 0) :: nat"
  have et: "?et = of_bool (n \<noteq> 0) + 2 * 48 + 128 * of_bool (unat bc = 0) + 256 * of_bool True"
    by (simp add: push_bit_eq_mult unat_eq_zero)
  have ms: "memset_in (sk_buf sc1) (length r) 0 (64 - length r) = Some ?buf"
    using s p by (simp add: mem_simps)
  have "UBI_tweak ?et (length r) bc = skein_tweak (length ?M) (n \<noteq> 0) 48 (unat bc = 0) True"
    using UBI_tweak_skein [of bc "length r" 48 ?et "n \<noteq> 0" "unat bc = 0" True, OF _ _ et] M unfolding pos by simp
  then have h1: "UBI small ?et (length r) ?buf h bc = skein_chain iv (bits_of_bytes m @ top_bits n ub)"
    (is "_ = ?G") unfolding skein_chain_def skein_message [OF n] ubi_def v Let_def prod.case r_def [symmetric]
    by (simp add: UBI_block s(4))
  have G: "length ?G = 8" unfolding skein_chain_def ubi_def Let_def by (simp split: prod.split)
  have h2: "UBI small 510 8 (replicate 64 0) ?G 0 = ubi 63 False (sph_enc64le 0) ?G"
    using UBI_tweak_skein [of 0 8 63 510 False True True] by (simp add: UBI_block G ubi_counter)
  have G2: "length (ubi 63 False (sph_enc64le 0) ?G) = 8" by (simp add: ubi_counter)
  obtain buf' where put: "skein_put (if small then filter (\<lambda>u. u mod 8 = 0) [0..<out] else [0, 8, 16, 24, 32, 40, 48, 56])
      (ubi 63 False (sph_enc64le 0) ?G) (replicate 64 0) = Some buf'"
    "take out buf' = take out (concat (map sph_enc64le (ubi 63 False (sph_enc64le 0) ?G)))"
    using skein_put_out [of "replicate 64 0" "ubi 63 False (sph_enc64le 0) ?G" out small] G2 out by auto
  have "(out + 63) div 64 = 1" using out by simp
  then have o: "skein_output out ?G = take out buf'" by (simp add: skein_output_def put(2))
  have z: "memset_in ?buf 0 0 64 = Some (replicate 64 0)" using p by (simp add: mem_simps)
  have p': "\<not> 64 < length r" using p by simp
  show ?thesis
    unfolding skein_big_close_def sc1 Option.bind.bind_lunit Let_def s(2) h_def [symmetric] bc_def [symmetric] if_not_P [OF p']
      ms h1 z h2 put(1) o by blast
qed

section \<open>The four hashes as streams\<close>

lemma skein_init_fresh:
  "length (sk_buf sc) = 64 \<Longrightarrow> length iv = 8 \<Longrightarrow> skein_fresh iv (skein_big_init sc iv)"
  by (simp add: skein_fresh_def skein_big_init_def)

lemma skein_IV_config:
  "skein_config 224 = skein_IV224" "skein_config 256 = skein_IV256" "skein_config 384 = skein_IV384" "skein_config 512 = skein_IV512"
  by (simp_all only: skein_config_224 skein_config_256 skein_config_384 skein_config_512
    skein_IV224_def skein_IV256_def skein_IV384_def skein_IV512_def)

lemma length_skein_IV: "length skein_IV224 = 8" "length skein_IV256 = 8" "length skein_IV384 = 8" "length skein_IV512 = 8"
  by (simp_all add: skein_IV224_def skein_IV256_def skein_IV384_def skein_IV512_def)

lemma skein_close_whole:
  assumes "skein_holds iv sc m" "length m + 1 < 2 ^ 64" "0 < out" "out \<le> 64"
  shows "map_option snd (skein_big_close small sc 0 0 out) = Some (skein_output out (skein_chain iv (bits_of_bytes m)))"
  using skein_close_digest [OF assms(1) _ assms(2-4), of 0 small 0] by (auto simp: top_bits_def)

interpretation skein224: stream_hash "skein_fresh skein_IV224" "sph_skein224 small" "\<lambda>sc. map_option snd (sph_skein224_close small sc)"
  "skein_holds skein_IV224" "\<lambda>m. skein 224 (bits_of_bytes m)" "\<lambda>m. length m + 1 < 2 ^ 64"
proof
  show "skein_holds skein_IV224 s []" if "skein_fresh skein_IV224 s" for s
    using that by (rule skein_fresh_holds)
  show "\<exists>s'. sph_skein224 small s d = Some s' \<and> skein_holds skein_IV224 s' (m @ d)" if "skein_holds skein_IV224 s m" for s m d
    unfolding sph_skein224_def using that by (rule skein_core_holds)
  show "map_option snd (sph_skein224_close small s) = Some (skein 224 (bits_of_bytes m))"
    if "skein_holds skein_IV224 s m" "length m + 1 < 2 ^ 64" for s m
    using skein_close_whole [OF that, of 28 small]
    by (simp add: sph_skein224_close_def sph_skein224_addbits_and_close_def skein_def skein_IV_config)
qed

interpretation skein256: stream_hash "skein_fresh skein_IV256" "sph_skein256 small" "\<lambda>sc. map_option snd (sph_skein256_close small sc)"
  "skein_holds skein_IV256" "\<lambda>m. skein 256 (bits_of_bytes m)" "\<lambda>m. length m + 1 < 2 ^ 64"
proof
  show "skein_holds skein_IV256 s []" if "skein_fresh skein_IV256 s" for s
    using that by (rule skein_fresh_holds)
  show "\<exists>s'. sph_skein256 small s d = Some s' \<and> skein_holds skein_IV256 s' (m @ d)" if "skein_holds skein_IV256 s m" for s m d
    unfolding sph_skein256_def using that by (rule skein_core_holds)
  show "map_option snd (sph_skein256_close small s) = Some (skein 256 (bits_of_bytes m))"
    if "skein_holds skein_IV256 s m" "length m + 1 < 2 ^ 64" for s m
    using skein_close_whole [OF that, of 32 small]
    by (simp add: sph_skein256_close_def sph_skein256_addbits_and_close_def skein_def skein_IV_config)
qed

interpretation skein384: stream_hash "skein_fresh skein_IV384" "sph_skein384 small" "\<lambda>sc. map_option snd (sph_skein384_close small sc)"
  "skein_holds skein_IV384" "\<lambda>m. skein 384 (bits_of_bytes m)" "\<lambda>m. length m + 1 < 2 ^ 64"
proof
  show "skein_holds skein_IV384 s []" if "skein_fresh skein_IV384 s" for s
    using that by (rule skein_fresh_holds)
  show "\<exists>s'. sph_skein384 small s d = Some s' \<and> skein_holds skein_IV384 s' (m @ d)" if "skein_holds skein_IV384 s m" for s m d
    unfolding sph_skein384_def using that by (rule skein_core_holds)
  show "map_option snd (sph_skein384_close small s) = Some (skein 384 (bits_of_bytes m))"
    if "skein_holds skein_IV384 s m" "length m + 1 < 2 ^ 64" for s m
    using skein_close_whole [OF that, of 48 small]
    by (simp add: sph_skein384_close_def sph_skein384_addbits_and_close_def skein_def skein_IV_config)
qed

interpretation skein512: stream_hash "skein_fresh skein_IV512" "sph_skein512 small" "\<lambda>sc. map_option snd (sph_skein512_close small sc)"
  "skein_holds skein_IV512" "\<lambda>m. skein 512 (bits_of_bytes m)" "\<lambda>m. length m + 1 < 2 ^ 64"
proof
  show "skein_holds skein_IV512 s []" if "skein_fresh skein_IV512 s" for s
    using that by (rule skein_fresh_holds)
  show "\<exists>s'. sph_skein512 small s d = Some s' \<and> skein_holds skein_IV512 s' (m @ d)" if "skein_holds skein_IV512 s m" for s m d
    unfolding sph_skein512_def using that by (rule skein_core_holds)
  show "map_option snd (sph_skein512_close small s) = Some (skein 512 (bits_of_bytes m))"
    if "skein_holds skein_IV512 s m" "length m + 1 < 2 ^ 64" for s m
    using skein_close_whole [OF that, of 64 small]
    by (simp add: sph_skein512_close_def sph_skein512_addbits_and_close_def skein_def skein_IV_config)
qed

text \<open>From a fresh context through an update in pieces to closing with extra bits.\<close>

lemma skein_feed_close:
  assumes up: "\<exists>sc'. feed upd sc ds = Some sc' \<and> skein_holds iv sc' (concat ds)"
    and n: "n < 8" "length (concat ds) + 1 < 2 ^ 64" "0 < out" "out \<le> 64"
  shows "feed upd sc ds \<bind> (\<lambda>sc. map_option snd (skein_big_close small sc ub n out))
    = Some (skein_output out (skein_chain iv (bits_of_bytes (concat ds) @ top_bits n ub)))"
proof -
  obtain sc' where sc': "feed upd sc ds = Some sc'" "skein_holds iv sc' (concat ds)" using up by blast
  from skein_close_digest [OF sc'(2) n, of small ub] show ?thesis unfolding sc'(1) by auto
qed

definition skein_blank :: "u64 \<Rightarrow> skein_ctx" where
  \<comment> \<open>a context for the witnesses\<close>
  "skein_blank x = \<lparr>sk_buf = replicate 64 7, sk_ptr = 3, sk_h = [x], sk_bcount = x\<rparr>"

section \<open>Properties\<close>

text \<open>
  C10: initialise, update in pieces of any size, add up to 7 bits and close: the four functions are
  Skein-512 with outputs of 224, 256, 384 and 512 bits, for messages below \<open>2^64 - 1\<close> bytes and in
  both compilations. The initial values of the file are what the configuration block gives.
\<close>

theorem sph_skein_is_skein:
  assumes "length (sk_buf sc) = 64" "n < 8" "length (concat ds) + 1 < 2 ^ 64"
  shows
    "feed (sph_skein224 small) (sph_skein224_init sc) ds
       \<bind> (\<lambda>sc. map_option snd (sph_skein224_addbits_and_close small sc ub n))
     = Some (skein 224 (bits_of_bytes (concat ds) @ top_bits n ub)) \<and>
    feed (sph_skein256 small) (sph_skein256_init sc) ds
       \<bind> (\<lambda>sc. map_option snd (sph_skein256_addbits_and_close small sc ub n))
     = Some (skein 256 (bits_of_bytes (concat ds) @ top_bits n ub)) \<and>
    feed (sph_skein384 small) (sph_skein384_init sc) ds
       \<bind> (\<lambda>sc. map_option snd (sph_skein384_addbits_and_close small sc ub n))
     = Some (skein 384 (bits_of_bytes (concat ds) @ top_bits n ub)) \<and>
    feed (sph_skein512 small) (sph_skein512_init sc) ds
       \<bind> (\<lambda>sc. map_option snd (sph_skein512_addbits_and_close small sc ub n))
     = Some (skein 512 (bits_of_bytes (concat ds) @ top_bits n ub))"
proof -
  note init = skein_init_fresh [OF assms(1)]
  note up = skein224.feed_fresh [OF init [OF length_skein_IV(1)]] skein256.feed_fresh [OF init [OF length_skein_IV(2)]]
    skein384.feed_fresh [OF init [OF length_skein_IV(3)]] skein512.feed_fresh [OF init [OF length_skein_IV(4)]]
  show ?thesis
    using skein_feed_close [where out = 28 and small = small and ub = ub, OF up(1) [where small = small and ds = ds] assms(2,3)]
      skein_feed_close [where out = 32 and small = small and ub = ub, OF up(2) [where small = small and ds = ds] assms(2,3)]
      skein_feed_close [where out = 48 and small = small and ub = ub, OF up(3) [where small = small and ds = ds] assms(2,3)]
      skein_feed_close [where out = 64 and small = small and ub = ub, OF up(4) [where small = small and ds = ds] assms(2,3)]
    by (simp add: skein_def skein_IV_config sph_skein224_init_def sph_skein256_init_def sph_skein384_init_def sph_skein512_init_def
      sph_skein224_addbits_and_close_def sph_skein256_addbits_and_close_def sph_skein384_addbits_and_close_def
      sph_skein512_addbits_and_close_def)
qed

theorem sph_skein_is_skein_witness:
  "feed (sph_skein256 True) (sph_skein256_init (skein_blank 9)) [[1, 2], replicate 140 9]
     \<bind> (\<lambda>sc. map_option snd (sph_skein256_addbits_and_close True sc 0xA0 3))
   = Some (skein 256 (bits_of_bytes ([1, 2] @ replicate 140 9) @ top_bits 3 0xA0))"
  using sph_skein_is_skein [of "skein_blank 9" 3 "[[1, 2], replicate 140 9]" True "0xA0"]
  by (simp add: skein_blank_def)

end
