(* ===== verification/C_Skein.thy ===== *)
theory C_Skein
  imports Sph_Skein
begin

text \<open>
  \<^verbatim>\<open>src/crypto/cn/c_skein.c\<close>: Skein-512 as CryptoNight uses it to finish a hash, with an output of
  any length; the unrolled block function (\<open>SKEIN_UNROLL_512\<close> is 0), without the run-time checks
  (\<open>SKEIN_ERR_CHECK\<close> is not defined), and the portable byte-order routines of
  \<^verbatim>\<open>src/crypto/cn/skein_port.h\<close>, for which a little-endian machine has \<open>memcpy\<close>. The header of the
  context and the context are one record; \<open>T[0]\<close> and \<open>T[1]\<close> are \<open>sT0\<close> and \<open>sT1\<close>.
\<close>

section \<open>Words and the tweak\<close>

definition Skein_Get64_LSB_First :: "bytes \<Rightarrow> nat \<Rightarrow> u64 list" where
  "Skein_Get64_LSB_First src wCnt = map (\<lambda>n.
     ucast (src ! n) + push_bit 8 (ucast (src ! (n + 1))) + push_bit 16 (ucast (src ! (n + 2)))
     + push_bit 24 (ucast (src ! (n + 3))) + push_bit 32 (ucast (src ! (n + 4))) + push_bit 40 (ucast (src ! (n + 5)))
     + push_bit 48 (ucast (src ! (n + 6))) + push_bit 56 (ucast (src ! (n + 7)))) (map ((*) 8) [0..<wCnt])"

definition Skein_Put64_LSB_First :: "u64 list \<Rightarrow> nat \<Rightarrow> bytes" where
  \<comment> \<open>the bytes written to \<open>dst\<close>\<close>
  "Skein_Put64_LSB_First src bCnt = map (\<lambda>n. ucast (drop_bit (8 * (n mod 8)) (src ! (n div 8)))) [0..<bCnt]"

definition SKEIN_512_IV_256 :: "u64 list" where
  "SKEIN_512_IV_256 =
    [0xCCD044A12FDB3E13, 0xE83590301A79A9EB, 0x55AEA0614F816E6F, 0x2A2767A4AE9B94DB,
     0xEC06025E74DD7683, 0xE7A436CDC4746251, 0xC36FBAF9393AD185, 0x3EEDBA1833EDFC13]"

definition SKEIN_T1_FLAG_FIRST :: u64 where "SKEIN_T1_FLAG_FIRST = push_bit 62 1"
definition SKEIN_T1_FLAG_FINAL :: u64 where "SKEIN_T1_FLAG_FINAL = push_bit 63 1"
definition SKEIN_T1_FLAG_BIT_PAD :: u64 where "SKEIN_T1_FLAG_BIT_PAD = push_bit 55 1"

definition SKEIN_T1_BLK_TYPE :: "nat \<Rightarrow> u64" where
  "SKEIN_T1_BLK_TYPE T = push_bit 56 (of_nat T)"

record Skein_512_Ctxt =
  hashBitLen :: u64
  bCnt :: nat
  sT0 :: u64
  sT1 :: u64
  sX :: "u64 list"
  sb :: bytes

definition Skein_Start_New_Type :: "Skein_512_Ctxt \<Rightarrow> u64 \<Rightarrow> Skein_512_Ctxt" where
  "Skein_Start_New_Type ctx blk_type = ctx\<lparr>sT0 := 0, sT1 := SKEIN_T1_FLAG_FIRST OR blk_type, bCnt := 0\<rparr>"

section \<open>The block function\<close>

definition RotL_64 :: "u64 \<Rightarrow> nat \<Rightarrow> u64" where
  "RotL_64 x N = push_bit N x OR drop_bit (64 - N) x"

definition Round512_pair :: "nat \<Rightarrow> nat \<Rightarrow> nat \<Rightarrow> u64 list \<Rightarrow> u64 list" where
  \<comment> \<open>one of the four lines of \<open>Round512\<close>\<close>
  "Round512_pair p0 p1 rot X =
     (let X = X[p0 := X ! p0 + X ! p1];
          X = X[p1 := RotL_64 (X ! p1) rot]
      in X[p1 := X ! p1 XOR X ! p0])"

definition Round512 :: "nat list \<Rightarrow> nat list \<Rightarrow> u64 list \<Rightarrow> u64 list" where
  "Round512 p rot X =
     (let X = Round512_pair (p ! 0) (p ! 1) (rot ! 0) X;
          X = Round512_pair (p ! 2) (p ! 3) (rot ! 1) X;
          X = Round512_pair (p ! 4) (p ! 5) (rot ! 2) X
      in Round512_pair (p ! 6) (p ! 7) (rot ! 3) X)"

definition I512 :: "u64 list \<Rightarrow> u64 list \<Rightarrow> nat \<Rightarrow> u64 list \<Rightarrow> u64 list" where
  "I512 ks ts R X =
     [X ! 0 + ks ! ((R + 1) mod 9), X ! 1 + ks ! ((R + 2) mod 9), X ! 2 + ks ! ((R + 3) mod 9),
      X ! 3 + ks ! ((R + 4) mod 9), X ! 4 + ks ! ((R + 5) mod 9),
      X ! 5 + (ks ! ((R + 6) mod 9) + ts ! ((R + 1) mod 3)),
      X ! 6 + (ks ! ((R + 7) mod 9) + ts ! ((R + 2) mod 3)),
      X ! 7 + (ks ! ((R + 8) mod 9) + of_nat R + 1)]"

definition R_512 :: "nat list list" where
  "R_512 =
    [[46, 36, 19, 37], [33, 27, 14, 42], [17, 49, 36, 39], [44, 9, 54, 56],
     [39, 30, 34, 24], [13, 50, 10, 17], [25, 29, 39, 43], [8, 35, 56, 22]]"

definition R512_8_rounds :: "u64 list \<Rightarrow> u64 list \<Rightarrow> nat \<Rightarrow> u64 list \<Rightarrow> u64 list" where
  "R512_8_rounds ks ts R X =
     (let X = Round512 [0, 1, 2, 3, 4, 5, 6, 7] (R_512 ! 0) X;
          X = Round512 [2, 1, 4, 7, 6, 5, 0, 3] (R_512 ! 1) X;
          X = Round512 [4, 1, 6, 3, 0, 5, 2, 7] (R_512 ! 2) X;
          X = Round512 [6, 1, 0, 7, 2, 5, 4, 3] (R_512 ! 3) X;
          X = I512 ks ts (2 * R) X;
          X = Round512 [0, 1, 2, 3, 4, 5, 6, 7] (R_512 ! 4) X;
          X = Round512 [2, 1, 4, 7, 6, 5, 0, 3] (R_512 ! 5) X;
          X = Round512 [4, 1, 6, 3, 0, 5, 2, 7] (R_512 ! 6) X;
          X = Round512 [6, 1, 0, 7, 2, 5, 4, 3] (R_512 ! 7) X
      in I512 ks ts (2 * R + 1) X)"

definition Skein_512_one_block :: "u64 list \<Rightarrow> u64 \<Rightarrow> u64 \<Rightarrow> bytes \<Rightarrow> u64 list" where
  \<comment> \<open>from the key schedule to the feed-forward, with \<open>ts[0]\<close> updated already\<close>
  "Skein_512_one_block CX ts0 ts1 blkPtr =
     (let ks = CX @ [CX ! 0 XOR CX ! 1 XOR CX ! 2 XOR CX ! 3 XOR CX ! 4 XOR CX ! 5 XOR CX ! 6 XOR CX ! 7
                     XOR 0x1BD11BDAA9FC1A22];
          ts = [ts0, ts1, ts0 XOR ts1];
          w = Skein_Get64_LSB_First blkPtr 8;
          X = [w ! 0 + ks ! 0, w ! 1 + ks ! 1, w ! 2 + ks ! 2, w ! 3 + ks ! 3, w ! 4 + ks ! 4,
               w ! 5 + ks ! 5 + ts ! 0, w ! 6 + ks ! 6 + ts ! 1, w ! 7 + ks ! 7];
          X = R512_8_rounds ks ts 0 X; X = R512_8_rounds ks ts 1 X; X = R512_8_rounds ks ts 2 X;
          X = R512_8_rounds ks ts 3 X; X = R512_8_rounds ks ts 4 X; X = R512_8_rounds ks ts 5 X;
          X = R512_8_rounds ks ts 6 X; X = R512_8_rounds ks ts 7 X; X = R512_8_rounds ks ts 8 X
      in map (\<lambda>i. X ! i XOR w ! i) [0, 1, 2, 3, 4, 5, 6, 7])"

fun Skein_512_blocks :: "nat \<Rightarrow> Skein_512_Ctxt \<Rightarrow> bytes \<Rightarrow> nat \<Rightarrow> Skein_512_Ctxt option" where
  \<comment> \<open>the \<open>do\<close> loop; a count of 0, which would wrap, is \<open>None\<close>\<close>
  "Skein_512_blocks 0 ctx blkPtr byteCntAdd = None"
| "Skein_512_blocks (Suc n) ctx blkPtr byteCntAdd =
     read_in blkPtr 0 64 \<bind> (\<lambda>blk.
     let ts0 = sT0 ctx + of_nat byteCntAdd;
         ctx = ctx\<lparr>sX := Skein_512_one_block (sX ctx) ts0 (sT1 ctx) blk, sT0 := ts0,
                   sT1 := sT1 ctx AND NOT SKEIN_T1_FLAG_FIRST\<rparr>
     in if n = 0 then Some ctx else Skein_512_blocks n ctx (drop 64 blkPtr) byteCntAdd)"

definition Skein_512_Process_Block :: "Skein_512_Ctxt \<Rightarrow> bytes \<Rightarrow> nat \<Rightarrow> nat \<Rightarrow> Skein_512_Ctxt option" where
  "Skein_512_Process_Block ctx blkPtr blkCnt byteCntAdd = Skein_512_blocks blkCnt ctx blkPtr byteCntAdd"

section \<open>Initialisation, update and the end\<close>

definition Skein_512_Init :: "Skein_512_Ctxt \<Rightarrow> u64 \<Rightarrow> Skein_512_Ctxt option" where
  "Skein_512_Init ctx hbl =
     (let ctx = ctx\<lparr>hashBitLen := hbl\<rparr>
      in if hbl = 256 then Some (ctx\<lparr>sX := SKEIN_512_IV_256\<rparr>)
         else let ctx = Skein_Start_New_Type ctx (SKEIN_T1_BLK_TYPE 4 OR SKEIN_T1_FLAG_FINAL);
                  cfg = concat (map sph_enc64le [0x33414853 + push_bit 32 1, hbl, 0, 0, 0, 0, 0, 0]);
                  ctx = ctx\<lparr>sX := replicate 8 0\<rparr>
              in Skein_512_Process_Block ctx cfg 1 32) \<bind> (\<lambda>ctx.
     Some (Skein_Start_New_Type ctx (SKEIN_T1_BLK_TYPE 48)))"

definition Skein_fill :: "Skein_512_Ctxt \<Rightarrow> bytes \<Rightarrow> nat \<Rightarrow> (Skein_512_Ctxt \<times> bytes \<times> nat) option" where
  \<comment> \<open>finish up any buffered message data\<close>
  "Skein_fill ctx msg msgByteCnt =
     (if bCnt ctx \<noteq> 0
      then let n = 64 - bCnt ctx
           in (if n \<noteq> 0
               then read_in msg 0 n \<bind> (\<lambda>d. memcpy_in (sb ctx) (bCnt ctx) d \<bind> (\<lambda>b.
                    Some (ctx\<lparr>sb := b, bCnt := bCnt ctx + n\<rparr>, drop n msg, msgByteCnt - n)))
               else Some (ctx, msg, msgByteCnt)) \<bind> (\<lambda>(ctx, msg, msgByteCnt).
              Skein_512_Process_Block ctx (sb ctx) 1 64 \<bind> (\<lambda>ctx.
              Some (ctx\<lparr>bCnt := 0\<rparr>, msg, msgByteCnt)))
      else Some (ctx, msg, msgByteCnt))"

definition Skein_direct :: "Skein_512_Ctxt \<Rightarrow> bytes \<Rightarrow> nat \<Rightarrow> (Skein_512_Ctxt \<times> bytes \<times> nat) option" where
  \<comment> \<open>any remaining full blocks, directly from the input\<close>
  "Skein_direct ctx msg msgByteCnt =
     (if 64 < msgByteCnt
      then let n = (msgByteCnt - 1) div 64
           in Skein_512_Process_Block ctx msg n 64 \<bind> (\<lambda>ctx.
              Some (ctx, drop (n * 64) msg, msgByteCnt - n * 64))
      else Some (ctx, msg, msgByteCnt))"

definition Skein_512_Update :: "Skein_512_Ctxt \<Rightarrow> bytes \<Rightarrow> nat \<Rightarrow> Skein_512_Ctxt option" where
  "Skein_512_Update ctx msg msgByteCnt =
     (if 64 < msgByteCnt + bCnt ctx
      then Skein_fill ctx msg msgByteCnt \<bind> (\<lambda>(ctx, msg, msgByteCnt). Skein_direct ctx msg msgByteCnt)
      else Some (ctx, msg, msgByteCnt)) \<bind> (\<lambda>(ctx, msg, msgByteCnt).
     if msgByteCnt \<noteq> 0
     then read_in msg 0 msgByteCnt \<bind> (\<lambda>d. memcpy_in (sb ctx) (bCnt ctx) d \<bind> (\<lambda>b.
          Some (ctx\<lparr>sb := b, bCnt := bCnt ctx + msgByteCnt\<rparr>)))
     else Some ctx)"

function Skein_512_output :: "Skein_512_Ctxt \<Rightarrow> u64 list \<Rightarrow> nat \<Rightarrow> nat \<Rightarrow> bytes option" where
  \<comment> \<open>the loop that runs Threefish in counter mode, from counter \<open>i\<close> on; the bytes it writes\<close>
  "Skein_512_output ctx X byteCnt i =
     (if i * 64 < byteCnt
      then memcpy_in (sb ctx) 0 (sph_enc64le (of_nat i)) \<bind> (\<lambda>b.
           let ctx = Skein_Start_New_Type (ctx\<lparr>sb := b\<rparr>) (SKEIN_T1_BLK_TYPE 63 OR SKEIN_T1_FLAG_FINAL)
           in Skein_512_Process_Block ctx (sb ctx) 1 8 \<bind> (\<lambda>ctx.
              let n = byteCnt - i * 64; n = (if 64 \<le> n then 64 else n);
                  out = Skein_Put64_LSB_First (sX ctx) n;
                  ctx = ctx\<lparr>sX := X\<rparr>
              in map_option ((@) out) (Skein_512_output ctx X byteCnt (i + 1))))
      else Some [])"
  by pat_completeness auto
termination
  by (relation "measure (\<lambda>(ctx, X, byteCnt, i). byteCnt - i * 64)") auto

declare Skein_512_output.simps [simp del]

definition Skein_512_Final :: "Skein_512_Ctxt \<Rightarrow> bytes option" where
  \<comment> \<open>the bytes written to \<open>hashVal\<close>; nothing reads the context afterwards\<close>
  "Skein_512_Final ctx =
     (let ctx = ctx\<lparr>sT1 := sT1 ctx OR SKEIN_T1_FLAG_FINAL\<rparr>
      in (if bCnt ctx < 64
          then memset_in (sb ctx) (bCnt ctx) 0 (64 - bCnt ctx) \<bind> (\<lambda>b. Some (ctx\<lparr>sb := b\<rparr>))
          else Some ctx) \<bind> (\<lambda>ctx.
         Skein_512_Process_Block ctx (sb ctx) 1 (bCnt ctx) \<bind> (\<lambda>ctx.
         let byteCnt = unat (drop_bit 3 (hashBitLen ctx + 7))
         in memset_in (sb ctx) 0 0 64 \<bind> (\<lambda>b.
            Skein_512_output (ctx\<lparr>sb := b\<rparr>) (sX ctx) byteCnt 0))))"

section \<open>The interface\<close>

record hashState =
  statebits :: nat
  ctx_512 :: Skein_512_Ctxt

definition Skein_Init :: "hashState \<Rightarrow> u64 \<Rightarrow> hashState option" where
  \<comment> \<open>\<open>Init\<close>; the length is an \<open>int\<close> converted to \<open>size_t\<close>\<close>
  "Skein_Init state hashbitlen =
     Skein_512_Init (ctx_512 state) hashbitlen \<bind> (\<lambda>ctx. Some (state\<lparr>statebits := 64 * 8, ctx_512 := ctx\<rparr>))"

definition Skein_Set_Bit_Pad_Flag :: "Skein_512_Ctxt \<Rightarrow> Skein_512_Ctxt" where
  "Skein_Set_Bit_Pad_Flag ctx = ctx\<lparr>sT1 := sT1 ctx OR SKEIN_T1_FLAG_BIT_PAD\<rparr>"

definition Skein_partial :: "Skein_512_Ctxt \<Rightarrow> bytes \<Rightarrow> nat \<Rightarrow> Skein_512_Ctxt option" where
  \<comment> \<open>the branch of \<open>Update\<close> for a last byte that is not whole\<close>
  "Skein_partial ctx data databitlen =
     (let bCnt = databitlen div 8 + 1;
          mask = push_bit (7 - databitlen mod 8) 1 :: u8
      in read_in data (bCnt - 1) 1 \<bind> (\<lambda>d.
         let b = (d ! 0 AND (0 - mask)) OR mask
         in Skein_512_Update ctx data (bCnt - 1) \<bind> (\<lambda>ctx.
            Skein_512_Update ctx [b] 1 \<bind> (\<lambda>ctx.
            Some (Skein_Set_Bit_Pad_Flag ctx)))))"

definition Skein_Update :: "hashState \<Rightarrow> bytes \<Rightarrow> nat \<Rightarrow> hashState option" where
  \<comment> \<open>\<open>Update\<close>\<close>
  "Skein_Update state data databitlen =
     (if databitlen mod 8 = 0
      then Skein_512_Update (ctx_512 state) data (databitlen div 8)
      else Skein_partial (ctx_512 state) data databitlen) \<bind> (\<lambda>ctx.
     Some (state\<lparr>ctx_512 := ctx\<rparr>))"

definition Skein_Final :: "hashState \<Rightarrow> bytes option" where
  "Skein_Final state = Skein_512_Final (ctx_512 state)"

definition skein_hash :: "hashState \<Rightarrow> u64 \<Rightarrow> bytes \<Rightarrow> nat \<Rightarrow> bytes option" where
  \<comment> \<open>\<open>state\<close>: the local variable before its initialisation\<close>
  "skein_hash state hashbitlen data databitlen =
     Skein_Init state hashbitlen \<bind> (\<lambda>state.
     Skein_Update state data databitlen \<bind> Skein_Final)"

definition xmr_skein :: "hashState \<Rightarrow> bytes \<Rightarrow> bytes option" where
  \<comment> \<open>\<open>statebits\<close> is set and never read\<close>
  "xmr_skein state data =
     (let ctx = (ctx_512 state)\<lparr>hashBitLen := 256, sX := SKEIN_512_IV_256\<rparr>;
          ctx = Skein_Start_New_Type ctx (SKEIN_T1_BLK_TYPE 48)
      in (if 1600 mod 8 = (0 :: nat) then Skein_512_Update ctx data (1600 div 8)
          else Skein_partial ctx data 1600) \<bind> Skein_512_Final)"

section \<open>The block function is Threefish in UBI mode\<close>

lemma low_add:
  assumes "\<And>i. bit (w :: u64) i \<Longrightarrow> i < k"
  shows "w + push_bit k v = w OR push_bit k v"
proof (rule disjunctive_add_eq_or)
  show "w AND push_bit k v = 0"
    by (intro bit_word_eqI) (auto simp: bit_simps dest: assms)
qed

lemma Get64_byte_sum:
  fixes b :: "nat \<Rightarrow> u8"
  shows "ucast (b 0) + push_bit 8 (ucast (b 1)) + push_bit 16 (ucast (b 2)) + push_bit 24 (ucast (b 3))
      + push_bit 32 (ucast (b 4)) + push_bit 40 (ucast (b 5)) + push_bit 48 (ucast (b 6)) + push_bit 56 (ucast (b 7))
    = (ucast (b 0) OR push_bit 8 (ucast (b 1)) OR push_bit 16 (ucast (b 2)) OR push_bit 24 (ucast (b 3))
      OR push_bit 32 (ucast (b 4)) OR push_bit 40 (ucast (b 5)) OR push_bit 48 (ucast (b 6)) OR push_bit 56 (ucast (b 7)) :: u64)"
proof -
  have b: "bit (b j) i \<Longrightarrow> i < 8" for i j using bit_imp_le_length [of "b j" i] by simp
  show ?thesis
    by (subst low_add, force simp: bit_simps dest: b)+ (simp only: or.assoc)
qed

lemma Get64_words:
  assumes "length src = 64"
  shows "Skein_Get64_LSB_First src 8 = skein_words src"
proof -
  have "ucast (src ! n) + push_bit 8 (ucast (src ! (n + 1))) + push_bit 16 (ucast (src ! (n + 2)))
     + push_bit 24 (ucast (src ! (n + 3))) + push_bit 32 (ucast (src ! (n + 4))) + push_bit 40 (ucast (src ! (n + 5)))
     + push_bit 48 (ucast (src ! (n + 6))) + push_bit 56 (ucast (src ! (n + 7))) = sph_dec64le (drop n src)"
    if "n + 8 \<le> length src" for n
    using Get64_byte_sum [of "\<lambda>j. src ! (n + j)"] that by (simp add: sph_dec64le_def)
  then show ?thesis
    unfolding Skein_Get64_LSB_First_def skein_words_def map_map comp_def using assms by (intro map_cong refl) simp
qed

lemma RotL_64_rotl: "n < 64 \<Longrightarrow> RotL_64 x n = word_rotl n x"
  using ROTL64_rotl [of n x] by (simp add: RotL_64_def SPH_ROTL64_def)

lemma Round512_pair_eq:
  "a \<noteq> b \<Longrightarrow> a < length X \<Longrightarrow> b < length X \<Longrightarrow> rc < 64 \<Longrightarrow>
   Round512_pair a b rc X = (let y = X ! a + X ! b in X[a := y, b := word_rotl rc (X ! b) XOR y])"
  by (simp add: Round512_pair_def RotL_64_rotl Let_def)

lemma Round512_mixes:
  assumes "length X = 8" "\<And>i. i < 8 \<Longrightarrow> p ! i < 8" "\<And>j. j < 4 \<Longrightarrow> p ! (2 * j) \<noteq> p ! (2 * j + 1)" "\<And>j. j < 4 \<Longrightarrow> rot ! j < 64"
  shows "Round512 p rot X = tf_mixes p rot X"
  using assms(1) assms(2) [of 0] assms(2) [of 1] assms(2) [of 2] assms(2) [of 3] assms(2) [of 4] assms(2) [of 5]
    assms(2) [of 6] assms(2) [of 7] assms(3) [of 0] assms(3) [of 1] assms(3) [of 2] assms(3) [of 3]
    assms(4) [of 0] assms(4) [of 1] assms(4) [of 2] assms(4) [of 3]
  by (simp add: Round512_def tf_mixes_def Round512_pair_eq upt_0_4 Let_def)

lemma less_4: "(i :: nat) < 4 \<longleftrightarrow> i = 0 \<or> i = 1 \<or> i = 2 \<or> i = 3"
  by arith

lemma Round512_orders:
  assumes "length X = 8" "p \<in> set [[0, 1, 2, 3, 4, 5, 6, 7], [2, 1, 4, 7, 6, 5, 0, 3], [4, 1, 6, 3, 0, 5, 2, 7], [6, 1, 0, 7, 2, 5, 4, 3]]"
    "rot \<in> set R_512"
  shows "Round512 p rot X = tf_mixes p rot X"
  by (rule Round512_mixes) (use assms in \<open>auto simp: R_512_def less_8 less_4\<close>)

lemma I512_subkey: "length X = 8 \<Longrightarrow> I512 ks ts R X = map2 (+) X (tf_subkey ks ts (R + 1))"
  by (elim list8) (simp add: I512_def tf_subkey_def upt_0_8 add.assoc add.commute)

lemma R512_rounds:
  assumes "length V = 8"
  shows "R512_8_rounds ks ts R (map2 (+) V (tf_subkey ks ts (2 * R)))
    = map2 (+) (tf_four ks ts (2 * R + 1) (tf_four ks ts (2 * R) V)) (tf_subkey ks ts (2 * R + 1 + 1))"
proof -
  have four: "tf_mixes [6, 1, 0, 7, 2, 5, 4, 3] (R_512 ! 3) (tf_mixes [4, 1, 6, 3, 0, 5, 2, 7] (R_512 ! 2)
      (tf_mixes [2, 1, 4, 7, 6, 5, 0, 3] (R_512 ! 1) (tf_mixes [0, 1, 2, 3, 4, 5, 6, 7] (R_512 ! 0) (map2 (+) V (tf_subkey ks ts (2 * R))))))
      = tf_four ks ts (2 * R) V"
    by (rule tf_four_mixes [OF assms]) (simp add: R_512_def tf_rotations_def)
  have four': "tf_mixes [6, 1, 0, 7, 2, 5, 4, 3] (R_512 ! 7) (tf_mixes [4, 1, 6, 3, 0, 5, 2, 7] (R_512 ! 6)
      (tf_mixes [2, 1, 4, 7, 6, 5, 0, 3] (R_512 ! 5) (tf_mixes [0, 1, 2, 3, 4, 5, 6, 7] (R_512 ! 4) (map2 (+) W (tf_subkey ks ts (2 * R + 1))))))
      = tf_four ks ts (2 * R + 1) W" if "length W = 8" for W
    by (rule tf_four_mixes [OF that]) (simp add: R_512_def tf_rotations_def)
  have set: "R_512 ! i \<in> set R_512" if "i < 8" for i
    using that by (intro nth_mem) (simp add: R_512_def)
  show ?thesis
    unfolding R512_8_rounds_def Let_def
    using assms four four' by (simp add: Round512_orders set I512_subkey)
qed

lemma R512_fold:
  assumes "length V = 8"
  shows "fold (R512_8_rounds ks ts) [0..<n] (map2 (+) V (tf_subkey ks ts 0))
    = map2 (+) (fold (tf_four ks ts) [0..<2 * n] V) (tf_subkey ks ts (2 * n)) \<and> length (fold (tf_four ks ts) [0..<2 * n] V) = 8"
proof (induction n)
  case (Suc n)
  then show ?case using R512_rounds [of "fold (tf_four ks ts) [0..<2 * n] V" ks ts n] by simp
qed (simp add: assms)

lemma one_block_ubi:
  assumes "length CX = 8" "length blk = 64"
  shows "Skein_512_one_block CX ts0 ts1 blk = ubi_block (ts0, ts1) blk CX"
proof -
  let ?k = "CX @ [CX ! 0 XOR CX ! 1 XOR CX ! 2 XOR CX ! 3 XOR CX ! 4 XOR CX ! 5 XOR CX ! 6 XOR CX ! 7 XOR 0x1BD11BDAA9FC1A22]"
    and ?t = "[ts0, ts1, ts0 XOR ts1]" and ?w = "skein_words blk"
  have k: "?k = tf_key CX" using assms(1) by (elim list8) (simp add: tf_key_def ac_simps)
  have t: "?t = tf_tweak (ts0, ts1)" by simp
  have w: "[?w ! 0 + ?k ! 0, ?w ! 1 + ?k ! 1, ?w ! 2 + ?k ! 2, ?w ! 3 + ?k ! 3, ?w ! 4 + ?k ! 4,
      ?w ! 5 + ?k ! 5 + ?t ! 0, ?w ! 6 + ?k ! 6 + ?t ! 1, ?w ! 7 + ?k ! 7] = map2 (+) ?w (tf_subkey ?k ?t 0)"
    using length_skein_words [of blk] by (elim list8) (simp add: tf_subkey_def upt_0_8 add.assoc)
  have u: "[0..<9] = [0, 1, 2, 3, 4, 5, 6, 7, 8 :: nat]" by code_simp
  have fold: "f 8 (f 7 (f 6 (f 5 (f 4 (f 3 (f 2 (f 1 (f 0 X)))))))) = fold f [0..<9] X" for f :: "nat \<Rightarrow> u64 list \<Rightarrow> u64 list" and X
    unfolding u by simp
  note loop = R512_fold [OF length_skein_words, of ?k ?t 9 blk]
  have "map2 (+) (fold (tf_four ?k ?t) [0..<18] ?w) (tf_subkey ?k ?t 18) = threefish CX (ts0, ts1) ?w"
    unfolding threefish_fours Let_def k t ..
  then have r: "fold (R512_8_rounds ?k ?t) [0..<9] (map2 (+) ?w (tf_subkey ?k ?t 0)) = threefish CX (ts0, ts1) ?w"
    using loop by simp
  show ?thesis
    unfolding Skein_512_one_block_def Let_def Get64_words [OF assms(2)] w fold r ubi_block_def
    by (subst feed_forward [symmetric]) (simp_all add: length_threefish xor.commute)
qed

section \<open>The tweak words\<close>

definition skein_T1 :: "bool \<Rightarrow> u64" where
  \<comment> \<open>\<open>T[1]\<close> while message blocks are processed\<close>
  "skein_T1 first = SKEIN_T1_BLK_TYPE 48 OR (if first then SKEIN_T1_FLAG_FIRST else 0)"

lemma skein_tweak_words:
  assumes "pos < 2 ^ 64" "ty < 64"
  shows "skein_tweak pos pad ty first final
    = (of_nat pos, push_bit 55 (of_nat (of_bool pad + 2 * ty + 128 * of_bool first + 256 * of_bool final)))"
  using UBI_tweak_skein [of 0 pos ty _ pad first final, OF _ assms(2) refl] assms(1) by (simp add: UBI_tweak_def)

lemmas T1_flags = SKEIN_T1_FLAG_FIRST_def SKEIN_T1_FLAG_FINAL_def SKEIN_T1_FLAG_BIT_PAD_def SKEIN_T1_BLK_TYPE_def skein_T1_def

lemma T1_message:
  "skein_T1 first = push_bit 55 (of_nat (of_bool False + 2 * 48 + 128 * of_bool first + 256 * of_bool False))"
  by (cases first) (simp_all add: T1_flags)

lemma T1_last:
  "(if pad then skein_T1 first OR SKEIN_T1_FLAG_BIT_PAD else skein_T1 first) OR SKEIN_T1_FLAG_FINAL
    = push_bit 55 (of_nat (of_bool pad + 2 * 48 + 128 * of_bool first + 256 * of_bool True))"
  by (cases first; cases pad) (simp_all add: T1_flags)

lemma T1_next: "skein_T1 first AND NOT SKEIN_T1_FLAG_FIRST = skein_T1 False"
  by (cases first) (simp_all add: T1_flags)

lemma T1_start: "SKEIN_T1_FLAG_FIRST OR SKEIN_T1_BLK_TYPE 48 = skein_T1 True"
  by (simp add: T1_flags)

lemma T1_config: "SKEIN_T1_FLAG_FIRST OR (SKEIN_T1_BLK_TYPE 4 OR SKEIN_T1_FLAG_FINAL)
    = push_bit 55 (of_nat (of_bool False + 2 * 4 + 128 * of_bool True + 256 * of_bool True))"
  by (simp add: T1_flags)

lemma T1_output: "SKEIN_T1_FLAG_FIRST OR (SKEIN_T1_BLK_TYPE 63 OR SKEIN_T1_FLAG_FINAL)
    = push_bit 55 (of_nat (of_bool False + 2 * 63 + 128 * of_bool True + 256 * of_bool True))"
  by (simp add: T1_flags)

section \<open>Blocks of a message\<close>

fun c_chain :: "Skein_512_Ctxt \<Rightarrow> u64 list \<times> nat \<Rightarrow> bool" where
  \<comment> \<open>\<open>i\<close> blocks have been chained\<close>
  "c_chain ctx (G, i) \<longleftrightarrow> sX ctx = G \<and> length G = 8 \<and> sT0 ctx = of_nat (64 * i) \<and> sT1 ctx = skein_T1 (i = 0)"

definition c_same :: "Skein_512_Ctxt \<Rightarrow> Skein_512_Ctxt \<Rightarrow> bool" where
  \<comment> \<open>processing blocks leaves these fields alone\<close>
  "c_same ctx ctx' \<longleftrightarrow> hashBitLen ctx' = hashBitLen ctx \<and> bCnt ctx' = bCnt ctx \<and> sb ctx' = sb ctx"

lemma block_step:
  assumes "c_chain ctx (G, i)" "64 * Suc i < 2 ^ 64" "64 \<le> length p"
  shows "\<exists>ctx'. Skein_512_blocks (Suc n) ctx p 64 = (if n = 0 then Some ctx' else Skein_512_blocks n ctx' (drop 64 p) 64)
    \<and> c_chain ctx' (ubi_step 48 (take 64 p) (G, i)) \<and> c_same ctx ctx'"
proof -
  define T where "T = skein_tweak (64 * Suc i) False 48 (i = 0) False"
  let ?ctx = "ctx\<lparr>sX := ubi_block T (take 64 p) G, sT0 := of_nat (64 * Suc i), sT1 := skein_T1 False\<rparr>"
  have T: "T = (of_nat (64 * Suc i), skein_T1 (i = 0))"
    unfolding T_def using skein_tweak_words [OF assms(2), of 48 False "i = 0" False] by (simp add: T1_message)
  have c: "sX ctx = G" "length G = 8" "sT0 ctx + of_nat 64 = of_nat (64 * Suc i)" "sT1 ctx = skein_T1 (i = 0)"
    using assms(1) by simp_all
  have r: "read_in p 0 64 = Some (take 64 p)" using assms(3) by (simp add: mem_simps)
  have "length (take 64 p) = 64" using assms(3) by simp
  then have "Skein_512_blocks (Suc n) ctx p 64 = (if n = 0 then Some ?ctx else Skein_512_blocks n ?ctx (drop 64 p) 64)"
    unfolding Skein_512_blocks.simps r Option.bind.bind_lunit Let_def c(3) c(4) T1_next
    by (simp only: c(1,2) one_block_ubi T)
  moreover have "ubi_step 48 (take 64 p) (G, i) = (ubi_block T (take 64 p) G, Suc i)" by (simp add: T_def)
  ultimately show ?thesis by (intro exI [of _ ?ctx]) (simp add: c_same_def)
qed

lemma c_same_trans: "c_same a b \<Longrightarrow> c_same b c \<Longrightarrow> c_same a c"
  by (simp add: c_same_def)

lemma blocks_absorb:
  assumes "c_chain ctx v" "64 * (snd v + n) < 2 ^ 64" "0 < n" "64 * n \<le> length d"
  shows "\<exists>ctx' v'. Skein_512_blocks n ctx d 64 = Some ctx' \<and> c_chain ctx' v' \<and> c_same ctx ctx' \<and> snd v' = snd v + n
    \<and> (\<forall>x. x \<noteq> [] \<longrightarrow> absorb 64 64 (ubi_step 48) (take (64 * n) d @ x) v = absorb 64 64 (ubi_step 48) x v'
       \<and> rest 64 64 (take (64 * n) d @ x) = rest 64 64 x)"
  using assms
proof (induction n arbitrary: ctx v d)
  case (Suc n)
  obtain G i where v: "v = (G, i)" by fastforce
  have i: "64 * Suc i < 2 ^ 64" "64 \<le> length d" using Suc.prems v by simp_all
  obtain ctx1 where c1: "Skein_512_blocks (Suc n) ctx d 64 = (if n = 0 then Some ctx1 else Skein_512_blocks n ctx1 (drop 64 d) 64)"
    "c_chain ctx1 (ubi_step 48 (take 64 d) v)" "c_same ctx ctx1"
    using block_step [of ctx G i d n] Suc.prems(1) i v by blast
  let ?v = "ubi_step 48 (take 64 d) v" and ?f = "ubi_step 48"
  have s: "snd ?v = Suc i" by (simp add: v)
  have x: "absorb 64 64 ?f (take 64 d @ x) v = absorb 64 64 ?f x ?v" "rest 64 64 (take 64 d @ x) = rest 64 64 x" if "x \<noteq> []" for x
  proof -
    have "64 < length (take 64 d @ x)" "take 64 (take 64 d @ x) = take 64 d" "drop 64 (take 64 d @ x) = x"
      using that i(2) by simp_all
    then show "absorb 64 64 ?f (take 64 d @ x) v = absorb 64 64 ?f x ?v" "rest 64 64 (take 64 d @ x) = rest 64 64 x"
      by (simp_all only: absorb_block [of 64 64 "take 64 d @ x"] rest_block [of 64 64 "take 64 d @ x"] zero_less_numeral)
  qed
  show ?case
  proof (cases "n = 0")
    case True
    then show ?thesis using c1 s v x by (intro exI [of _ ctx1] exI [of _ ?v]) (simp del: ubi_step.simps)
  next
    case False
    then have "64 * (snd ?v + n) < 2 ^ 64" "0 < n" "64 * n \<le> length (drop 64 d)"
      using Suc.prems s v i(2) by simp_all
    from Suc.IH [OF c1(2) this] obtain ctx' v' where c': "Skein_512_blocks n ctx1 (drop 64 d) 64 = Some ctx'" "c_chain ctx' v'"
      "c_same ctx1 ctx'" "snd v' = snd ?v + n"
      "\<forall>x. x \<noteq> [] \<longrightarrow> absorb 64 64 ?f (take (64 * n) (drop 64 d) @ x) ?v = absorb 64 64 ?f x v'
        \<and> rest 64 64 (take (64 * n) (drop 64 d) @ x) = rest 64 64 x"
      by blast
    have "take (64 * Suc n) d = take 64 d @ take (64 * n) (drop 64 d)" by (simp add: take_add)
    then show ?thesis
      using False c1 c' s v x c_same_trans [OF c1(3) c'(3)] by (intro exI [of _ ctx'] exI [of _ v']) (simp del: ubi_step.simps)
  qed
qed simp

section \<open>Update appends\<close>

definition c_holds :: "u64 list \<Rightarrow> u64 \<Rightarrow> Skein_512_Ctxt \<Rightarrow> bytes \<Rightarrow> bool" where
  \<comment> \<open>the context has been fed the message \<open>m\<close>\<close>
  "c_holds iv hbl ctx m \<longleftrightarrow> hashBitLen ctx = hbl \<and> length (sb ctx) = 64 \<and> bCnt ctx = length (rest 64 64 m)
     \<and> take (bCnt ctx) (sb ctx) = rest 64 64 m \<and> c_chain ctx (absorb 64 64 (ubi_step 48) m (iv, 0))"

definition c_todo :: "u64 list \<Rightarrow> u64 \<Rightarrow> bytes \<Rightarrow> Skein_512_Ctxt \<Rightarrow> bytes \<Rightarrow> nat \<Rightarrow> bool" where
  \<comment> \<open>within an update that makes the message \<open>M\<close>: the buffer is empty, \<open>cnt\<close> bytes are left\<close>
  "c_todo iv hbl M ctx msg cnt \<longleftrightarrow> hashBitLen ctx = hbl \<and> length (sb ctx) = 64 \<and> bCnt ctx = 0 \<and> 0 < cnt \<and> cnt \<le> length msg
     \<and> (\<exists>v. c_chain ctx v \<and> 64 * snd v + cnt = length M \<and> rest 64 64 M = rest 64 64 (take cnt msg)
        \<and> absorb 64 64 (ubi_step 48) M (iv, 0) = absorb 64 64 (ubi_step 48) (take cnt msg) v)"

lemma c_fill:
  assumes S: "c_holds iv hbl ctx m" and k: "k \<le> length msg" "64 < k + bCnt ctx" "length m + k < 2 ^ 64"
  shows "\<exists>ctx' msg' k'. Skein_fill ctx msg k = Some (ctx', msg', k') \<and> c_todo iv hbl (m @ take k msg) ctx' msg' k'"
proof -
  let ?f = "ubi_step 48" and ?r = "rest 64 64 m" and ?v = "absorb 64 64 (ubi_step 48) m (iv, 0)"
  note s = S [unfolded c_holds_def]
  have p: "length ?r \<le> 64" by (rule rest_bound) simp
  have tr: "take (length ?r) (sb ctx) = ?r" using s by (elim conjE) simp
  have pos: "64 * snd ?v + length ?r = length m" using ubi_absorb_count [of 48 m iv 0] by simp
  have app: "rest 64 64 (m @ take k msg) = rest 64 64 (?r @ take k msg)"
    "absorb 64 64 ?f (m @ take k msg) (iv, 0) = absorb 64 64 ?f (?r @ take k msg) ?v"
    by (simp_all add: rest_append [of 64 64 m] absorb_append [of 64 64 ?f m])
  show ?thesis
  proof (cases "bCnt ctx = 0")
    case True
    then have "c_todo iv hbl (m @ take k msg) ctx msg k"
      unfolding c_todo_def app using s k pos by (intro conjI exI [of _ ?v]) (simp_all add: min_absorb2)
    then show ?thesis using True by (simp add: Skein_fill_def)
  next
    case False
    let ?n = "64 - length ?r"
    let ?ctx = "ctx\<lparr>sb := ?r @ take ?n msg, bCnt := 64\<rparr>"
    have n: "?n < k" using k s p by simp
    have buf: "length (?r @ take ?n msg) = 64" using n k(1) p by simp
    have fill: "(if ?n \<noteq> 0 then read_in msg 0 ?n \<bind> (\<lambda>d. memcpy_in (sb ctx) (bCnt ctx) d \<bind> (\<lambda>b.
            Some (ctx\<lparr>sb := b, bCnt := bCnt ctx + ?n\<rparr>, drop ?n msg, k - ?n))) else Some (ctx, msg, k))
          = Some (?ctx, drop ?n msg, k - ?n)"
    proof (cases "?n = 0")
      case True
      then have "length ?r = 64" using p by simp
      then have "?ctx = ctx" "?n = 0" using s by (cases ctx; simp)+
      then show ?thesis by simp
    next
      case False
      then show ?thesis using s n k(1) p tr by (simp add: mem_simps)
    qed
    have chain: "c_chain ?ctx ?v" using s by (cases ?v) simp
    have lt: "64 * (snd ?v + 1) < 2 ^ 64" using pos k n p by simp
    have le: "64 * 1 \<le> length (?r @ take ?n msg)" unfolding buf by simp
    obtain ctx1 v1 where c1: "Skein_512_blocks 1 ?ctx (?r @ take ?n msg) 64 = Some ctx1" "c_chain ctx1 v1" "c_same ?ctx ctx1"
      "snd v1 = snd ?v + 1"
      and x: "\<And>x. x \<noteq> [] \<Longrightarrow> absorb 64 64 ?f (take 64 (?r @ take ?n msg) @ x) ?v = absorb 64 64 ?f x v1
        \<and> rest 64 64 (take 64 (?r @ take ?n msg) @ x) = rest 64 64 x"
      using blocks_absorb [OF chain lt zero_less_one le] unfolding mult_1_right by blast
    have t64: "take 64 (?r @ take ?n msg) = ?r @ take ?n msg" using buf by simp
    have t: "take k msg = take ?n msg @ take (k - ?n) (drop ?n msg)" 
      using take_add [of ?n "k - ?n" msg] unfolding le_add_diff_inverse [OF less_imp_le [OF n]] .
    have M: "?r @ take k msg = take 64 (?r @ take ?n msg) @ take (k - ?n) (drop ?n msg)"
      unfolding t64 append_assoc t [symmetric] ..
    have d: "take (k - ?n) (drop ?n msg) \<noteq> []" using n k(1) by simp
    have "c_chain (ctx1\<lparr>bCnt := 0\<rparr>) v1" using c1(2) by (cases v1) simp
    moreover have "64 * snd v1 + (k - ?n) = length (m @ take k msg)" using c1(4) pos n k(1) p by simp
    moreover have "hashBitLen (ctx1\<lparr>bCnt := 0\<rparr>) = hbl" "length (sb (ctx1\<lparr>bCnt := 0\<rparr>)) = 64" "bCnt (ctx1\<lparr>bCnt := 0\<rparr>) = 0"
      using c1(3) s buf by (simp_all add: c_same_def)
    moreover have "0 < k - ?n" "k - ?n \<le> length (drop ?n msg)" using n k(1) by simp_all
    ultimately have "c_todo iv hbl (m @ take k msg) (ctx1\<lparr>bCnt := 0\<rparr>) (drop ?n msg) (k - ?n)"
      unfolding c_todo_def app M using x [OF d] by blast
    moreover have bc: "bCnt ctx = length ?r" using s by blast
    moreover have sbe: "sb ?ctx = ?r @ take ?n msg" by simp
    have "Skein_fill ctx msg k = Some (ctx1\<lparr>bCnt := 0\<rparr>, drop ?n msg, k - ?n)"
      unfolding Skein_fill_def Skein_512_Process_Block_def Let_def if_P [OF False] unfolding bc fill [unfolded bc]
      by (simp only: Option.bind.bind_lunit prod.case sbe c1(1))
    ultimately show ?thesis by blast
  qed
qed

lemma c_direct:
  assumes S: "c_todo iv hbl M ctx msg k" and M: "length M < 2 ^ 64"
  shows "\<exists>ctx' msg' k'. Skein_direct ctx msg k = Some (ctx', msg', k') \<and> k' \<le> 64 \<and> c_todo iv hbl M ctx' msg' k'"
proof (cases "64 < k")
  case True
  let ?f = "ubi_step 48"
  obtain v where s: "hashBitLen ctx = hbl" "length (sb ctx) = 64" "bCnt ctx = 0" "k \<le> length msg" "c_chain ctx v"
    "64 * snd v + k = length M" "rest 64 64 M = rest 64 64 (take k msg)"
    "absorb 64 64 ?f M (iv, 0) = absorb 64 64 ?f (take k msg) v"
    using S by (auto simp: c_todo_def simp del: c_chain.simps)
  define n where "n = (k - 1) div 64"
  have "k - 1 = 64 * n + (k - 1) mod 64" "(k - 1) mod 64 < 64" by (simp_all add: n_def)
  then have n: "0 < n" "n * 64 < k" "k - n * 64 \<le> 64" using True by linarith+
  have "64 * (snd v + n) < 2 ^ 64" "64 * n \<le> length msg" using s(4,6) n M by simp_all
  from blocks_absorb [OF s(5) this(1) n(1) this(2)] obtain ctx' v' where
    c': "Skein_512_blocks n ctx msg 64 = Some ctx'" "c_chain ctx' v'" "c_same ctx ctx'" "snd v' = snd v + n"
    and x: "\<And>x. x \<noteq> [] \<Longrightarrow> absorb 64 64 ?f (take (n * 64) msg @ x) v = absorb 64 64 ?f x v'
       \<and> rest 64 64 (take (n * 64) msg @ x) = rest 64 64 x"
    by (simp only: mult.commute [of 64 n]) blast
  let ?d = "take (k - n * 64) (drop (n * 64) msg)"
  have t: "take k msg = take (n * 64) msg @ ?d" 
    using take_add [of "n * 64" "k - n * 64" msg] unfolding le_add_diff_inverse [OF less_imp_le [OF n(2)]] .
  have d: "?d \<noteq> []" using n s(4) by simp
  have "64 * snd v' + (k - n * 64) = length M" using s(6) c'(4) n(2) by simp
  moreover have "hashBitLen ctx' = hbl" "length (sb ctx') = 64" "bCnt ctx' = 0" using c'(3) s(1-3) by (simp_all add: c_same_def)
  moreover have "0 < k - n * 64" "k - n * 64 \<le> length (drop (n * 64) msg)" using n(2) s(4) by simp_all
  ultimately have "c_todo iv hbl M ctx' (drop (n * 64) msg) (k - n * 64)"
    unfolding c_todo_def s(7,8) t using x [OF d] c'(2) by blast
  moreover have "Skein_direct ctx msg k = Some (ctx', drop (n * 64) msg, k - n * 64)"
    using True c'(1) unfolding Skein_direct_def Skein_512_Process_Block_def Let_def n_def by simp
  ultimately show ?thesis using n(3) by blast
next
  case False
  then show ?thesis using S by (simp add: Skein_direct_def)
qed

lemma c_update:
  assumes S: "c_holds iv hbl ctx m" and k: "k \<le> length msg" "length m + k < 2 ^ 64"
  shows "\<exists>ctx'. Skein_512_Update ctx msg k = Some ctx' \<and> c_holds iv hbl ctx' (m @ take k msg)"
proof (cases "64 < k + bCnt ctx")
  case True
  let ?M = "m @ take k msg"
  have M: "length ?M < 2 ^ 64" using k by simp
  obtain ctx1 msg1 k1 where f: "Skein_fill ctx msg k = Some (ctx1, msg1, k1)" "c_todo iv hbl ?M ctx1 msg1 k1"
    using c_fill [OF S k(1) True k(2)] by blast
  obtain ctx2 msg2 k2 where d: "Skein_direct ctx1 msg1 k1 = Some (ctx2, msg2, k2)" "k2 \<le> 64" and t: "c_todo iv hbl ?M ctx2 msg2 k2"
    using c_direct [OF f(2) M] by blast
  let ?ctx = "ctx2\<lparr>sb := take k2 msg2 @ drop k2 (sb ctx2), bCnt := k2\<rparr>"
  have "Skein_512_Update ctx msg k = Some ?ctx"
    using True f(1) d t by (simp add: Skein_512_Update_def c_todo_def mem_simps)
  moreover have "c_holds iv hbl ?ctx ?M"
    using t d(2) by (cases "absorb 64 64 (ubi_step 48) ?M (iv, 0)") (auto simp: c_todo_def c_holds_def min_absorb2)
  ultimately show ?thesis by blast
next
  case False
  let ?r = "rest 64 64 m"
  have "length (?r @ take k msg) \<le> 64" using False S k(1) by (simp add: c_holds_def min_absorb2)
  then have app: "rest 64 64 (m @ take k msg) = ?r @ take k msg"
    "absorb 64 64 (ubi_step 48) (m @ take k msg) (iv, 0) = absorb 64 64 (ubi_step 48) m (iv, 0)"
    by (simp_all add: rest_append [of 64 64 m] absorb_append [of 64 64 "ubi_step 48" m])
  let ?ctx = "ctx\<lparr>sb := ?r @ take k msg @ drop (length ?r + k) (sb ctx), bCnt := length ?r + k\<rparr>"
  show ?thesis
  proof (cases "k = 0")
    case True
    then show ?thesis using S False by (simp add: Skein_512_Update_def)
  next
    case k0: False
    have "take (length ?r) (sb ctx) = ?r" using S unfolding c_holds_def by (elim conjE) simp
    then have "Skein_512_Update ctx msg k = Some ?ctx"
      using False k0 S k(1) by (simp add: Skein_512_Update_def c_holds_def mem_simps)
    moreover have "c_holds iv hbl ?ctx (m @ take k msg)"
      unfolding c_holds_def app using S False k(1)
      by (cases "absorb 64 64 (ubi_step 48) m (iv, 0)") (auto simp: c_holds_def min_absorb2)
    ultimately show ?thesis by blast
  qed
qed

section \<open>The end\<close>

lemma ubi_counter_at:
  "ubi 63 False (sph_enc64le x) G = ubi_block (skein_tweak 8 False 63 True True) (sph_enc64le x @ replicate 56 0) G"
  by (simp add: ubi_def)

lemma process_one:
  assumes "length (sX ctx) = 8" "length p = 64"
  shows "\<exists>ctx'. Skein_512_Process_Block ctx p 1 add = Some ctx'
    \<and> sX ctx' = ubi_block (sT0 ctx + of_nat add, sT1 ctx) p (sX ctx) \<and> c_same ctx ctx'"
  using assms by (simp add: Skein_512_Process_Block_def Let_def mem_simps one_block_ubi c_same_def)

lemma Put64_bytes:
  assumes "n \<le> 64" "length X = 8"
  shows "Skein_Put64_LSB_First X n = take n (concat (map sph_enc64le X))"
proof -
  have whole: "concat (map sph_enc64le X) = map (\<lambda>n. ucast (drop_bit (8 * (n mod 8)) (X ! (n div 8)))) [0..<64]"
  proof -
    have u: "[0..<64] = [0, 1, 2, 3, 4, 5, 6, 7, 8, 9, 10, 11, 12, 13, 14, 15, 16, 17, 18, 19, 20, 21, 22, 23, 24, 25, 26, 27, 28, 29,
      30, 31, 32, 33, 34, 35, 36, 37, 38, 39, 40, 41, 42, 43, 44, 45, 46, 47, 48, 49, 50, 51, 52, 53, 54, 55, 56, 57, 58, 59, 60, 61, 62,
      63 :: nat]" by code_simp
    show ?thesis unfolding u using assms(2) by (elim list8) (simp add: sph_enc64le_def)
  qed
  show ?thesis unfolding whole take_map using assms(1) by (simp add: Skein_Put64_LSB_First_def)
qed

lemma length_words: "length X = 8 \<Longrightarrow> length (concat (map sph_enc64le X)) = 64"
  by (elim list8) simp

lemma output_bytes:
  assumes "length (sb ctx) = 64" "drop 8 (sb ctx) = replicate 56 0" "sX ctx = X" "length X = 8"
  shows "Skein_512_output ctx X k i = Some (take (k - i * 64)
    (concat (map (\<lambda>j. concat (map sph_enc64le (ubi 63 False (sph_enc64le (of_nat j)) X))) [i..<(k + 63) div 64])))"
  using assms
proof (induction "k - i * 64" arbitrary: ctx i rule: less_induct)
  case less
  let ?B = "\<lambda>j. concat (map sph_enc64le (ubi 63 False (sph_enc64le (of_nat j)) X))"
  show ?case
  proof (cases "i * 64 < k")
    case True
    define c1 where "c1 = Skein_Start_New_Type (ctx\<lparr>sb := sph_enc64le (of_nat i) @ replicate 56 0\<rparr>) (SKEIN_T1_BLK_TYPE 63 OR SKEIN_T1_FLAG_FINAL)"
    have mc: "memcpy_in (sb ctx) 0 (sph_enc64le (of_nat i)) = Some (sph_enc64le (of_nat i) @ replicate 56 0)"
      using less.prems(1,2) by (simp add: mem_simps)
    have c: "sX c1 = X" "sb c1 = sph_enc64le (of_nat i) @ replicate 56 0" "sT0 c1 = 0"
      "sT1 c1 = push_bit 55 (of_nat (of_bool False + 2 * 63 + 128 * of_bool True + 256 * of_bool True))"
      using less.prems(3) unfolding c1_def Skein_Start_New_Type_def T1_output by simp_all
    have l: "length (sX c1) = 8" "length (sb c1) = 64" using less.prems(4) c by simp_all
    obtain c2 where c2: "Skein_512_Process_Block c1 (sb c1) 1 8 = Some c2"
      "sX c2 = ubi_block (sT0 c1 + of_nat 8, sT1 c1) (sb c1) (sX c1)" "c_same c1 c2"
      using process_one [OF l] by blast
    have "skein_tweak 8 False 63 True True = (sT0 c1 + of_nat 8, sT1 c1)"
      using skein_tweak_words [of 8 63 False True True] unfolding c by simp
    then have X2: "sX c2 = ubi 63 False (sph_enc64le (of_nat i)) X" unfolding c2(2) ubi_counter_at by (simp only: c)
    have l2: "length (sX c2) = 8" by (simp add: X2 ubi_counter_at)
    let ?n = "if 64 \<le> k - i * 64 then 64 else k - i * 64"
    have out: "Skein_Put64_LSB_First (sX c2) ?n = take (k - i * 64) (?B i)"
      using Put64_bytes [OF _ l2, of ?n] length_words [OF l2] unfolding X2 by auto
    let ?c3 = "c2\<lparr>sX := X\<rparr>"
    have s3: "length (sb ?c3) = 64" "drop 8 (sb ?c3) = replicate 56 0" "sX ?c3 = X"
      using c2(3) c(2) by (simp_all add: c_same_def)
    have "k - (i + 1) * 64 < k - i * 64" using True by simp
    note IH = less.hyps [OF this s3 less.prems(4)]
    have "(k + 63) div 64 > i" using True by presburger
    then have u: "[i..<(k + 63) div 64] = i # [i + 1..<(k + 63) div 64]" by (simp add: upt_conv_Cons)
    have B: "take (k - i * 64) (?B i @ x) = take (k - i * 64) (?B i) @ take (k - (i + 1) * 64) x" for x
      using length_words [OF l2] unfolding X2 by (simp add: algebra_simps)
    show ?thesis
      unfolding Skein_512_output.simps [of ctx] if_P [OF True] mc Option.bind.bind_lunit Let_def c1_def [symmetric] c2(1) out IH
        u list.map concat.simps B
      by simp
  next
    case False
    then have "k + 63 < Suc i * 64" by simp
    then have "(k + 63) div 64 \<le> i" using less_mult_imp_div_less [of "k + 63" "Suc i" 64] by simp
    then have u: "[i..<(k + 63) div 64] = []" "k - i * 64 = 0" using False by simp_all
    show ?thesis unfolding Skein_512_output.simps [of ctx] if_not_P [OF False] u by simp
  qed
qed

lemma c_final:
  assumes S: "c_holds iv hbl ctx m" and m: "length m < 2 ^ 64"
  shows "Skein_512_Final (if pad then Skein_Set_Bit_Pad_Flag ctx else ctx)
    = Some (skein_output (unat (drop_bit 3 (hbl + 7))) (ubi 48 pad m iv))"
proof -
  let ?r = "rest 64 64 m" and ?pc = "if pad then Skein_Set_Bit_Pad_Flag ctx else ctx"
  obtain G i where v: "absorb 64 64 (ubi_step 48) m (iv, 0) = (G, i)" by fastforce
  have p: "length ?r \<le> 64" by (rule rest_bound) simp
  have s: "hashBitLen ctx = hbl" "length (sb ctx) = 64" "bCnt ctx = length ?r" "take (length ?r) (sb ctx) = ?r"
    "sX ctx = G" "length G = 8" "sT0 ctx = of_nat (64 * i)" "sT1 ctx = skein_T1 (i = 0)"
    using S unfolding c_holds_def v by auto
  have pos: "64 * i + length ?r = length m" using ubi_absorb_count [of 48 m iv 0] v by simp
  let ?buf = "?r @ replicate (64 - length ?r) 0"
  define c1 where "c1 = ?pc\<lparr>sT1 := sT1 ?pc OR SKEIN_T1_FLAG_FINAL\<rparr>"
  define c2 where "c2 = c1\<lparr>sb := ?buf\<rparr>"
  have c1: "sX c1 = G" "sb c1 = sb ctx" "bCnt c1 = length ?r" "hashBitLen c1 = hbl" "sT0 c1 = of_nat (64 * i)"
    "sT1 c1 = push_bit 55 (of_nat (of_bool pad + 2 * 48 + 128 * of_bool (i = 0) + 256 * of_bool True))"
    unfolding c1_def T1_last [symmetric] using s by (simp_all add: Skein_Set_Bit_Pad_Flag_def)
  have c2: "sX c2 = G" "sb c2 = ?buf" "bCnt c2 = length ?r" "hashBitLen c2 = hbl" "sT0 c2 = sT0 c1" "sT1 c2 = sT1 c1"
    using c1 by (simp_all add: c2_def)
  have pad: "(if bCnt c1 < 64 then memset_in (sb c1) (bCnt c1) 0 (64 - bCnt c1) \<bind> (\<lambda>b. Some (c1\<lparr>sb := b\<rparr>)) else Some c1)
      = Some c2"
  proof (cases "length ?r < 64")
    case True
    then show ?thesis using s(2,4) by (simp add: c1(2,3) c2_def mem_simps)
  next
    case False
    then have "length ?r = 64" using p by simp
    then have "sb ctx = ?r" using s(2,4) by simp
    then show ?thesis using \<open>length ?r = 64\<close> c1(2,3) by (simp add: c2_def)
  qed
  have l: "length (sX c2) = 8" "length (sb c2) = 64" using s(6) p by (simp_all add: c2)
  obtain c3 where c3: "Skein_512_Process_Block c2 (sb c2) 1 (bCnt c2) = Some c3"
    "sX c3 = ubi_block (sT0 c2 + of_nat (bCnt c2), sT1 c2) (sb c2) (sX c2)" "c_same c2 c3"
    using process_one [OF l] by blast
  have "sT0 c2 + of_nat (bCnt c2) = of_nat (length m)" unfolding pos [symmetric] by (simp only: c2 c1 of_nat_add)
  then have "skein_tweak (length m) pad 48 (i = 0) True = (sT0 c2 + of_nat (bCnt c2), sT1 c2)"
    using skein_tweak_words [OF m, of 48 pad "i = 0" True] by (simp only: c2 c1)
  then have X: "sX c3 = ubi 48 pad m iv" unfolding c3(2) ubi_def v Let_def prod.case by (simp only: c2)
  have lX: "length (ubi 48 pad m iv) = 8" unfolding ubi_def v Let_def prod.case by simp
  have same: "sb c3 = ?buf" "hashBitLen c3 = hbl" using c3(3) by (simp_all add: c_same_def c2)
  have z: "memset_in (sb c3) 0 0 64 = Some (replicate 64 0)" unfolding same using p by (simp add: mem_simps)
  have "drop 8 (replicate 64 0) = replicate 56 (0 :: u8)" by simp
  note out = output_bytes [of "c3\<lparr>sb := replicate 64 0\<rparr>" "ubi 48 pad m iv" _ 0]
  show ?thesis
    unfolding Skein_512_Final_def Let_def c1_def [symmetric] pad Option.bind.bind_lunit c3(1) z same(2) X
    by (subst out) (simp_all add: X lX skein_output_def)
qed

section \<open>Initialisation\<close>

lemma SKEIN_IV: "SKEIN_512_IV_256 = skein_config 256"
  by (simp only: skein_IV_config SKEIN_512_IV_256_def skein_IV256_def)

lemma length_config: "length (skein_config n) = 8"
  by (simp add: skein_config_def ubi_def)

lemma start_holds:
  assumes "length (sb ctx) = 64" "sX ctx = iv" "length iv = 8" "hashBitLen ctx = hbl"
  shows "c_holds iv hbl (Skein_Start_New_Type ctx (SKEIN_T1_BLK_TYPE 48)) []"
  using assms unfolding Skein_Start_New_Type_def T1_start by (simp add: c_holds_def)

lemma c_init:
  assumes "length (sb ctx) = 64"
  shows "\<exists>ctx'. Skein_512_Init ctx hbl = Some ctx' \<and> c_holds (skein_config (unat hbl)) hbl ctx' []"
proof (cases "hbl = 256")
  case True
  then have "c_holds (skein_config (unat hbl)) hbl (Skein_Start_New_Type
      (ctx\<lparr>hashBitLen := hbl, sX := SKEIN_512_IV_256\<rparr>) (SKEIN_T1_BLK_TYPE 48)) []"
    by (intro start_holds) (simp_all add: SKEIN_IV length_config assms)
  then show ?thesis using True by (simp add: Skein_512_Init_def)
next
  case False
  let ?cfg = "concat (map sph_enc64le [0x33414853 + push_bit 32 1, hbl, 0, 0, 0, 0, 0, 0])"
  define c1 where "c1 = (Skein_Start_New_Type (ctx\<lparr>hashBitLen := hbl\<rparr>) (SKEIN_T1_BLK_TYPE 4 OR SKEIN_T1_FLAG_FINAL))\<lparr>sX := replicate 8 0\<rparr>"
  have c1: "sX c1 = replicate 8 0" "sb c1 = sb ctx" "hashBitLen c1 = hbl" "sT0 c1 = 0"
    "sT1 c1 = push_bit 55 (of_nat (of_bool False + 2 * 4 + 128 * of_bool True + 256 * of_bool True))"
    unfolding c1_def Skein_Start_New_Type_def T1_config by simp_all
  have l: "length (sX c1) = 8" "length ?cfg = 64" by (simp_all add: c1)
  obtain c2 where c2: "Skein_512_Process_Block c1 ?cfg 1 32 = Some c2"
    "sX c2 = ubi_block (sT0 c1 + of_nat 32, sT1 c1) ?cfg (sX c1)" "c_same c1 c2"
    using process_one [OF l] by blast
  have z: "sph_enc64le 0 = replicate 8 (0 :: u8)" by (simp add: sph_enc64le_def numeral_eq_Suc)
  have "?cfg = (sph_enc64le 0x133414853 @ sph_enc64le (of_nat (unat hbl)) @ replicate 16 0) @ replicate 32 0"
    by (simp add: z replicate_add [symmetric])
  moreover have "skein_tweak 32 False 4 True True = (sT0 c1 + of_nat 32, sT1 c1)"
    using skein_tweak_words [of 32 4 False True True] unfolding c1 by simp
  ultimately have X: "sX c2 = skein_config (unat hbl)" unfolding c2(2) skein_config_def ubi_def c1(1) by simp
  have "c_holds (skein_config (unat hbl)) hbl (Skein_Start_New_Type c2 (SKEIN_T1_BLK_TYPE 48)) []"
    using c2(3) assms by (intro start_holds) (simp_all add: X length_config c_same_def c1)
  moreover have "Skein_512_Init ctx hbl = Some (Skein_Start_New_Type c2 (SKEIN_T1_BLK_TYPE 48))"
    unfolding Skein_512_Init_def Let_def if_not_P [OF False] c1_def [symmetric] c2(1) Option.bind.bind_lunit ..
  ultimately show ?thesis by blast
qed

section \<open>Messages of bits\<close>

lemma masked_byte:
  assumes "n < 8"
  shows "((d :: u8) AND (0 - push_bit (7 - n) 1)) OR push_bit (7 - n) 1 = sph_pad_byte (ucast d) n"
proof -
  have "(0 - push_bit (7 - n) 1 :: u8) = NOT (mask (7 - n))" by (simp add: push_bit_eq_mult minus_exp_eq_not_mask)
  then have L: "(d AND (0 - push_bit (7 - n) 1)) OR push_bit (7 - n) 1 = (d AND NOT (mask (7 - n))) OR push_bit (7 - n) 1"
    by simp
  show ?thesis unfolding L sph_pad_byte_bits [OF assms]
  proof (rule bit_word_eqI)
    fix i assume "i < LENGTH(8)"
    then have i: "i < 8" by simp
    let ?bs = "top_bits n (ucast d) @ True # replicate (7 - n) False"
    have len: "length (top_bits n (ucast d)) = n" "length ?bs = 8" using assms by (simp_all add: top_bits_def)
    have "?bs ! (7 - i) \<longleftrightarrow> (7 - n \<le> i \<and> bit d i) \<or> i = 7 - n"
    proof (cases "7 - i < n")
      case True
      have "bit (ucast d :: u32) i = bit d i" using i by (simp add: bit_ucast_iff)
      then show ?thesis using True i assms by (auto simp: nth_append len top_bits_def)
    next
      case False
      then show ?thesis using i assms by (cases "7 - i = n") (auto simp: nth_append len nth_Cons')
    qed
    then show "bit ((d AND NOT (mask (7 - n))) OR push_bit (7 - n) 1) i = bit (byte_of_bits ?bs) i"
      unfolding bit_byte_of_bits len(2) using i by (auto simp: bit_simps)
  qed
qed

lemma bits_take:
  assumes "k \<le> 8 * length data"
  shows "take k (bits_of_bytes data) = bits_of_bytes (take (k div 8) data) @ top_bits (k mod 8) (ucast (data ! (k div 8)))"
  using assms
proof (induction data arbitrary: k)
  case (Cons d data)
  show ?case
  proof (cases "k < 8")
    case True
    then have "take k (byte_bits d) = map (\<lambda>i. bit d (7 - i)) [0..<k]" by (simp add: byte_bits_def take_map)
    moreover have "bit (ucast d :: u32) (7 - i) = bit d (7 - i)" for i by (auto simp: bit_ucast_iff)
    ultimately show ?thesis using True by (simp add: bits_of_bytes_def top_bits_def)
  next
    case False
    then have k: "k div 8 = Suc ((k - 8) div 8)" "k mod 8 = (k - 8) mod 8" by (simp_all add: le_div_geq le_mod_geq)
    show ?thesis using Cons.IH [of "k - 8"] Cons.prems False unfolding k by (simp add: bits_of_bytes_def)
  qed
qed (simp add: bits_of_bytes_def top_bits_def)

lemma c_partial:
  assumes S: "c_holds iv hbl ctx []" and k: "k \<le> 8 * length data" "k mod 8 \<noteq> 0" "k div 8 + 1 < 2 ^ 64"
  shows "Skein_partial ctx data k \<bind> Skein_512_Final
    = Some (skein_output (unat (drop_bit 3 (hbl + 7))) (skein_chain iv (take k (bits_of_bytes data))))"
proof -
  let ?q = "k div 8" and ?d = "ucast (data ! (k div 8)) :: u32"
  let ?m = "take ?q data" and ?b = "sph_pad_byte ?d (k mod 8)"
  have n: "k mod 8 < 8" by simp
  have q: "?q < length data"
  proof (rule ccontr)
    assume "\<not> ?q < length data"
    then have "8 * length data \<le> 8 * ?q" by simp
    moreover have "8 * ?q < k" using k(2) by presburger
    ultimately show False using k(1) by simp
  qed
  have r: "read_in data (?q + 1 - 1) 1 = Some [data ! ?q]"
    using q by (simp add: mem_simps Cons_nth_drop_Suc [symmetric])
  have b: "([data ! ?q] ! 0 AND (0 - push_bit (7 - k mod 8) 1)) OR push_bit (7 - k mod 8) 1 = ?b"
    unfolding nth_Cons_0 by (rule masked_byte [OF n])
  obtain c1 where c1: "Skein_512_Update ctx data ?q = Some c1" "c_holds iv hbl c1 ?m"
    using c_update [OF S, of ?q data] q k(3) by auto
  have "length ?m + 1 < 2 ^ 64" using q k(3) by (simp add: min_absorb2)
  then obtain c2 where c2: "Skein_512_Update c1 [?b] 1 = Some c2" "c_holds iv hbl c2 (?m @ [?b])"
    using c_update [OF c1(2), of 1 "[?b]"] by auto
  have "length (?m @ [?b]) < 2 ^ 64" using q k(3) by (simp add: min_absorb2)
  note fin = c_final [OF c2(2) this, of True, unfolded if_True]
  have "Skein_partial ctx data k = Some (Skein_Set_Bit_Pad_Flag c2)"
    unfolding Skein_partial_def Let_def r Option.bind.bind_lunit b unfolding add_diff_cancel_right' c1(1) c2(1) Option.bind.bind_lunit ..
  then show ?thesis using fin skein_message [OF n, of ?m ?d] k(2) unfolding bits_take [OF k(1)] skein_chain_def by simp
qed

lemma c_whole:
  assumes S: "c_holds iv hbl ctx []" and k: "k \<le> 8 * length data" "k mod 8 = 0" "k div 8 < 2 ^ 64"
  shows "Skein_512_Update ctx data (k div 8) \<bind> Skein_512_Final
    = Some (skein_output (unat (drop_bit 3 (hbl + 7))) (skein_chain iv (take k (bits_of_bytes data))))"
proof -
  have q: "k div 8 \<le> length data" using k(1,2) by presburger
  then obtain c1 where c1: "Skein_512_Update ctx data (k div 8) = Some c1" "c_holds iv hbl c1 (take (k div 8) data)"
    using c_update [OF S, of "k div 8" data] k(3) by auto
  have "length (take (k div 8) data) < 2 ^ 64" using q k(3) by (simp add: min_absorb2)
  from c_final [OF c1(2) this, of False]
  show ?thesis using skein_message [of 0 "take (k div 8) data"] k(2) c1(1)
    unfolding bits_take [OF k(1)] skein_chain_def by (simp add: top_bits_def)
qed

lemma output_bytes_count:
  assumes "unat hbl + 7 < 2 ^ 64"
  shows "unat (drop_bit 3 (hbl + 7 :: u64)) = (unat hbl + 7) div 8"
proof -
  have "unat (hbl + 7) = unat hbl + 7" using assms by (simp add: unat_plus_if')
  then show ?thesis by (simp add: drop_bit_eq_div unat_div)
qed

lemma skein_hash_value:
  assumes "length (sb (ctx_512 state)) = 64" "unat hbl + 7 < 2 ^ 64" "k \<le> 8 * length data" "k div 8 + 1 < 2 ^ 64"
  shows "skein_hash state hbl data k = Some (skein (unat hbl) (take k (bits_of_bytes data)))"
proof -
  obtain ctx where c: "Skein_512_Init (ctx_512 state) hbl = Some ctx" "c_holds (skein_config (unat hbl)) hbl ctx []"
    using c_init [OF assms(1)] by blast
  have "skein_hash state hbl data k
      = (if k mod 8 = 0 then Skein_512_Update ctx data (k div 8) else Skein_partial ctx data k) \<bind> Skein_512_Final"
    by (simp add: skein_hash_def Skein_Init_def Skein_Update_def Skein_Final_def c(1))
  then show ?thesis
    using c_whole [OF c(2) assms(3)] c_partial [OF c(2) assms(3) _ assms(4)] assms(4)
    by (cases "k mod 8 = 0") (simp_all add: skein_def output_bytes_count [OF assms(2)])
qed

lemma xmr_skein_value:
  assumes "length (sb (ctx_512 state)) = 64" "200 \<le> length data"
  shows "xmr_skein state data = Some (skein 256 (bits_of_bytes (take 200 data)))"
proof -
  let ?ctx = "Skein_Start_New_Type ((ctx_512 state)\<lparr>hashBitLen := 256, sX := SKEIN_512_IV_256\<rparr>) (SKEIN_T1_BLK_TYPE 48)"
  have "c_holds (skein_config 256) 256 ?ctx []"
    by (intro start_holds) (simp_all add: assms(1) SKEIN_IV length_config)
  from c_whole [OF this, of 1600 data] show ?thesis
    using assms(2) bits_take [of 1600 data] by (simp add: xmr_skein_def skein_def top_bits_def)
qed

definition skein_state :: "u64 \<Rightarrow> hashState" where
  \<comment> \<open>a state for the witnesses\<close>
  "skein_state x = \<lparr>statebits = 0, ctx_512 = \<lparr>hashBitLen = x, bCnt = 7, sT0 = x, sT1 = x, sX = [x], sb = replicate 64 5\<rparr>\<rparr>"

section \<open>Properties\<close>

text \<open>
  C11: \<open>skein_hash\<close> is Skein-512 for every output length a \<open>size_t\<close> holds (up to the rounding to
  bytes) and every message of bits: the first \<open>databitlen\<close> bits of \<open>data\<close>. It never reads or writes
  outside its buffers. \<open>xmr_skein\<close>, which CryptoNight calls, is Skein-512-256 of the 200 bytes of
  its state.
\<close>

theorem skein_hash_is_skein:
  assumes "length (sb (ctx_512 state)) = 64" "unat hashbitlen + 7 < 2 ^ 64"
    "databitlen \<le> 8 * length data" "databitlen < 2 ^ 64"
  shows "skein_hash state hashbitlen data databitlen
      = Some (skein (unat hashbitlen) (take databitlen (bits_of_bytes data))) \<and>
    (200 \<le> length data \<longrightarrow> xmr_skein state data = Some (skein 256 (bits_of_bytes (take 200 data))))"
  using assms skein_hash_value [of state hashbitlen databitlen data] xmr_skein_value by fastforce

theorem skein_hash_is_skein_witness:
  "skein_hash (skein_state 9) 1000 (replicate 200 3) 13
     = Some (skein 1000 (take 13 (bits_of_bytes (replicate 200 3)))) \<and>
   xmr_skein (skein_state 9) (replicate 200 3) = Some (skein 256 (bits_of_bytes (replicate 200 3)))"
  using skein_hash_is_skein [of "skein_state 9" 1000 13 "replicate 200 3"] by (simp add: skein_state_def)

end
