(* ===== verification/Fe.thy ===== *)
theory Fe
  imports Checked
begin

text \<open>
  The field elements of \<^verbatim>\<open>src/base/tools/cryptonote/crypto-ops.c\<close>: the \<open>fe_\<close> functions,
  arithmetic modulo \<open>p = 2^255 - 19\<close>. An element is ten signed limbs, in \<open>int32_t\<close>, of
  alternately 26 and 25 bits; a number has many representations, and the comments of the C text
  give for each function how large its limbs may be and how large it leaves them. The lemmas
  check those bounds, that with them no 32-bit or 64-bit operation overflows, and that the
  functions compute what their comments say modulo \<open>p\<close>.
\<close>

section \<open>Addition and its like\<close>

type_synonym fe = "int list"

definition fe_0 :: fe where
  "fe_0 = [0, 0, 0, 0, 0, 0, 0, 0, 0, 0]"

definition fe_1 :: fe where
  "fe_1 = [1, 0, 0, 0, 0, 0, 0, 0, 0, 0]"

definition fe_add :: "fe \<Rightarrow> fe \<Rightarrow> fe option" where
  "fe_add f g = those (map (\<lambda>i. i32 (f ! i + g ! i)) [0..<10])"

definition fe_cmov :: "fe \<Rightarrow> fe \<Rightarrow> u32 \<Rightarrow> fe option" where
  \<comment> \<open>the new \<open>f\<close>; \<^term>\<open>None\<close> where the assertion on \<open>b\<close> fails\<close>
  "fe_cmov f g b =
     (if ((b - 1) AND NOT b) OR ((b - 2) AND NOT (b - 1)) = - 1
      then let b = - b
           in Some (map (\<lambda>i. let x = f ! i XOR g ! i;
                               x = sint ((word_of_int x :: u32) AND b)
                           in f ! i XOR x) [0..<10])
      else None)"

definition fe_copy :: "fe \<Rightarrow> fe" where
  "fe_copy f = map (\<lambda>i. f ! i) [0..<10]"

definition fe_neg :: "fe \<Rightarrow> fe option" where
  "fe_neg f = those (map (\<lambda>i. i32 (- (f ! i))) [0..<10])"

definition fe_sub :: "fe \<Rightarrow> fe \<Rightarrow> fe option" where
  "fe_sub f g = those (map (\<lambda>i. i32 (f ! i - g ! i)) [0..<10])"

section \<open>Multiplication\<close>

definition fe_width :: "nat \<Rightarrow> nat" where
  "fe_width i = (if even i then 26 else 25)"

definition fe_carry :: "nat \<Rightarrow> int list \<Rightarrow> int list option" where
  \<comment> \<open>\<open>carry = (h_i + (1<<w-1)) >> w; h_{i+1} += carry; h_i -= carry << w\<close>; the carry out of
    \<open>h9\<close> goes to \<open>h0\<close>, times 19\<close>
  "fe_carry i h =
     (let w = fe_width i
      in i64 (h ! i + 2 ^ (w - 1)) \<bind> (\<lambda>x.
         let carry = x div 2 ^ w
         in (if i = 9 then i64 (carry * 19) \<bind> (\<lambda>c. i64 (h ! 0 + c) \<bind> (\<lambda>y. Some (h[0 := y])))
             else i64 (h ! (i + 1) + carry) \<bind> (\<lambda>y. Some (h[i + 1 := y]))) \<bind> (\<lambda>h.
            i64 (carry * 2 ^ w) \<bind> (\<lambda>c.
            i64 (h ! i - c) \<bind> (\<lambda>x.
            Some (h[i := x]))))))"

definition fe_reduce :: "int list \<Rightarrow> fe option" where
  \<comment> \<open>the twelve carries and the stores to \<open>int32_t\<close>, which have to fit\<close>
  "fe_reduce h = seqM fe_carry [0, 4, 1, 5, 2, 6, 3, 7, 4, 8, 9, 0] h \<bind> (\<lambda>h. those (map i32 h))"

definition fe_mul_limbs :: "fe \<Rightarrow> fe \<Rightarrow> int list option" where
  "fe_mul_limbs f g =
     (let f0 = f ! 0; f1 = f ! 1; f2 = f ! 2; f3 = f ! 3; f4 = f ! 4;
          f5 = f ! 5; f6 = f ! 6; f7 = f ! 7; f8 = f ! 8; f9 = f ! 9;
          g0 = g ! 0; g1 = g ! 1; g2 = g ! 2; g3 = g ! 3; g4 = g ! 4;
          g5 = g ! 5; g6 = g ! 6; g7 = g ! 7; g8 = g ! 8; g9 = g ! 9
      in
      i32 (19 * g1) \<bind> (\<lambda>g1_19.
      i32 (19 * g2) \<bind> (\<lambda>g2_19.
      i32 (19 * g3) \<bind> (\<lambda>g3_19.
      i32 (19 * g4) \<bind> (\<lambda>g4_19.
      i32 (19 * g5) \<bind> (\<lambda>g5_19.
      i32 (19 * g6) \<bind> (\<lambda>g6_19.
      i32 (19 * g7) \<bind> (\<lambda>g7_19.
      i32 (19 * g8) \<bind> (\<lambda>g8_19.
      i32 (19 * g9) \<bind> (\<lambda>g9_19.
      i32 (2 * f1) \<bind> (\<lambda>f1_2.
      i32 (2 * f3) \<bind> (\<lambda>f3_2.
      i32 (2 * f5) \<bind> (\<lambda>f5_2.
      i32 (2 * f7) \<bind> (\<lambda>f7_2.
      i32 (2 * f9) \<bind> (\<lambda>f9_2.
      those
       [dot64 [(f0, g0), (f1_2, g9_19), (f2, g8_19), (f3_2, g7_19), (f4, g6_19), (f5_2, g5_19), (f6, g4_19), (f7_2, g3_19), (f8, g2_19), (f9_2, g1_19)],
        dot64 [(f0, g1), (f1, g0), (f2, g9_19), (f3, g8_19), (f4, g7_19), (f5, g6_19), (f6, g5_19), (f7, g4_19), (f8, g3_19), (f9, g2_19)],
        dot64 [(f0, g2), (f1_2, g1), (f2, g0), (f3_2, g9_19), (f4, g8_19), (f5_2, g7_19), (f6, g6_19), (f7_2, g5_19), (f8, g4_19), (f9_2, g3_19)],
        dot64 [(f0, g3), (f1, g2), (f2, g1), (f3, g0), (f4, g9_19), (f5, g8_19), (f6, g7_19), (f7, g6_19), (f8, g5_19), (f9, g4_19)],
        dot64 [(f0, g4), (f1_2, g3), (f2, g2), (f3_2, g1), (f4, g0), (f5_2, g9_19), (f6, g8_19), (f7_2, g7_19), (f8, g6_19), (f9_2, g5_19)],
        dot64 [(f0, g5), (f1, g4), (f2, g3), (f3, g2), (f4, g1), (f5, g0), (f6, g9_19), (f7, g8_19), (f8, g7_19), (f9, g6_19)],
        dot64 [(f0, g6), (f1_2, g5), (f2, g4), (f3_2, g3), (f4, g2), (f5_2, g1), (f6, g0), (f7_2, g9_19), (f8, g8_19), (f9_2, g7_19)],
        dot64 [(f0, g7), (f1, g6), (f2, g5), (f3, g4), (f4, g3), (f5, g2), (f6, g1), (f7, g0), (f8, g9_19), (f9, g8_19)],
        dot64 [(f0, g8), (f1_2, g7), (f2, g6), (f3_2, g5), (f4, g4), (f5_2, g3), (f6, g2), (f7_2, g1), (f8, g0), (f9_2, g9_19)],
        dot64 [(f0, g9), (f1, g8), (f2, g7), (f3, g6), (f4, g5), (f5, g4), (f6, g3), (f7, g2), (f8, g1), (f9, g0)]])))))))))))))))"

definition fe_mul :: "fe \<Rightarrow> fe \<Rightarrow> fe option" where
  "fe_mul f g = fe_mul_limbs f g \<bind> fe_reduce"

definition fe_sq_limbs :: "fe \<Rightarrow> int list option" where
  "fe_sq_limbs f =
     (let f0 = f ! 0; f1 = f ! 1; f2 = f ! 2; f3 = f ! 3; f4 = f ! 4;
          f5 = f ! 5; f6 = f ! 6; f7 = f ! 7; f8 = f ! 8; f9 = f ! 9
      in
      i32 (2 * f0) \<bind> (\<lambda>f0_2.
      i32 (2 * f1) \<bind> (\<lambda>f1_2.
      i32 (2 * f2) \<bind> (\<lambda>f2_2.
      i32 (2 * f3) \<bind> (\<lambda>f3_2.
      i32 (2 * f4) \<bind> (\<lambda>f4_2.
      i32 (2 * f5) \<bind> (\<lambda>f5_2.
      i32 (2 * f6) \<bind> (\<lambda>f6_2.
      i32 (2 * f7) \<bind> (\<lambda>f7_2.
      i32 (38 * f5) \<bind> (\<lambda>f5_38.
      i32 (19 * f6) \<bind> (\<lambda>f6_19.
      i32 (38 * f7) \<bind> (\<lambda>f7_38.
      i32 (19 * f8) \<bind> (\<lambda>f8_19.
      i32 (38 * f9) \<bind> (\<lambda>f9_38.
      those
       [dot64 [(f0, f0), (f1_2, f9_38), (f2_2, f8_19), (f3_2, f7_38), (f4_2, f6_19), (f5, f5_38)],
        dot64 [(f0_2, f1), (f2, f9_38), (f3_2, f8_19), (f4, f7_38), (f5_2, f6_19)],
        dot64 [(f0_2, f2), (f1_2, f1), (f3_2, f9_38), (f4_2, f8_19), (f5_2, f7_38), (f6, f6_19)],
        dot64 [(f0_2, f3), (f1_2, f2), (f4, f9_38), (f5_2, f8_19), (f6, f7_38)],
        dot64 [(f0_2, f4), (f1_2, f3_2), (f2, f2), (f5_2, f9_38), (f6_2, f8_19), (f7, f7_38)],
        dot64 [(f0_2, f5), (f1_2, f4), (f2_2, f3), (f6, f9_38), (f7_2, f8_19)],
        dot64 [(f0_2, f6), (f1_2, f5_2), (f2_2, f4), (f3_2, f3), (f7_2, f9_38), (f8, f8_19)],
        dot64 [(f0_2, f7), (f1_2, f6), (f2_2, f5), (f3_2, f4), (f8, f9_38)],
        dot64 [(f0_2, f8), (f1_2, f7_2), (f2_2, f6), (f3_2, f5_2), (f4, f4), (f9, f9_38)],
        dot64 [(f0_2, f9), (f1_2, f8), (f2_2, f7), (f3_2, f6), (f4_2, f5)]]))))))))))))))"

definition fe_sq :: "fe \<Rightarrow> fe option" where
  "fe_sq f = fe_sq_limbs f \<bind> fe_reduce"

definition fe_sq2 :: "fe \<Rightarrow> fe option" where
  \<comment> \<open>the products are those of \<open>fe_sq\<close>\<close>
  "fe_sq2 f = fe_sq_limbs f \<bind> (\<lambda>h. those (map (\<lambda>x. i64 (x + x)) h) \<bind> fe_reduce)"

section \<open>Limbs, numbers and bounds\<close>

definition fe_p :: int where
  "fe_p = 2 ^ 255 - 19"

definition fe_exp :: "nat \<Rightarrow> nat" where
  \<comment> \<open>limb \<open>i\<close> counts \<open>2^(25.5 i)\<close>, rounded up\<close>
  "fe_exp i = (51 * i + 1) div 2"

abbreviation fe_val :: "fe \<Rightarrow> int" where
  "fe_val \<equiv> limbs_val fe_exp 10"

lemma fe_exp_Suc: "fe_exp (Suc i) = fe_exp i + fe_width i"
proof (cases "even i")
  case True
  then obtain k where "i = 2 * k" by (elim evenE)
  then show ?thesis by (simp add: fe_exp_def fe_width_def)
next
  case False
  then obtain k where "i = 2 * k + 1" by (elim oddE)
  then show ?thesis by (simp add: fe_exp_def fe_width_def)
qed

definition fe_next :: "nat \<Rightarrow> nat \<times> int" where
  \<comment> \<open>where the carry out of limb \<open>i\<close> goes, and times what\<close>
  "fe_next i = (if i = 9 then (0, 19) else (i + 1, 1))"

lemma fe_carry_Some:
  assumes "fe_carry i h = Some h'" "length h = 10" "i < 10" "fe_next i = (j, k)"
  shows "h' = (let c = (h ! i + 2 ^ (fe_width i - 1)) div 2 ^ fe_width i
               in h[j := h ! j + c * k, i := h ! i - c * 2 ^ fe_width i])"
proof -
  have "j \<noteq> i" using assms(3,4) by (auto simp: fe_next_def split: if_splits)
  then show ?thesis
    using assms
    by (auto simp: fe_carry_def fe_next_def Let_def bind_Some_iff i64_def split: if_splits)
qed

lemma fe_carry_val:
  assumes "fe_carry i h = Some h'" "length h = 10" "i < 10"
  shows "length h' = 10" "fe_val h' mod fe_p = fe_val h mod fe_p"
proof -
  obtain j k where jk: "fe_next i = (j, k)" by (cases "fe_next i")
  define c where "c = (h ! i + 2 ^ (fe_width i - 1)) div 2 ^ fe_width i"
  have h': "h' = h[j := h ! j + c * k, i := h ! i - c * 2 ^ fe_width i]"
    using fe_carry_Some [OF assms jk] by (simp add: c_def Let_def)
  then show "length h' = 10" using assms(2) by simp
  have j: "j < 10" "j \<noteq> i" using jk assms(3) by (auto simp: fe_next_def split: if_splits)
  have "fe_val h' = fe_val h + c * (k * 2 ^ fe_exp j - 2 ^ (fe_exp i + fe_width i))"
    using j assms(2,3) by (simp add: h' limbs_val_update power_add algebra_simps)
  also have "\<dots> = fe_val h + (if i = 9 then - c else 0) * fe_p"
  proof (cases "i = 9")
    case True
    then show ?thesis using jk by (simp add: fe_next_def fe_p_def fe_exp_def fe_width_def algebra_simps)
  next
    case False
    then show ?thesis using jk by (simp add: fe_next_def fe_exp_Suc [symmetric])
  qed
  finally show "fe_val h' mod fe_p = fe_val h mod fe_p" by (simp only: mod_mult_self1)
qed

lemma seqM_fe_carry_val:
  assumes "seqM fe_carry is h = Some h'" "length h = 10" "\<forall>i \<in> set is. i < 10"
  shows "length h' = 10 \<and> fe_val h' mod fe_p = fe_val h mod fe_p"
  using assms
proof (induction "is" arbitrary: h)
  case (Cons i "is")
  then obtain h1 where h1: "fe_carry i h = Some h1" "seqM fe_carry is h1 = Some h'"
    by (auto simp: bind_Some_iff)
  with fe_carry_val [OF h1(1)] Cons show ?case by simp
qed simp

definition fe_carry_bound :: "nat \<Rightarrow> int list \<Rightarrow> int list option" where
  "fe_carry_bound i b =
     (let w = fe_width i; c = (b ! i + 2 ^ (w - 1)) div 2 ^ w; (j, k) = fe_next i
      in if i < 10 \<and> length b = 10 \<and> b ! j + c * k < 2 ^ 63 \<and> b ! i + 2 ^ (w - 1) < 2 ^ 63
            \<and> c * 2 ^ w < 2 ^ 63
         then Some (b[j := b ! j + c * k, i := 2 ^ (w - 1)]) else None)"

lemma round_abs_bound:
  assumes "\<bar>x\<bar> \<le> (m::int)" "w = Suc v"
  shows "\<bar>(x + 2 ^ v) div 2 ^ w\<bar> \<le> (m + 2 ^ v) div 2 ^ w"
    and "\<bar>x - (x + 2 ^ v) div 2 ^ w * 2 ^ w\<bar> \<le> 2 ^ v"
proof -
  define d :: int where "d = 2 ^ v"
  have d: "0 < d" "2 ^ w = 2 * d" by (simp_all add: d_def assms(2))
  have e: "y div (2 * d) * (2 * d) + y mod (2 * d) = y" "0 \<le> y mod (2 * d)" "y mod (2 * d) < 2 * d" for y
    using d(1) by (simp_all only: div_mult_mod_eq) simp_all
  have up: "(x + d) div (2 * d) \<le> (m + d) div (2 * d)"
    using assms(1) d by (intro zdiv_mono1) simp_all
  have "- ((m + d) div (2 * d)) \<le> (x + d) div (2 * d)"
  proof -
    have "(d - m) div (2 * d) \<le> (x + d) div (2 * d)"
      using assms(1) d by (intro zdiv_mono1) simp_all
    moreover have "- ((m + d) div (2 * d)) \<le> (d - m) div (2 * d)"
    proof -
      have "- ((m + d) div (2 * d)) * (2 * d) \<le> d - m"
        using e [of "m + d"] by (simp only: minus_mult_left [symmetric])
      then have "- ((m + d) div (2 * d)) * (2 * d) div (2 * d) \<le> (d - m) div (2 * d)"
        using d(1) by (intro zdiv_mono1) simp_all
      then show ?thesis using d(1) by (simp only: nonzero_mult_div_cancel_right)
    qed
    ultimately show ?thesis by linarith
  qed
  with up show "\<bar>(x + 2 ^ v) div 2 ^ w\<bar> \<le> (m + 2 ^ v) div 2 ^ w"
    unfolding d(2) d_def [symmetric] by linarith
  show "\<bar>x - (x + 2 ^ v) div 2 ^ w * 2 ^ w\<bar> \<le> 2 ^ v"
    unfolding d(2) d_def [symmetric] using e [of "x + d"] by linarith
qed

lemma fe_carry_shadow: "shadows fe_carry fe_carry_bound"
proof (rule shadowsI)
  fix i b b' h
  assume bs: "bounded b h" and b': "fe_carry_bound i b = Some b'"
  obtain j k where jk: "fe_next i = (j, k)" by (cases "fe_next i")
  define v where "v = fe_width i - 1"
  have w: "fe_width i = Suc v" by (simp add: v_def fe_width_def)
  define M where "M = (b ! i + 2 ^ v) div 2 ^ fe_width i"
  define c where "c = (h ! i + 2 ^ v) div 2 ^ fe_width i"
  have cond: "i < 10" "length b = 10" "b ! j + M * k < 2 ^ 63" "b ! i + 2 ^ v < 2 ^ 63" "M * 2 ^ fe_width i < 2 ^ 63"
    and b'_eq: "b' = b[j := b ! j + M * k, i := 2 ^ v]"
    using b' by (auto simp: fe_carry_bound_def Let_def jk v_def M_def split: if_splits)
  have j: "j < 10" "j \<noteq> i" "0 < k" using jk cond(1) by (auto simp: fe_next_def split: if_splits)
  have h: "\<bar>h ! i\<bar> \<le> b ! i" "\<bar>h ! j\<bar> \<le> b ! j"
    using bounded_nth [OF bs] cond(1,2) j by simp_all
  have cM: "\<bar>c\<bar> \<le> M" and r: "\<bar>h ! i - c * 2 ^ fe_width i\<bar> \<le> 2 ^ v"
    using round_abs_bound [OF h(1) w] by (simp_all add: c_def M_def)
  have ck: "\<bar>c * k\<bar> \<le> M * k" using cM j(3) by (simp add: abs_mult)
  have cw: "\<bar>c * 2 ^ fe_width i\<bar> \<le> M * 2 ^ fe_width i" using cM by (simp add: abs_mult)
  have pos: "(0::int) \<le> 2 ^ v" by simp
  have "(2::int) ^ v < 2 ^ 63" by (rule power_strict_increasing) (simp_all add: v_def fe_width_def)
  have ok: "i64 (h ! i + 2 ^ v) = Some (h ! i + 2 ^ v)" "i64 (c * k) = Some (c * k)"
    "i64 (h ! j + c * k) = Some (h ! j + c * k)"
    "i64 (c * 2 ^ fe_width i) = Some (c * 2 ^ fe_width i)"
    "i64 (h ! i - c * 2 ^ fe_width i) = Some (h ! i - c * 2 ^ fe_width i)"
    using h ck cw r \<open>2 ^ v < 2 ^ 63\<close> cond(3,4,5) pos abs_ge_zero [of "h ! i"] abs_ge_zero [of "h ! j"]
      abs_ge_zero [of "c * 2 ^ fe_width i"] by (intro i64_Some; linarith)+
  have "\<bar>h ! j + c * k\<bar> \<le> b ! j + M * k" using h(2) ck by linarith
  then have "bounded b' (h[j := h ! j + c * k, i := h ! i - c * 2 ^ fe_width i])"
    unfolding b'_eq by (intro bounded_update bs r)
  moreover have "fe_carry i h = Some (h[j := h ! j + c * k, i := h ! i - c * 2 ^ fe_width i])"
    unfolding fe_carry_def Let_def v_def [symmetric] ok(1) bind.bind_lunit c_def [symmetric]
    using jk j(2) ok by (cases "i = 9") (auto simp: fe_next_def)
  ultimately show "\<exists>s'. fe_carry i h = Some s' \<and> bounded b' s'" by blast
qed

definition fe_loose :: "int list" where
  \<comment> \<open>1.65 times \<open>2^26\<close> and \<open>2^25\<close>: what \<open>fe_mul\<close> and \<open>fe_sq\<close> accept\<close>
  "fe_loose = [110729625, 55364812, 110729625, 55364812, 110729625, 55364812, 110729625, 55364812, 110729625, 55364812]"

definition fe_tight :: "int list" where
  \<comment> \<open>1.01 times \<open>2^25\<close> and \<open>2^24\<close>: what they leave\<close>
  "fe_tight = [33889976, 16944988, 33889976, 16944988, 33889976, 16944988, 33889976, 16944988, 33889976, 16944988]"

definition fe_products_bound :: "int list" where
  \<comment> \<open>holds for the products of \<open>fe_mul\<close>, for those of \<open>fe_sq\<close> and for their doubles\<close>
  "fe_products_bound = replicate 10 (5600000000000000000)"

lemma fe_reduce_bounds:
  "case seqM fe_carry_bound [0, 4, 1, 5, 2, 6, 3, 7, 4, 8, 9, 0] fe_products_bound of None \<Rightarrow> False
   | Some b \<Rightarrow> list_all2 (\<le>) b fe_tight"
  by code_simp

lemma those_i32:
  "\<forall>x \<in> set xs. \<bar>x\<bar> < 2 ^ 31 \<Longrightarrow> those (map i32 xs) = Some xs"
  by (induction xs) (auto simp: i32_Some)

lemma bounded_list_all2: "bounded b s \<longleftrightarrow> list_all2 (\<lambda>x m. \<bar>x\<bar> \<le> m) s b"
  by (auto simp: bounded_def list_all2_conv_all_nth)

lemma bounded_le: "bounded b s \<Longrightarrow> list_all2 (\<le>) b c \<Longrightarrow> bounded c s"
  unfolding list_all2_conv_all_nth by (intro bounded_mono [of b s c]) auto

lemma bounded_all:
  assumes "bounded b s" "\<forall>m \<in> set b. m < c"
  shows "\<forall>x \<in> set s. \<bar>x\<bar> < c"
proof
  fix x assume "x \<in> set s"
  then obtain i where i: "i < length b" "x = s ! i"
    using bounded_length [OF assms(1)] by (auto simp: in_set_conv_nth)
  then have "b ! i < c" "\<bar>x\<bar> \<le> b ! i" using assms bounded_nth [OF assms(1)] by simp_all
  then show "\<bar>x\<bar> < c" by linarith
qed

lemma fe_tight_small: "bounded fe_tight h \<Longrightarrow> \<forall>x \<in> set h. \<bar>x\<bar> < 2 ^ 31"
  by (erule bounded_all) (simp add: fe_tight_def)

lemma fe_reduce_correct:
  assumes "bounded fe_products_bound h"
  shows "\<exists>h'. fe_reduce h = Some h' \<and> bounded fe_tight h' \<and> fe_val h' mod fe_p = fe_val h mod fe_p"
proof -
  obtain b where b: "seqM fe_carry_bound [0, 4, 1, 5, 2, 6, 3, 7, 4, 8, 9, 0] fe_products_bound = Some b"
    "list_all2 (\<le>) b fe_tight"
    using fe_reduce_bounds by (auto split: option.splits)
  from shadowsD [OF shadows_seqM [OF fe_carry_shadow] assms b(1)] obtain h' where
    h': "seqM fe_carry [0, 4, 1, 5, 2, 6, 3, 7, 4, 8, 9, 0] h = Some h'" "bounded b h'" by blast
  have tight: "bounded fe_tight h'" by (rule bounded_le [OF h'(2) b(2)])
  have "length h = 10" using bounded_length [OF assms] by (simp add: fe_products_bound_def)
  then have "fe_val h' mod fe_p = fe_val h mod fe_p"
    using seqM_fe_carry_val [OF h'(1)] by simp
  moreover have "fe_reduce h = Some h'"
    using those_i32 [OF fe_tight_small [OF tight]] unfolding fe_reduce_def h'(1) by simp
  ultimately show ?thesis using tight by blast
qed

section \<open>The products and their sums\<close>

lemma dot64_uniform:
  assumes "list_all (\<lambda>(x, y). \<bar>x\<bar> \<le> a \<and> \<bar>y\<bar> \<le> c) ps" "int (length ps) * (a * c) < 2 ^ 63"
  shows "dot64 ps = Some (bdot ps) \<and> \<bar>bdot ps\<bar> \<le> int (length ps) * (a * c)"
proof -
  have "bdot (replicate n (a, c)) = int n * (a * c)" for n
    by (induction n) (simp_all add: algebra_simps)
  with dot64_bdot [of ps "replicate (length ps) (a, c)"] assms show ?thesis
    by (simp add: list_all2_conv_all_nth list_all_length case_prod_beta)
qed

lemma those_dots:
  assumes "list_all (\<lambda>ps. length ps \<le> n \<and> list_all (\<lambda>(x, y). \<bar>x\<bar> \<le> a \<and> \<bar>y\<bar> \<le> c) ps) pss"
    and "int n * (a * c) < 2 ^ 63" "0 \<le> a" "0 \<le> c"
  shows "those (map dot64 pss) = Some (map bdot pss) \<and> (\<forall>x \<in> set (map bdot pss). \<bar>x\<bar> \<le> int n * (a * c))"
  using assms(1)
proof (induction pss)
  case (Cons ps pss)
  have "int (length ps) * (a * c) \<le> int n * (a * c)"
    using Cons.prems assms(3,4) by (intro mult_right_mono) simp_all
  with dot64_uniform [of a c ps] Cons assms(2) show ?case by auto
qed simp

definition fe_dots :: "int list \<Rightarrow> int list \<Rightarrow> (int \<times> int) list list" where
  "fe_dots f g = (let f0 = f ! 0; f1 = f ! 1; f2 = f ! 2; f3 = f ! 3; f4 = f ! 4;
          f5 = f ! 5; f6 = f ! 6; f7 = f ! 7; f8 = f ! 8; f9 = f ! 9;
          g0 = g ! 0; g1 = g ! 1; g2 = g ! 2; g3 = g ! 3; g4 = g ! 4;
          g5 = g ! 5; g6 = g ! 6; g7 = g ! 7; g8 = g ! 8; g9 = g ! 9;
          g1_19 = 19 * g1; g2_19 = 19 * g2; g3_19 = 19 * g3; g4_19 = 19 * g4; g5_19 = 19 * g5; g6_19 = 19 * g6; g7_19 = 19 * g7; g8_19 = 19 * g8; g9_19 = 19 * g9;
          f1_2 = 2 * f1; f3_2 = 2 * f3; f5_2 = 2 * f5; f7_2 = 2 * f7; f9_2 = 2 * f9
      in
       [ [(f0, g0), (f1_2, g9_19), (f2, g8_19), (f3_2, g7_19), (f4, g6_19), (f5_2, g5_19), (f6, g4_19), (f7_2, g3_19), (f8, g2_19), (f9_2, g1_19)],
         [(f0, g1), (f1, g0), (f2, g9_19), (f3, g8_19), (f4, g7_19), (f5, g6_19), (f6, g5_19), (f7, g4_19), (f8, g3_19), (f9, g2_19)],
         [(f0, g2), (f1_2, g1), (f2, g0), (f3_2, g9_19), (f4, g8_19), (f5_2, g7_19), (f6, g6_19), (f7_2, g5_19), (f8, g4_19), (f9_2, g3_19)],
         [(f0, g3), (f1, g2), (f2, g1), (f3, g0), (f4, g9_19), (f5, g8_19), (f6, g7_19), (f7, g6_19), (f8, g5_19), (f9, g4_19)],
         [(f0, g4), (f1_2, g3), (f2, g2), (f3_2, g1), (f4, g0), (f5_2, g9_19), (f6, g8_19), (f7_2, g7_19), (f8, g6_19), (f9_2, g5_19)],
         [(f0, g5), (f1, g4), (f2, g3), (f3, g2), (f4, g1), (f5, g0), (f6, g9_19), (f7, g8_19), (f8, g7_19), (f9, g6_19)],
         [(f0, g6), (f1_2, g5), (f2, g4), (f3_2, g3), (f4, g2), (f5_2, g1), (f6, g0), (f7_2, g9_19), (f8, g8_19), (f9_2, g7_19)],
         [(f0, g7), (f1, g6), (f2, g5), (f3, g4), (f4, g3), (f5, g2), (f6, g1), (f7, g0), (f8, g9_19), (f9, g8_19)],
         [(f0, g8), (f1_2, g7), (f2, g6), (f3_2, g5), (f4, g4), (f5_2, g3), (f6, g2), (f7_2, g1), (f8, g0), (f9_2, g9_19)],
         [(f0, g9), (f1, g8), (f2, g7), (f3, g6), (f4, g5), (f5, g4), (f6, g3), (f7, g2), (f8, g1), (f9, g0)]])"

lemma fe_exp_values:
  "fe_exp 0 = 0" "fe_exp 1 = 26" "fe_exp 2 = 51" "fe_exp 3 = 77" "fe_exp 4 = 102"
  "fe_exp 5 = 128" "fe_exp 6 = 153" "fe_exp 7 = 179" "fe_exp 8 = 204" "fe_exp 9 = 230"
  by (simp_all add: fe_exp_def)

lemma sum_10: "(\<Sum>i<10::nat. t i :: int) = t 0 + t 1 + t 2 + t 3 + t 4 + t 5 + t 6 + t 7 + t 8 + t 9"
  by (simp add: eval_nat_numeral)

lemma fe_val_10:
  "fe_val h = h ! 0 + h ! 1 * 2 ^ 26 + h ! 2 * 2 ^ 51 + h ! 3 * 2 ^ 77 + h ! 4 * 2 ^ 102
     + h ! 5 * 2 ^ 128 + h ! 6 * 2 ^ 153 + h ! 7 * 2 ^ 179 + h ! 8 * 2 ^ 204 + h ! 9 * 2 ^ 230"
  by (simp only: limbs_val_def sum_10 fe_exp_values power_0 mult_1_right)

lemma fe_product:
  fixes fa fb fc fd fe ff fg fh fi fj :: int
    and ga gb gc gd ge gf gg gh gi gj :: int
  shows
   "(fa + fb * 2 ^ 26 + fc * 2 ^ 51 + fd * 2 ^ 77 + fe * 2 ^ 102 + ff * 2 ^ 128 + fg * 2 ^ 153 + fh * 2 ^ 179 + fi * 2 ^ 204 + fj * 2 ^ 230)
    * (ga + gb * 2 ^ 26 + gc * 2 ^ 51 + gd * 2 ^ 77 + ge * 2 ^ 102 + gf * 2 ^ 128 + gg * 2 ^ 153 + gh * 2 ^ 179 + gi * 2 ^ 204 + gj * 2 ^ 230)
    = (fa * ga)
      + (fa * gb + fb * ga) * 2 ^ 26
      + (fa * gc + 2 * fb * gb + fc * ga) * 2 ^ 51
      + (fa * gd + fb * gc + fc * gb + fd * ga) * 2 ^ 77
      + (fa * ge + 2 * fb * gd + fc * gc + 2 * fd * gb + fe * ga) * 2 ^ 102
      + (fa * gf + fb * ge + fc * gd + fd * gc + fe * gb + ff * ga) * 2 ^ 128
      + (fa * gg + 2 * fb * gf + fc * ge + 2 * fd * gd + fe * gc + 2 * ff * gb + fg * ga) * 2 ^ 153
      + (fa * gh + fb * gg + fc * gf + fd * ge + fe * gd + ff * gc + fg * gb + fh * ga) * 2 ^ 179
      + (fa * gi + 2 * fb * gh + fc * gg + 2 * fd * gf + fe * ge + 2 * ff * gd + fg * gc + 2 * fh * gb + fi * ga) * 2 ^ 204
      + (fa * gj + fb * gi + fc * gh + fd * gg + fe * gf + ff * ge + fg * gd + fh * gc + fi * gb + fj * ga) * 2 ^ 230
      + ((2 * fb * gj + fc * gi + 2 * fd * gh + fe * gg + 2 * ff * gf + fg * ge + 2 * fh * gd + fi * gc + 2 * fj * gb)
        + (fc * gj + fd * gi + fe * gh + ff * gg + fg * gf + fh * ge + fi * gd + fj * gc) * 2 ^ 26
        + (2 * fd * gj + fe * gi + 2 * ff * gh + fg * gg + 2 * fh * gf + fi * ge + 2 * fj * gd) * 2 ^ 51
        + (fe * gj + ff * gi + fg * gh + fh * gg + fi * gf + fj * ge) * 2 ^ 77
        + (2 * ff * gj + fg * gi + 2 * fh * gh + fi * gg + 2 * fj * gf) * 2 ^ 102
        + (fg * gj + fh * gi + fi * gh + fj * gg) * 2 ^ 128
        + (2 * fh * gj + fi * gi + 2 * fj * gh) * 2 ^ 153
        + (fi * gj + fj * gi) * 2 ^ 179
        + (2 * fj * gj) * 2 ^ 204) * 2 ^ 255"
  by (simp add: algebra_simps)

lemma fe_wrap:
  fixes a0 a1 a2 a3 a4 a5 a6 a7 a8 a9 :: int
    and b0 b1 b2 b3 b4 b5 b6 b7 b8 :: int
  shows
   "a0 + a1 * 2 ^ 26 + a2 * 2 ^ 51 + a3 * 2 ^ 77 + a4 * 2 ^ 102 + a5 * 2 ^ 128 + a6 * 2 ^ 153 + a7 * 2 ^ 179 + a8 * 2 ^ 204 + a9 * 2 ^ 230
      + (b0 + b1 * 2 ^ 26 + b2 * 2 ^ 51 + b3 * 2 ^ 77 + b4 * 2 ^ 102 + b5 * 2 ^ 128 + b6 * 2 ^ 153 + b7 * 2 ^ 179 + b8 * 2 ^ 204) * 2 ^ 255
    = (a0 + 19 * b0) + (a1 + 19 * b1) * 2 ^ 26 + (a2 + 19 * b2) * 2 ^ 51 + (a3 + 19 * b3) * 2 ^ 77 + (a4 + 19 * b4) * 2 ^ 102 + (a5 + 19 * b5) * 2 ^ 128 + (a6 + 19 * b6) * 2 ^ 153 + (a7 + 19 * b7) * 2 ^ 179 + (a8 + 19 * b8) * 2 ^ 204 + a9 * 2 ^ 230
      + (b0 + b1 * 2 ^ 26 + b2 * 2 ^ 51 + b3 * 2 ^ 77 + b4 * 2 ^ 102 + b5 * 2 ^ 128 + b6 * 2 ^ 153 + b7 * 2 ^ 179 + b8 * 2 ^ 204) * (2 ^ 255 - 19)"
  by (simp add: algebra_simps)

lemma fe_rows:
  fixes fa fb fc fd fe ff fg fh fi fj :: int
    and ga gb gc gd ge gf gg gh gi gj :: int
  shows
   "bdot [(fa, ga), (2 * fb, 19 * gj), (fc, 19 * gi), (2 * fd, 19 * gh), (fe, 19 * gg), (2 * ff, 19 * gf), (fg, 19 * ge), (2 * fh, 19 * gd), (fi, 19 * gc), (2 * fj, 19 * gb)]
     = fa * ga
       + 19 * (2 * fb * gj + fc * gi + 2 * fd * gh + fe * gg + 2 * ff * gf + fg * ge + 2 * fh * gd + fi * gc + 2 * fj * gb)"
   "bdot [(fa, gb), (fb, ga), (fc, 19 * gj), (fd, 19 * gi), (fe, 19 * gh), (ff, 19 * gg), (fg, 19 * gf), (fh, 19 * ge), (fi, 19 * gd), (fj, 19 * gc)]
     = fa * gb + fb * ga
       + 19 * (fc * gj + fd * gi + fe * gh + ff * gg + fg * gf + fh * ge + fi * gd + fj * gc)"
   "bdot [(fa, gc), (2 * fb, gb), (fc, ga), (2 * fd, 19 * gj), (fe, 19 * gi), (2 * ff, 19 * gh), (fg, 19 * gg), (2 * fh, 19 * gf), (fi, 19 * ge), (2 * fj, 19 * gd)]
     = fa * gc + 2 * fb * gb + fc * ga
       + 19 * (2 * fd * gj + fe * gi + 2 * ff * gh + fg * gg + 2 * fh * gf + fi * ge + 2 * fj * gd)"
   "bdot [(fa, gd), (fb, gc), (fc, gb), (fd, ga), (fe, 19 * gj), (ff, 19 * gi), (fg, 19 * gh), (fh, 19 * gg), (fi, 19 * gf), (fj, 19 * ge)]
     = fa * gd + fb * gc + fc * gb + fd * ga
       + 19 * (fe * gj + ff * gi + fg * gh + fh * gg + fi * gf + fj * ge)"
   "bdot [(fa, ge), (2 * fb, gd), (fc, gc), (2 * fd, gb), (fe, ga), (2 * ff, 19 * gj), (fg, 19 * gi), (2 * fh, 19 * gh), (fi, 19 * gg), (2 * fj, 19 * gf)]
     = fa * ge + 2 * fb * gd + fc * gc + 2 * fd * gb + fe * ga
       + 19 * (2 * ff * gj + fg * gi + 2 * fh * gh + fi * gg + 2 * fj * gf)"
   "bdot [(fa, gf), (fb, ge), (fc, gd), (fd, gc), (fe, gb), (ff, ga), (fg, 19 * gj), (fh, 19 * gi), (fi, 19 * gh), (fj, 19 * gg)]
     = fa * gf + fb * ge + fc * gd + fd * gc + fe * gb + ff * ga
       + 19 * (fg * gj + fh * gi + fi * gh + fj * gg)"
   "bdot [(fa, gg), (2 * fb, gf), (fc, ge), (2 * fd, gd), (fe, gc), (2 * ff, gb), (fg, ga), (2 * fh, 19 * gj), (fi, 19 * gi), (2 * fj, 19 * gh)]
     = fa * gg + 2 * fb * gf + fc * ge + 2 * fd * gd + fe * gc + 2 * ff * gb + fg * ga
       + 19 * (2 * fh * gj + fi * gi + 2 * fj * gh)"
   "bdot [(fa, gh), (fb, gg), (fc, gf), (fd, ge), (fe, gd), (ff, gc), (fg, gb), (fh, ga), (fi, 19 * gj), (fj, 19 * gi)]
     = fa * gh + fb * gg + fc * gf + fd * ge + fe * gd + ff * gc + fg * gb + fh * ga
       + 19 * (fi * gj + fj * gi)"
   "bdot [(fa, gi), (2 * fb, gh), (fc, gg), (2 * fd, gf), (fe, ge), (2 * ff, gd), (fg, gc), (2 * fh, gb), (fi, ga), (2 * fj, 19 * gj)]
     = fa * gi + 2 * fb * gh + fc * gg + 2 * fd * gf + fe * ge + 2 * ff * gd + fg * gc + 2 * fh * gb + fi * ga
       + 19 * (2 * fj * gj)"
   "bdot [(fa, gj), (fb, gi), (fc, gh), (fd, gg), (fe, gf), (ff, ge), (fg, gd), (fh, gc), (fi, gb), (fj, ga)]
     = fa * gj + fb * gi + fc * gh + fd * gg + fe * gf + ff * ge + fg * gd + fh * gc + fi * gb + fj * ga"
  by (simp_all add: algebra_simps)

lemma nth_10:
  "[a0, a1, a2, a3, a4, a5, a6, a7, a8, a9] ! 0 = a0"
  "[a0, a1, a2, a3, a4, a5, a6, a7, a8, a9] ! 1 = a1"
  "[a0, a1, a2, a3, a4, a5, a6, a7, a8, a9] ! 2 = a2"
  "[a0, a1, a2, a3, a4, a5, a6, a7, a8, a9] ! 3 = a3"
  "[a0, a1, a2, a3, a4, a5, a6, a7, a8, a9] ! 4 = a4"
  "[a0, a1, a2, a3, a4, a5, a6, a7, a8, a9] ! 5 = a5"
  "[a0, a1, a2, a3, a4, a5, a6, a7, a8, a9] ! 6 = a6"
  "[a0, a1, a2, a3, a4, a5, a6, a7, a8, a9] ! 7 = a7"
  "[a0, a1, a2, a3, a4, a5, a6, a7, a8, a9] ! 8 = a8"
  "[a0, a1, a2, a3, a4, a5, a6, a7, a8, a9] ! 9 = a9"
  by (simp_all add: eval_nat_numeral)

lemma fe_dots_val:
  "\<exists>q. fe_val f * fe_val g = fe_val (map bdot (fe_dots f g)) + q * fe_p"
proof -
  note rows = fe_rows [where fa = "f ! 0" and fb = "f ! 1" and fc = "f ! 2" and fd = "f ! 3" and fe = "f ! 4" and ff = "f ! 5" and fg = "f ! 6" and fh = "f ! 7" and fi = "f ! 8" and fj = "f ! 9" and ga = "g ! 0" and gb = "g ! 1" and gc = "g ! 2" and gd = "g ! 3" and ge = "g ! 4" and gf = "g ! 5" and gg = "g ! 6" and gh = "g ! 7" and gi = "g ! 8" and gj = "g ! 9"]
  show ?thesis
    unfolding fe_val_10 fe_product fe_wrap fe_dots_def Let_def list.map nth_10 rows fe_p_def by blast
qed

lemma fe_loose_nth:
  assumes "bounded fe_loose f"
  shows "\<bar>f ! 0\<bar> \<le> 110729625"
    "\<bar>f ! 1\<bar> \<le> 55364812"
    "\<bar>f ! 2\<bar> \<le> 110729625"
    "\<bar>f ! 3\<bar> \<le> 55364812"
    "\<bar>f ! 4\<bar> \<le> 110729625"
    "\<bar>f ! 5\<bar> \<le> 55364812"
    "\<bar>f ! 6\<bar> \<le> 110729625"
    "\<bar>f ! 7\<bar> \<le> 55364812"
    "\<bar>f ! 8\<bar> \<le> 110729625"
    "\<bar>f ! 9\<bar> \<le> 55364812"
  subgoal using bounded_nth [OF assms, of 0] by (simp add: fe_loose_def)
  subgoal using bounded_nth [OF assms, of 1] by (simp add: fe_loose_def)
  subgoal using bounded_nth [OF assms, of 2] by (simp add: fe_loose_def)
  subgoal using bounded_nth [OF assms, of 3] by (simp add: fe_loose_def)
  subgoal using bounded_nth [OF assms, of 4] by (simp add: fe_loose_def)
  subgoal using bounded_nth [OF assms, of 5] by (simp add: fe_loose_def)
  subgoal using bounded_nth [OF assms, of 6] by (simp add: fe_loose_def)
  subgoal using bounded_nth [OF assms, of 7] by (simp add: fe_loose_def)
  subgoal using bounded_nth [OF assms, of 8] by (simp add: fe_loose_def)
  subgoal using bounded_nth [OF assms, of 9] by (simp add: fe_loose_def)
  done

lemma fe_loose_all: "bounded fe_loose f \<Longrightarrow> i < 10 \<Longrightarrow> \<bar>f ! i\<bar> \<le> 110729625"
  using bounded_nth [of fe_loose f i] nth_mem [of i fe_loose]
  by (fastforce simp: fe_loose_def)

lemma i32_mult: "\<bar>x\<bar> \<le> m \<Longrightarrow> 0 \<le> k \<Longrightarrow> k * m < 2 ^ 31 \<Longrightarrow> i32 (k * x) = Some (k * x)"
  by (rule i32_Some) (auto simp: abs_mult intro: le_less_trans [OF mult_left_mono])

lemma abs_mult_le: "\<bar>x\<bar> \<le> m \<Longrightarrow> 0 \<le> k \<Longrightarrow> k * m \<le> n \<Longrightarrow> \<bar>k * x\<bar> \<le> (n::int)"
  by (auto simp: abs_mult intro: order_trans [OF mult_left_mono])

lemma fe_mul_limbs_dots:
  assumes "bounded fe_loose f" "bounded fe_loose g"
  shows "fe_mul_limbs f g = those (map dot64 (fe_dots f g))"
proof -
  have 19: "i32 (19 * x) = Some (19 * x)" if "\<bar>x\<bar> \<le> 110729625" for x
    by (rule i32_mult [OF that]) simp_all
  have 2: "i32 (2 * x) = Some (2 * x)" if "\<bar>x\<bar> \<le> 55364812" for x
    by (rule i32_mult [OF that]) simp_all
  have g: "\<bar>g ! i\<bar> \<le> 110729625" if "i < 10" for i
    by (rule fe_loose_all [OF assms(2) that])
  have lt: "(1::nat) < 10" "(2::nat) < 10" "(3::nat) < 10" "(4::nat) < 10" "(5::nat) < 10"
    "(6::nat) < 10" "(7::nat) < 10" "(8::nat) < 10" "(9::nat) < 10" by simp_all
  have lt: "(1::nat) < 10" "(2::nat) < 10" "(3::nat) < 10" "(4::nat) < 10" "(5::nat) < 10"
    "(6::nat) < 10" "(7::nat) < 10" "(8::nat) < 10" "(9::nat) < 10" by simp_all
  note ok = lt [THEN g, THEN 19] 2 [OF fe_loose_nth(2) [OF assms(1)]] 2 [OF fe_loose_nth(4) [OF assms(1)]] 2 [OF fe_loose_nth(6) [OF assms(1)]] 2 [OF fe_loose_nth(8) [OF assms(1)]] 2 [OF fe_loose_nth(10) [OF assms(1)]]
  show ?thesis unfolding fe_mul_limbs_def fe_dots_def Let_def list.map
    by (simp only: ok bind.bind_lunit)
qed

lemma fe_dots_bounds:
  assumes "bounded fe_loose f" "bounded fe_loose g"
  shows "list_all (\<lambda>ps. length ps \<le> 10 \<and> list_all (\<lambda>(x, y). \<bar>x\<bar> \<le> 110729625 \<and> \<bar>y\<bar> \<le> 2103862875) ps) (fe_dots f g)"
proof -
  have f: "\<bar>f ! i\<bar> \<le> 110729625" if "i < 10" for i
    by (rule fe_loose_all [OF assms(1) that])
  have g: "\<bar>g ! i\<bar> \<le> 2103862875" "\<bar>19 * g ! i\<bar> \<le> 2103862875" if "i < 10" for i
    using fe_loose_all [OF assms(2) that] by (simp_all add: abs_mult)
  have f2: "\<bar>2 * x\<bar> \<le> 110729625" if "\<bar>x\<bar> \<le> 55364812" for x :: int
    by (rule abs_mult_le [OF that]) simp_all
  have lt: "(0::nat) < 10" "(1::nat) < 10" "(2::nat) < 10" "(3::nat) < 10" "(4::nat) < 10" "(5::nat) < 10"
    "(6::nat) < 10" "(7::nat) < 10" "(8::nat) < 10" "(9::nat) < 10" by simp_all
  note f2s = fe_loose_nth(2,4,6,8,10) [OF assms(1), THEN f2]
  show ?thesis
    unfolding fe_dots_def Let_def
    by (simp only: list.pred_inject case_prod_conv lt [THEN f] lt [THEN g(1)] lt [THEN g(2)] f2s)
      simp
qed

lemma fe_mul_limbs_correct:
  assumes "bounded fe_loose f" "bounded fe_loose g"
  shows "\<exists>h. fe_mul_limbs f g = Some h \<and> bounded fe_products_bound h
    \<and> fe_val h mod fe_p = fe_val f * fe_val g mod fe_p"
proof -
  let ?h = "map bdot (fe_dots f g)"
  have "fe_mul_limbs f g = Some ?h" and b: "\<forall>x \<in> set ?h. \<bar>x\<bar> \<le> int 10 * (110729625 * 2103862875)"
    using those_dots [OF fe_dots_bounds [OF assms]] fe_mul_limbs_dots [OF assms] by simp_all
  moreover have "bounded fe_products_bound ?h"
  proof -
    have len: "length ?h = 10" by (simp add: fe_dots_def Let_def)
    have "\<bar>?h ! i\<bar> \<le> 5600000000000000000" if "i < 10" for i
      using b nth_mem [of i ?h] that len by fastforce
    then show ?thesis using len by (simp add: bounded_def fe_products_bound_def)
  qed
  moreover have "fe_val ?h mod fe_p = fe_val f * fe_val g mod fe_p"
    using fe_dots_val [of f g] by (metis mod_mult_self1)
  ultimately show ?thesis by metis
qed

section \<open>Squaring\<close>

definition fe_sq_dots :: "int list \<Rightarrow> (int \<times> int) list list" where
  "fe_sq_dots f = (let f0 = f ! 0; f1 = f ! 1; f2 = f ! 2; f3 = f ! 3; f4 = f ! 4;
          f5 = f ! 5; f6 = f ! 6; f7 = f ! 7; f8 = f ! 8; f9 = f ! 9;
          f0_2 = 2 * f0; f1_2 = 2 * f1; f2_2 = 2 * f2; f3_2 = 2 * f3; f4_2 = 2 * f4; f5_2 = 2 * f5; f6_2 = 2 * f6; f7_2 = 2 * f7; f5_38 = 38 * f5; f6_19 = 19 * f6; f7_38 = 38 * f7; f8_19 = 19 * f8; f9_38 = 38 * f9
      in
       [[(f0, f0), (f1_2, f9_38), (f2_2, f8_19), (f3_2, f7_38), (f4_2, f6_19), (f5, f5_38)],
        [(f0_2, f1), (f2, f9_38), (f3_2, f8_19), (f4, f7_38), (f5_2, f6_19)],
        [(f0_2, f2), (f1_2, f1), (f3_2, f9_38), (f4_2, f8_19), (f5_2, f7_38), (f6, f6_19)],
        [(f0_2, f3), (f1_2, f2), (f4, f9_38), (f5_2, f8_19), (f6, f7_38)],
        [(f0_2, f4), (f1_2, f3_2), (f2, f2), (f5_2, f9_38), (f6_2, f8_19), (f7, f7_38)],
        [(f0_2, f5), (f1_2, f4), (f2_2, f3), (f6, f9_38), (f7_2, f8_19)],
        [(f0_2, f6), (f1_2, f5_2), (f2_2, f4), (f3_2, f3), (f7_2, f9_38), (f8, f8_19)],
        [(f0_2, f7), (f1_2, f6), (f2_2, f5), (f3_2, f4), (f8, f9_38)],
        [(f0_2, f8), (f1_2, f7_2), (f2_2, f6), (f3_2, f5_2), (f4, f4), (f9, f9_38)],
        [(f0_2, f9), (f1_2, f8), (f2_2, f7), (f3_2, f6), (f4_2, f5)]])"

lemma fe_sq_limbs_dots:
  assumes "bounded fe_loose f"
  shows "fe_sq_limbs f = those (map dot64 (fe_sq_dots f))"
proof -
  have 19: "i32 (19 * x) = Some (19 * x)" "i32 (2 * x) = Some (2 * x)" if "\<bar>x\<bar> \<le> 110729625" for x
    by (rule i32_mult [OF that]; simp)+
  have 38: "i32 (38 * x) = Some (38 * x)" if "\<bar>x\<bar> \<le> 55364812" for x
    by (rule i32_mult [OF that]) simp_all
  have f: "\<bar>f ! i\<bar> \<le> 110729625" if "i < 10" for i
    by (rule fe_loose_all [OF assms that])
  have lt: "(0::nat) < 10" "(1::nat) < 10" "(2::nat) < 10" "(3::nat) < 10" "(4::nat) < 10" "(5::nat) < 10"
    "(6::nat) < 10" "(7::nat) < 10" "(8::nat) < 10" "(9::nat) < 10" by simp_all
  note ok = lt [THEN f, THEN 19(1)] lt [THEN f, THEN 19(2)] fe_loose_nth(2,4,6,8,10) [OF assms, THEN 38]
  show ?thesis unfolding fe_sq_limbs_def fe_sq_dots_def Let_def list.map
    by (simp only: ok bind.bind_lunit)
qed

lemma fe_sq_dots_bounds:
  assumes "bounded fe_loose f"
  shows "list_all (\<lambda>ps. length ps \<le> 6 \<and> list_all (\<lambda>(x, y). \<bar>x\<bar> \<le> 221459250 \<and> \<bar>y\<bar> \<le> 2103862875) ps) (fe_sq_dots f)"
proof -
  have f: "\<bar>f ! i\<bar> \<le> 221459250" "\<bar>2 * f ! i\<bar> \<le> 221459250" "\<bar>f ! i\<bar> \<le> 2103862875"
    "\<bar>2 * f ! i\<bar> \<le> 2103862875" "\<bar>19 * f ! i\<bar> \<le> 2103862875" if "i < 10" for i
    using fe_loose_all [OF assms that] by (simp_all add: abs_mult)
  have 38: "\<bar>38 * x\<bar> \<le> 2103862875" if "\<bar>x\<bar> \<le> 55364812" for x :: int
    by (rule abs_mult_le [OF that]) simp_all
  have lt: "(0::nat) < 10" "(1::nat) < 10" "(2::nat) < 10" "(3::nat) < 10" "(4::nat) < 10" "(5::nat) < 10"
    "(6::nat) < 10" "(7::nat) < 10" "(8::nat) < 10" "(9::nat) < 10" by simp_all
  note n38 = fe_loose_nth(2,4,6,8,10) [OF assms, THEN 38]
  show ?thesis
    unfolding fe_sq_dots_def Let_def
    by (simp only: list.pred_inject case_prod_conv lt [THEN f(1)] lt [THEN f(2)] lt [THEN f(3)]
        lt [THEN f(4)] lt [THEN f(5)] n38) simp
qed

lemma fe_sq_dots_eq: "map bdot (fe_sq_dots f) = map bdot (fe_dots f f)"
  unfolding fe_sq_dots_def fe_dots_def Let_def list.map list.inject
  by (intro conjI refl) (simp_all add: algebra_simps)

lemma fe_sq_limbs_correct:
  assumes "bounded fe_loose f"
  shows "\<exists>h. fe_sq_limbs f = Some h \<and> length h = 10 \<and> (\<forall>x \<in> set h. \<bar>x\<bar> \<le> 2800000000000000000)
    \<and> fe_val h mod fe_p = fe_val f * fe_val f mod fe_p"
proof -
  let ?h = "map bdot (fe_sq_dots f)"
  have "fe_sq_limbs f = Some ?h" and b: "\<forall>x \<in> set ?h. \<bar>x\<bar> \<le> int 6 * (221459250 * 2103862875)"
    using those_dots [OF fe_sq_dots_bounds [OF assms]] fe_sq_limbs_dots [OF assms] by simp_all
  moreover have "length ?h = 10" by (simp add: fe_sq_dots_def Let_def)
  moreover have "\<forall>x \<in> set ?h. \<bar>x\<bar> \<le> 2800000000000000000"
    using b by fastforce
  moreover have "fe_val ?h mod fe_p = fe_val f * fe_val f mod fe_p"
    using fe_dots_val [of f f] unfolding fe_sq_dots_eq by (metis mod_mult_self1)
  ultimately show ?thesis by metis
qed

section \<open>The functions on numbers modulo \<open>p\<close>\<close>

lemma bounded_all_le:
  "length s = n \<Longrightarrow> \<forall>x \<in> set s. \<bar>x\<bar> \<le> m \<Longrightarrow> bounded (replicate n m) s"
  by (auto simp: bounded_def)

lemma fe_mul_ok:
  assumes "bounded fe_loose f" "bounded fe_loose g"
  shows "\<exists>h. fe_mul f g = Some h \<and> bounded fe_tight h \<and> fe_val h mod fe_p = fe_val f * fe_val g mod fe_p"
proof -
  from fe_mul_limbs_correct [OF assms] obtain h where
    h: "fe_mul_limbs f g = Some h" "bounded fe_products_bound h"
      "fe_val h mod fe_p = fe_val f * fe_val g mod fe_p" by blast
  from fe_reduce_correct [OF h(2)] h(1,3) show ?thesis by (auto simp: fe_mul_def)
qed

lemma fe_sq_ok:
  assumes "bounded fe_loose f"
  shows "\<exists>h. fe_sq f = Some h \<and> bounded fe_tight h \<and> fe_val h mod fe_p = fe_val f * fe_val f mod fe_p"
proof -
  from fe_sq_limbs_correct [OF assms] obtain h where
    h: "fe_sq_limbs f = Some h" "length h = 10" "\<forall>x \<in> set h. \<bar>x\<bar> \<le> 2800000000000000000"
      "fe_val h mod fe_p = fe_val f * fe_val f mod fe_p" by blast
  have "bounded fe_products_bound h"
    unfolding fe_products_bound_def by (rule bounded_all_le [OF h(2)]) (use h(3) in fastforce)
  from fe_reduce_correct [OF this] h(1,4) show ?thesis by (auto simp: fe_sq_def)
qed

lemma those_i64:
  "\<forall>x \<in> set xs. \<bar>t x\<bar> < 2 ^ 63 \<Longrightarrow> those (map (\<lambda>x. i64 (t x)) xs) = Some (map t xs)"
  by (induction xs) (auto simp: i64_Some)

lemma fe_sq2_ok:
  assumes "bounded fe_loose f"
  shows "\<exists>h. fe_sq2 f = Some h \<and> bounded fe_tight h \<and> fe_val h mod fe_p = 2 * (fe_val f * fe_val f) mod fe_p"
proof -
  from fe_sq_limbs_correct [OF assms] obtain h where
    h: "fe_sq_limbs f = Some h" "length h = 10" "\<forall>x \<in> set h. \<bar>x\<bar> \<le> 2800000000000000000"
      "fe_val h mod fe_p = fe_val f * fe_val f mod fe_p" by blast
  let ?h2 = "map (\<lambda>x. x + x) h"
  have b: "\<bar>x + x\<bar> \<le> 5600000000000000000" if "x \<in> set h" for x
    using h(3) that by fastforce
  have "bounded fe_products_bound ?h2"
    unfolding fe_products_bound_def by (rule bounded_all_le) (use b h(2) in auto)
  note r = fe_reduce_correct [OF this]
  have "those (map (\<lambda>x. i64 (x + x)) h) = Some ?h2"
    by (rule those_i64) (use b in fastforce)
  then have "fe_sq2 f = fe_reduce ?h2" by (simp add: fe_sq2_def h(1))
  moreover have "fe_val ?h2 = 2 * fe_val h"
    unfolding limbs_val_def sum_distrib_left by (rule sum.cong) (simp_all add: h(2))
  then have "fe_val ?h2 mod fe_p = 2 * (fe_val f * fe_val f) mod fe_p"
    using mod_mult_cong [OF refl h(4), of 2] by simp
  ultimately show ?thesis using r by metis
qed

end
