(* ===== verification/Fe_Power.thy ===== *)
theory Fe_Power
  imports Fe
begin

text \<open>
  The power chains of \<^verbatim>\<open>src/base/tools/cryptonote/crypto-ops.c\<close>: \<open>fe_invert\<close> raises to
  \<open>p - 2\<close> and \<open>fe_divpowm1\<close> to \<open>(p - 5) div 8\<close>, each by a fixed sequence of
  squarings and products. The interface \<open>power_chain\<close> says what such a sequence needs of the
  two operations: on representations within bounds they succeed, stay within bounds and
  multiply.
\<close>

section \<open>The chains\<close>

fun fe_sqs :: "nat \<Rightarrow> fe \<Rightarrow> fe option" where
  \<comment> \<open>\<open>for (i = 0; i < n; ++i) fe_sq(t, t)\<close>\<close>
  "fe_sqs 0 t = Some t"
| "fe_sqs (Suc n) t = fe_sq t \<bind> fe_sqs n"

definition fe_invert :: "fe \<Rightarrow> fe option" where
  "fe_invert z =
     fe_sq z \<bind> (\<lambda>t0.
     fe_sq t0 \<bind> (\<lambda>t1.
     fe_sq t1 \<bind> (\<lambda>t1.
     fe_mul z t1 \<bind> (\<lambda>t1.
     fe_mul t0 t1 \<bind> (\<lambda>t0.
     fe_sq t0 \<bind> (\<lambda>t2.
     fe_mul t1 t2 \<bind> (\<lambda>t1.
     fe_sq t1 \<bind> (\<lambda>t2.
     fe_sqs 4 t2 \<bind> (\<lambda>t2.
     fe_mul t2 t1 \<bind> (\<lambda>t1.
     fe_sq t1 \<bind> (\<lambda>t2.
     fe_sqs 9 t2 \<bind> (\<lambda>t2.
     fe_mul t2 t1 \<bind> (\<lambda>t2.
     fe_sq t2 \<bind> (\<lambda>t3.
     fe_sqs 19 t3 \<bind> (\<lambda>t3.
     fe_mul t3 t2 \<bind> (\<lambda>t2.
     fe_sq t2 \<bind> (\<lambda>t2.
     fe_sqs 9 t2 \<bind> (\<lambda>t2.
     fe_mul t2 t1 \<bind> (\<lambda>t1.
     fe_sq t1 \<bind> (\<lambda>t2.
     fe_sqs 49 t2 \<bind> (\<lambda>t2.
     fe_mul t2 t1 \<bind> (\<lambda>t2.
     fe_sq t2 \<bind> (\<lambda>t3.
     fe_sqs 99 t3 \<bind> (\<lambda>t3.
     fe_mul t3 t2 \<bind> (\<lambda>t2.
     fe_sq t2 \<bind> (\<lambda>t2.
     fe_sqs 49 t2 \<bind> (\<lambda>t2.
     fe_mul t2 t1 \<bind> (\<lambda>t1.
     fe_sq t1 \<bind> (\<lambda>t1.
     fe_sqs 4 t1 \<bind> (\<lambda>t1.
     fe_mul t1 t0))))))))))))))))))))))))))))))"

definition fe_divpowm1 :: "fe \<Rightarrow> fe \<Rightarrow> fe option" where
  "fe_divpowm1 u v =
     fe_sq v \<bind> (\<lambda>v3.
     fe_mul v3 v \<bind> (\<lambda>v3.
     fe_sq v3 \<bind> (\<lambda>uv7.
     fe_mul uv7 v \<bind> (\<lambda>uv7.
     fe_mul uv7 u \<bind> (\<lambda>uv7.
     fe_sq uv7 \<bind> (\<lambda>t0.
     fe_sq t0 \<bind> (\<lambda>t1.
     fe_sq t1 \<bind> (\<lambda>t1.
     fe_mul uv7 t1 \<bind> (\<lambda>t1.
     fe_mul t0 t1 \<bind> (\<lambda>t0.
     fe_sq t0 \<bind> (\<lambda>t0.
     fe_mul t1 t0 \<bind> (\<lambda>t0.
     fe_sq t0 \<bind> (\<lambda>t1.
     fe_sqs 4 t1 \<bind> (\<lambda>t1.
     fe_mul t1 t0 \<bind> (\<lambda>t0.
     fe_sq t0 \<bind> (\<lambda>t1.
     fe_sqs 9 t1 \<bind> (\<lambda>t1.
     fe_mul t1 t0 \<bind> (\<lambda>t1.
     fe_sq t1 \<bind> (\<lambda>t2.
     fe_sqs 19 t2 \<bind> (\<lambda>t2.
     fe_mul t2 t1 \<bind> (\<lambda>t1.
     fe_sqs 10 t1 \<bind> (\<lambda>t1.
     fe_mul t1 t0 \<bind> (\<lambda>t0.
     fe_sq t0 \<bind> (\<lambda>t1.
     fe_sqs 49 t1 \<bind> (\<lambda>t1.
     fe_mul t1 t0 \<bind> (\<lambda>t1.
     fe_sq t1 \<bind> (\<lambda>t2.
     fe_sqs 99 t2 \<bind> (\<lambda>t2.
     fe_mul t2 t1 \<bind> (\<lambda>t1.
     fe_sqs 50 t1 \<bind> (\<lambda>t1.
     fe_mul t1 t0 \<bind> (\<lambda>t0.
     fe_sq t0 \<bind> (\<lambda>t0.
     fe_sq t0 \<bind> (\<lambda>t0.
     fe_mul t0 uv7 \<bind> (\<lambda>t0.
     fe_mul t0 v3 \<bind> (\<lambda>t0.
     fe_mul t0 u)))))))))))))))))))))))))))))))))))"

section \<open>What a chain computes\<close>

definition yields :: "('a \<Rightarrow> bool) \<Rightarrow> 'a option \<Rightarrow> bool" where
  \<comment> \<open>the computation returns, and what it returns satisfies \<open>P\<close>\<close>
  "yields P m \<longleftrightarrow> (\<exists>h. m = Some h \<and> P h)"

definition monomial :: "('a \<Rightarrow> bool) \<Rightarrow> ('a \<Rightarrow> int) \<Rightarrow> int \<Rightarrow> int \<Rightarrow> int \<Rightarrow> nat \<Rightarrow> nat \<Rightarrow> 'a \<Rightarrow> bool" where
  \<comment> \<open>\<open>h\<close> is within bounds and stands for \<open>x^a y^b\<close> modulo \<open>p\<close>\<close>
  "monomial ok val p x y a b h \<longleftrightarrow> ok h \<and> val h mod p = x ^ a * y ^ b mod p"

locale power_chain =
  fixes mul :: "'a \<Rightarrow> 'a \<Rightarrow> 'a option" and sq :: "'a \<Rightarrow> 'a option"
    and sqs :: "nat \<Rightarrow> 'a \<Rightarrow> 'a option"
    and tight ok :: "'a \<Rightarrow> bool" and val :: "'a \<Rightarrow> int" and p :: int
  assumes mul: "ok f \<Longrightarrow> ok g \<Longrightarrow> yields (\<lambda>h. tight h \<and> val h mod p = val f * val g mod p) (mul f g)"
    and sq: "ok f \<Longrightarrow> yields (\<lambda>h. tight h \<and> val h mod p = val f * val f mod p) (sq f)"
    and tight: "tight h \<Longrightarrow> ok h"
    and sqs: "sqs 0 f = Some f" "sqs (Suc n) f = sq f \<bind> sqs n"
begin

abbreviation mono :: "int \<Rightarrow> int \<Rightarrow> nat \<Rightarrow> nat \<Rightarrow> 'a \<Rightarrow> bool" where
  "mono \<equiv> monomial ok val p"

lemma mono_product:
  assumes "val f mod p = x ^ a * y ^ b mod p" "val g mod p = x ^ c * y ^ d mod p"
  shows "val f * val g mod p = x ^ (a + c) * y ^ (b + d) mod p"
  using mod_mult_cong [OF assms] by (simp add: power_add algebra_simps)

lemma chain_mul:
  assumes "mono x y a b f" "mono x y c d g" "\<And>h. mono x y (a + c) (b + d) h \<Longrightarrow> yields Q (k h)"
  shows "yields Q (mul f g \<bind> k)"
proof -
  obtain h where h: "mul f g = Some h" "ok h" "val h mod p = val f * val g mod p"
    using mul [of f g] assms(1,2) tight by (auto simp: yields_def monomial_def)
  have "mono x y (a + c) (b + d) h"
    using h mono_product [of f x a y b g c d] assms(1,2) by (simp add: monomial_def)
  from assms(3) [OF this] show ?thesis by (simp add: h(1))
qed

lemma chain_sq:
  assumes "mono x y a b f" "\<And>h. mono x y (2 * a) (2 * b) h \<Longrightarrow> yields Q (k h)"
  shows "yields Q (sq f \<bind> k)"
proof -
  obtain h where h: "sq f = Some h" "ok h" "val h mod p = val f * val f mod p"
    using sq [of f] assms(1) tight by (auto simp: yields_def monomial_def)
  have "mono x y (2 * a) (2 * b) h"
    using h mono_product [of f x a y b f a b] assms(1) by (simp add: monomial_def mult_2)
  from assms(2) [OF this] show ?thesis by (simp add: h(1))
qed

lemma chain_sqs:
  assumes "mono x y a b f" "\<And>h. mono x y (a * 2 ^ n) (b * 2 ^ n) h \<Longrightarrow> yields Q (k h)"
  shows "yields Q (sqs n f \<bind> k)"
  using assms
proof (induction n arbitrary: f a b)
  case 0
  then show ?case by (simp add: sqs)
next
  case (Suc n)
  have "yields Q (sq f \<bind> (\<lambda>h. sqs n h \<bind> k))"
  proof (rule chain_sq [OF Suc.prems(1)])
    fix h assume "mono x y (2 * a) (2 * b) h"
    then have "mono x y (a * 2) (b * 2) h" by (simp only: mult.commute)
    then show "yields Q (sqs n h \<bind> k)"
    proof (rule Suc.IH)
      fix h assume "mono x y (a * 2 * 2 ^ n) (b * 2 * 2 ^ n) h"
      then show "yields Q (k h)" by (intro Suc.prems(2)) (simp only: mult.assoc power_Suc)
    qed
  qed
  then show ?case by (simp add: sqs bind_assoc)
qed

lemma chain_end:
  assumes "mono x y a b f" "mono x y c d g" "a + c = m" "b + d = n"
  shows "yields (monomial tight val p x y m n) (mul f g)"
  using mul [of f g] mono_product [of f x a y b g c d] assms
  by (auto simp: yields_def monomial_def)

lemma mono_start: "ok f \<Longrightarrow> mono (val f) y 1 0 f" "ok f \<Longrightarrow> mono x (val f) 0 1 f"
  by (simp_all add: monomial_def)

lemmas chain = chain_mul chain_sq chain_sqs

end

lemma tight_loose: "bounded fe_tight h \<Longrightarrow> bounded fe_loose h"
  by (erule bounded_le) (simp add: fe_tight_def fe_loose_def)

interpretation fe: power_chain fe_mul fe_sq fe_sqs "bounded fe_tight" "bounded fe_loose" fe_val fe_p
proof
  show "yields (\<lambda>h. bounded fe_tight h \<and> fe_val h mod fe_p = fe_val f * fe_val g mod fe_p) (fe_mul f g)"
    if "bounded fe_loose f" "bounded fe_loose g" for f g
    using fe_mul_ok [OF that] by (auto simp: yields_def)
  show "yields (\<lambda>h. bounded fe_tight h \<and> fe_val h mod fe_p = fe_val f * fe_val f mod fe_p) (fe_sq f)"
    if "bounded fe_loose f" for f
    using fe_sq_ok [OF that] by (auto simp: yields_def)
qed (simp_all add: tight_loose)

lemma fe_invert_chain:
  assumes "bounded fe_loose z"
  shows "yields (monomial (bounded fe_tight) fe_val fe_p (fe_val z) 1 (2 ^ 255 - 21) 0) (fe_invert z)"
  unfolding fe_invert_def
  by ((rule fe.chain fe.mono_start(1) [OF assms, of 1] | assumption)+, (rule fe.chain_end | assumption)+) simp_all

lemma fe_divpowm1_chain:
  assumes "bounded fe_loose u" "bounded fe_loose v"
  shows "yields (monomial (bounded fe_tight) fe_val fe_p (fe_val u) (fe_val v) (2 ^ 252 - 2) (7 * (2 ^ 252 - 3) + 3)) (fe_divpowm1 u v)"
  unfolding fe_divpowm1_def
  by ((rule fe.chain fe.mono_start(1) [OF assms(1), of "fe_val v"] fe.mono_start(2) [OF assms(2), of "fe_val u"] | assumption)+,
      (rule fe.chain_end fe.mono_start(1) [OF assms(1), of "fe_val v"] | assumption)+) simp_all

section \<open>Properties\<close>

lemma yields_Some: "yields P m \<Longrightarrow> \<exists>h. m = Some h \<and> P h"
  by (simp add: yields_def)

text \<open>
  C16: \<open>fe_mul\<close>, \<open>fe_sq\<close> and \<open>fe_sq2\<close> on operands with limbs up to 1.65 times
  \<open>2^26\<close> and \<open>2^25\<close>, the bounds their comments ask for: no 32-bit or 64-bit
  operation overflows, the limbs of the result are at most 1.01 times \<open>2^25\<close> and \<open>2^24\<close>, and it
  stands for \<open>f g\<close>, \<open>f^2\<close> and \<open>2 f^2\<close> modulo \<open>2^255 - 19\<close>.
\<close>

theorem fe_products_correct:
  assumes "bounded fe_loose f" "bounded fe_loose g"
  shows "(\<exists>h. fe_mul f g = Some h \<and> bounded fe_tight h \<and> fe_val h mod fe_p = fe_val f * fe_val g mod fe_p)
    \<and> (\<exists>h. fe_sq f = Some h \<and> bounded fe_tight h \<and> fe_val h mod fe_p = (fe_val f)\<^sup>2 mod fe_p)
    \<and> (\<exists>h. fe_sq2 f = Some h \<and> bounded fe_tight h \<and> fe_val h mod fe_p = 2 * (fe_val f)\<^sup>2 mod fe_p)"
  using fe_mul_ok [OF assms] fe_sq_ok [OF assms(1)] fe_sq2_ok [OF assms(1)]
  unfolding power2_eq_square by blast

theorem fe_products_correct_witness:
  "\<exists>h. fe_mul [5, -3, 0, 0, 0, 0, 0, 0, 0, 1] fe_1 = Some h \<and> bounded fe_tight h
     \<and> fe_val h mod fe_p = fe_val [5, -3, 0, 0, 0, 0, 0, 0, 0, 1] * fe_val fe_1 mod fe_p"
proof -
  have "bounded fe_loose [5, -3, 0, 0, 0, 0, 0, 0, 0, 1]" "bounded fe_loose fe_1" by code_simp+
  from fe_products_correct [OF this] show ?thesis by blast
qed

text \<open>
  C17: \<open>fe_invert\<close> is \<open>z^(p-2)\<close>: for every \<open>z\<close> within the bounds of a product the whole chain
  runs without overflow and gives the power Fermat's inverse is.
\<close>

theorem fe_invert_is_power:
  assumes "bounded fe_loose z"
  shows "\<exists>h. fe_invert z = Some h \<and> bounded fe_tight h \<and> fe_val h mod fe_p = fe_val z ^ (2 ^ 255 - 21) mod fe_p"
  using yields_Some [OF fe_invert_chain [OF assms]] unfolding monomial_def by auto

theorem fe_invert_is_power_witness:
  "\<exists>h. fe_invert [2, 0, 0, 0, 0, 0, 0, 0, 0, 0] = Some h \<and> bounded fe_tight h
     \<and> fe_val h mod fe_p = fe_val [2, 0, 0, 0, 0, 0, 0, 0, 0, 0] ^ (2 ^ 255 - 21) mod fe_p"
proof -
  have "bounded fe_loose [2, 0, 0, 0, 0, 0, 0, 0, 0, 0]" by code_simp
  from fe_invert_is_power [OF this] show ?thesis .
qed

text \<open>
  \<open>fe_divpowm1\<close> is \<open>u v^3 (u v^7)^((p-5)/8)\<close>, the candidate square root of \<open>u / v\<close>, with the
  same bounds.
\<close>

theorem fe_divpowm1_is_power:
  assumes "bounded fe_loose u" "bounded fe_loose v"
  shows "\<exists>h. fe_divpowm1 u v = Some h \<and> bounded fe_tight h
    \<and> fe_val h mod fe_p = fe_val u * fe_val v ^ 3 * (fe_val u * fe_val v ^ 7) ^ (2 ^ 252 - 3) mod fe_p"
proof -
  have "x ^ (n + 1) * y ^ (7 * n + 3) = x * y ^ 3 * (x * y ^ 7) ^ n" for x y :: int and n
    by (simp only: power_add power_mult power_mult_distrib) simp
  from this [of "fe_val u" "2 ^ 252 - 3" "fe_val v"]
  have "fe_val u ^ (2 ^ 252 - 2) * fe_val v ^ (7 * (2 ^ 252 - 3) + 3)
    = fe_val u * fe_val v ^ 3 * (fe_val u * fe_val v ^ 7) ^ (2 ^ 252 - 3)" by simp
  with yields_Some [OF fe_divpowm1_chain [OF assms]] show ?thesis
    unfolding monomial_def by metis
qed

theorem fe_divpowm1_is_power_witness:
  "\<exists>h. fe_divpowm1 fe_1 [4, 0, 0, 0, 0, 0, 0, 0, 0, 0] = Some h \<and> bounded fe_tight h
    \<and> fe_val h mod fe_p
      = fe_val fe_1 * fe_val [4, 0, 0, 0, 0, 0, 0, 0, 0, 0] ^ 3
        * (fe_val fe_1 * fe_val [4, 0, 0, 0, 0, 0, 0, 0, 0, 0] ^ 7) ^ (2 ^ 252 - 3) mod fe_p"
proof -
  have "bounded fe_loose fe_1" "bounded fe_loose [4, 0, 0, 0, 0, 0, 0, 0, 0, 0]" by code_simp+
  from fe_divpowm1_is_power [OF this] show ?thesis .
qed

end
