(* ===== verification/Fe_Linear.thy ===== *)
theory Fe_Linear
  imports Fe
begin

text \<open>
  The field functions of \<^verbatim>\<open>src/base/tools/cryptonote/crypto-ops.c\<close> that work limb by limb:
  \<open>fe_add\<close>, \<open>fe_sub\<close>, \<open>fe_neg\<close>, \<open>fe_copy\<close> and the constant-time selection \<open>fe_cmov\<close>. They do
  not carry, so the limbs grow; \<open>fe_within n\<close> bounds them by \<open>n\<close> times what a product leaves,
  and three times that is still within what a product accepts.
\<close>

section \<open>How far limbs have grown\<close>

definition fe_within :: "int \<Rightarrow> fe \<Rightarrow> bool" where
  "fe_within n f \<longleftrightarrow> bounded (map ((*) n) fe_tight) f"

lemma fe_within_1: "bounded fe_tight f \<Longrightarrow> fe_within 1 f"
  by (simp add: fe_within_def fe_tight_def)

lemma length_tight: "length fe_tight = 10"
  by (simp add: fe_tight_def)

lemma fe_within_length: "fe_within n f \<Longrightarrow> length f = 10"
  using bounded_length by (auto simp: fe_within_def length_tight)

lemma fe_tight_range: "i < 10 \<Longrightarrow> 0 < fe_tight ! i \<and> fe_tight ! i \<le> 33889976"
proof -
  assume "i < 10"
  then have "fe_tight ! i \<in> set fe_tight" by (intro nth_mem) (simp add: length_tight)
  moreover have "\<forall>x \<in> set fe_tight. 0 < x \<and> x \<le> 33889976" by (simp add: fe_tight_def)
  ultimately show ?thesis by blast
qed

lemma fe_within_iff: "fe_within n f \<longleftrightarrow> length f = 10 \<and> (\<forall>i<10. \<bar>f ! i\<bar> \<le> n * fe_tight ! i)"
  by (auto simp: fe_within_def bounded_def length_tight)

lemma fe_within_mono:
  assumes "fe_within m f" "m \<le> n"
  shows "fe_within n f"
proof -
  have "m * fe_tight ! i \<le> n * fe_tight ! i" if "i < 10" for i
    using fe_tight_range [OF that] assms(2) by simp
  with assms(1) show ?thesis unfolding fe_within_iff using order_trans by blast
qed

lemma fe_within_loose: "fe_within n f \<Longrightarrow> n \<le> 3 \<Longrightarrow> bounded fe_loose f"
  using fe_within_mono [of n f 3] bounded_le [of "map ((*) 3) fe_tight" f fe_loose]
  by (simp add: fe_within_def fe_tight_def fe_loose_def)

section \<open>The limb-wise functions\<close>

lemma those_limbs:
  assumes "\<And>i. i < 10 \<Longrightarrow> \<bar>t i\<bar> \<le> b ! i" "length b = 10" "\<And>i. i < 10 \<Longrightarrow> b ! i < 2 ^ 31"
  shows "those (map (\<lambda>i. i32 (t i)) [0..<10]) = Some (map t [0..<10]) \<and> bounded b (map t [0..<10])"
proof
  have "i32 (t i) = Some (t i)" if "i < 10" for i
    by (rule i32_Some) (use assms(1,3) [OF that] in linarith)
  then show "those (map (\<lambda>i. i32 (t i)) [0..<10]) = Some (map t [0..<10])"
    by (intro those_map_Some) simp
  show "bounded b (map t [0..<10])"
    using assms(1,2) by (simp add: bounded_def del: upt_conv_Cons upt.simps upt_rec_numeral)
qed

lemma fe_val_map: "fe_val (map t [0..<10]) = (\<Sum>i<10. t i * 2 ^ fe_exp i)"
  unfolding limbs_val_def
  by (rule sum.cong) (simp_all del: upt_conv_Cons upt.simps upt_rec_numeral)

lemma fe_add_bounds:
  assumes "bounded b f" "bounded c g" "length b = 10" "length c = 10" "\<forall>i<10. b ! i + c ! i < 2 ^ 31"
  shows "\<exists>h. fe_add f g = Some h \<and> bounded (map (\<lambda>i. b ! i + c ! i) [0..<10]) h \<and> fe_val h = fe_val f + fe_val g"
    and "\<exists>h. fe_sub f g = Some h \<and> bounded (map (\<lambda>i. b ! i + c ! i) [0..<10]) h \<and> fe_val h = fe_val f - fe_val g"
proof -
  let ?b = "map (\<lambda>i. b ! i + c ! i) [0..<10]"
  have len: "length ?b = 10" and nth: "?b ! i = b ! i + c ! i" if "i < 10" for i
    using that by (simp_all del: upt_conv_Cons upt.simps upt_rec_numeral)
  have fg: "\<bar>f ! i\<bar> \<le> b ! i" "\<bar>g ! i\<bar> \<le> c ! i" if "i < 10" for i
    using bounded_nth [OF assms(1), of i] bounded_nth [OF assms(2), of i] that assms(3,4) by simp_all
  have le: "\<bar>f ! i + g ! i\<bar> \<le> ?b ! i" "\<bar>f ! i - g ! i\<bar> \<le> ?b ! i" "?b ! i < 2 ^ 31" if "i < 10" for i
    using fg [OF that] nth [OF that] assms(5) that by simp_all
  have "those (map (\<lambda>i. i32 (f ! i + g ! i)) [0..<10]) = Some (map (\<lambda>i. f ! i + g ! i) [0..<10])
      \<and> bounded ?b (map (\<lambda>i. f ! i + g ! i) [0..<10])"
    by (rule those_limbs) (use le len [of 0] in simp_all)
  moreover have "fe_val (map (\<lambda>i. f ! i + g ! i) [0..<10]) = fe_val f + fe_val g"
    unfolding fe_val_map by (simp add: limbs_val_def sum.distrib [symmetric] distrib_right del: sum.lessThan_Suc)
  ultimately show "\<exists>h. fe_add f g = Some h \<and> bounded ?b h \<and> fe_val h = fe_val f + fe_val g"
    unfolding fe_add_def by blast
  have "those (map (\<lambda>i. i32 (f ! i - g ! i)) [0..<10]) = Some (map (\<lambda>i. f ! i - g ! i) [0..<10])
      \<and> bounded ?b (map (\<lambda>i. f ! i - g ! i) [0..<10])"
    by (rule those_limbs) (use le len [of 0] in simp_all)
  moreover have "fe_val (map (\<lambda>i. f ! i - g ! i) [0..<10]) = fe_val f - fe_val g"
    unfolding fe_val_map by (simp add: limbs_val_def sum_subtractf [symmetric] left_diff_distrib del: sum.lessThan_Suc)
  ultimately show "\<exists>h. fe_sub f g = Some h \<and> bounded ?b h \<and> fe_val h = fe_val f - fe_val g"
    unfolding fe_sub_def by blast
qed

lemma fe_neg_bounds:
  assumes "bounded b f" "length b = 10" "\<forall>i<10. b ! i < 2 ^ 31"
  shows "\<exists>h. fe_neg f = Some h \<and> bounded b h \<and> fe_val h = - fe_val f"
proof -
  have le: "\<bar>- (f ! i)\<bar> \<le> b ! i" if "i < 10" for i
    using bounded_nth [OF assms(1), of i] that assms(2) by simp
  have "those (map (\<lambda>i. i32 (- (f ! i))) [0..<10]) = Some (map (\<lambda>i. - (f ! i)) [0..<10])
      \<and> bounded b (map (\<lambda>i. - (f ! i)) [0..<10])"
    by (rule those_limbs) (use le assms(2,3) in simp_all)
  moreover have "fe_val (map (\<lambda>i. - (f ! i)) [0..<10]) = - fe_val f"
    unfolding fe_val_map by (simp add: limbs_val_def sum_negf)
  ultimately show ?thesis unfolding fe_neg_def by blast
qed

lemma fe_within_sum:
  assumes "fe_within m f" "fe_within n g" "m + n \<le> 60"
  shows "\<exists>h. fe_add f g = Some h \<and> fe_within (m + n) h \<and> fe_val h = fe_val f + fe_val g"
    and "\<exists>h. fe_sub f g = Some h \<and> fe_within (m + n) h \<and> fe_val h = fe_val f - fe_val g"
proof -
  let ?b = "\<lambda>k. map ((*) k) fe_tight"
  have nth: "?b k ! i = k * fe_tight ! i" if "i < 10" for k i
    using that by (simp add: length_tight)
  have lt: "\<forall>i<10. ?b m ! i + ?b n ! i < 2 ^ 31"
  proof (intro allI impI)
    fix i :: nat assume i: "i < 10"
    have "(m + n) * fe_tight ! i \<le> 60 * 33889976"
      using fe_tight_range [OF i] assms(3) by (intro mult_mono) simp_all
    then show "?b m ! i + ?b n ! i < 2 ^ 31" using i by (simp add: nth distrib_right)
  qed
  have sum: "map (\<lambda>i. ?b m ! i + ?b n ! i) [0..<10] = ?b (m + n)"
    by (rule nth_equalityI)
      (simp_all add: length_tight nth distrib_right del: upt_conv_Cons upt.simps upt_rec_numeral)
  note fg = assms(1,2) [unfolded fe_within_def]
  show "\<exists>h. fe_add f g = Some h \<and> fe_within (m + n) h \<and> fe_val h = fe_val f + fe_val g"
    and "\<exists>h. fe_sub f g = Some h \<and> fe_within (m + n) h \<and> fe_val h = fe_val f - fe_val g"
    using fe_add_bounds [OF fg _ _ lt] unfolding sum fe_within_def by (simp_all add: length_tight)
qed

section \<open>The constant-time selection\<close>

lemma top_bit: "bit (w :: u32) 31 \<longleftrightarrow> 2 ^ 31 \<le> uint w"
proof -
  have "bit w 31 \<longleftrightarrow> odd (uint w div 2 ^ 31)"
    using bit_iff_odd [of "uint w" 31] by (simp add: bit_uint_iff)
  moreover have "uint w div 2 ^ 31 = (if 2 ^ 31 \<le> uint w then 1 else 0)"
    using uint_bounded [of w] by (auto simp: div_pos_geq)
  ultimately show ?thesis by simp
qed

lemma top_bit_pred:
  assumes "bit (b - 1 :: u32) 31" "\<not> bit b 31"
  shows "b = 0"
proof (rule ccontr)
  assume "b \<noteq> 0"
  then have "uint (b - 1) = uint b - 1"
    by (metis uint_1 uint_sub_if' word_less_1 word_less_def linorder_not_less)
  then show False using assms by (simp add: top_bit)
qed

lemma fe_cmov_guard:
  "((b - 1) AND NOT b) OR ((b - 2) AND NOT (b - 1)) = (- 1 :: u32) \<longleftrightarrow> b = 0 \<or> b = 1"
proof
  assume "((b - 1) AND NOT b) OR ((b - 2) AND NOT (b - 1)) = - 1"
  then have "bit (((b - 1) AND NOT b) OR ((b - 2) AND NOT (b - 1))) 31" by simp
  then have "bit (b - 1) 31 \<and> \<not> bit b 31 \<or> bit (b - 1 - 1) 31 \<and> \<not> bit (b - 1) 31"
    by (simp add: bit_simps)
  then show "b = 0 \<or> b = 1" using top_bit_pred [of b] top_bit_pred [of "b - 1"] by auto
qed auto

lemma sint_of_in32: "in32 x \<Longrightarrow> sint (word_of_int x :: u32) = x"
  by (simp add: in32_def sint_sbintrunc' signed_take_bit_int_eq_self)

lemma in32_xor:
  assumes "in32 x" "in32 y"
  shows "in32 (x XOR y)"
proof -
  have "signed_take_bit 31 (x XOR y) = signed_take_bit 31 x XOR signed_take_bit 31 y"
    by (rule bit_eqI) (simp add: bit_simps)
  then show ?thesis
    using assms by (simp add: in32_def signed_take_bit_int_eq_self_iff [of 31, simplified, symmetric])
qed

lemma fe_cmov_ok:
  assumes "length f = 10" "length g = 10" "\<forall>x \<in> set f \<union> set g. in32 x"
  shows "fe_cmov f g b = (if b = 0 then Some f else if b = 1 then Some g else None)"
proof -
  have in32: "in32 (f ! i XOR g ! i)" if "i < 10" for i
    by (rule in32_xor) (use assms that in auto)
  have 0: "map (\<lambda>i. f ! i XOR sint ((word_of_int (f ! i XOR g ! i) :: u32) AND 0)) [0..<10] = f"
    by (rule nth_equalityI) (use assms(1) in \<open>simp_all del: upt_conv_Cons upt.simps upt_rec_numeral\<close>)
  have 1: "map (\<lambda>i. f ! i XOR sint ((word_of_int (f ! i XOR g ! i) :: u32) AND - 1)) [0..<10] = g"
    by (rule nth_equalityI)
      (use assms(2) in32 in \<open>simp_all add: sint_of_in32 xor.assoc [symmetric]
        del: upt_conv_Cons upt.simps upt_rec_numeral\<close>)
  show ?thesis
    unfolding fe_cmov_def fe_cmov_guard Let_def using 0 1 by auto
qed

section \<open>Properties\<close>

definition fe_operand :: "int list" where
  \<comment> \<open>1.1 times \<open>2^25\<close> and \<open>2^24\<close>\<close>
  "fe_operand = [36909875, 18454937, 36909875, 18454937, 36909875, 18454937, 36909875, 18454937, 36909875, 18454937]"

definition fe_wide :: "int list" where
  \<comment> \<open>1.1 times \<open>2^26\<close> and \<open>2^25\<close>\<close>
  "fe_wide = [73819750, 36909875, 73819750, 36909875, 73819750, 36909875, 73819750, 36909875, 73819750, 36909875]"

lemma fe_operand_sum:
  "list_all2 (\<le>) (map (\<lambda>i. fe_operand ! i + fe_operand ! i) [0..<10]) fe_wide"
  "\<forall>i<10. fe_operand ! i + fe_operand ! i < 2 ^ 31" "length fe_operand = 10"
  by code_simp+

text \<open>
  C39: \<open>fe_add\<close>, \<open>fe_sub\<close> and \<open>fe_neg\<close> with the bounds of their comments: operands up to 1.1 times
  \<open>2^25\<close> and \<open>2^24\<close> give a result of at most twice that, no addition overflows, and the number is
  the sum, the difference and the negation, as integers.
\<close>

theorem fe_linear_correct:
  assumes "bounded fe_operand f" "bounded fe_operand g"
  shows "(\<exists>h. fe_add f g = Some h \<and> bounded fe_wide h \<and> fe_val h = fe_val f + fe_val g)
    \<and> (\<exists>h. fe_sub f g = Some h \<and> bounded fe_wide h \<and> fe_val h = fe_val f - fe_val g)
    \<and> (\<exists>h. fe_neg f = Some h \<and> bounded fe_operand h \<and> fe_val h = - fe_val f)"
proof (intro conjI)
  note s = fe_add_bounds [OF assms fe_operand_sum(3,3,2)]
  show "\<exists>h. fe_add f g = Some h \<and> bounded fe_wide h \<and> fe_val h = fe_val f + fe_val g"
    using s(1) bounded_le [OF _ fe_operand_sum(1)] by blast
  show "\<exists>h. fe_sub f g = Some h \<and> bounded fe_wide h \<and> fe_val h = fe_val f - fe_val g"
    using s(2) bounded_le [OF _ fe_operand_sum(1)] by blast
  have "\<forall>i<10. fe_operand ! i < 2 ^ 31" by code_simp
  from fe_neg_bounds [OF assms(1) fe_operand_sum(3) this]
  show "\<exists>h. fe_neg f = Some h \<and> bounded fe_operand h \<and> fe_val h = - fe_val f" .
qed

theorem fe_linear_correct_witness:
  "\<exists>h. fe_sub fe_0 fe_operand = Some h \<and> bounded fe_wide h \<and> fe_val h = fe_val fe_0 - fe_val fe_operand"
proof -
  have "bounded fe_operand fe_0" "bounded fe_operand fe_operand" by code_simp+
  from fe_linear_correct [OF this] show ?thesis by blast
qed

text \<open>
  \<open>fe_cmov\<close> is a selection: on limbs that fit \<open>int32_t\<close> it leaves \<open>f\<close> for \<open>b = 0\<close> and gives
  \<open>g\<close> for \<open>b = 1\<close>, although it computes both ways alike; the assertion in it stops exactly the
  other values of \<open>b\<close>.
\<close>

theorem fe_cmov_selects:
  assumes "length f = 10" "length g = 10" "\<forall>x \<in> set f \<union> set g. in32 x"
  shows "fe_cmov f g b = (if b = 0 then Some f else if b = 1 then Some g else None)"
  by (rule fe_cmov_ok [OF assms])

theorem fe_cmov_selects_witness:
  "fe_cmov fe_0 fe_operand 1 = Some fe_operand \<and> fe_cmov fe_0 fe_operand 2 = None"
proof -
  have "length fe_0 = 10" "length fe_operand = 10" "\<forall>x \<in> set fe_0 \<union> set fe_operand. in32 x" by code_simp+
  note c = fe_cmov_selects [OF this]
  show ?thesis using c [of 1] c [of 2] by simp
qed

end
