(* ===== verification/Fe_Bytes.thy ===== *)
theory Fe_Bytes
  imports Fe_Linear
begin

text \<open>
  \<^verbatim>\<open>src/base/tools/cryptonote/crypto-ops.c\<close>: \<open>fe_tobytes\<close>, which writes the canonical 32 bytes of
  a field element, and the tests \<open>fe_isnegative\<close> and \<open>fe_isnonzero\<close> that read them.

  All arithmetic is in \<open>int32_t\<close> and checked, with one exception: \<open>h4 << 6\<close>, for the byte
  \<open>s[12]\<close>, does not fit when \<open>h4\<close> has its top bit set. The bytes are modelled with the value
  two's complement hardware gives that shift, and \<open>fe_tobytes_shift\<close> below says when it overflows.
\<close>

section \<open>The functions\<close>

definition fe_qstep :: "fe \<Rightarrow> nat \<Rightarrow> int \<Rightarrow> int option" where
  \<comment> \<open>\<open>q = (h_i + q) >> w\<close>\<close>
  "fe_qstep h i q = i32 (h ! i + q) \<bind> (\<lambda>x. Some (x div 2 ^ fe_width i))"

definition fe_quotient :: "fe \<Rightarrow> int option" where
  "fe_quotient h =
     i32 (19 * h ! 9) \<bind> (\<lambda>x.
     i32 (x + 2 ^ 24) \<bind> (\<lambda>x.
     seqM (fe_qstep h) [0, 1, 2, 3, 4, 5, 6, 7, 8, 9] (x div 2 ^ 25)))"

definition fe_floor :: "nat \<Rightarrow> fe \<Rightarrow> fe option" where
  \<comment> \<open>\<open>carry_i = h_i >> w; h_{i+1} += carry_i; h_i -= carry_i << w\<close>, for \<open>h9\<close> without the second\<close>
  "fe_floor i h =
     (let w = fe_width i; carry = h ! i div 2 ^ w
      in (if i = 9 then Some h else i32 (h ! (i + 1) + carry) \<bind> (\<lambda>x. Some (h[i + 1 := x]))) \<bind> (\<lambda>h.
         i32 (carry * 2 ^ w) \<bind> (\<lambda>c.
         i32 (h ! i - c) \<bind> (\<lambda>x.
         Some (h[i := x])))))"

definition fe_freeze :: "fe \<Rightarrow> fe option" where
  \<comment> \<open>the limbs as \<open>fe_tobytes\<close> has them when it begins to store\<close>
  "fe_freeze h =
     fe_quotient h \<bind> (\<lambda>q.
     i32 (19 * q) \<bind> (\<lambda>x.
     i32 (h ! 0 + x) \<bind> (\<lambda>x.
     seqM fe_floor [0, 1, 2, 3, 4, 5, 6, 7, 8, 9] (h[0 := x]))))"

definition shl32 :: "int \<Rightarrow> nat \<Rightarrow> int" where
  "shl32 x n = sint (word_of_int (x * 2 ^ n) :: u32)"

definition fe_byte :: "fe \<Rightarrow> nat \<Rightarrow> nat \<Rightarrow> u8" where
  \<comment> \<open>\<open>h_i >> n\<close>\<close>
  "fe_byte h i n = word_of_int (h ! i div 2 ^ n)"

definition fe_byte2 :: "fe \<Rightarrow> nat \<Rightarrow> nat \<Rightarrow> nat \<Rightarrow> u8" where
  \<comment> \<open>\<open>(h_i >> n) | (h_{i+1} << m)\<close>\<close>
  "fe_byte2 h i n m = word_of_int ((h ! i div 2 ^ n) OR shl32 (h ! (i + 1)) m)"

definition fe_store :: "fe \<Rightarrow> bytes" where
  "fe_store h =
     [fe_byte h 0 0, fe_byte h 0 8, fe_byte h 0 16, fe_byte2 h 0 24 2,
      fe_byte h 1 6, fe_byte h 1 14, fe_byte2 h 1 22 3,
      fe_byte h 2 5, fe_byte h 2 13, fe_byte2 h 2 21 5,
      fe_byte h 3 3, fe_byte h 3 11, fe_byte2 h 3 19 6,
      fe_byte h 4 2, fe_byte h 4 10, fe_byte h 4 18,
      fe_byte h 5 0, fe_byte h 5 8, fe_byte h 5 16, fe_byte2 h 5 24 1,
      fe_byte h 6 7, fe_byte h 6 15, fe_byte2 h 6 23 3,
      fe_byte h 7 5, fe_byte h 7 13, fe_byte2 h 7 21 4,
      fe_byte h 8 4, fe_byte h 8 12, fe_byte2 h 8 20 6,
      fe_byte h 9 2, fe_byte h 9 10, fe_byte h 9 18]"

definition fe_tobytes :: "fe \<Rightarrow> bytes option" where
  "fe_tobytes h = fe_freeze h \<bind> (\<lambda>h. Some (fe_store h))"

definition fe_isnegative :: "fe \<Rightarrow> int option" where
  "fe_isnegative f = fe_tobytes f \<bind> (\<lambda>s. Some (uint (s ! 0 AND 1)))"

definition fe_isnonzero :: "fe \<Rightarrow> int option" where
  "fe_isnonzero f =
     fe_tobytes f \<bind> (\<lambda>s. Some (any_byte s))"

section \<open>The quotient\<close>

lemma fe_wide_nth: "bounded fe_wide h \<Longrightarrow> i < 10 \<Longrightarrow> \<bar>h ! i\<bar> \<le> 73819750"
proof -
  assume h: "bounded fe_wide h" and i: "i < 10"
  then have "fe_wide ! i \<in> set fe_wide" by (intro nth_mem) (simp add: fe_wide_def)
  moreover have "\<forall>x \<in> set fe_wide. x \<le> 73819750" by (simp add: fe_wide_def)
  ultimately show ?thesis using bounded_nth [OF h, of i] i by (force simp: fe_wide_def)
qed

lemma fe_qstep_Some:
  assumes "\<bar>h ! i\<bar> \<le> 73819750" "\<bar>q\<bar> \<le> 100"
  shows "fe_qstep h i q = Some ((h ! i + q) div 2 ^ fe_width i) \<and> \<bar>(h ! i + q) div 2 ^ fe_width i\<bar> \<le> 100"
proof -
  have "i32 (h ! i + q) = Some (h ! i + q)" by (rule i32_Some) (use assms abs_triangle_ineq [of "h ! i" q] in simp)
  moreover have "\<bar>x div 2 ^ fe_width i\<bar> \<le> 100" if "\<bar>x\<bar> \<le> 73819850" for x :: int
    using that by (auto simp: fe_width_def abs_le_iff)
  ultimately show ?thesis using assms by (simp add: fe_qstep_def)
qed

lemma fe_quotient_chain:
  assumes "\<forall>i<10. \<bar>h ! i\<bar> \<le> 73819750" "\<bar>q\<bar> \<le> 100" "n \<le> 10"
  shows "\<exists>r. seqM (fe_qstep h) [0..<n] q = Some r \<and> \<bar>r\<bar> \<le> 100 \<and> r = (limbs_val fe_exp n h + q) div 2 ^ fe_exp n"
  using assms(3)
proof (induction n)
  case 0
  then show ?case using assms(2) by (simp add: limbs_val_def fe_exp_def)
next
  case (Suc n)
  then obtain r where r: "seqM (fe_qstep h) [0..<n] q = Some r" "\<bar>r\<bar> \<le> 100"
    "r = (limbs_val fe_exp n h + q) div 2 ^ fe_exp n" by auto
  have "\<bar>h ! n\<bar> \<le> 73819750" using assms(1) Suc.prems by simp
  note s = fe_qstep_Some [OF this r(2)]
  have "(h ! n + r) div 2 ^ fe_width n = (limbs_val fe_exp n h + q + h ! n * 2 ^ fe_exp n) div 2 ^ fe_exp n div 2 ^ fe_width n"
    by (simp add: r(3) add.commute)
  also have "\<dots> = (limbs_val fe_exp (Suc n) h + q) div 2 ^ fe_exp (Suc n)"
    by (simp add: limbs_val_Suc fe_exp_Suc power_add div_mult2_eq zdiv_zmult2_eq algebra_simps)
  finally show ?case using r(1) s by (simp add: seqM_append)
qed

lemma fe_low_bound:
  assumes "\<forall>i<10. \<bar>h ! i\<bar> \<le> 73819750" "\<bar>h ! 1\<bar> \<le> 36909875" "\<bar>h ! 3\<bar> \<le> 36909875" "\<bar>h ! 5\<bar> \<le> 36909875"
    "\<bar>h ! 7\<bar> \<le> 36909875"
  shows "\<bar>fe_val h - h ! 9 * 2 ^ 230\<bar> \<le> 2 ^ 231"
proof -
  have "\<bar>h ! 0\<bar> \<le> 73819750" "\<bar>h ! 2\<bar> \<le> 73819750" "\<bar>h ! 4\<bar> \<le> 73819750" "\<bar>h ! 6\<bar> \<le> 73819750"
    "\<bar>h ! 8\<bar> \<le> 73819750"
    using assms(1) by simp_all
  with assms(2-) show ?thesis unfolding fe_val_10 abs_le_iff by (simp only: power_numeral_reduce) simp
qed

lemma fe_wide_odd:
  assumes "bounded fe_wide h"
  shows "\<bar>h ! 1\<bar> \<le> 36909875" "\<bar>h ! 3\<bar> \<le> 36909875" "\<bar>h ! 5\<bar> \<le> 36909875" "\<bar>h ! 7\<bar> \<le> 36909875"
    "\<bar>h ! 9\<bar> \<le> 36909875"
  subgoal using bounded_nth [OF assms, of 1] by (simp add: fe_wide_def)
  subgoal using bounded_nth [OF assms, of 3] by (simp add: fe_wide_def)
  subgoal using bounded_nth [OF assms, of 5] by (simp add: fe_wide_def)
  subgoal using bounded_nth [OF assms, of 7] by (simp add: fe_wide_def)
  subgoal using bounded_nth [OF assms, of 9] by (simp add: fe_wide_def)
  done

text \<open>
  The estimate behind the chain: \<open>H + q0\<close> and \<open>H\<close> have the quotients by \<open>2^255\<close> and by \<open>p\<close> in
  common, where \<open>q0\<close> is 19 times the top limb over \<open>2^25\<close>, rounded.
\<close>

lemma fe_quotient_estimate:
  fixes H L h9 q0 :: int
  assumes "H = L + h9 * 2 ^ 230" "\<bar>L\<bar> \<le> 2 ^ 231" "\<bar>h9\<bar> \<le> 36909875" "q0 = (19 * h9 + 2 ^ 24) div 2 ^ 25"
  shows "(H + q0) div 2 ^ 255 = H div fe_p" "\<bar>H div fe_p\<bar> \<le> 2"
proof -
  define q r where "q = H div fe_p" and "r = H mod fe_p"
  have H: "H = q * (2 ^ 255 - 19) + r"
    using div_mult_mod_eq [of H fe_p] by (simp add: q_def r_def fe_p_def)
  have r: "0 \<le> r" "r \<le> 2 ^ 255 - 20"
    using pos_mod_bound [of fe_p H] pos_mod_sign [of fe_p H] by (simp_all add: r_def fe_p_def)
  define e where "e = (19 * h9 + 2 ^ 24) mod 2 ^ 25"
  have e: "0 \<le> e" "e < 2 ^ 25" "2 ^ 25 * q0 = 19 * h9 + 2 ^ 24 - e"
    using minus_mod_eq_mult_div [of "19 * h9 + 2 ^ 24" "2 ^ 25"] by (simp_all add: e_def assms(4))
  have "- 3 * (2 ^ 255 - 19) < H" "H < 2 * (2 ^ 255 - 19)"
    using assms(1-3) by (simp_all add: abs_le_iff)
  with H r have q: "- 3 \<le> q" "q < 2" by (simp_all)
  have q': "\<bar>q\<bar> \<le> 2"
  proof -
    have "- 2 * (2 ^ 255 - 19) \<le> H" using assms(1-3) by (simp add: abs_le_iff)
    with H r have "- 2 \<le> q" by simp
    with q show ?thesis by simp
  qed
  then show "\<bar>H div fe_p\<bar> \<le> 2" by (simp add: q_def)
  define D where "D = r - 19 * q + q0"
  have D: "H + q0 = D + q * 2 ^ 255"
    by (simp add: D_def H algebra_simps)
  have big: "2 ^ 255 * D = (2 ^ 255 + 19) * r - 361 * q - 19 * L + 2 ^ 230 * (2 ^ 24 - e)"
  proof -
    have "2 ^ 255 * q0 = 2 ^ 230 * (19 * h9 + 2 ^ 24 - e)"
      unfolding e(3) [symmetric] by simp
    moreover have "2 ^ 230 * h9 = q * (2 ^ 255 - 19) + r - L"
      using assms(1) H by (simp add: mult.commute)
    ultimately show ?thesis by (simp add: D_def algebra_simps)
  qed
  have "- (2 ^ 255) < 2 ^ 255 * D" "2 ^ 255 * D < 2 ^ 255 * 2 ^ 255"
    unfolding big using r e(1,2) q' assms(2) by (simp_all add: abs_le_iff)
  then have "0 \<le> D" "D < 2 ^ 255" by simp_all
  then have "(D + q * 2 ^ 255) div 2 ^ 255 = q"
    by simp
  then show "(H + q0) div 2 ^ 255 = H div fe_p"
    unfolding D q_def [symmetric] .
qed

lemma fe_quotient_ok:
  assumes "bounded fe_wide h"
  shows "fe_quotient h = Some (fe_val h div fe_p) \<and> \<bar>fe_val h div fe_p\<bar> \<le> 2"
proof -
  have h: "\<forall>i<10. \<bar>h ! i\<bar> \<le> 73819750" using fe_wide_nth [OF assms] by simp
  note odd = fe_wide_odd [OF assms]
  define q0 where "q0 = (19 * h ! 9 + 2 ^ 24) div 2 ^ 25"
  have "\<bar>y div 2 ^ 25\<bar> \<le> 100" if "\<bar>y\<bar> \<le> 800000000" for y :: int
    using that by (auto simp: abs_le_iff)
  then have "\<bar>q0\<bar> \<le> 100"
    unfolding q0_def using odd(5) by (simp add: abs_le_iff)
  from fe_quotient_chain [OF h this, of 10]
  have "seqM (fe_qstep h) [0..<10] q0 = Some ((fe_val h + q0) div 2 ^ 255)"
    by (auto simp: fe_exp_def)
  moreover have "[0..<10] = [0, 1, 2, 3, 4, 5, 6, 7, 8, 9::nat]" by (simp add: upt_rec)
  moreover have "i32 (19 * h ! 9) = Some (19 * h ! 9)" "i32 (19 * h ! 9 + 2 ^ 24) = Some (19 * h ! 9 + 2 ^ 24)"
    using odd(5) by (intro i32_Some; simp add: abs_less_iff abs_le_iff)+
  ultimately have "fe_quotient h = Some ((fe_val h + q0) div 2 ^ 255)"
    by (simp only: fe_quotient_def bind.bind_lunit q0_def)
  moreover have "fe_val h = (fe_val h - h ! 9 * 2 ^ 230) + h ! 9 * 2 ^ 230" by simp
  note fe_quotient_estimate [OF this fe_low_bound [OF h odd(1-4)] odd(5) q0_def]
  ultimately show ?thesis by simp
qed

section \<open>The limbs are carried out\<close>

lemma fe_floor_Some:
  assumes "i < 10" "length h = 10" "\<bar>h ! i\<bar> \<le> 2 ^ 27" "i < 9 \<Longrightarrow> \<bar>h ! (i + 1)\<bar> \<le> 2 ^ 27"
  shows "fe_floor i h = Some ((if i = 9 then h else h[i + 1 := h ! (i + 1) + h ! i div 2 ^ fe_width i])
      [i := h ! i mod 2 ^ fe_width i])"
    and "\<bar>h ! i div 2 ^ fe_width i\<bar> \<le> 4"
proof -
  let ?c = "h ! i div 2 ^ fe_width i"
  show c: "\<bar>?c\<bar> \<le> 4"
    using assms(3) by (auto simp: fe_width_def abs_le_iff)
  have w: "2 ^ fe_width i \<le> (2 ^ 26 :: int)" "(0::int) < 2 ^ fe_width i" by (simp_all add: fe_width_def)
  have r: "h ! i - ?c * 2 ^ fe_width i = h ! i mod 2 ^ fe_width i"
    by (simp add: minus_div_mult_eq_mod)
  have m: "\<bar>h ! i mod 2 ^ fe_width i\<bar> < 2 ^ 26"
    using pos_mod_bound [OF w(2), of "h ! i"] pos_mod_sign [OF w(2), of "h ! i"] w(1) by linarith
  have "\<bar>?c * 2 ^ fe_width i\<bar> = \<bar>h ! i - h ! i mod 2 ^ fe_width i\<bar>"
    unfolding r [symmetric] by simp
  then have "\<bar>?c * 2 ^ fe_width i\<bar> < 2 ^ 31"
    using m assms(3) abs_triangle_ineq4 [of "h ! i" "h ! i mod 2 ^ fe_width i"] by simp
  then have ok: "i32 (?c * 2 ^ fe_width i) = Some (?c * 2 ^ fe_width i)"
      "i32 (h ! i - ?c * 2 ^ fe_width i) = Some (h ! i mod 2 ^ fe_width i)"
    using m unfolding r by (intro i32_Some; simp)+
  have "i < 9 \<Longrightarrow> i32 (h ! (i + 1) + ?c) = Some (h ! (i + 1) + ?c)"
    using c assms(4) abs_triangle_ineq [of "h ! (i + 1)" ?c] by (intro i32_Some) simp
  then show "fe_floor i h = Some ((if i = 9 then h else h[i + 1 := h ! (i + 1) + ?c])[i := h ! i mod 2 ^ fe_width i])"
    unfolding fe_floor_def Let_def using ok assms(1) by (cases "i = 9") (simp_all add: nth_list_update)
qed

lemma fe_floor_val:
  assumes "fe_floor i h = Some ((if i = 9 then h else h[i + 1 := h ! (i + 1) + h ! i div 2 ^ fe_width i])
      [i := h ! i mod 2 ^ fe_width i])" (is "_ = Some ?h")
    and "i < 10" "length h = 10"
  shows "fe_val ?h mod 2 ^ 255 = fe_val h mod 2 ^ 255"
proof -
  let ?c = "h ! i div 2 ^ fe_width i"
  have m: "h ! i mod 2 ^ fe_width i = h ! i - ?c * 2 ^ fe_width i"
    by (simp add: minus_div_mult_eq_mod)
  have "fe_val ?h = fe_val h + (if i = 9 then - ?c else 0) * 2 ^ 255"
  proof (cases "i = 9")
    case True
    then show ?thesis unfolding m using assms(3)
      by (simp add: limbs_val_update fe_exp_def fe_width_def)
  next
    case False
    then show ?thesis unfolding m using assms(2,3) fe_exp_Suc [of i]
      by (simp add: limbs_val_update power_add nth_list_update)
  qed
  then show ?thesis by simp
qed

lemma seqM_floor:
  assumes "length h = 10" "\<forall>i<10. \<bar>h ! i\<bar> \<le> 73819850" "k \<le> 10"
  shows "\<exists>h'. seqM fe_floor [0..<k] h = Some h' \<and> length h' = 10 \<and> (\<forall>i<k. 0 \<le> h' ! i \<and> h' ! i < 2 ^ fe_width i)
    \<and> (\<forall>i<10. k < i \<longrightarrow> h' ! i = h ! i) \<and> (k < 10 \<longrightarrow> \<bar>h' ! k\<bar> \<le> 2 ^ 27)
    \<and> fe_val h' mod 2 ^ 255 = fe_val h mod 2 ^ 255"
  using assms(3)
proof (induction k)
  case 0
  have "\<bar>h ! 0\<bar> \<le> 73819850" using assms(2) by simp
  then show ?case using assms(1) by simp
next
  case (Suc k)
  then obtain h1 where h1: "seqM fe_floor [0..<k] h = Some h1" "length h1 = 10"
    "\<forall>i<k. 0 \<le> h1 ! i \<and> h1 ! i < 2 ^ fe_width i" "\<forall>i<10. k < i \<longrightarrow> h1 ! i = h ! i"
    "\<bar>h1 ! k\<bar> \<le> 2 ^ 27" "fe_val h1 mod 2 ^ 255 = fe_val h mod 2 ^ 255" by auto
  have k: "k < 10" using Suc.prems by simp
  have next_le: "\<bar>h1 ! (k + 1)\<bar> \<le> 73819850" if "k < 9"
    using that h1(4) assms(2) by simp
  have "\<bar>h1 ! (k + 1)\<bar> \<le> 2 ^ 27" if "k < 9"
    using next_le [OF that] by simp
  note f = fe_floor_Some [OF k h1(2,5) this]
  let ?h = "(if k = 9 then h1 else h1[k + 1 := h1 ! (k + 1) + h1 ! k div 2 ^ fe_width k])[k := h1 ! k mod 2 ^ fe_width k]"
  have len: "length ?h = 10" using h1(2) by simp
  have nth: "?h ! i = (if i = k then h1 ! k mod 2 ^ fe_width k else if i = k + 1 then h1 ! (k + 1) + h1 ! k div 2 ^ fe_width k else h1 ! i)"
    if "i < 10" for i
    using that k h1(2) by (simp add: nth_list_update)
  have "0 \<le> ?h ! i \<and> ?h ! i < 2 ^ fe_width i" if "i < Suc k" for i
  proof -
    have "i < 10" using that k by simp
    then show ?thesis unfolding nth [OF \<open>i < 10\<close>] using h1(3) that by auto
  qed
  moreover have "?h ! i = h ! i" if "i < 10" "Suc k < i" for i
    using nth [OF that(1)] h1(4) that by simp
  moreover have "\<bar>?h ! Suc k\<bar> \<le> 2 ^ 27" if "Suc k < 10"
    using nth [OF that] next_le f(2) that abs_triangle_ineq [of "h1 ! (k + 1)" "h1 ! k div 2 ^ fe_width k"] by simp
  moreover have "seqM fe_floor [0..<Suc k] h = Some ?h"
    using f(1) h1(1) by (simp add: seqM_append)
  moreover have "fe_val ?h mod 2 ^ 255 = fe_val h mod 2 ^ 255"
    using fe_floor_val [OF f(1) k h1(2)] h1(6) by simp
  ultimately show ?case using len by blast
qed

lemma fe_freeze_ok:
  assumes "bounded fe_wide h"
  shows "\<exists>l. fe_freeze h = Some l \<and> length l = 10 \<and> (\<forall>i<10. 0 \<le> l ! i \<and> l ! i < 2 ^ fe_width i)
    \<and> fe_val l = fe_val h mod fe_p"
proof -
  define q where "q = fe_val h div fe_p"
  note fq = fe_quotient_ok [OF assms, folded q_def]
  have len: "length h = 10" using bounded_length [OF assms] by (simp add: fe_wide_def)
  have h0: "\<bar>h ! 0\<bar> \<le> 73819750" using fe_wide_nth [OF assms] by simp
  have q19: "\<bar>19 * q\<bar> \<le> 38" using fq by (simp add: abs_mult)
  have x: "\<bar>h ! 0 + 19 * q\<bar> \<le> 73819850"
    using h0 q19 abs_triangle_ineq [of "h ! 0" "19 * q"] by simp
  then have ok: "i32 (19 * q) = Some (19 * q)" "i32 (h ! 0 + 19 * q) = Some (h ! 0 + 19 * q)"
    using q19 by (intro i32_Some; simp)+
  let ?h = "h[0 := h ! 0 + 19 * q]"
  have "\<bar>?h ! i\<bar> \<le> 73819850" if "i < 10" for i
  proof (cases "i = 0")
    case True
    then show ?thesis using x len by simp
  next
    case False
    then show ?thesis using fe_wide_nth [OF assms that] by simp
  qed
  with seqM_floor [of ?h 10] len obtain l where
    l: "seqM fe_floor [0..<10] ?h = Some l" "length l = 10" "\<forall>i<10. 0 \<le> l ! i \<and> l ! i < 2 ^ fe_width i"
      "fe_val l mod 2 ^ 255 = fe_val ?h mod 2 ^ 255" by auto
  have "[0..<10] = [0, 1, 2, 3, 4, 5, 6, 7, 8, 9::nat]" by (simp add: upt_rec)
  with l(1) have "fe_freeze h = Some l"
    using fq ok by (simp only: fe_freeze_def bind.bind_lunit)
  moreover have "fe_val l = fe_val h mod fe_p"
  proof -
    have "0 \<le> fe_val l \<and> fe_val l < 2 ^ fe_exp 10"
      by (rule radix_bound [OF fe_exp_Suc _ l(3)]) (simp add: fe_exp_def)
    then have "fe_val l = fe_val l mod 2 ^ 255" by (simp add: fe_exp_def)
    also have "\<dots> = (fe_val h + 19 * q) mod 2 ^ 255"
      using l(4) len by (simp add: limbs_val_update fe_exp_def)
    also have "fe_val h + 19 * q = fe_val h mod fe_p + q * 2 ^ 255"
      using div_mult_mod_eq [of "fe_val h" fe_p] by (simp add: q_def fe_p_def algebra_simps)
    also have "\<dots> mod 2 ^ 255 = fe_val h mod fe_p"
    proof -
      have "0 \<le> fe_val h mod fe_p" "fe_val h mod fe_p < 2 ^ 255"
        using pos_mod_bound [of fe_p "fe_val h"] pos_mod_sign [of fe_p "fe_val h"] by (simp_all add: fe_p_def)
      then show ?thesis by simp
    qed
    finally show ?thesis .
  qed
  ultimately show ?thesis using l(2,3) by blast
qed

section \<open>The bytes\<close>

lemma word_of_sint32: "(word_of_int (sint (x :: u32)) :: u8) = ucast x"
  by (rule bit_word_eqI) (simp add: bit_simps min_def)

lemma fe_byte_eq:
  assumes "h ! i = take_bit w (drop_bit a V)" "n + 8 \<le> w"
  shows "fe_byte h i n = word_of_int (drop_bit (a + n) V)"
  using assms(2) unfolding fe_byte_def assms(1) drop_bit_eq_div [symmetric]
  by (intro bit_word_eqI) (simp add: bit_simps ac_simps)

lemma fe_byte2_eq:
  assumes "h ! i = take_bit w (drop_bit a V)" "h ! (i + 1) = take_bit k (drop_bit (a + w) V)"
    and "n + m = w" "m \<le> 8" "8 \<le> k"
  shows "fe_byte2 h i n m = word_of_int (drop_bit (a + n) V)"
proof (rule bit_word_eqI)
  fix j assume "j < LENGTH(8)"
  then have j: "j < 8" by simp
  have shl: "bit (shl32 (h ! (i + 1)) m) j \<longleftrightarrow> m \<le> j \<and> bit (drop_bit (a + w) V) (j - m)"
    unfolding shl32_def assms(2) push_bit_eq_mult [symmetric] using j assms(5)
    by (auto simp: bit_simps min_def)
  have lhs: "bit (fe_byte2 h i n m) j \<longleftrightarrow>
      bit (drop_bit n (take_bit w (drop_bit a V))) j \<or> bit (shl32 (h ! (i + 1)) m) j"
    unfolding fe_byte2_def assms(1) drop_bit_eq_div [symmetric] using j by (simp add: bit_simps)
  show "bit (fe_byte2 h i n m) j = bit (word_of_int (drop_bit (a + n) V) :: u8) j"
  proof (cases "m \<le> j")
    case True
    then have "a + w + (j - m) = a + n + j" using assms(3) by simp
    then show ?thesis unfolding lhs shl using True j assms(3) by (auto simp: bit_simps ac_simps)
  next
    case False
    then show ?thesis unfolding lhs shl using j assms(3) by (auto simp: bit_simps ac_simps)
  qed
qed

lemma fe_exp_ends: "fe_exp 0 = 0" "fe_exp 10 = 255"
  by (simp_all add: fe_exp_def)

lemma fe_store_eq:
  assumes "length h = 10" "\<forall>i<10. 0 \<le> h ! i \<and> h ! i < 2 ^ fe_width i"
  shows "fe_store h = le_bytes 32 (nat (fe_val h))"
proof -
  define V where "V = fe_val h"
  have V: "0 \<le> V" "V < 2 ^ 255"
    using radix_bound [OF fe_exp_Suc _ assms(2)] fe_exp_ends by (simp_all add: V_def)
  have d: "h ! i = take_bit (fe_width i) (drop_bit (fe_exp i) V)" if "i < 10" for i
    unfolding V_def by (rule radix_nth [OF fe_exp_Suc _ assms(2) that]) (simp add: fe_exp_def)
  have b1: "fe_byte h i n = word_of_int (drop_bit (fe_exp i + n) V)" if "i < 10" "n + 8 \<le> fe_width i" for i n
    by (rule fe_byte_eq [OF d [OF that(1)] that(2)])
  have b2: "fe_byte2 h i n m = word_of_int (drop_bit (fe_exp i + n) V)"
    if "i < 9" "n + m = fe_width i" "m \<le> 8" for i n m
  proof (rule fe_byte2_eq)
    show "h ! i = take_bit (fe_width i) (drop_bit (fe_exp i) V)" by (rule d) (use that in simp)
    show "h ! (i + 1) = take_bit (fe_width (Suc i)) (drop_bit (fe_exp i + fe_width i) V)"
      using d [of "Suc i"] that(1) by (simp add: fe_exp_Suc)
  qed (use that in \<open>simp_all add: fe_width_def\<close>)
  have top: "fe_byte h 9 18 = word_of_int (drop_bit 248 V)"
  proof -
    have "drop_bit 230 V < 2 ^ 25" "0 \<le> drop_bit 230 V" using V by (simp_all add: drop_bit_eq_div)
    then have "h ! 9 = drop_bit 230 V"
      using d [of 9] by (simp add: fe_width_def fe_exp_def take_bit_int_eq_self)
    moreover have "V div (2 ^ 230 * 2 ^ 18) = V div 2 ^ 230 div 2 ^ 18"
      by (rule zdiv_zmult2_eq) simp
    ultimately show ?thesis by (simp add: fe_byte_def drop_bit_eq_div)
  qed
  note bytes = b1 [of 0 0] b1 [of 0 8] b1 [of 0 16] b2 [of 0 24 2] b1 [of 1 6] b1 [of 1 14] b2 [of 1 22 3]
    b1 [of 2 5] b1 [of 2 13] b2 [of 2 21 5] b1 [of 3 3] b1 [of 3 11] b2 [of 3 19 6]
    b1 [of 4 2] b1 [of 4 10] b1 [of 4 18] b1 [of 5 0] b1 [of 5 8] b1 [of 5 16] b2 [of 5 24 1]
    b1 [of 6 7] b1 [of 6 15] b2 [of 6 23 3] b1 [of 7 5] b1 [of 7 13] b2 [of 7 21 4]
    b1 [of 8 4] b1 [of 8 12] b2 [of 8 20 6] b1 [of 9 2] b1 [of 9 10] top
  have "fe_store h = map (\<lambda>k. word_of_int (drop_bit (8 * k) V)) [0..<32]"
    unfolding fe_store_def
    by (simp add: bytes [unfolded fe_width_def fe_exp_def, simplified] upt_rec)
  moreover have "word_of_int (drop_bit (8 * k) V) = (of_nat (drop_bit (8 * k) (nat V)) :: u8)" for k
  proof -
    have "drop_bit (8 * k) V = int (drop_bit (8 * k) (nat V))"
      using V(1) by (simp add: drop_bit_of_nat [symmetric])
    then show ?thesis by (simp only: of_int_of_nat_eq)
  qed
  ultimately show ?thesis by (simp add: le_bytes_def V_def)
qed

lemma fe_tobytes_ok:
  assumes "bounded fe_wide h"
  shows "fe_tobytes h = Some (le_bytes 32 (nat (fe_val h mod fe_p)))"
proof -
  from fe_freeze_ok [OF assms] obtain l where l: "fe_freeze h = Some l" "length l = 10"
    "\<forall>i<10. 0 \<le> l ! i \<and> l ! i < 2 ^ fe_width i" "fe_val l = fe_val h mod fe_p" by blast
  show ?thesis using fe_store_eq [OF l(2,3)] by (simp add: fe_tobytes_def l(1,4))
qed

lemma residue_nonneg: "0 \<le> x mod fe_p"
  by (simp add: fe_p_def)

lemma le_nat_residue: "le_nat (le_bytes 32 (nat (x mod fe_p))) = nat (x mod fe_p)"
proof -
  have "x mod fe_p < 2 ^ 256"
    using pos_mod_bound [of fe_p x] by (simp add: fe_p_def)
  then have "nat (x mod fe_p) < 256 ^ 32" by (simp add: nat_less_iff)
  then show ?thesis by (simp add: le_nat_le_bytes)
qed

lemma fe_isnonzero_ok:
  assumes "bounded fe_wide h"
  shows "fe_isnonzero h = Some (if fe_val h mod fe_p = 0 then 0 else 1)"
  using any_byte_eq [of "le_bytes 32 (nat (fe_val h mod fe_p))"] residue_nonneg [of "fe_val h"]
  by (simp add: fe_isnonzero_def fe_tobytes_ok [OF assms] le_nat_residue)

lemma fe_isnegative_ok:
  assumes "bounded fe_wide h"
  shows "fe_isnegative h = Some (fe_val h mod fe_p mod 2)"
proof -
  have "uint (le_bytes 32 (nat x) ! 0 AND 1) = x mod 2" if "0 \<le> x" for x
  proof -
    have "even (word_of_int x :: u8) \<longleftrightarrow> even x"
      using bit_0 [of "word_of_int x :: u8"] bit_0 [of x] by (simp add: bit_word_of_int_iff)
    then have "uint ((word_of_int x :: u8) AND 1) = x mod 2"
      by (simp add: and_one_eq mod2_eq_if)
    moreover have "le_bytes 32 (nat x) ! 0 = of_nat (nat x)" by (simp add: le_bytes_def upt_rec)
    ultimately show ?thesis using that by simp
  qed
  from this [OF residue_nonneg] show ?thesis
    by (simp add: fe_isnegative_def fe_tobytes_ok [OF assms])
qed

text \<open>The shift \<open>h4 << 6\<close> fits 32 bits exactly when bit 127 of the residue is clear.\<close>

lemma fe_shift_ok:
  assumes "bounded fe_wide h" "fe_freeze h = Some l"
  shows "in32 (l ! 4 * 2 ^ 6) \<longleftrightarrow> \<not> bit (fe_val h mod fe_p) 127"
proof -
  from fe_freeze_ok [OF assms(1)] assms(2) have
    l: "\<forall>i<10. 0 \<le> l ! i \<and> l ! i < 2 ^ fe_width i" "fe_val l = fe_val h mod fe_p" by auto
  have "l ! 4 = take_bit 26 (drop_bit 102 (fe_val h mod fe_p))"
    using radix_nth [OF fe_exp_Suc _ l(1), of 4] fe_exp_ends(1) by (simp add: l(2) fe_width_def fe_exp_values)
  then have "bit (l ! 4) 25 = bit (fe_val h mod fe_p) 127" by (simp add: bit_simps)
  moreover have "0 \<le> l ! 4 \<and> l ! 4 < 2 ^ fe_width 4" using l(1) by simp
  then have "0 \<le> l ! 4" "l ! 4 < 2 ^ 26" by (simp_all add: fe_width_def)
  then have "l ! 4 div 2 ^ 25 = (if 2 ^ 25 \<le> l ! 4 then 1 else 0)"
    by (auto simp: div_pos_geq)
  then have "bit (l ! 4) 25 \<longleftrightarrow> 2 ^ 25 \<le> l ! 4"
    by (simp add: bit_iff_odd)
  ultimately show ?thesis using \<open>0 \<le> l ! 4\<close> by (auto simp: in32_def)
qed

section \<open>Properties\<close>

text \<open>
  C18: \<open>fe_tobytes\<close> writes the canonical encoding: for limbs up to 1.1 times \<open>2^26\<close> and \<open>2^25\<close>
  the 32 bytes are those of the residue modulo \<open>p\<close>, so reading them back gives the residue, and
  two elements get the same bytes exactly when they are congruent. The comment in the code argues
  from \<open>|h| <= p\<close>, which these bounds do not give; the estimate holds nevertheless.
\<close>

theorem fe_tobytes_canonical:
  assumes "bounded fe_wide f" "bounded fe_wide g"
  shows "fe_tobytes f = Some (le_bytes 32 (nat (fe_val f mod fe_p)))
    \<and> int (le_nat (le_bytes 32 (nat (fe_val f mod fe_p)))) = fe_val f mod fe_p
    \<and> (fe_tobytes f = fe_tobytes g \<longleftrightarrow> fe_val f mod fe_p = fe_val g mod fe_p)"
proof -
  have "le_bytes 32 (nat (fe_val f mod fe_p)) = le_bytes 32 (nat (fe_val g mod fe_p))
      \<longleftrightarrow> fe_val f mod fe_p = fe_val g mod fe_p"
    using le_nat_residue residue_nonneg by (metis nat_eq_iff2 int_nat_eq)
  then show ?thesis
    using fe_tobytes_ok [OF assms(1)] fe_tobytes_ok [OF assms(2)]
    by (simp add: le_nat_residue residue_nonneg)
qed

theorem fe_tobytes_canonical_witness:
  "fe_tobytes [-18, 0, 0, 0, 0, 0, 0, 0, 0, 0] = Some (le_bytes 32 (nat (fe_val [-18, 0, 0, 0, 0, 0, 0, 0, 0, 0] mod fe_p)))
   \<and> fe_tobytes [-18, 0, 0, 0, 0, 0, 0, 0, 0, 0] \<noteq> fe_tobytes fe_1"
proof -
  have "bounded fe_wide [-18, 0, 0, 0, 0, 0, 0, 0, 0, 0]" "bounded fe_wide fe_1" by code_simp+
  note c = fe_tobytes_canonical [OF this]
  have "fe_val [-18, 0, 0, 0, 0, 0, 0, 0, 0, 0] mod fe_p \<noteq> fe_val fe_1 mod fe_p" by code_simp
  then show ?thesis using c by blast
qed

text \<open>
  The two tests on field elements: \<open>fe_isnonzero\<close> is 0 exactly for the multiples of \<open>p\<close>, and
  \<open>fe_isnegative\<close> is the parity of the residue.
\<close>

theorem fe_tests_correct:
  assumes "bounded fe_wide f"
  shows "fe_isnonzero f = Some (if fe_val f mod fe_p = 0 then 0 else 1)
    \<and> fe_isnegative f = Some (fe_val f mod fe_p mod 2)"
  using fe_isnonzero_ok [OF assms] fe_isnegative_ok [OF assms] by blast

theorem fe_tests_correct_witness:
  "fe_isnonzero [-19, 0, 0, 0, 0, 0, 0, 0, 0, 2 ^ 25] = Some 0 \<and> fe_isnegative [-19, 0, 0, 0, 0, 0, 0, 0, 0, 2 ^ 25] = Some 0"
proof -
  have "bounded fe_wide [-19, 0, 0, 0, 0, 0, 0, 0, 0, 2 ^ 25]" by code_simp
  note t = fe_tests_correct [OF this]
  have "fe_val [-19, 0, 0, 0, 0, 0, 0, 0, 0, 2 ^ 25] mod fe_p = 0" by code_simp
  then show ?thesis using t by simp
qed

text \<open>
  C40: the shift \<open>h4 << 6\<close> for the byte \<open>s[12]\<close> leaves the range of \<open>int32_t\<close>, undefined
  behaviour in C, for every element whose residue has bit 127 set, and only for those.
\<close>

theorem fe_tobytes_shift:
  assumes "bounded fe_wide h"
  shows "\<exists>l. fe_freeze h = Some l \<and> (in32 (l ! 4 * 2 ^ 6) \<longleftrightarrow> \<not> bit (fe_val h mod fe_p) 127)"
  using fe_freeze_ok [OF assms] fe_shift_ok [OF assms] by blast

theorem fe_tobytes_shift_witness:
  "\<exists>l. fe_freeze [0, 0, 0, 0, 2 ^ 25, 0, 0, 0, 0, 0] = Some l \<and> \<not> in32 (l ! 4 * 2 ^ 6)"
proof -
  have "bounded fe_wide [0, 0, 0, 0, 2 ^ 25, 0, 0, 0, 0, 0]" by code_simp
  note t = fe_tobytes_shift [OF this]
  have "fe_val [0, 0, 0, 0, 2 ^ 25, 0, 0, 0, 0, 0] mod fe_p = 2 ^ 127" by code_simp
  then have "bit (fe_val [0, 0, 0, 0, 2 ^ 25, 0, 0, 0, 0, 0] mod fe_p) 127"
    by (simp only: bit_exp_iff) simp
  then show ?thesis using t by blast
qed

end
