(* ===== verification/Zp.thy ===== *)
theory Zp
  imports Fe_Power Fe_Bytes
begin

text \<open>
  The ring of residues modulo \<open>p = 2^255 - 19\<close>, in which the curve of Ed25519 lives, as a type
  with the class \<open>comm_ring_1\<close>: what an array of limbs stands for is an element of it, the field
  operations of the code are its operations, and the formulas of the group layer are checked by
  ring normalisation. That \<open>p\<close> is prime is not used; where the code divides, a theorem asks for a
  unit.
\<close>

section \<open>The ring\<close>

lemma fe_p_pos: "0 < fe_p" "1 < fe_p"
  by (simp_all add: fe_p_def)

typedef zp = "{0..<fe_p}"
  using fe_p_pos(1) by (intro exI [of _ 0]) simp

setup_lifting type_definition_zp

instantiation zp :: comm_ring_1
begin

lift_definition zero_zp :: zp is 0
  by (simp add: fe_p_pos)

lift_definition one_zp :: zp is 1
  by (simp add: fe_p_pos)

lift_definition plus_zp :: "zp \<Rightarrow> zp \<Rightarrow> zp" is "\<lambda>x y. (x + y) mod fe_p"
  by (simp add: fe_p_pos)

lift_definition minus_zp :: "zp \<Rightarrow> zp \<Rightarrow> zp" is "\<lambda>x y. (x - y) mod fe_p"
  by (simp add: fe_p_pos)

lift_definition uminus_zp :: "zp \<Rightarrow> zp" is "\<lambda>x. (- x) mod fe_p"
  by (simp add: fe_p_pos)

lift_definition times_zp :: "zp \<Rightarrow> zp \<Rightarrow> zp" is "\<lambda>x y. (x * y) mod fe_p"
  by (simp add: fe_p_pos)

instance
proof
  fix a b c :: zp
  show "a * b * c = a * (b * c)" by transfer (simp add: mod_simps mult.assoc)
  show "a * b = b * a" by transfer (simp add: mult.commute)
  show "1 * a = a" by transfer simp
  show "a + b + c = a + (b + c)" by transfer (simp add: mod_simps add.assoc)
  show "a + b = b + a" by transfer (simp add: add.commute)
  show "0 + a = a" by transfer simp
  show "- a + a = 0" by transfer (simp add: mod_simps)
  show "a - b = a + - b" by transfer (simp add: mod_simps)
  show "(a + b) * c = a * c + b * c" by transfer (simp add: mod_simps distrib_right)
  show "(0 :: zp) \<noteq> 1" by transfer simp
qed

end

lift_definition zp :: "int \<Rightarrow> zp" is "\<lambda>x. x mod fe_p"
  by (simp add: fe_p_pos)

lemma zp_hom [simp]: "zp (x + y) = zp x + zp y" "zp (x - y) = zp x - zp y" "zp (- x) = - zp x"
  "zp (x * y) = zp x * zp y" "zp 0 = 0" "zp 1 = 1"
  by (transfer, simp add: mod_simps fe_p_pos mod_pos_pos_trivial)+

lemma zp_power [simp]: "zp (x ^ n) = zp x ^ n"
  by (induction n) simp_all

lemma zp_eq_iff: "zp x = zp y \<longleftrightarrow> x mod fe_p = y mod fe_p"
  by transfer simp

lemma zp_mod [simp]: "zp (x mod fe_p) = zp x"
  by (simp add: zp_eq_iff)

lemma zp_of_int: "zp x = of_int x"
proof (cases x)
  case (nonneg n)
  have "zp (int n) = of_int (int n)" by (induction n) simp_all
  then show ?thesis using nonneg by simp
next
  case (neg n)
  have "zp (int n) = of_int (int n)" for n by (induction n) simp_all
  from this [of "Suc n"] show ?thesis using neg zp_hom(3) [of "int (Suc n)"] by simp
qed

lemma zp_numeral [simp]: "zp (numeral k) = numeral k"
  by (simp add: zp_of_int)

lemma zp_two_unit: "2 * zp ((fe_p + 1) div 2) = 1"
proof -
  have "zp (2 * ((fe_p + 1) div 2)) = zp 1"
    unfolding zp_eq_iff by (simp add: fe_p_def)
  then show ?thesis by (simp only: zp_hom(4,6) zp_numeral)
qed

section \<open>The elements the limbs stand for\<close>

definition fz :: "fe \<Rightarrow> zp" where
  "fz f = zp (fe_val f)"

end
