(* ===== verification/Ge.thy ===== *)
theory Ge
  imports Zp
begin

text \<open>
  The group elements of \<^verbatim>\<open>src/base/tools/cryptonote/crypto-ops.c\<close>: points of the twisted Edwards
  curve \<open>-x^2 + y^2 = 1 + d x^2 y^2\<close> in four coordinate systems, their addition, subtraction and
  doubling and the conversions. The specification is the affine addition law on pairs of residues;
  a coordinate tuple represents a point when its ratios are the point's coordinates and its
  denominators are units, and the lemmas say that each formula represents the sum.
\<close>

section \<open>The code\<close>

record ge_p2 =
  p2_X :: fe
  p2_Y :: fe
  p2_Z :: fe

record ge_p3 =
  p3_X :: fe
  p3_Y :: fe
  p3_Z :: fe
  p3_T :: fe

record ge_p1p1 =
  p1_X :: fe
  p1_Y :: fe
  p1_Z :: fe
  p1_T :: fe

record ge_precomp =
  pre_yplusx :: fe
  pre_yminusx :: fe
  pre_xy2d :: fe

record ge_cached =
  ca_YplusX :: fe
  ca_YminusX :: fe
  ca_Z :: fe
  ca_T2d :: fe

definition fe_d :: fe where
  "fe_d = [-10913610, 13857413, -15372611, 6949391, 114729, -8787816, -6275908, -3247719,
     -18696448, -12055116]"

definition fe_d2 :: fe where
  "fe_d2 = [-21827239, -5839606, -30745221, 13898782, 229458, 15978800, -12551817, -6495438,
     29715968, 9444199]"

definition fe_sqrtm1 :: fe where
  "fe_sqrtm1 = [-32595792, -7943725, 9377950, 3500415, 12389472, -272473, -25146209, -2005654,
     326686, 11406482]"

definition ge_add :: "ge_p3 \<Rightarrow> ge_cached \<Rightarrow> ge_p1p1 option" where
  "ge_add p q =
     fe_add (p3_Y p) (p3_X p) \<bind> (\<lambda>X.
     fe_sub (p3_Y p) (p3_X p) \<bind> (\<lambda>Y.
     fe_mul X (ca_YplusX q) \<bind> (\<lambda>Z.
     fe_mul Y (ca_YminusX q) \<bind> (\<lambda>Y.
     fe_mul (ca_T2d q) (p3_T p) \<bind> (\<lambda>T.
     fe_mul (p3_Z p) (ca_Z q) \<bind> (\<lambda>X.
     fe_add X X \<bind> (\<lambda>t0.
     fe_sub Z Y \<bind> (\<lambda>X.
     fe_add Z Y \<bind> (\<lambda>Y.
     fe_add t0 T \<bind> (\<lambda>Z.
     fe_sub t0 T \<bind> (\<lambda>T.
     Some \<lparr>p1_X = X, p1_Y = Y, p1_Z = Z, p1_T = T\<rparr>)))))))))))"

definition ge_sub :: "ge_p3 \<Rightarrow> ge_cached \<Rightarrow> ge_p1p1 option" where
  "ge_sub p q =
     fe_add (p3_Y p) (p3_X p) \<bind> (\<lambda>X.
     fe_sub (p3_Y p) (p3_X p) \<bind> (\<lambda>Y.
     fe_mul X (ca_YminusX q) \<bind> (\<lambda>Z.
     fe_mul Y (ca_YplusX q) \<bind> (\<lambda>Y.
     fe_mul (ca_T2d q) (p3_T p) \<bind> (\<lambda>T.
     fe_mul (p3_Z p) (ca_Z q) \<bind> (\<lambda>X.
     fe_add X X \<bind> (\<lambda>t0.
     fe_sub Z Y \<bind> (\<lambda>X.
     fe_add Z Y \<bind> (\<lambda>Y.
     fe_sub t0 T \<bind> (\<lambda>Z.
     fe_add t0 T \<bind> (\<lambda>T.
     Some \<lparr>p1_X = X, p1_Y = Y, p1_Z = Z, p1_T = T\<rparr>)))))))))))"

definition ge_madd :: "ge_p3 \<Rightarrow> ge_precomp \<Rightarrow> ge_p1p1 option" where
  "ge_madd p q =
     fe_add (p3_Y p) (p3_X p) \<bind> (\<lambda>X.
     fe_sub (p3_Y p) (p3_X p) \<bind> (\<lambda>Y.
     fe_mul X (pre_yplusx q) \<bind> (\<lambda>Z.
     fe_mul Y (pre_yminusx q) \<bind> (\<lambda>Y.
     fe_mul (pre_xy2d q) (p3_T p) \<bind> (\<lambda>T.
     fe_add (p3_Z p) (p3_Z p) \<bind> (\<lambda>t0.
     fe_sub Z Y \<bind> (\<lambda>X.
     fe_add Z Y \<bind> (\<lambda>Y.
     fe_add t0 T \<bind> (\<lambda>Z.
     fe_sub t0 T \<bind> (\<lambda>T.
     Some \<lparr>p1_X = X, p1_Y = Y, p1_Z = Z, p1_T = T\<rparr>))))))))))"

definition ge_msub :: "ge_p3 \<Rightarrow> ge_precomp \<Rightarrow> ge_p1p1 option" where
  "ge_msub p q =
     fe_add (p3_Y p) (p3_X p) \<bind> (\<lambda>X.
     fe_sub (p3_Y p) (p3_X p) \<bind> (\<lambda>Y.
     fe_mul X (pre_yminusx q) \<bind> (\<lambda>Z.
     fe_mul Y (pre_yplusx q) \<bind> (\<lambda>Y.
     fe_mul (pre_xy2d q) (p3_T p) \<bind> (\<lambda>T.
     fe_add (p3_Z p) (p3_Z p) \<bind> (\<lambda>t0.
     fe_sub Z Y \<bind> (\<lambda>X.
     fe_add Z Y \<bind> (\<lambda>Y.
     fe_sub t0 T \<bind> (\<lambda>Z.
     fe_add t0 T \<bind> (\<lambda>T.
     Some \<lparr>p1_X = X, p1_Y = Y, p1_Z = Z, p1_T = T\<rparr>))))))))))"

definition ge_p1p1_to_p2 :: "ge_p1p1 \<Rightarrow> ge_p2 option" where
  "ge_p1p1_to_p2 p =
     fe_mul (p1_X p) (p1_T p) \<bind> (\<lambda>X.
     fe_mul (p1_Y p) (p1_Z p) \<bind> (\<lambda>Y.
     fe_mul (p1_Z p) (p1_T p) \<bind> (\<lambda>Z.
     Some \<lparr>p2_X = X, p2_Y = Y, p2_Z = Z\<rparr>)))"

definition ge_p1p1_to_p3 :: "ge_p1p1 \<Rightarrow> ge_p3 option" where
  "ge_p1p1_to_p3 p =
     fe_mul (p1_X p) (p1_T p) \<bind> (\<lambda>X.
     fe_mul (p1_Y p) (p1_Z p) \<bind> (\<lambda>Y.
     fe_mul (p1_Z p) (p1_T p) \<bind> (\<lambda>Z.
     fe_mul (p1_X p) (p1_Y p) \<bind> (\<lambda>T.
     Some \<lparr>p3_X = X, p3_Y = Y, p3_Z = Z, p3_T = T\<rparr>))))"

definition ge_p2_0 :: ge_p2 where
  "ge_p2_0 = \<lparr>p2_X = fe_0, p2_Y = fe_1, p2_Z = fe_1\<rparr>"

definition ge_p2_dbl :: "ge_p2 \<Rightarrow> ge_p1p1 option" where
  "ge_p2_dbl p =
     fe_sq (p2_X p) \<bind> (\<lambda>X.
     fe_sq (p2_Y p) \<bind> (\<lambda>Z.
     fe_sq2 (p2_Z p) \<bind> (\<lambda>T.
     fe_add (p2_X p) (p2_Y p) \<bind> (\<lambda>Y.
     fe_sq Y \<bind> (\<lambda>t0.
     fe_add Z X \<bind> (\<lambda>Y.
     fe_sub Z X \<bind> (\<lambda>Z.
     fe_sub t0 Y \<bind> (\<lambda>X.
     fe_sub T Z \<bind> (\<lambda>T.
     Some \<lparr>p1_X = X, p1_Y = Y, p1_Z = Z, p1_T = T\<rparr>)))))))))"

definition ge_p3_0 :: ge_p3 where
  "ge_p3_0 = \<lparr>p3_X = fe_0, p3_Y = fe_1, p3_Z = fe_1, p3_T = fe_0\<rparr>"

definition ge_p3_to_p2 :: "ge_p3 \<Rightarrow> ge_p2" where
  "ge_p3_to_p2 p =
     \<lparr>p2_X = fe_copy (p3_X p), p2_Y = fe_copy (p3_Y p), p2_Z = fe_copy (p3_Z p)\<rparr>"

definition ge_p3_dbl :: "ge_p3 \<Rightarrow> ge_p1p1 option" where
  "ge_p3_dbl p = ge_p2_dbl (ge_p3_to_p2 p)"

definition ge_p3_to_cached :: "ge_p3 \<Rightarrow> ge_cached option" where
  "ge_p3_to_cached p =
     fe_add (p3_Y p) (p3_X p) \<bind> (\<lambda>YplusX.
     fe_sub (p3_Y p) (p3_X p) \<bind> (\<lambda>YminusX.
     fe_mul (p3_T p) fe_d2 \<bind> (\<lambda>T2d.
     Some \<lparr>ca_YplusX = YplusX, ca_YminusX = YminusX, ca_Z = fe_copy (p3_Z p), ca_T2d = T2d\<rparr>)))"

definition ge_mul8 :: "ge_p2 \<Rightarrow> ge_p1p1 option" where
  "ge_mul8 t =
     ge_p2_dbl t \<bind> (\<lambda>r.
     ge_p1p1_to_p2 r \<bind> (\<lambda>u.
     ge_p2_dbl u \<bind> (\<lambda>r.
     ge_p1p1_to_p2 r \<bind> (\<lambda>u.
     ge_p2_dbl u))))"

section \<open>The curve\<close>

type_synonym point = "zp \<times> zp"

definition ed_d :: zp where
  "ed_d = fz fe_d"

fun on_curve :: "point \<Rightarrow> bool" where
  "on_curve (x, y) \<longleftrightarrow> y * y - x * x = 1 + ed_d * (x * x) * (y * y)"

fun ed_add :: "point \<Rightarrow> point \<Rightarrow> point \<Rightarrow> bool" where
  \<comment> \<open>the third point is the sum of the first two: the affine addition law, its denominators units\<close>
  "ed_add (x1, y1) (x2, y2) (x3, y3) \<longleftrightarrow>
     (let t = ed_d * (x1 * x2) * (y1 * y2)
      in (1 + t) dvd 1 \<and> (1 - t) dvd 1
         \<and> x3 * (1 + t) = x1 * y2 + y1 * x2 \<and> y3 * (1 - t) = y1 * y2 + x1 * x2)"

fun ed_neg :: "point \<Rightarrow> point" where
  "ed_neg (x, y) = (- x, y)"

text \<open>The sum is unique, and the constant is that of the standard.\<close>

lemma unit_cancel: "(u :: 'a :: comm_ring_1) dvd 1 \<Longrightarrow> a * u = b * u \<Longrightarrow> a = b"
  by (metis dvdE mult.assoc mult.commute mult_1_right)

lemma ed_add_unique: "ed_add P Q R \<Longrightarrow> ed_add P Q S \<Longrightarrow> R = S"
  by (cases P; cases Q; cases R; cases S; simp only: ed_add.simps Let_def prod.inject)
     (metis unit_cancel)

lemma ed_d_value: "121666 * ed_d = - 121665"
proof -
  have "(121666 * fe_val fe_d) mod fe_p = (- 121665) mod fe_p" by code_simp
  then have "zp (121666 * fe_val fe_d) = zp (- 121665)" by (simp only: zp_eq_iff)
  then show ?thesis by (simp add: ed_d_def fz_def)
qed

lemma fe_d2_value: "fz fe_d2 = 2 * ed_d"
proof -
  have "fe_val fe_d2 mod fe_p = (2 * fe_val fe_d) mod fe_p" by code_simp
  then have "zp (fe_val fe_d2) = zp (2 * fe_val fe_d)" by (simp only: zp_eq_iff)
  then show ?thesis by (simp add: ed_d_def fz_def)
qed

section \<open>Representations\<close>

definition p2_rep :: "ge_p2 \<Rightarrow> point \<Rightarrow> bool" where
  "p2_rep h P \<longleftrightarrow> fe_within 1 (p2_X h) \<and> fe_within 1 (p2_Y h) \<and> fe_within 1 (p2_Z h)
     \<and> fz (p2_Z h) dvd 1 \<and> fz (p2_X h) = fst P * fz (p2_Z h) \<and> fz (p2_Y h) = snd P * fz (p2_Z h)"

definition p3_rep :: "ge_p3 \<Rightarrow> point \<Rightarrow> bool" where
  "p3_rep h P \<longleftrightarrow> fe_within 1 (p3_X h) \<and> fe_within 1 (p3_Y h) \<and> fe_within 1 (p3_Z h) \<and> fe_within 1 (p3_T h)
     \<and> fz (p3_Z h) dvd 1 \<and> fz (p3_X h) = fst P * fz (p3_Z h) \<and> fz (p3_Y h) = snd P * fz (p3_Z h)
     \<and> fz (p3_T h) = fst P * snd P * fz (p3_Z h)"

definition p1p1_rep :: "ge_p1p1 \<Rightarrow> point \<Rightarrow> bool" where
  "p1p1_rep h P \<longleftrightarrow> fe_within 3 (p1_X h) \<and> fe_within 3 (p1_Y h) \<and> fe_within 3 (p1_Z h) \<and> fe_within 3 (p1_T h)
     \<and> fz (p1_Z h) dvd 1 \<and> fz (p1_T h) dvd 1
     \<and> fz (p1_X h) = fst P * fz (p1_Z h) \<and> fz (p1_Y h) = snd P * fz (p1_T h)"

definition precomp_rep :: "ge_precomp \<Rightarrow> point \<Rightarrow> bool" where
  "precomp_rep h P \<longleftrightarrow> fe_within 1 (pre_yplusx h) \<and> fe_within 1 (pre_yminusx h) \<and> fe_within 1 (pre_xy2d h)
     \<and> fz (pre_yplusx h) = snd P + fst P \<and> fz (pre_yminusx h) = snd P - fst P
     \<and> fz (pre_xy2d h) = 2 * ed_d * fst P * snd P"

definition cached_rep :: "ge_cached \<Rightarrow> point \<Rightarrow> bool" where
  "cached_rep h P \<longleftrightarrow> fe_within 2 (ca_YplusX h) \<and> fe_within 2 (ca_YminusX h) \<and> fe_within 1 (ca_Z h)
     \<and> fe_within 1 (ca_T2d h) \<and> fz (ca_Z h) dvd 1
     \<and> fz (ca_YplusX h) = (snd P + fst P) * fz (ca_Z h) \<and> fz (ca_YminusX h) = (snd P - fst P) * fz (ca_Z h)
     \<and> fz (ca_T2d h) = 2 * ed_d * fst P * snd P * fz (ca_Z h)"

section \<open>Running the field operations\<close>

lemma step_add:
  assumes "fe_within m f" "fe_within n g" "m + n \<le> 60"
    and "\<And>h. fe_within (m + n) h \<Longrightarrow> fz h = fz f + fz g \<Longrightarrow> yields Q (k h)"
  shows "yields Q (fe_add f g \<bind> k)"
  using fe_within_sum(1) [OF assms(1-3)] assms(4) by (auto simp: fz_def)

lemma step_sub:
  assumes "fe_within m f" "fe_within n g" "m + n \<le> 60"
    and "\<And>h. fe_within (m + n) h \<Longrightarrow> fz h = fz f - fz g \<Longrightarrow> yields Q (k h)"
  shows "yields Q (fe_sub f g \<bind> k)"
  using fe_within_sum(2) [OF assms(1-3)] assms(4) by (auto simp: fz_def)

lemma step_mul:
  assumes "fe_within m f" "fe_within n g" "m \<le> 3" "n \<le> 3"
    and "\<And>h. fe_within 1 h \<Longrightarrow> fz h = fz f * fz g \<Longrightarrow> yields Q (k h)"
  shows "yields Q (fe_mul f g \<bind> k)"
proof -
  obtain h where "fe_mul f g = Some h" "bounded fe_tight h" "fe_val h mod fe_p = fe_val f * fe_val g mod fe_p"
    using fe_mul_ok [OF fe_within_loose [OF assms(1,3)] fe_within_loose [OF assms(2,4)]] by blast
  then show ?thesis
    using assms(5) [OF fe_within_1, of h] by (simp add: fz_def flip: zp_eq_iff)
qed

lemma step_sq:
  assumes "fe_within m f" "m \<le> 3"
    and "\<And>h. fe_within 1 h \<Longrightarrow> fz h = fz f * fz f \<Longrightarrow> yields Q (k h)"
  shows "yields Q (fe_sq f \<bind> k)"
proof -
  obtain h where "fe_sq f = Some h" "bounded fe_tight h" "fe_val h mod fe_p = fe_val f * fe_val f mod fe_p"
    using fe_sq_ok [OF fe_within_loose [OF assms(1,2)]] by blast
  then show ?thesis
    using assms(3) [OF fe_within_1, of h] by (simp add: fz_def flip: zp_eq_iff)
qed

lemma step_sq2:
  assumes "fe_within m f" "m \<le> 3"
    and "\<And>h. fe_within 1 h \<Longrightarrow> fz h = 2 * (fz f * fz f) \<Longrightarrow> yields Q (k h)"
  shows "yields Q (fe_sq2 f \<bind> k)"
proof -
  obtain h where "fe_sq2 f = Some h" "bounded fe_tight h"
    "fe_val h mod fe_p = 2 * (fe_val f * fe_val f) mod fe_p"
    using fe_sq2_ok [OF fe_within_loose [OF assms(1,2)]] by (auto simp: mult.assoc)
  then show ?thesis
    using assms(3) [OF fe_within_1, of h] by (simp add: fz_def flip: zp_eq_iff)
qed

lemma step_end: "Q h \<Longrightarrow> yields Q (Some h)"
  by (simp add: yields_def)

lemmas steps = step_add step_sub step_mul step_sq step_sq2 step_end

lemma unit_mult: "(a :: zp) dvd 1 \<Longrightarrow> b dvd 1 \<Longrightarrow> a * b dvd 1"
  using mult_dvd_mono [of a 1 b 1] by simp

lemma unit_two: "(2 :: zp) dvd 1"
  using zp_two_unit by (metis dvd_triv_left)

text \<open>Sums of the affine law, scaled by a unit.\<close>

lemma sum_rep:
  assumes "ed_add (x1, y1) (x2, y2) R" "z dvd 1"
    and "fe_within 3 X" "fe_within 3 Y" "fe_within 3 Z" "fe_within 3 T"
    and "fz X = z * (x1 * y2 + y1 * x2)" "fz Y = z * (y1 * y2 + x1 * x2)"
    and "fz Z = z * (1 + ed_d * (x1 * x2) * (y1 * y2))" "fz T = z * (1 - ed_d * (x1 * x2) * (y1 * y2))"
  shows "p1p1_rep \<lparr>p1_X = X, p1_Y = Y, p1_Z = Z, p1_T = T\<rparr> R"
proof -
  obtain x3 y3 where R: "R = (x3, y3)" by (cases R)
  note R' = assms(1) [unfolded R ed_add.simps Let_def]
  have "fz Z dvd 1" "fz T dvd 1"
    unfolding assms(9,10) using R' by (auto intro: unit_mult assms(2))
  moreover have "fz X = x3 * fz Z" "fz Y = y3 * fz T"
    unfolding assms(7-10) using R' by (metis mult.left_commute)+
  ultimately show ?thesis
    using assms(3-6) by (simp add: p1p1_rep_def R)
qed

lemma dbl_rep_end:
  assumes "ed_add (x, y) (x, y) R" "on_curve (x, y)" "z dvd 1"
    and "fe_within 3 X" "fe_within 3 Y" "fe_within 3 Z" "fe_within 3 T"
    and "fz X = z * (2 * x * y)" "fz Y = z * (y * y + x * x)"
    and "fz Z = z * (y * y - x * x)" "fz T = z * (2 - (y * y - x * x))"
  shows "p1p1_rep \<lparr>p1_X = X, p1_Y = Y, p1_Z = Z, p1_T = T\<rparr> R"
proof (rule sum_rep [OF assms(1,3-7)])
  have c: "y * y - x * x = 1 + ed_d * (x * x) * (y * y)" using assms(2) by simp
  then have "2 - (y * y - x * x) = 1 - ed_d * (x * x) * (y * y)" by simp
  with c show "fz Z = z * (1 + ed_d * (x * x) * (y * y))" "fz T = z * (1 - ed_d * (x * x) * (y * y))"
    using assms(10,11) by simp_all
  show "fz X = z * (x * y + y * x)" using assms(8) by (simp add: algebra_simps)
qed (fact assms(9))

lemma p3_rep_within:
  "p3_rep p P \<Longrightarrow> fe_within 1 (p3_X p)" "p3_rep p P \<Longrightarrow> fe_within 1 (p3_Y p)"
  "p3_rep p P \<Longrightarrow> fe_within 1 (p3_Z p)" "p3_rep p P \<Longrightarrow> fe_within 1 (p3_T p)"
  by (simp_all add: p3_rep_def)

lemma p2_rep_within:
  "p2_rep p P \<Longrightarrow> fe_within 1 (p2_X p)" "p2_rep p P \<Longrightarrow> fe_within 1 (p2_Y p)"
  "p2_rep p P \<Longrightarrow> fe_within 1 (p2_Z p)"
  by (simp_all add: p2_rep_def)

lemma p1p1_rep_within:
  "p1p1_rep p P \<Longrightarrow> fe_within 3 (p1_X p)" "p1p1_rep p P \<Longrightarrow> fe_within 3 (p1_Y p)"
  "p1p1_rep p P \<Longrightarrow> fe_within 3 (p1_Z p)" "p1p1_rep p P \<Longrightarrow> fe_within 3 (p1_T p)"
  by (simp_all add: p1p1_rep_def)

lemma cached_rep_within:
  "cached_rep q Q \<Longrightarrow> fe_within 2 (ca_YplusX q)" "cached_rep q Q \<Longrightarrow> fe_within 2 (ca_YminusX q)"
  "cached_rep q Q \<Longrightarrow> fe_within 1 (ca_Z q)" "cached_rep q Q \<Longrightarrow> fe_within 1 (ca_T2d q)"
  by (simp_all add: cached_rep_def)

lemma precomp_rep_within:
  "precomp_rep q Q \<Longrightarrow> fe_within 1 (pre_yplusx q)" "precomp_rep q Q \<Longrightarrow> fe_within 1 (pre_yminusx q)"
  "precomp_rep q Q \<Longrightarrow> fe_within 1 (pre_xy2d q)"
  by (simp_all add: precomp_rep_def)

lemma ge_add_rep:
  assumes p: "p3_rep p P" and q: "cached_rep q Q" and R: "ed_add P Q R"
  shows "yields (\<lambda>r. p1p1_rep r R) (ge_add p q)"
proof -
  obtain x1 y1 x2 y2 where PQ: "P = (x1, y1)" "Q = (x2, y2)"
    by (cases P; cases Q) blast
  note p' = p [unfolded p3_rep_def PQ fst_conv snd_conv] and q' = q [unfolded cached_rep_def PQ fst_conv snd_conv]
  note b = p3_rep_within [OF p] cached_rep_within [OF q]
  have u: "(2 * (fz (p3_Z p) * fz (ca_Z q))) dvd 1"
    using p' q' unit_mult unit_two by blast
  show ?thesis
    unfolding ge_add_def
    apply ((rule steps b | assumption | (simp; fail))+)
    apply (rule sum_rep [OF R [unfolded PQ] u])
    apply (rule fe_within_mono, assumption, simp)+
    apply (simp_all only: p' q')
    apply (simp_all (no_asm) add: algebra_simps)
    done
qed

lemma ge_sub_rep:
  assumes p: "p3_rep p P" and q: "cached_rep q Q" and R: "ed_add P (ed_neg Q) R"
  shows "yields (\<lambda>r. p1p1_rep r R) (ge_sub p q)"
proof -
  obtain x1 y1 x2 y2 where PQ: "P = (x1, y1)" "Q = (x2, y2)"
    by (cases P; cases Q) blast
  note p' = p [unfolded p3_rep_def PQ fst_conv snd_conv] and q' = q [unfolded cached_rep_def PQ fst_conv snd_conv]
  note b = p3_rep_within [OF p] cached_rep_within [OF q]
  have u: "(2 * (fz (p3_Z p) * fz (ca_Z q))) dvd 1"
    using p' q' unit_mult unit_two by blast
  show ?thesis
    unfolding ge_sub_def
    apply ((rule steps b | assumption | (simp; fail))+)
    apply (rule sum_rep [OF R [unfolded PQ ed_neg.simps] u])
    apply (rule fe_within_mono, assumption, simp)+
    apply (simp_all only: p' q')
    apply (simp_all (no_asm) add: algebra_simps)
    done
qed

lemma ge_madd_rep:
  assumes p: "p3_rep p P" and q: "precomp_rep q Q" and R: "ed_add P Q R"
  shows "yields (\<lambda>r. p1p1_rep r R) (ge_madd p q)"
proof -
  obtain x1 y1 x2 y2 where PQ: "P = (x1, y1)" "Q = (x2, y2)"
    by (cases P; cases Q) blast
  note p' = p [unfolded p3_rep_def PQ fst_conv snd_conv] and q' = q [unfolded precomp_rep_def PQ fst_conv snd_conv]
  note b = p3_rep_within [OF p] precomp_rep_within [OF q]
  have u: "(2 * fz (p3_Z p)) dvd 1"
    using p' q' unit_mult unit_two by blast
  show ?thesis
    unfolding ge_madd_def
    apply ((rule steps b | assumption | (simp; fail))+)
    apply (rule sum_rep [OF R [unfolded PQ] u])
    apply (rule fe_within_mono, assumption, simp)+
    apply (simp_all only: p' q')
    apply (simp_all (no_asm) add: algebra_simps)
    done
qed

lemma ge_msub_rep:
  assumes p: "p3_rep p P" and q: "precomp_rep q Q" and R: "ed_add P (ed_neg Q) R"
  shows "yields (\<lambda>r. p1p1_rep r R) (ge_msub p q)"
proof -
  obtain x1 y1 x2 y2 where PQ: "P = (x1, y1)" "Q = (x2, y2)"
    by (cases P; cases Q) blast
  note p' = p [unfolded p3_rep_def PQ fst_conv snd_conv] and q' = q [unfolded precomp_rep_def PQ fst_conv snd_conv]
  note b = p3_rep_within [OF p] precomp_rep_within [OF q]
  have u: "(2 * fz (p3_Z p)) dvd 1"
    using p' q' unit_mult unit_two by blast
  show ?thesis
    unfolding ge_msub_def
    apply ((rule steps b | assumption | (simp; fail))+)
    apply (rule sum_rep [OF R [unfolded PQ ed_neg.simps] u])
    apply (rule fe_within_mono, assumption, simp)+
    apply (simp_all only: p' q')
    apply (simp_all (no_asm) add: algebra_simps)
    done
qed

lemma ge_p2_dbl_rep:
  assumes p: "p2_rep p P" and c: "on_curve P" and R: "ed_add P P R"
  shows "yields (\<lambda>r. p1p1_rep r R) (ge_p2_dbl p)"
proof -
  obtain x y where P: "P = (x, y)"
    by (cases P)
  note p' = p [unfolded p2_rep_def P fst_conv snd_conv]
  note b = p2_rep_within [OF p]
  have u: "(fz (p2_Z p) * fz (p2_Z p)) dvd 1"
    using p' unit_mult by blast
  show ?thesis
    unfolding ge_p2_dbl_def
    apply ((rule steps b | assumption | (simp; fail))+)
    apply (rule dbl_rep_end [OF R [unfolded P] c [unfolded P] u])
    apply (rule fe_within_mono, assumption, simp)+
    apply (simp_all only: p')
    apply (simp_all (no_asm) add: algebra_simps)
    done
qed

lemma ge_p1p1_to_p2_rep:
  assumes p: "p1p1_rep p P"
  shows "yields (\<lambda>r. p2_rep r P) (ge_p1p1_to_p2 p)"
proof -
  note p' = p [unfolded p1p1_rep_def] and b = p1p1_rep_within [OF p]
  show ?thesis
    unfolding ge_p1p1_to_p2_def
    apply ((rule steps b | assumption | (simp; fail))+)
    using p' by (simp add: p2_rep_def unit_mult mult.assoc mult.left_commute)
qed

lemma ge_p1p1_to_p3_rep:
  assumes p: "p1p1_rep p P"
  shows "yields (\<lambda>r. p3_rep r P) (ge_p1p1_to_p3 p)"
proof -
  note p' = p [unfolded p1p1_rep_def] and b = p1p1_rep_within [OF p]
  show ?thesis
    unfolding ge_p1p1_to_p3_def
    apply ((rule steps b | assumption | (simp; fail))+)
    using p' by (simp add: p3_rep_def unit_mult mult_ac)
qed

lemma fe_copy_id: "fe_within n f \<Longrightarrow> fe_copy f = f"
  using map_nth [of f] by (simp add: fe_copy_def fe_within_length)

lemma fe_const_rep:
  "fe_within 1 fe_0" "fe_within 1 fe_1" "fe_within 1 fe_d2" "fz fe_0 = 0" "fz fe_1 = 1"
proof -
  have "list_all2 (\<lambda>b x. \<bar>x\<bar> \<le> b) fe_tight f \<Longrightarrow> fe_within 1 f" for f
    by (simp add: fe_within_def bounded_def list_all2_conv_all_nth fe_tight_def)
  moreover have "list_all2 (\<lambda>b x. \<bar>x\<bar> \<le> b) fe_tight fe_0" "list_all2 (\<lambda>b x. \<bar>x\<bar> \<le> b) fe_tight fe_1"
    "list_all2 (\<lambda>b x. \<bar>x\<bar> \<le> b) fe_tight fe_d2"
    by code_simp+
  ultimately show "fe_within 1 fe_0" "fe_within 1 fe_1" "fe_within 1 fe_d2" by blast+
  have "fe_val fe_0 = 0" "fe_val fe_1 = 1" by code_simp+
  then show "fz fe_0 = 0" "fz fe_1 = 1" by (simp_all add: fz_def)
qed

lemma ge_p3_to_cached_rep:
  assumes p: "p3_rep p P"
  shows "yields (\<lambda>r. cached_rep r P) (ge_p3_to_cached p)"
proof -
  note p' = p [unfolded p3_rep_def] and b = p3_rep_within [OF p] fe_const_rep(3)
  show ?thesis
    unfolding ge_p3_to_cached_def fe_copy_id [OF b(3)]
    apply ((rule steps b | assumption | (simp; fail))+)
    using p' by (simp add: cached_rep_def fe_d2_value algebra_simps)
qed

lemma ge_p3_to_p2_rep: "p3_rep p P \<Longrightarrow> p2_rep (ge_p3_to_p2 p) P"
  by (simp add: p3_rep_def p2_rep_def ge_p3_to_p2_def fe_copy_id [of 1])

lemma ge_p3_dbl_rep:
  "p3_rep p P \<Longrightarrow> on_curve P \<Longrightarrow> ed_add P P R \<Longrightarrow> yields (\<lambda>r. p1p1_rep r R) (ge_p3_dbl p)"
  unfolding ge_p3_dbl_def by (intro ge_p2_dbl_rep ge_p3_to_p2_rep)

lemma ge_p2_0_rep: "p2_rep ge_p2_0 (0, 1)"
  by (simp add: p2_rep_def ge_p2_0_def fe_const_rep)

lemma ge_p3_0_rep: "p3_rep ge_p3_0 (0, 1)"
  by (simp add: p3_rep_def ge_p3_0_def fe_const_rep)

lemma fe_neg_within:
  assumes "fe_within 1 f"
  shows "\<exists>h. fe_neg f = Some h \<and> fe_within 1 h \<and> fz h = - fz f"
proof -
  have "\<forall>i<10. map ((*) 1) fe_tight ! i < 2 ^ 31"
    using fe_tight_range by (fastforce simp: length_tight)
  from fe_neg_bounds [OF assms [unfolded fe_within_def] _ this] show ?thesis
    by (auto simp: fe_within_def fz_def length_tight)
qed

lemma fe_sqrtm1_facts: "fe_within 1 fe_sqrtm1" "fz fe_sqrtm1 * fz fe_sqrtm1 = - 1"
proof -
  have "list_all2 (\<lambda>x m. \<bar>x\<bar> \<le> m) fe_sqrtm1 fe_tight" by code_simp
  then show "fe_within 1 fe_sqrtm1" by (intro fe_within_1) (simp add: bounded_list_all2)
  have "(fe_val fe_sqrtm1 * fe_val fe_sqrtm1) mod fe_p = (- 1) mod fe_p" by code_simp
  then have "zp (fe_val fe_sqrtm1 * fe_val fe_sqrtm1) = zp (- 1)" by (simp only: zp_eq_iff)
  then show "fz fe_sqrtm1 * fz fe_sqrtm1 = - 1" by (simp add: fz_def)
qed

section \<open>Properties\<close>

text \<open>
  C19: the formulas of the group layer. On representations of points \<open>P\<close> and \<open>Q\<close> of the curve
  whose affine sum \<open>R\<close> exists, \<open>ge_add\<close> and \<open>ge_madd\<close> return a representation of \<open>P + Q\<close>, \<open>ge_sub\<close>
  and \<open>ge_msub\<close> one of \<open>P - Q\<close>, and \<open>ge_p2_dbl\<close> and \<open>ge_p3_dbl\<close> one of \<open>P + P\<close>: no limb overflows,
  the denominators stay units, and the bounds of the result are those the conversions accept.
\<close>

theorem ge_formulas_add:
  assumes "p3_rep p P" "p2_rep p' P" "cached_rep q Q" "precomp_rep q' Q" "on_curve P"
    and "ed_add P Q R" "ed_add P (ed_neg Q) S" "ed_add P P D"
  shows "(\<exists>r. ge_add p q = Some r \<and> p1p1_rep r R) \<and> (\<exists>r. ge_madd p q' = Some r \<and> p1p1_rep r R)
    \<and> (\<exists>r. ge_sub p q = Some r \<and> p1p1_rep r S) \<and> (\<exists>r. ge_msub p q' = Some r \<and> p1p1_rep r S)
    \<and> (\<exists>r. ge_p2_dbl p' = Some r \<and> p1p1_rep r D) \<and> (\<exists>r. ge_p3_dbl p = Some r \<and> p1p1_rep r D)"
  using ge_add_rep [OF assms(1,3,6)] ge_madd_rep [OF assms(1,4,6)] ge_sub_rep [OF assms(1,3,7)]
    ge_msub_rep [OF assms(1,4,7)] ge_p2_dbl_rep [OF assms(2,5,8)] ge_p3_dbl_rep [OF assms(1,5,8)]
  unfolding yields_def by blast

lemma fe_m1: "fe_within 1 [- 1, 0, 0, 0, 0, 0, 0, 0, 0, 0]" "fe_within 2 [- 1, 0, 0, 0, 0, 0, 0, 0, 0, 0]"
  "fz [- 1, 0, 0, 0, 0, 0, 0, 0, 0, 0] = - 1"
proof -
  have "list_all2 (\<lambda>x m. \<bar>x\<bar> \<le> m) [- 1, 0, 0, 0, 0, 0, 0, 0, 0, 0] fe_tight" by code_simp
  then show w: "fe_within 1 [- 1, 0, 0, 0, 0, 0, 0, 0, 0, 0]" by (intro fe_within_1) (simp add: bounded_list_all2)
  show "fe_within 2 [- 1, 0, 0, 0, 0, 0, 0, 0, 0, 0]" by (rule fe_within_mono [OF w]) simp
  have "fe_val [- 1, 0, 0, 0, 0, 0, 0, 0, 0, 0] = - 1" by code_simp
  then show "fz [- 1, 0, 0, 0, 0, 0, 0, 0, 0, 0] = - 1" by (simp add: fz_def)
qed

theorem ge_formulas_add_witness:
  \<comment> \<open>the point \<open>(0, -1)\<close>, of order two\<close>
  "\<exists>r. ge_add \<lparr>p3_X = fe_0, p3_Y = [- 1, 0, 0, 0, 0, 0, 0, 0, 0, 0], p3_Z = fe_1, p3_T = fe_0\<rparr>
      \<lparr>ca_YplusX = [- 1, 0, 0, 0, 0, 0, 0, 0, 0, 0], ca_YminusX = [- 1, 0, 0, 0, 0, 0, 0, 0, 0, 0], ca_Z = fe_1, ca_T2d = fe_0\<rparr>
    = Some r \<and> p1p1_rep r (0, 1)"
proof -
  let ?m = "[- 1, 0, 0, 0, 0, 0, 0, 0, 0, 0] :: fe"
  let ?p = "\<lparr>p3_X = fe_0, p3_Y = ?m, p3_Z = fe_1, p3_T = fe_0\<rparr>" and ?p' = "\<lparr>p2_X = fe_0, p2_Y = ?m, p2_Z = fe_1\<rparr>"
    and ?q = "\<lparr>ca_YplusX = ?m, ca_YminusX = ?m, ca_Z = fe_1, ca_T2d = fe_0\<rparr>"
    and ?q' = "\<lparr>pre_yplusx = ?m, pre_yminusx = ?m, pre_xy2d = fe_0\<rparr>"
  have "p3_rep ?p (0, - 1)" "p2_rep ?p' (0, - 1)" "cached_rep ?q (0, - 1)" "precomp_rep ?q' (0, - 1)"
    by (simp_all add: p3_rep_def p2_rep_def cached_rep_def precomp_rep_def fe_const_rep fe_m1)
  moreover have "on_curve (0, - 1)" "ed_add (0, - 1) (0, - 1) (0, 1)" "ed_add (0, - 1) (ed_neg (0, - 1)) (0, 1)"
    by simp_all
  ultimately show ?thesis by (blast dest: ge_formulas_add)
qed

end
