(* ===== verification/Sc.thy ===== *)
theory Sc
  imports Checked
begin

text \<open>
  The scalars of \<^verbatim>\<open>src/base/tools/cryptonote/crypto-ops.c\<close>: the \<open>sc_\<close> functions, arithmetic
  modulo the order \<open>L = 2^252 + 27742317777372353535851937790883648493\<close> of the Ed25519 base
  point on numbers of 32 or 64 little-endian bytes. A number is held in limbs of 21 bits,
  \<open>s0\<close> to \<open>s23\<close>, here a list. The functions are long but made of a few kinds of blocks:
  \<open>sc_carry\<close> and \<open>sc_shift\<close> move what is over 21 bits to the next limb, \<open>sc_fold\<close> takes a limb
  of weight 2^252 or more back down modulo \<open>L\<close>.

  The main lemmas: each block keeps the number modulo \<open>L\<close>, a bounds analysis shows that no
  64-bit operation overflows, and the last blocks leave the residue between 0 and \<open>L\<close>.
\<close>

section \<open>Loading and storing\<close>

definition load_3 :: "bytes \<Rightarrow> u64" where
  "load_3 b = ucast (b ! 0) OR push_bit 8 (ucast (b ! 1)) OR push_bit 16 (ucast (b ! 2))"

definition load_4 :: "bytes \<Rightarrow> u64" where
  "load_4 b = ucast (b ! 0) OR push_bit 8 (ucast (b ! 1)) OR push_bit 16 (ucast (b ! 2))
     OR push_bit 24 (ucast (b ! 3))"

definition sc_limbs :: "bytes \<Rightarrow> int list" where
  \<comment> \<open>\<open>s0\<close> to \<open>s10\<close>, loaded alike in every function\<close>
  "sc_limbs s =
     [sint (2097151 AND load_3 s),
      sint (2097151 AND drop_bit 5 (load_4 (drop 2 s))),
      sint (2097151 AND drop_bit 2 (load_3 (drop 5 s))),
      sint (2097151 AND drop_bit 7 (load_4 (drop 7 s))),
      sint (2097151 AND drop_bit 4 (load_4 (drop 10 s))),
      sint (2097151 AND drop_bit 1 (load_3 (drop 13 s))),
      sint (2097151 AND drop_bit 6 (load_4 (drop 15 s))),
      sint (2097151 AND drop_bit 3 (load_3 (drop 18 s))),
      sint (2097151 AND load_3 (drop 21 s)),
      sint (2097151 AND drop_bit 5 (load_4 (drop 23 s))),
      sint (2097151 AND drop_bit 2 (load_3 (drop 26 s)))]"

definition sc_load :: "bytes \<Rightarrow> int list option" where
  \<comment> \<open>the 12 limbs of a 32-byte number\<close>
  "sc_load s =
     (if length s < 32 then None
      else Some (sc_limbs s @ [sint (drop_bit 7 (load_4 (drop 28 s)))]))"

definition sc_limbs_high :: "bytes \<Rightarrow> int list" where
  \<comment> \<open>\<open>s11\<close> to \<open>s23\<close> of a 64-byte number\<close>
  "sc_limbs_high s =
     [sint (2097151 AND drop_bit 7 (load_4 (drop 28 s))),
      sint (2097151 AND drop_bit 4 (load_4 (drop 31 s))),
      sint (2097151 AND drop_bit 1 (load_3 (drop 34 s))),
      sint (2097151 AND drop_bit 6 (load_4 (drop 36 s))),
      sint (2097151 AND drop_bit 3 (load_3 (drop 39 s))),
      sint (2097151 AND load_3 (drop 42 s)),
      sint (2097151 AND drop_bit 5 (load_4 (drop 44 s))),
      sint (2097151 AND drop_bit 2 (load_3 (drop 47 s))),
      sint (2097151 AND drop_bit 7 (load_4 (drop 49 s))),
      sint (2097151 AND drop_bit 4 (load_4 (drop 52 s))),
      sint (2097151 AND drop_bit 1 (load_3 (drop 55 s))),
      sint (2097151 AND drop_bit 6 (load_4 (drop 57 s))),
      sint (drop_bit 3 (load_4 (drop 60 s)))]"

definition sc_load64 :: "bytes \<Rightarrow> int list option" where
  "sc_load64 s = (if length s < 64 then None else Some (sc_limbs s @ sc_limbs_high s))"

definition sc_byte :: "int list \<Rightarrow> nat \<Rightarrow> nat \<Rightarrow> u8 option" where
  \<comment> \<open>\<open>s_i >> n\<close>\<close>
  "sc_byte s i n = Some (word_of_int (s ! i div 2 ^ n))"

definition sc_byte2 :: "int list \<Rightarrow> nat \<Rightarrow> nat \<Rightarrow> nat \<Rightarrow> u8 option" where
  \<comment> \<open>\<open>(s_i >> n) | (s_{i+1} << m)\<close>\<close>
  "sc_byte2 s i n m =
     i64 (s ! (i + 1) * 2 ^ m) \<bind> (\<lambda>x. Some (word_of_int ((s ! i div 2 ^ n) OR x)))"

definition sc_store :: "int list \<Rightarrow> bytes option" where
  "sc_store s = those
     [sc_byte s 0 0, sc_byte s 0 8, sc_byte2 s 0 16 5,
      sc_byte s 1 3, sc_byte s 1 11, sc_byte2 s 1 19 2,
      sc_byte s 2 6, sc_byte2 s 2 14 7,
      sc_byte s 3 1, sc_byte s 3 9, sc_byte2 s 3 17 4,
      sc_byte s 4 4, sc_byte s 4 12, sc_byte2 s 4 20 1,
      sc_byte s 5 7, sc_byte2 s 5 15 6,
      sc_byte s 6 2, sc_byte s 6 10, sc_byte2 s 6 18 3,
      sc_byte s 7 5, sc_byte s 7 13,
      sc_byte s 8 0, sc_byte s 8 8, sc_byte2 s 8 16 5,
      sc_byte s 9 3, sc_byte s 9 11, sc_byte2 s 9 19 2,
      sc_byte s 10 6, sc_byte2 s 10 14 7,
      sc_byte s 11 1, sc_byte s 11 9, sc_byte s 11 17]"

section \<open>The blocks\<close>

definition sc_carry_by :: "int \<Rightarrow> nat \<Rightarrow> int list \<Rightarrow> int list option" where
  \<comment> \<open>\<open>s_{i+1} += carry; s_i -= carry << 21\<close>\<close>
  "sc_carry_by carry i s =
     i64 (s ! (i + 1) + carry) \<bind> (\<lambda>hi.
     i64 (carry * 2 ^ 21) \<bind> (\<lambda>c.
     i64 (s ! i - c) \<bind> (\<lambda>lo.
     Some (s[i + 1 := hi, i := lo]))))"

definition sc_carry :: "nat \<Rightarrow> int list \<Rightarrow> int list option" where
  \<comment> \<open>\<open>carry = (s_i + (1<<20)) >> 21\<close>\<close>
  "sc_carry i s = i64 (s ! i + 2 ^ 20) \<bind> (\<lambda>x. sc_carry_by (x div 2 ^ 21) i s)"

definition sc_shift :: "nat \<Rightarrow> int list \<Rightarrow> int list option" where
  \<comment> \<open>\<open>carry = s_i >> 21\<close>\<close>
  "sc_shift i s = sc_carry_by (s ! i div 2 ^ 21) i s"

definition sc_addmul :: "nat \<Rightarrow> nat \<Rightarrow> int \<Rightarrow> int list \<Rightarrow> int list option" where
  \<comment> \<open>\<open>s_j += s_i * k\<close>\<close>
  "sc_addmul j i k s = i64 (s ! i * k) \<bind> (\<lambda>p. i64 (s ! j + p) \<bind> (\<lambda>x. Some (s[j := x])))"

definition sc_submul :: "nat \<Rightarrow> nat \<Rightarrow> int \<Rightarrow> int list \<Rightarrow> int list option" where
  \<comment> \<open>\<open>s_j -= s_i * k\<close>\<close>
  "sc_submul j i k s = i64 (s ! i * k) \<bind> (\<lambda>p. i64 (s ! j - p) \<bind> (\<lambda>x. Some (s[j := x])))"

definition sc_fold :: "nat \<Rightarrow> int list \<Rightarrow> int list option" where
  "sc_fold i s =
     sc_addmul (i - 12) i 666643 s \<bind>
     sc_addmul (i - 11) i 470296 \<bind>
     sc_addmul (i - 10) i 654183 \<bind>
     sc_submul (i - 9) i 997805 \<bind>
     sc_addmul (i - 8) i 136657 \<bind>
     sc_submul (i - 7) i 683901"

definition sc_clear12 :: "int list \<Rightarrow> int list option" where
  "sc_clear12 s = Some (s[12 := 0])"

definition sc_finish :: "int list \<Rightarrow> bytes option" where
  \<comment> \<open>the end of every function, from the carries out of \<open>s0\<close> to \<open>s11\<close> on\<close>
  "sc_finish s =
     seqM sc_carry [0, 2, 4, 6, 8, 10] s \<bind>
     seqM sc_carry [1, 3, 5, 7, 9, 11] \<bind>
     sc_fold 12 \<bind> sc_clear12 \<bind>
     seqM sc_shift [0, 1, 2, 3, 4, 5, 6, 7, 8, 9, 10, 11] \<bind>
     sc_fold 12 \<bind>
     seqM sc_shift [0, 1, 2, 3, 4, 5, 6, 7, 8, 9, 10] \<bind>
     sc_store"

definition sc_reduce24 :: "int list \<Rightarrow> int list option" where
  \<comment> \<open>24 limbs down to 12, \<open>s12\<close> zero; the code uses none of \<open>s13\<close> to \<open>s23\<close> from here on\<close>
  "sc_reduce24 s =
     seqM sc_fold [23, 22, 21, 20, 19, 18] s \<bind>
     seqM sc_carry [6, 8, 10, 12, 14, 16] \<bind>
     seqM sc_carry [7, 9, 11, 13, 15] \<bind>
     seqM sc_fold [17, 16, 15, 14, 13, 12] \<bind> sc_clear12 \<bind> (\<lambda>s. Some (take 13 s))"

section \<open>The functions\<close>

text \<open>Each gives the 32 bytes it writes to \<open>s\<close>; it has read its arguments by then.\<close>

definition sc_0 :: bytes where
  "sc_0 = replicate 32 0"

definition sc_reduce :: "bytes \<Rightarrow> bytes option" where
  "sc_reduce s = sc_load64 s \<bind> sc_reduce24 \<bind> sc_finish"

definition sc_reduce32 :: "bytes \<Rightarrow> bytes option" where
  "sc_reduce32 s = sc_load s \<bind> (\<lambda>s. sc_finish (s @ [0]))"

definition sc_add :: "bytes \<Rightarrow> bytes \<Rightarrow> bytes option" where
  "sc_add a b =
     sc_load a \<bind> (\<lambda>a. sc_load b \<bind> (\<lambda>b.
     those (map (\<lambda>i. i64 (a ! i + b ! i)) [0..<12]) \<bind> (\<lambda>s. sc_finish (s @ [0]))))"

definition sc_sub :: "bytes \<Rightarrow> bytes \<Rightarrow> bytes option" where
  "sc_sub a b =
     sc_load a \<bind> (\<lambda>a. sc_load b \<bind> (\<lambda>b.
     those (map (\<lambda>i. i64 (a ! i - b ! i)) [0..<12]) \<bind> (\<lambda>s. sc_finish (s @ [0]))))"

definition sc_products :: "int list \<Rightarrow> int list \<Rightarrow> nat \<Rightarrow> int option" where
  \<comment> \<open>\<open>a0*bk + a1*b(k-1) + ...\<close>, over the limbs that exist\<close>
  "sc_products a b k = dot64 (map (\<lambda>i. (a ! i, b ! (k - i))) [k - 11..<Suc (min k 11)])"

definition sc_reduce_product :: "int list \<Rightarrow> bytes option" where
  \<comment> \<open>the carries the three products begin with, and what they share with \<open>sc_reduce\<close>\<close>
  "sc_reduce_product s =
     seqM sc_carry [0, 2, 4, 6, 8, 10, 12, 14, 16, 18, 20, 22] s \<bind>
     seqM sc_carry [1, 3, 5, 7, 9, 11, 13, 15, 17, 19, 21] \<bind>
     sc_reduce24 \<bind> sc_finish"

definition sc_mulsub_limbs :: "int list \<Rightarrow> int list \<Rightarrow> int list \<Rightarrow> int list option" where
  "sc_mulsub_limbs a b c =
     those (map (\<lambda>k. sc_products a b k \<bind> (\<lambda>p. i64 (c ! k - p))) [0..<12]
        @ map (\<lambda>k. sc_products a b k \<bind> (\<lambda>p. i64 (- p))) [12..<22]
        @ [i64 (- (a ! 11)) \<bind> (\<lambda>m. i64 (m * b ! 11)), Some 0])"

definition sc_mulsub :: "bytes \<Rightarrow> bytes \<Rightarrow> bytes \<Rightarrow> bytes option" where
  "sc_mulsub a b c =
     sc_load a \<bind> (\<lambda>a. sc_load b \<bind> (\<lambda>b. sc_load c \<bind> (\<lambda>c.
     sc_mulsub_limbs a b c \<bind> sc_reduce_product)))"

definition sc_mul_limbs :: "int list \<Rightarrow> int list \<Rightarrow> int list option" where
  "sc_mul_limbs a b = those (map (sc_products a b) [0..<23] @ [Some 0])"

definition sc_mul :: "bytes \<Rightarrow> bytes \<Rightarrow> bytes option" where
  "sc_mul a b =
     sc_load a \<bind> (\<lambda>a. sc_load b \<bind> (\<lambda>b. sc_mul_limbs a b \<bind> sc_reduce_product))"

definition sc_muladd_limbs :: "int list \<Rightarrow> int list \<Rightarrow> int list \<Rightarrow> int list option" where
  "sc_muladd_limbs a b c =
     those (map (\<lambda>k. sc_products a b k \<bind> (\<lambda>p. i64 (c ! k + p))) [0..<12]
        @ map (sc_products a b) [12..<23] @ [Some 0])"

definition sc_muladd :: "bytes \<Rightarrow> bytes \<Rightarrow> bytes \<Rightarrow> bytes option" where
  "sc_muladd a b c =
     sc_load a \<bind> (\<lambda>a. sc_load b \<bind> (\<lambda>b. sc_load c \<bind> (\<lambda>c.
     sc_muladd_limbs a b c \<bind> sc_reduce_product)))"

definition signum :: "int \<Rightarrow> int" where
  "signum a = (if a > 0 then 1 else if a < 0 then - 1 else 0)"

definition sc_check :: "bytes \<Rightarrow> int option" where
  \<comment> \<open>every intermediate value is within \<open>[-255, 255]\<close> or the difference of two 32-bit numbers\<close>
  "sc_check s =
     (if length s < 32 then None
      else let s0 = sint (load_4 s); s1 = sint (load_4 (drop 4 s)); s2 = sint (load_4 (drop 8 s));
               s3 = sint (load_4 (drop 12 s)); s4 = sint (load_4 (drop 16 s));
               s5 = sint (load_4 (drop 20 s)); s6 = sint (load_4 (drop 24 s));
               s7 = sint (load_4 (drop 28 s))
           in Some ((signum (1559614444 - s0) + signum (1477600026 - s1) * 2 ^ 1
               + signum (2734136534 - s2) * 2 ^ 2 + signum (350157278 - s3) * 2 ^ 3
               + signum (- s4) * 2 ^ 4 + signum (- s5) * 2 ^ 5 + signum (- s6) * 2 ^ 6
               + signum (268435456 - s7) * 2 ^ 7) div 2 ^ 8))"

definition sc_isnonzero :: "bytes \<Rightarrow> int option" where
  "sc_isnonzero s = (if length s < 32 then None else Some (any_byte s))"

section \<open>The blocks keep the number\<close>

definition sc_L :: int where
  "sc_L = 2 ^ 252 + 27742317777372353535851937790883648493"

abbreviation sc_val :: "nat \<Rightarrow> int list \<Rightarrow> int" where
  "sc_val \<equiv> limbs_val (\<lambda>i. 21 * i)"

lemma weight_add: "(2::int) ^ (21 * (j + k)) = 2 ^ (21 * k) * 2 ^ (21 * j)"
  by (simp add: distrib_left power_add)

lemma sc_carry_by_val:
  assumes "sc_carry_by c i s = Some s'" "i + 1 < n" "i + 1 < length s"
  shows "sc_val n s' = sc_val n s" "length s' = length s"
proof -
  have s': "s' = s[i + 1 := s ! (i + 1) + c, i := s ! i - c * 2 ^ 21]"
    using assms(1) by (auto simp: sc_carry_by_def i64_def bind_Some_iff split: if_splits)
  show "sc_val n s' = sc_val n s" "length s' = length s"
    using assms(2,3) weight_add [of i 1] by (simp_all add: s' limbs_val_update)
qed

lemma sc_carry_val:
  "sc_carry i s = Some s' \<Longrightarrow> i + 1 < n \<Longrightarrow> i + 1 < length s \<Longrightarrow> sc_val n s' = sc_val n s \<and> length s' = length s"
  using sc_carry_by_val [of _ i s s' n] by (auto simp: sc_carry_def bind_Some_iff)

lemma sc_shift_val:
  "sc_shift i s = Some s' \<Longrightarrow> i + 1 < n \<Longrightarrow> i + 1 < length s \<Longrightarrow> sc_val n s' = sc_val n s \<and> length s' = length s"
  using sc_carry_by_val [of _ i s s' n] by (auto simp: sc_shift_def)

lemma seqM_val:
  assumes "\<And>i s s'. f i s = Some s' \<Longrightarrow> i + 1 < n \<Longrightarrow> i + 1 < length s \<Longrightarrow>
      sc_val n s' = sc_val n s \<and> length s' = length s"
    and "seqM f is s = Some s'" "\<forall>i \<in> set is. i + 1 < n" "n \<le> length s"
  shows "sc_val n s' = sc_val n s \<and> length s' = length s"
  using assms(2-4)
proof (induction "is" arbitrary: s)
  case (Cons i "is")
  then obtain s1 where s1: "f i s = Some s1" "seqM f is s1 = Some s'"
    by (auto simp: bind_Some_iff)
  with Cons.prems have "sc_val n s1 = sc_val n s \<and> length s1 = length s"
    by (intro assms(1)) auto
  with Cons.IH [OF s1(2)] Cons.prems show ?case by simp
qed simp

lemmas seqM_carry_val = seqM_val [OF sc_carry_val]
lemmas seqM_shift_val = seqM_val [OF sc_shift_val]

lemma sc_addmul_Some:
  "sc_addmul j i k s = Some s' \<Longrightarrow> s' = s[j := s ! j + s ! i * k]"
  by (auto simp: sc_addmul_def i64_def bind_Some_iff split: if_splits)

lemma sc_submul_Some:
  "sc_submul j i k s = Some s' \<Longrightarrow> s' = s[j := s ! j - s ! i * k]"
  by (auto simp: sc_submul_def i64_def bind_Some_iff split: if_splits)

text \<open>What one fold does: limb \<open>i\<close> of weight \<open>2^(21 i)\<close> is \<open>2^252 - L\<close> times \<open>2^(21 (i-12))\<close>.\<close>

lemma sc_fold_Some:
  assumes "sc_fold i s = Some s'" "12 \<le> i" "i < length s"
  shows "s' = s[i - 12 := s ! (i - 12) + s ! i * 666643, i - 11 := s ! (i - 11) + s ! i * 470296,
      i - 10 := s ! (i - 10) + s ! i * 654183, i - 9 := s ! (i - 9) - s ! i * 997805,
      i - 8 := s ! (i - 8) + s ! i * 136657, i - 7 := s ! (i - 7) - s ! i * 683901]"
proof -
  obtain j where i: "i = j + 12" using assms(2) by (metis le_add_diff_inverse2)
  obtain s1 s2 s3 s4 s5 where
    add: "sc_addmul (i - 12) i 666643 s = Some s1" "sc_addmul (i - 11) i 470296 s1 = Some s2"
      "sc_addmul (i - 10) i 654183 s2 = Some s3" "sc_addmul (i - 8) i 136657 s4 = Some s5"
    and sub: "sc_submul (i - 9) i 997805 s3 = Some s4" "sc_submul (i - 7) i 683901 s5 = Some s'"
    using assms(1) by (auto simp: sc_fold_def bind_Some_iff)
  note defs = add [THEN sc_addmul_Some] sub [THEN sc_submul_Some]
  show ?thesis
    using assms(3) by (simp add: i defs)
qed

lemma sc_fold_val:
  assumes "sc_fold i s = Some s'" "12 \<le> i" "i < length s"
  shows "sc_val i s' = sc_val (Suc i) s - s ! i * 2 ^ (21 * (i - 12)) * sc_L" "length s' = length s"
    and "s' ! i = s ! i"
proof -
  obtain j where i: "i = j + 12" using assms(2) by (metis le_add_diff_inverse2)
  note s' = sc_fold_Some [OF assms, unfolded i, simplified]
  note pows = weight_add [of j 1] weight_add [of j 2] weight_add [of j 3] weight_add [of j 4]
    weight_add [of j 5] weight_add [of j 12]
  show "length s' = length s" by (simp add: s')
  show "s' ! i = s ! i" by (simp add: s' i)
  show "sc_val i s' = sc_val (Suc i) s - s ! i * 2 ^ (21 * (i - 12)) * sc_L"
    using assms(3) pows limbs_val_Suc [of "\<lambda>i. 21 * i" "j + 12" s] unfolding s' i
    by (simp add: limbs_val_update sc_L_def algebra_simps)
qed

section \<open>No operation overflows\<close>

text \<open>The blocks on bounds.\<close>

definition sc_carry_bound :: "nat \<Rightarrow> int list \<Rightarrow> int list option" where
  "sc_carry_bound i b =
     (let c = (b ! i + 2 ^ 20) div 2 ^ 21
      in if i + 1 < length b \<and> b ! (i + 1) + c < 2 ^ 63 \<and> b ! i + c * 2 ^ 21 + 2 ^ 20 < 2 ^ 63
         then Some (b[i + 1 := b ! (i + 1) + c, i := 2 ^ 20]) else None)"

definition sc_shift_bound :: "nat \<Rightarrow> int list \<Rightarrow> int list option" where
  "sc_shift_bound i b =
     (let c = b ! i div 2 ^ 21 + 1
      in if i + 1 < length b \<and> b ! (i + 1) + c < 2 ^ 63 \<and> b ! i + c * 2 ^ 21 < 2 ^ 63
         then Some (b[i + 1 := b ! (i + 1) + c, i := 2 ^ 21]) else None)"

definition sc_addmul_bound :: "nat \<Rightarrow> nat \<Rightarrow> int \<Rightarrow> int list \<Rightarrow> int list option" where
  "sc_addmul_bound j i k b =
     (if i < length b \<and> j < length b \<and> 0 \<le> k \<and> b ! j + b ! i * k < 2 ^ 63
      then Some (b[j := b ! j + b ! i * k]) else None)"

definition sc_fold_bound :: "nat \<Rightarrow> int list \<Rightarrow> int list option" where
  "sc_fold_bound i b =
     sc_addmul_bound (i - 12) i 666643 b \<bind>
     sc_addmul_bound (i - 11) i 470296 \<bind>
     sc_addmul_bound (i - 10) i 654183 \<bind>
     sc_addmul_bound (i - 9) i 997805 \<bind>
     sc_addmul_bound (i - 8) i 136657 \<bind>
     sc_addmul_bound (i - 7) i 683901"

lemma div_abs_bound:
  assumes "\<bar>x\<bar> \<le> (m::int)"
  shows "\<bar>(x + 2 ^ 20) div 2 ^ 21\<bar> \<le> (m + 2 ^ 20) div 2 ^ 21" "\<bar>x div 2 ^ 21\<bar> \<le> m div 2 ^ 21 + 1"
proof -
  have "(x + 2 ^ 20) div 2 ^ 21 \<le> (m + 2 ^ 20) div 2 ^ 21" "x div 2 ^ 21 \<le> m div 2 ^ 21"
    using assms by (auto intro!: zdiv_mono1)
  moreover have "- ((m + 2 ^ 20) div 2 ^ 21) \<le> (x + 2 ^ 20) div 2 ^ 21" "- (m div 2 ^ 21 + 1) \<le> x div 2 ^ 21"
    using assms by simp_all
  ultimately show "\<bar>(x + 2 ^ 20) div 2 ^ 21\<bar> \<le> (m + 2 ^ 20) div 2 ^ 21" "\<bar>x div 2 ^ 21\<bar> \<le> m div 2 ^ 21 + 1"
    using assms by (simp_all add: abs_le_iff)
qed

lemma sc_carry_by_bound:
  assumes "bounded b s" "i + 1 < length b" "\<bar>c\<bar> \<le> M" "\<bar>s ! i - c * 2 ^ 21\<bar> \<le> r"
    and "b ! (i + 1) + M < 2 ^ 63" "b ! i + M * 2 ^ 21 < 2 ^ 63"
  shows "\<exists>s'. sc_carry_by c i s = Some s' \<and> bounded (b[i + 1 := b ! (i + 1) + M, i := r]) s'"
proof -
  have s: "\<bar>s ! i\<bar> \<le> b ! i" "\<bar>s ! (i + 1)\<bar> \<le> b ! (i + 1)"
    using bounded_nth [OF assms(1)] assms(2) by simp_all
  have "\<bar>c * 2 ^ 21\<bar> \<le> M * 2 ^ 21" using assms(3) by (simp add: abs_mult)
  then have ok: "i64 (s ! (i + 1) + c) = Some (s ! (i + 1) + c)" "i64 (c * 2 ^ 21) = Some (c * 2 ^ 21)"
    "i64 (s ! i - c * 2 ^ 21) = Some (s ! i - c * 2 ^ 21)"
    using s assms(3,5,6) by (intro i64_Some; linarith)+
  have hi: "\<bar>s ! (i + 1) + c\<bar> \<le> b ! (i + 1) + M" using s assms(3) by linarith
  have "bounded (b[i + 1 := b ! (i + 1) + M, i := r]) (s[i + 1 := s ! (i + 1) + c, i := s ! i - c * 2 ^ 21])"
    by (intro bounded_update assms(1) hi assms(4))
  then show ?thesis unfolding sc_carry_by_def ok bind.bind_lunit by blast
qed

lemma sc_carry_shadow: "shadows sc_carry sc_carry_bound"
proof (rule shadowsI)
  fix i b b' s
  assume bs: "bounded b s" and b': "sc_carry_bound i b = Some b'"
  let ?M = "(b ! i + 2 ^ 20) div 2 ^ 21" and ?c = "(s ! i + 2 ^ 20) div 2 ^ 21"
  have cond: "i + 1 < length b" "b ! (i + 1) + ?M < 2 ^ 63" "b ! i + ?M * 2 ^ 21 + 2 ^ 20 < 2 ^ 63"
    and b'_eq: "b' = b[i + 1 := b ! (i + 1) + ?M, i := 2 ^ 20]"
    using b' by (auto simp: sc_carry_bound_def Let_def split: if_splits)
  have si: "\<bar>s ! i\<bar> \<le> b ! i" using bounded_nth [OF bs, of i] cond(1) by simp
  note M = div_abs_bound(1) [OF si]
  have "0 \<le> ?M * 2 ^ 21" "(0::int) \<le> 2 ^ 20" using M by (simp_all add: abs_le_iff)
  then have ok: "i64 (s ! i + 2 ^ 20) = Some (s ! i + 2 ^ 20)"
    using si cond(3) by (intro i64_Some) linarith
  have "\<bar>s ! i - ?c * 2 ^ 21\<bar> \<le> 2 ^ 20" by simp
  moreover have "b ! i + ?M * 2 ^ 21 < 2 ^ 63"
    using cond(3) \<open>0 \<le> 2 ^ 20\<close> by linarith
  ultimately show "\<exists>s'. sc_carry i s = Some s' \<and> bounded b' s'"
    unfolding sc_carry_def ok b'_eq bind.bind_lunit by (intro sc_carry_by_bound [OF bs cond(1) M] cond(2))
qed

lemma sc_shift_shadow: "shadows sc_shift sc_shift_bound"
proof (rule shadowsI)
  fix i b b' s
  assume bs: "bounded b s" and b': "sc_shift_bound i b = Some b'"
  let ?M = "b ! i div 2 ^ 21 + 1" and ?c = "s ! i div 2 ^ 21"
  have cond: "i + 1 < length b" "b ! (i + 1) + ?M < 2 ^ 63" "b ! i + ?M * 2 ^ 21 < 2 ^ 63"
    and b'_eq: "b' = b[i + 1 := b ! (i + 1) + ?M, i := 2 ^ 21]"
    using b' by (auto simp: sc_shift_bound_def Let_def split: if_splits)
  have si: "\<bar>s ! i\<bar> \<le> b ! i" using bounded_nth [OF bs, of i] cond(1) by simp
  have "\<bar>s ! i - ?c * 2 ^ 21\<bar> \<le> 2 ^ 21" by simp
  from sc_carry_by_bound [OF bs cond(1) div_abs_bound(2) [OF si] this cond(2,3)]
  show "\<exists>s'. sc_shift i s = Some s' \<and> bounded b' s'"
    unfolding sc_shift_def b'_eq .
qed

lemma sc_addmul_shadow:
  assumes "bounded b s" "sc_addmul_bound j i k b = Some b'"
  shows "\<exists>s'. sc_addmul j i k s = Some s' \<and> bounded b' s'"
    and "\<exists>s'. sc_submul j i k s = Some s' \<and> bounded b' s'"
proof -
  have cond: "i < length b" "j < length b" "0 \<le> k" "b ! j + b ! i * k < 2 ^ 63"
    and b': "b' = b[j := b ! j + b ! i * k]"
    using assms(2) by (auto simp: sc_addmul_bound_def split: if_splits)
  have s: "\<bar>s ! i\<bar> \<le> b ! i" "\<bar>s ! j\<bar> \<le> b ! j"
    using bounded_nth [OF assms(1)] cond by simp_all
  have p: "\<bar>s ! i * k\<bar> \<le> b ! i * k"
    using s(1) cond(3) by (simp add: abs_mult mult_right_mono)
  then have ok: "i64 (s ! i * k) = Some (s ! i * k)" "i64 (s ! j + s ! i * k) = Some (s ! j + s ! i * k)"
    "i64 (s ! j - s ! i * k) = Some (s ! j - s ! i * k)"
    using s cond(4) by (intro i64_Some; linarith)+
  have "\<bar>s ! j + s ! i * k\<bar> \<le> b ! j + b ! i * k" "\<bar>s ! j - s ! i * k\<bar> \<le> b ! j + b ! i * k"
    using p s by linarith+
  then show "\<exists>s'. sc_addmul j i k s = Some s' \<and> bounded b' s'"
    and "\<exists>s'. sc_submul j i k s = Some s' \<and> bounded b' s'"
    unfolding sc_addmul_def sc_submul_def ok b' bind.bind_lunit
    by (blast intro: bounded_update assms(1))+
qed

lemma sc_fold_shadow: "shadows sc_fold sc_fold_bound"
proof (rule shadowsI)
  fix i b b' s
  assume bs: "bounded b s" and "sc_fold_bound i b = Some b'"
  then obtain b1 b2 b3 b4 b5 where b:
    "sc_addmul_bound (i - 12) i 666643 b = Some b1" "sc_addmul_bound (i - 11) i 470296 b1 = Some b2"
    "sc_addmul_bound (i - 10) i 654183 b2 = Some b3" "sc_addmul_bound (i - 9) i 997805 b3 = Some b4"
    "sc_addmul_bound (i - 8) i 136657 b4 = Some b5" "sc_addmul_bound (i - 7) i 683901 b5 = Some b'"
    by (auto simp: sc_fold_bound_def bind_Some_iff)
  from sc_addmul_shadow(1) [OF bs b(1)] obtain s1 where 1: "sc_addmul (i - 12) i 666643 s = Some s1" "bounded b1 s1" by blast
  from sc_addmul_shadow(1) [OF 1(2) b(2)] obtain s2 where 2: "sc_addmul (i - 11) i 470296 s1 = Some s2" "bounded b2 s2" by blast
  from sc_addmul_shadow(1) [OF 2(2) b(3)] obtain s3 where 3: "sc_addmul (i - 10) i 654183 s2 = Some s3" "bounded b3 s3" by blast
  from sc_addmul_shadow(2) [OF 3(2) b(4)] obtain s4 where 4: "sc_submul (i - 9) i 997805 s3 = Some s4" "bounded b4 s4" by blast
  from sc_addmul_shadow(1) [OF 4(2) b(5)] obtain s5 where 5: "sc_addmul (i - 8) i 136657 s4 = Some s5" "bounded b5 s5" by blast
  from sc_addmul_shadow(2) [OF 5(2) b(6)] show "\<exists>s'. sc_fold i s = Some s' \<and> bounded b' s'"
    by (simp add: sc_fold_def 1 2 3 4 5)
qed

lemmas sc_seq_shadow =
  shadowsD [OF shadows_seqM [OF sc_carry_shadow]]
  shadowsD [OF shadows_seqM [OF sc_shift_shadow]]
  shadowsD [OF shadows_seqM [OF sc_fold_shadow]]

definition sc_reduce24_bound :: "int list \<Rightarrow> int list option" where
  "sc_reduce24_bound b =
     seqM sc_fold_bound [23, 22, 21, 20, 19, 18] b \<bind>
     seqM sc_carry_bound [6, 8, 10, 12, 14, 16] \<bind>
     seqM sc_carry_bound [7, 9, 11, 13, 15] \<bind>
     seqM sc_fold_bound [17, 16, 15, 14, 13, 12]"

definition sc_bounds_in :: "int list" where
  "sc_bounds_in = replicate 24 (2 ^ 32)"

definition sc_bounds_mid :: "int list" where
  "sc_bounds_mid = replicate 12 (2 ^ 58) @ [0]"

lemma sc_reduce24_bounds:
  "case sc_reduce24_bound sc_bounds_in of None \<Rightarrow> False
   | Some b \<Rightarrow> length b = 24 \<and> list_all (\<lambda>x. x \<le> 2 ^ 58) (take 12 b)"
  by code_simp

definition sc_bounds_1 :: "int list" where
  \<comment> \<open>what the bounds have become when the first \<open>s12\<close> is folded\<close>
  "sc_bounds_1 =
     [91622759949598720, 64637020884434944, 89910407211778048, 137137340362326016,
      18782141460643840, 93994682539638784, 137440067584, 1048576, 137440067584, 1048576,
      137440067584, 1048576, 137439019008]"

lemma sc_finish_bounds1:
  "seqM sc_carry_bound [0, 2, 4, 6, 8, 10] sc_bounds_mid \<bind>
   seqM sc_carry_bound [1, 3, 5, 7, 9, 11] \<bind> sc_fold_bound 12 = Some sc_bounds_1"
  by code_simp

lemma sc_finish_bounds2:
  "seqM sc_shift_bound [0, 1, 2, 3, 4, 5, 6, 7, 8, 9, 10, 11] (sc_bounds_1[12 := 0]) \<bind>
   sc_fold_bound 12 \<bind> seqM sc_shift_bound [0, 1, 2, 3, 4, 5, 6, 7, 8, 9, 10]
   = Some (replicate 11 (2 ^ 21) @ [2097154, 1])"
  by code_simp

section \<open>From 24 limbs to 12\<close>

lemma seqM_fold_val:
  assumes "seqM sc_fold (rev [m..<n]) s = Some s'" "12 \<le> m" "m \<le> n" "n \<le> length s"
  shows "sc_val m s' mod sc_L = sc_val n s mod sc_L \<and> length s' = length s"
  using assms(3,1,4)
proof (induction n arbitrary: s rule: dec_induct)
  case base
  then show ?case by simp
next
  case (step n)
  then obtain s1 where s1: "sc_fold n s = Some s1" "seqM sc_fold (rev [m..<n]) s1 = Some s'"
    by (auto simp: bind_Some_iff)
  have n: "12 \<le> n" "n < length s" using assms(2) step.hyps step.prems by simp_all
  note f = sc_fold_val [OF s1(1) n]
  have "sc_val n s1 mod sc_L = sc_val (Suc n) s mod sc_L"
    using mod_mult_self1 [of "sc_val (Suc n) s" "- (s ! n * 2 ^ (21 * (n - 12)))" sc_L]
    by (simp add: f(1))
  then show ?case using step.IH [OF s1(2)] f(2) n by simp
qed

lemma sc_reduce24_correct:
  assumes "bounded sc_bounds_in s"
  shows "\<exists>s'. sc_reduce24 s = Some s' \<and> bounded sc_bounds_mid s'
    \<and> sc_val 13 s' mod sc_L = sc_val 24 s mod sc_L"
proof -
  have len: "length s = 24" using bounded_length [OF assms] by (simp add: sc_bounds_in_def)
  obtain b where b: "sc_reduce24_bound sc_bounds_in = Some b"
    and b': "length b = 24" "list_all (\<lambda>x. x \<le> 2 ^ 58) (take 12 b)"
    using sc_reduce24_bounds by (auto split: option.splits)
  obtain b1 b2 b3 where bs: "seqM sc_fold_bound [23, 22, 21, 20, 19, 18] sc_bounds_in = Some b1"
    "seqM sc_carry_bound [6, 8, 10, 12, 14, 16] b1 = Some b2"
    "seqM sc_carry_bound [7, 9, 11, 13, 15] b2 = Some b3"
    "seqM sc_fold_bound [17, 16, 15, 14, 13, 12] b3 = Some b"
    using b unfolding sc_reduce24_bound_def bind_Some_iff by blast
  from sc_seq_shadow(3) [OF assms bs(1)] obtain s1 where
    s1: "seqM sc_fold [23, 22, 21, 20, 19, 18] s = Some s1" "bounded b1 s1" by blast
  from sc_seq_shadow(1) [OF s1(2) bs(2)] obtain s2 where
    s2: "seqM sc_carry [6, 8, 10, 12, 14, 16] s1 = Some s2" "bounded b2 s2" by blast
  from sc_seq_shadow(1) [OF s2(2) bs(3)] obtain s3 where
    s3: "seqM sc_carry [7, 9, 11, 13, 15] s2 = Some s3" "bounded b3 s3" by blast
  from sc_seq_shadow(3) [OF s3(2) bs(4)] obtain s4 where
    s4: "seqM sc_fold [17, 16, 15, 14, 13, 12] s3 = Some s4" "bounded b s4" by blast
  have lists: "[23, 22, 21, 20, 19, 18] = rev [18..<24]" "[17, 16, 15, 14, 13, 12] = rev [12..<18]"
    by (simp_all add: upt_rec)
  have v1: "sc_val 18 s1 mod sc_L = sc_val 24 s mod sc_L" "length s1 = 24"
    using seqM_fold_val [OF s1(1) [unfolded lists]] len by simp_all
  have v2: "sc_val 18 s2 = sc_val 18 s1" "length s2 = 24"
    using seqM_carry_val [OF _ _ _ s2(1), of 18] v1 by simp_all
  have v3: "sc_val 18 s3 = sc_val 18 s2" "length s3 = 24"
    using seqM_carry_val [OF _ _ _ s3(1), of 18] v2 by simp_all
  have v4: "sc_val 12 s4 mod sc_L = sc_val 18 s3 mod sc_L" "length s4 = 24"
    using seqM_fold_val [OF s4(1) [unfolded lists]] v3 by simp_all
  let ?r = "take 13 (s4[12 := 0])"
  have "sc_val 13 ?r = sc_val 13 (s4[12 := 0])"
    unfolding limbs_val_def by (rule sum.cong) simp_all
  also have "\<dots> = sc_val 12 s4"
    using v4(2) limbs_val_Suc [of _ 12 "s4[12 := 0]"] by (simp add: limbs_val_dead)
  finally have "sc_val 13 ?r mod sc_L = sc_val 24 s mod sc_L"
    using v1 v2 v3 v4 by simp
  moreover have "bounded sc_bounds_mid ?r"
    unfolding bounded_def
  proof (intro conjI allI impI)
    show "length ?r = length sc_bounds_mid" using v4(2) by (simp add: sc_bounds_mid_def)
    fix i assume "i < length sc_bounds_mid"
    then have i: "i < 13" by (simp add: sc_bounds_mid_def)
    show "\<bar>?r ! i\<bar> \<le> sc_bounds_mid ! i"
    proof (cases "i = 12")
      case True
      then show ?thesis using v4(2) by (simp add: sc_bounds_mid_def nth_append)
    next
      case False
      then have "\<bar>s4 ! i\<bar> \<le> b ! i" "b ! i \<le> 2 ^ 58"
        using bounded_nth [OF s4(2), of i] b' i by (simp_all add: list_all_length)
      then show ?thesis using False i v4(2) by (simp add: sc_bounds_mid_def nth_append)
    qed
  qed
  moreover have "sc_reduce24 s = Some ?r"
    by (simp add: sc_reduce24_def s1(1) s2(1) s3(1) s4(1) sc_clear12_def del: seqM.simps)
  ultimately show ?thesis by blast
qed

section \<open>The last blocks leave the residue\<close>

definition digits :: "nat \<Rightarrow> int list \<Rightarrow> bool" where
  "digits k s \<longleftrightarrow> (\<forall>i < k. 0 \<le> s ! i \<and> s ! i < 2 ^ 21)"

lemma sc_shift_Some:
  "sc_shift i s = Some s' \<Longrightarrow> s' = s[i + 1 := s ! (i + 1) + s ! i div 2 ^ 21, i := s ! i - s ! i div 2 ^ 21 * 2 ^ 21]"
  by (auto simp: sc_shift_def sc_carry_by_def i64_def bind_Some_iff split: if_splits)

lemma seqM_shift_digits:
  assumes "seqM sc_shift [0..<k] s = Some s'" "k < length s"
  shows "digits k s' \<and> length s' = length s"
  using assms
proof (induction k arbitrary: s')
  case 0
  then show ?case by (simp add: digits_def)
next
  case (Suc k)
  then obtain s1 where s1: "seqM sc_shift [0..<k] s = Some s1" "sc_shift k s1 = Some s'"
    by (auto simp: seqM_append bind_Some_iff)
  then have IH: "digits k s1" "length s1 = length s"
    using Suc.IH [OF s1(1)] Suc.prems by simp_all
  note s' = sc_shift_Some [OF s1(2)]
  have "s1 ! k - s1 ! k div 2 ^ 21 * 2 ^ 21 = s1 ! k mod 2 ^ 21"
    by (simp add: minus_div_mult_eq_mod)
  then show ?case
    using IH Suc.prems by (auto simp: s' digits_def less_Suc_eq nth_list_update)
qed

lemma limbs_val_split:
  "sc_val (m + k) s = sc_val m s + 2 ^ (21 * m) * sc_val k (drop m s)" if "m + k \<le> length s"
proof -
  have "sc_val (m + k) s = sc_val m s + (\<Sum>i<k. s ! (m + i) * 2 ^ (21 * (m + i)))"
    unfolding limbs_val_def by (induction k) (simp_all add: sum.distrib)
  also have "(\<Sum>i<k. s ! (m + i) * 2 ^ (21 * (m + i))) = 2 ^ (21 * m) * sc_val k (drop m s)"
    unfolding limbs_val_def sum_distrib_left
    by (rule sum.cong) (use that in \<open>simp_all add: distrib_left power_add mult_ac\<close>)
  finally show ?thesis .
qed

lemma digits_val: "digits n s \<Longrightarrow> 0 \<le> sc_val n s \<and> sc_val n s < 2 ^ (21 * n)"
proof (induction n)
  case 0
  then show ?case by (simp add: limbs_val_def)
next
  case (Suc n)
  then have IH: "0 \<le> sc_val n s" "sc_val n s < 2 ^ (21 * n)" and d: "0 \<le> s ! n" "s ! n < 2 ^ 21"
    by (simp_all add: digits_def)
  have "s ! n * 2 ^ (21 * n) \<le> (2 ^ 21 - 1) * 2 ^ (21 * n)"
    using d by (intro mult_right_mono) simp_all
  moreover have "(2 ^ 21 - 1) * 2 ^ (21 * n) = 2 ^ (21 * Suc n) - (2 :: int) ^ (21 * n)"
    using weight_add [of n 1] by (simp add: left_diff_distrib)
  moreover have "0 \<le> s ! n * 2 ^ (21 * n)" using d by simp
  ultimately show ?case
    using IH unfolding limbs_val_Suc by linarith
qed

lemma digit_div:
  assumes "digits 11 s" "length s = 13" "i < 12"
  shows "sc_val 12 s div 2 ^ (21 * i) = sc_val (12 - i) (drop i s)"
proof -
  have "digits i s" using assms(1,3) by (simp add: digits_def)
  from digits_val [OF this] limbs_val_split [of i "12 - i" s] assms show ?thesis
    by simp
qed

lemma digit_nth:
  assumes "digits 11 s" "length s = 13"
  shows "i < 11 \<Longrightarrow> s ! i = take_bit 21 (drop_bit (21 * i) (sc_val 12 s))"
    and "s ! 11 = drop_bit 231 (sc_val 12 s)"
proof -
  show "s ! 11 = drop_bit 231 (sc_val 12 s)"
    using digit_div [OF assms, of 11] assms(2) by (simp add: drop_bit_eq_div limbs_val_def)
  assume i: "i < 11"
  have "12 - i = 1 + (11 - i)" "sc_val 1 (drop i s) = s ! i" "1 + (11 - i) \<le> length (drop i s)"
    using i assms(2) by (simp_all add: limbs_val_def)
  then have "sc_val (12 - i) (drop i s) = s ! i + 2 ^ 21 * sc_val (11 - i) (drop (i + 1) s)"
    using limbs_val_split [of 1 "11 - i" "drop i s"] by (simp only: drop_drop mult_1_right add.commute)
  then have "take_bit 21 (sc_val (12 - i) (drop i s)) = s ! i mod 2 ^ 21"
    by (simp only: take_bit_eq_mod mod_mult_self2)
  also have "\<dots> = s ! i" using assms(1) i by (simp add: digits_def)
  finally show "s ! i = take_bit 21 (drop_bit (21 * i) (sc_val 12 s))"
    using digit_div [OF assms, of i] i by (simp only: drop_bit_eq_div)
qed

subsection \<open>The bytes of the residue\<close>

lemma sc_byte_eq:
  assumes "s ! i = take_bit 21 (drop_bit a V)" "n + 8 \<le> 21"
  shows "sc_byte s i n = Some (word_of_int (drop_bit (a + n) V))"
proof -
  have "(word_of_int (drop_bit n (take_bit 21 (drop_bit a V))) :: u8) = word_of_int (drop_bit (a + n) V)"
    using assms(2) by (intro bit_word_eqI) (simp add: bit_simps ac_simps)
  then show ?thesis by (simp add: sc_byte_def assms(1) drop_bit_eq_div)
qed

lemma sc_byte_top:
  assumes "s ! i = drop_bit a V"
  shows "sc_byte s i n = Some (word_of_int (drop_bit (a + n) V))"
  by (simp add: sc_byte_def assms flip: drop_bit_eq_div) (simp add: ac_simps)

lemma sc_byte2_eq:
  assumes "s ! i = take_bit 21 (drop_bit a V)" "s ! (i + 1) = take_bit k (drop_bit (a + 21) V)"
    and "n + m = 21" "8 \<le> k" "k + m \<le> 50"
  shows "sc_byte2 s i n m = Some (word_of_int (drop_bit (a + n) V))"
proof -
  have "0 \<le> s ! (i + 1)" "s ! (i + 1) < 2 ^ k"
    unfolding assms(2) by simp_all
  then have "\<bar>s ! (i + 1) * 2 ^ m\<bar> < 2 ^ k * 2 ^ m"
    by (simp add: abs_mult)
  also have "\<dots> \<le> (2::int) ^ 50"
    unfolding power_add [symmetric] by (rule power_increasing) (use assms(5) in simp_all)
  finally have ok: "i64 (s ! (i + 1) * 2 ^ m) = Some (push_bit m (take_bit k (drop_bit (a + 21) V)))"
    by (subst i64_Some) (simp_all add: assms(2) [simplified] push_bit_eq_mult)
  have "(word_of_int (drop_bit n (take_bit 21 (drop_bit a V)) OR push_bit m (take_bit k (drop_bit (a + 21) V))) :: u8)
      = word_of_int (drop_bit (a + n) V)"
  proof (rule bit_word_eqI)
    fix j assume "j < LENGTH(8)"
    then have j: "j < 8" by simp
    show "bit (word_of_int (drop_bit n (take_bit 21 (drop_bit a V)) OR push_bit m (take_bit k (drop_bit (a + 21) V))) :: u8) j
        = bit (word_of_int (drop_bit (a + n) V) :: u8) j"
    proof (cases "m \<le> j")
      case True
      then have "a + 21 + (j - m) = a + n + j" using assms(3) by simp
      then show ?thesis using True j assms(3,4) by (auto simp: bit_simps ac_simps)
    next
      case False
      then show ?thesis using j assms(3,4) by (auto simp: bit_simps ac_simps)
    qed
  qed
  then show ?thesis
    unfolding sc_byte2_def ok bind.bind_lunit assms(1) drop_bit_eq_div [symmetric] by simp
qed

lemma sc_store_eq:
  assumes "digits 11 s" "length s = 13" "0 \<le> sc_val 12 s" "sc_val 12 s < 2 ^ 256"
  shows "sc_store s = Some (le_bytes 32 (nat (sc_val 12 s)))"
proof -
  define V where "V = sc_val 12 s"
  have d: "s ! i = take_bit 21 (drop_bit (21 * i) V)" if "i < 11" for i
    using digit_nth(1) [OF assms(1,2) that] by (simp add: V_def)
  have top: "s ! 11 = drop_bit 231 V"
    using digit_nth(2) [OF assms(1,2)] by (simp add: V_def)
  have "drop_bit 231 V < 2 ^ 25"
    using assms(3,4) by (simp add: V_def drop_bit_eq_div)
  then have top': "s ! (10 + 1) = take_bit 25 (drop_bit (210 + 21) V)"
    using top assms(3) by (simp add: V_def take_bit_int_eq_self)
  note b1 = sc_byte_eq [OF d]
  have b2: "sc_byte2 s i n m = Some (word_of_int (drop_bit (21 * i + n) V))"
    if "i < 10" "n + m = 21" for i n m
    by (rule sc_byte2_eq [OF d, where k = 21]) (use d [of "i + 1"] that in \<open>simp_all add: ac_simps\<close>)
  have last: "sc_byte2 s 10 14 7 = Some (word_of_int (drop_bit (210 + 14) V))"
    by (rule sc_byte2_eq [OF _ top']) (use d [of 10] in simp_all)
  note bytes = b1 [of 0 0] b1 [of 0 8] b2 [of 0 16 5] b1 [of 1 3] b1 [of 1 11] b2 [of 1 19 2]
    b1 [of 2 6] b2 [of 2 14 7] b1 [of 3 1] b1 [of 3 9] b2 [of 3 17 4] b1 [of 4 4] b1 [of 4 12]
    b2 [of 4 20 1] b1 [of 5 7] b2 [of 5 15 6] b1 [of 6 2] b1 [of 6 10] b2 [of 6 18 3]
    b1 [of 7 5] b1 [of 7 13] b1 [of 8 0] b1 [of 8 8] b2 [of 8 16 5] b1 [of 9 3] b1 [of 9 11]
    b2 [of 9 19 2] b1 [of 10 6] last
    sc_byte_top [OF top, of 1] sc_byte_top [OF top, of 9] sc_byte_top [OF top, of 17]
  have "sc_store s = Some (map (\<lambda>k. word_of_int (drop_bit (8 * k) V)) [0..<32])"
    by (simp add: sc_store_def bytes [simplified] upt_rec)
  moreover have "word_of_int (drop_bit (8 * k) V) = (of_nat (drop_bit (8 * k) (nat V)) :: u8)" for k
  proof -
    have "drop_bit (8 * k) V = int (drop_bit (8 * k) (nat V))"
      using assms(3) by (simp add: V_def drop_bit_of_nat [symmetric])
    then show ?thesis by (simp only: of_int_of_nat_eq)
  qed
  ultimately show ?thesis by (simp add: le_bytes_def V_def)
qed

lemma sc_finish_correct:
  assumes "bounded sc_bounds_mid s"
  shows "sc_finish s = Some (le_bytes 32 (nat (sc_val 13 s mod sc_L)))"
proof -
  have len: "length s = 13" using bounded_length [OF assms] by (simp add: sc_bounds_mid_def)
  obtain b1 b2 where bs: "seqM sc_carry_bound [0, 2, 4, 6, 8, 10] sc_bounds_mid = Some b1"
    "seqM sc_carry_bound [1, 3, 5, 7, 9, 11] b1 = Some b2" "sc_fold_bound 12 b2 = Some sc_bounds_1"
    using sc_finish_bounds1 unfolding bind_Some_iff by blast
  obtain b3 b4 b5 where bs': "seqM sc_shift_bound [0, 1, 2, 3, 4, 5, 6, 7, 8, 9, 10, 11] (sc_bounds_1[12 := 0]) = Some b3"
    "sc_fold_bound 12 b3 = Some b4" "seqM sc_shift_bound [0, 1, 2, 3, 4, 5, 6, 7, 8, 9, 10] b4 = Some b5"
    using sc_finish_bounds2 unfolding bind_Some_iff by blast
  from sc_seq_shadow(1) [OF assms bs(1)] obtain s1 where
    s1: "seqM sc_carry [0, 2, 4, 6, 8, 10] s = Some s1" "bounded b1 s1" by blast
  from sc_seq_shadow(1) [OF s1(2) bs(2)] obtain s2 where
    s2: "seqM sc_carry [1, 3, 5, 7, 9, 11] s1 = Some s2" "bounded b2 s2" by blast
  from shadowsD [OF sc_fold_shadow s2(2) bs(3)] obtain s3 where
    s3: "sc_fold 12 s2 = Some s3" "bounded sc_bounds_1 s3" by blast
  let ?s3 = "s3[12 := 0]"
  have b3: "bounded (sc_bounds_1[12 := 0]) ?s3" by (rule bounded_update [OF s3(2)]) simp
  from sc_seq_shadow(2) [OF b3 bs'(1)] obtain s4 where
    s4: "seqM sc_shift [0, 1, 2, 3, 4, 5, 6, 7, 8, 9, 10, 11] ?s3 = Some s4" "bounded b3 s4" by blast
  from shadowsD [OF sc_fold_shadow s4(2) bs'(2)] obtain s5 where
    s5: "sc_fold 12 s4 = Some s5" "bounded b4 s5" by blast
  from sc_seq_shadow(2) [OF s5(2) bs'(3)] obtain s6 where
    s6: "seqM sc_shift [0, 1, 2, 3, 4, 5, 6, 7, 8, 9, 10] s5 = Some s6" by blast
  have lists: "[0, 1, 2, 3, 4, 5, 6, 7, 8, 9, 10, 11] = [0..<12::nat]"
    "[0, 1, 2, 3, 4, 5, 6, 7, 8, 9, 10] = [0..<11::nat]"
    by (simp_all add: upt_rec)
  have v2: "sc_val 13 s2 = sc_val 13 s" "length s2 = 13"
    using seqM_carry_val [OF _ _ _ s1(1), of 13] seqM_carry_val [OF _ _ _ s2(1), of 13] len by simp_all
  have v3: "sc_val 12 s3 = sc_val 13 s2 - s2 ! 12 * sc_L" "length s3 = 13"
    using sc_fold_val [OF s3(1)] v2 by simp_all
  define x where "x = sc_val 12 s3"
  have x: "x mod sc_L = sc_val 13 s mod sc_L"
    using mod_mult_self1 [of "sc_val 13 s" "- (s2 ! 12)" sc_L] v2 v3 by (simp add: x_def)
  have "\<bar>x\<bar> \<le> sc_val 12 sc_bounds_1"
    unfolding x_def by (rule bounded_val [OF s3(2)]) (simp add: sc_bounds_1_def)
  also have "\<dots> < 2 ^ 252"
    by (simp add: limbs_val_def sc_bounds_1_def lessThan_nat_numeral)
  finally have xb: "- (2 ^ 252) < x" "x < 2 ^ 252" by linarith+
  have val0: "sc_val 13 ?s3 = x"
    using limbs_val_Suc [of "\<lambda>i. 21 * i" 12 ?s3] v3(2) by (simp add: x_def limbs_val_dead)
  have d4: "digits 12 s4" "length s4 = 13" "sc_val 13 s4 = x"
    using seqM_shift_digits [OF s4(1) [unfolded lists]] seqM_shift_val [OF _ _ _ s4(1), of 13] v3(2) val0
    by simp_all
  define q where "q = s4 ! 12"
  have xq: "x = sc_val 12 s4 + q * 2 ^ 252"
    using limbs_val_Suc [of "\<lambda>i. 21 * i" 12 s4] d4(3) by (simp add: q_def)
  have r: "0 \<le> sc_val 12 s4" "sc_val 12 s4 < 2 ^ 252" using digits_val [OF d4(1)] by simp_all
  have v5: "sc_val 12 s5 = x - q * sc_L" "length s5 = 13"
    using sc_fold_val [OF s5(1)] d4 by (simp_all add: q_def)
  have "q * 2 ^ 252 < 1 * 2 ^ 252" "(- 2) * 2 ^ 252 < q * 2 ^ 252"
    using xq r xb by linarith+
  then have "q = 0 \<or> q = - 1" by (simp only: mult_less_cancel_right) linarith
  then have V: "0 \<le> x - q * sc_L" "x - q * sc_L < sc_L"
    using xq r xb by (auto simp: sc_L_def)
  have V_eq: "x - q * sc_L = x mod sc_L"
    using V mod_mult_self1 [of x "- q" sc_L] by (simp add: mod_pos_pos_trivial)
  have d6: "digits 11 s6" "length s6 = 13" "sc_val 12 s6 = x mod sc_L"
    using seqM_shift_digits [OF s6(1) [unfolded lists]] seqM_shift_val [OF _ _ _ s6(1), of 12] v5 V_eq
    by simp_all
  have "sc_L < 2 ^ 256" by (simp add: sc_L_def)
  then have "sc_store s6 = Some (le_bytes 32 (nat (x mod sc_L)))"
    using sc_store_eq [OF d6(1,2)] d6(3) V V_eq by simp
  then show ?thesis
    unfolding sc_finish_def s1(1) s2(1) s3(1) s4(1) s5(1) s6(1) sc_clear12_def bind.bind_lunit x .
qed

section \<open>The limbs of a byte string\<close>

lemma or_shift:
  assumes "take_bit n x = x"
  shows "x OR push_bit n y = x + push_bit n (y :: u64)"
proof -
  have "bit x m \<Longrightarrow> m < n" for m using assms by (metis bit_take_bit_iff)
  then have "\<not> bit x m \<or> \<not> bit (push_bit n y) m" for m
    by (cases "m < n") (auto simp: bit_push_bit_iff)
  then have "x AND push_bit n y = 0"
    by (intro bit_word_eqI) (simp add: bit_and_iff)
  then show ?thesis by (simp add: disjunctive_add_eq_or)
qed

lemma or_byte: "ucast (b::u8) OR push_bit 8 y = (of_nat (unat b) + 256 * y :: u64)"
proof -
  have "take_bit 8 (ucast b) = (ucast b :: u64)"
    by (rule bit_word_eqI) (auto simp: bit_simps dest: bit_imp_le_length)
  from or_shift [OF this, of y] show ?thesis
    by (simp add: push_bit_eq_mult mult.commute)
qed

lemma load_le:
  "3 \<le> length b \<Longrightarrow> load_3 b = of_nat (le_nat (take 3 b))"
  "4 \<le> length b \<Longrightarrow> load_4 b = of_nat (le_nat (take 4 b))"
proof -
  have "load_3 b = ucast (b ! 0) OR push_bit 8 (ucast (b ! 1) OR push_bit 8 (ucast (b ! 2)))"
    by (simp add: load_3_def push_bit_or)
  moreover assume "3 \<le> length b"
  then have "take 3 b = [b ! 0, b ! 1, b ! 2]"
    by (cases b; cases "tl b"; cases "tl (tl b)") auto
  ultimately show "load_3 b = of_nat (le_nat (take 3 b))" by (simp add: or_byte)
next
  have "load_4 b = ucast (b ! 0) OR push_bit 8 (ucast (b ! 1) OR push_bit 8 (ucast (b ! 2) OR push_bit 8 (ucast (b ! 3))))"
    by (simp add: load_4_def push_bit_or)
  moreover assume "4 \<le> length b"
  then have "take 4 b = [b ! 0, b ! 1, b ! 2, b ! 3]"
    by (cases b; cases "tl b"; cases "tl (tl b)"; cases "tl (tl (tl b))") auto
  ultimately show "load_4 b = of_nat (le_nat (take 4 b))" by (simp add: or_byte)
qed

lemma sint_small:
  assumes "x < 2 ^ 32"
  shows "sint (drop_bit k (of_nat x :: u64)) = int (x div 2 ^ k)"
    and "sint (2097151 AND drop_bit k (of_nat x :: u64)) = int (x div 2 ^ k mod 2 ^ 21)"
proof -
  have "unat (of_nat x :: u64) = x" using assms by (simp add: unat_of_nat)
  then have u: "unat (drop_bit k (of_nat x :: u64)) = x div 2 ^ k"
    by (simp only: unat_drop_bit_eq) (simp add: drop_bit_eq_div)
  have "(2097151 :: u64) = mask 21" by (simp add: mask_eq_exp_minus_1)
  then have "unat (2097151 AND drop_bit k (of_nat x :: u64)) = take_bit 21 (unat (drop_bit k (of_nat x :: u64)))"
    by (simp only: and.commute [of "mask 21"] take_bit_eq_mask [symmetric] unsigned_take_bit_eq)
  then have m: "unat (2097151 AND drop_bit k (of_nat x :: u64)) = x div 2 ^ k mod 2 ^ 21"
    by (simp only: u take_bit_eq_mod)
  have s: "sint w = int (unat w)" if "unat w < 2 ^ 32" for w :: u64
  proof -
    have "- (2 ^ 63) \<le> int (unat w)" by (rule order_trans [of _ 0]) simp_all
    moreover have "unat w < 2 ^ 63" using that by simp
    then have "int (unat w) < int (2 ^ 63)" by (simp only: of_nat_less_iff)
    then have "int (unat w) < 2 ^ 63" by (simp only: of_nat_power of_nat_numeral)
    ultimately have "signed_take_bit 63 (int (unat w)) = int (unat w)"
      by (rule signed_take_bit_int_eq_self)
    then show ?thesis by (simp add: sint_uint)
  qed
  have "x div 2 ^ k \<le> x" by simp
  then have "x div 2 ^ k < 2 ^ 32" using assms by linarith
  then show "sint (drop_bit k (of_nat x :: u64)) = int (x div 2 ^ k)" by (simp only: s u)
  have "x div 2 ^ k mod 2 ^ 21 < 2 ^ 21" by simp
  then have "x div 2 ^ k mod 2 ^ 21 < 2 ^ 32" by (rule less_trans) simp
  then show "sint (2097151 AND drop_bit k (of_nat x :: u64)) = int (x div 2 ^ k mod 2 ^ 21)"
    by (simp only: s m)
qed

text \<open>Limb \<open>i\<close> is the field of 21 bits at bit \<open>21 i\<close> of the number.\<close>

definition field21 :: "nat \<Rightarrow> nat \<Rightarrow> int" where
  "field21 N i = int (N div 2 ^ (21 * i) mod 2 ^ 21)"

lemma sc_field:
  assumes "8 * j + k = 21 * i"
  shows "j + 3 \<le> length s \<Longrightarrow> k \<le> 3 \<Longrightarrow>
      sint (2097151 AND drop_bit k (load_3 (drop j s))) = field21 (le_nat s) i"
    and "j + 4 \<le> length s \<Longrightarrow> k \<le> 11 \<Longrightarrow>
      sint (2097151 AND drop_bit k (load_4 (drop j s))) = field21 (le_nat s) i"
    and "j + 4 = length s \<Longrightarrow>
      sint (drop_bit k (load_4 (drop j s))) = int (le_nat s div 2 ^ (21 * i))"
proof -
  let ?N = "le_nat s"
  have pow: "(256::nat) ^ j * 2 ^ k = 2 ^ (21 * i)"
    by (simp add: assms [symmetric] power_add power_mult)
  have cut: "(?N div 256 ^ j mod 2 ^ w) div 2 ^ k mod 2 ^ 21 = ?N div 2 ^ (21 * i) mod 2 ^ 21"
    if "k + 21 \<le> w" for w
  proof -
    have "take_bit 21 (drop_bit k (take_bit w (?N div 256 ^ j))) = take_bit 21 (drop_bit k (?N div 256 ^ j))"
      using that by (simp add: drop_bit_take_bit min_def)
    then show ?thesis
      by (simp only: take_bit_eq_mod drop_bit_eq_div div_mult2_eq [symmetric] pow)
  qed
  have small: "?N div 256 ^ j mod 2 ^ w < 2 ^ 32" if "w \<le> 32" for w
  proof -
    have "?N div 256 ^ j mod 2 ^ w < (2::nat) ^ w" by simp
    also have "\<dots> \<le> 2 ^ 32" by (rule power_increasing) (use that in simp_all)
    finally show ?thesis .
  qed
  have p: "(256::nat) ^ 3 = 2 ^ 24" "(256::nat) ^ 4 = 2 ^ 32" by simp_all
  show "sint (2097151 AND drop_bit k (load_3 (drop j s))) = field21 ?N i"
    if "j + 3 \<le> length s" "k \<le> 3"
  proof -
    have "load_3 (drop j s) = of_nat (?N div 256 ^ j mod 2 ^ 24)"
      using load_le(1) [of "drop j s"] that by (simp only: le_nat_field p) simp
    then show ?thesis using sint_small(2) [OF small, of 24 k] cut [of 24] that by (simp add: field21_def)
  qed
  show "sint (2097151 AND drop_bit k (load_4 (drop j s))) = field21 ?N i"
    if "j + 4 \<le> length s" "k \<le> 11"
  proof -
    have "load_4 (drop j s) = of_nat (?N div 256 ^ j mod 2 ^ 32)"
      using load_le(2) [of "drop j s"] that by (simp only: le_nat_field p) simp
    then show ?thesis using sint_small(2) [OF small, of 32 k] cut [of 32] that by (simp add: field21_def)
  qed
  show "sint (drop_bit k (load_4 (drop j s))) = int (?N div 2 ^ (21 * i))" if "j + 4 = length s"
  proof -
    have "take 4 (drop j s) = drop j s" using that by simp
    then have l: "load_4 (drop j s) = of_nat (?N div 256 ^ j)"
      using load_le(2) [of "drop j s"] that by (simp only: le_nat_drop) simp
    have "length (drop j s) = 4" using that by simp
    then have "le_nat (drop j s) < 256 ^ 4" using le_nat_bound [of "drop j s"] by simp
    then have "?N div 256 ^ j < 2 ^ 32" by (simp add: le_nat_drop)
    then show ?thesis
      using sint_small(1) [of "?N div 256 ^ j" k] by (simp only: l div_mult2_eq [symmetric] pow)
  qed
qed

lemma sc_field_whole:
  "3 \<le> length s \<Longrightarrow> sint (2097151 AND load_3 s) = field21 (le_nat s) 0"
  "24 \<le> length s \<Longrightarrow> sint (2097151 AND load_3 (drop 21 s)) = field21 (le_nat s) 8"
  "45 \<le> length s \<Longrightarrow> sint (2097151 AND load_3 (drop 42 s)) = field21 (le_nat s) 16"
  using sc_field(1) [of 0 0 0 s] sc_field(1) [of 21 0 8 s] sc_field(1) [of 42 0 16 s] by simp_all

lemma sc_limbs_fields:
  assumes "32 \<le> length s"
  shows "sc_limbs s = map (field21 (le_nat s)) [0..<11]"
proof -
  let ?f = "field21 (le_nat s)"
  have "sc_limbs s = [?f 0, ?f 1, ?f 2, ?f 3, ?f 4, ?f 5, ?f 6, ?f 7, ?f 8, ?f 9, ?f 10]"
    unfolding sc_limbs_def list.inject
    by (intro conjI refl sc_field_whole sc_field(1) sc_field(2)) (use assms in simp_all)
  moreover have "[0..<11] = [0, 1, 2, 3, 4, 5, 6, 7, 8, 9, 10::nat]" by (simp add: upt_rec)
  ultimately show ?thesis by (simp only: list.map)
qed

lemma sc_load_fields:
  assumes "length s = 32"
  shows "sc_load s = Some (map (field21 (le_nat s)) [0..<11] @ [int (le_nat s div 2 ^ 231)])"
  using assms sc_field(3) [of 28 7 11 s] by (simp add: sc_load_def sc_limbs_fields)

lemma sc_load64_fields:
  assumes "length s = 64"
  shows "sc_load64 s = Some (map (field21 (le_nat s)) [0..<23] @ [int (le_nat s div 2 ^ 483)])"
proof -
  let ?f = "field21 (le_nat s)"
  have "sc_limbs_high s =
      [?f 11, ?f 12, ?f 13, ?f 14, ?f 15, ?f 16, ?f 17, ?f 18, ?f 19, ?f 20, ?f 21, ?f 22, int (le_nat s div 2 ^ (21 * 23))]"
    unfolding sc_limbs_high_def list.inject
    by (intro conjI refl sc_field_whole sc_field(1) sc_field(2) sc_field(3)) (use assms in simp_all)
  moreover have "[0..<23] = [0..<11] @ [11, 12, 13, 14, 15, 16, 17, 18, 19, 20, 21, 22::nat]"
    by (simp add: upt_rec)
  ultimately show ?thesis using assms by (simp add: sc_load64_def sc_limbs_fields)
qed

text \<open>A list of such fields, the last one unmasked, stands for the number.\<close>

lemma fields_val:
  "sc_val n (map (field21 N) [0..<n] @ xs) = int (N mod 2 ^ (21 * n))"
proof (induction n arbitrary: xs)
  case 0
  then show ?case by (simp add: limbs_val_def)
next
  case (Suc n)
  have "N mod 2 ^ (21 * Suc n) = N mod 2 ^ (21 * n) + 2 ^ (21 * n) * (N div 2 ^ (21 * n) mod 2 ^ 21)"
    by (simp only: mult_Suc_right power_add add.commute [of 21] mod_mult2_eq)
  with Suc [of "field21 N n # xs"] show ?case
    by (simp add: limbs_val_Suc nth_append mult.commute field21_def)
qed

section \<open>What the functions compute\<close>

definition sc_residue :: "int \<Rightarrow> bytes" where
  \<comment> \<open>the 32 bytes of the residue modulo \<open>L\<close>\<close>
  "sc_residue x = le_bytes 32 (nat (x mod sc_L))"

definition sc_limbs_of :: "bytes \<Rightarrow> int list \<Rightarrow> bool" where
  \<comment> \<open>\<open>l\<close> is what \<open>sc_load\<close> gives for the 32 bytes \<open>s\<close>\<close>
  "sc_limbs_of s l \<longleftrightarrow> length l = 12 \<and> sc_val 12 l = int (le_nat s) \<and> (\<forall>i < 12. 0 \<le> l ! i)
     \<and> bounded (replicate 11 (2 ^ 21) @ [2 ^ 25]) l"

lemma field21_bound: "0 \<le> field21 N i" "field21 N i < 2 ^ 21"
proof -
  have "N div 2 ^ (21 * i) mod 2 ^ 21 < 2 ^ 21" by simp
  then have "int (N div 2 ^ (21 * i) mod 2 ^ 21) < int (2 ^ 21)" by (simp only: of_nat_less_iff)
  then show "0 \<le> field21 N i" "field21 N i < 2 ^ 21" by (simp_all add: field21_def)
qed

lemma fields_top_val:
  "sc_val (Suc n) (map (field21 N) [0..<n] @ [int (N div 2 ^ (21 * n))]) = int N"
proof -
  have "int (N mod 2 ^ (21 * n)) + int (N div 2 ^ (21 * n)) * 2 ^ (21 * n) = int (N mod 2 ^ (21 * n) + N div 2 ^ (21 * n) * 2 ^ (21 * n))"
    by simp
  also have "\<dots> = int N" by (simp only: mod_div_mult_eq)
  finally show ?thesis by (simp add: limbs_val_Suc fields_val nth_append)
qed

lemma sc_load_ok:
  assumes "length s = 32"
  shows "\<exists>l. sc_load s = Some l \<and> sc_limbs_of s l"
proof -
  let ?l = "map (field21 (le_nat s)) [0..<11] @ [int (le_nat s div 2 ^ 231)]"
  have "le_nat s < 2 ^ 256" using le_nat_bound [of s] by (simp add: assms)
  then have top: "le_nat s div 2 ^ 231 < 2 ^ 25" by (simp add: less_mult_imp_div_less)
  have "bounded (replicate 11 (2 ^ 21) @ [2 ^ 25]) ?l"
    unfolding bounded_def
  proof (intro conjI allI impI)
    fix i assume "i < length (replicate 11 (2 ^ 21) @ [2 ^ 25 :: int])"
    then have "i < 11 \<or> i = 11" by auto
    then show "\<bar>?l ! i\<bar> \<le> (replicate 11 (2 ^ 21) @ [2 ^ 25]) ! i"
      using top field21_bound [of "le_nat s" i] by (auto simp: nth_append)
  qed simp
  moreover have "0 \<le> ?l ! i" if "i < 12" for i
    using that field21_bound(1) by (cases "i = 11") (simp_all add: nth_append)
  moreover have "sc_val 12 ?l = int (le_nat s)"
    using fields_top_val [of 11 "le_nat s"] by simp
  ultimately show ?thesis
    using sc_load_fields [OF assms] by (simp add: sc_limbs_of_def)
qed

lemma sc_reduce_ok:
  assumes "length s = 64"
  shows "sc_reduce s = Some (sc_residue (int (le_nat s)))"
proof -
  let ?l = "map (field21 (le_nat s)) [0..<23] @ [int (le_nat s div 2 ^ 483)]"
  have "le_nat s < 2 ^ 512" using le_nat_bound [of s] by (simp add: assms)
  then have top: "le_nat s div 2 ^ 483 < 2 ^ 29" by (simp add: less_mult_imp_div_less)
  have "bounded sc_bounds_in ?l"
    unfolding bounded_def
  proof (intro conjI allI impI)
    show "length ?l = length sc_bounds_in" by (simp add: sc_bounds_in_def)
    fix i assume "i < length sc_bounds_in"
    then have "i < 23 \<or> i = 23" by (auto simp: sc_bounds_in_def)
    then show "\<bar>?l ! i\<bar> \<le> sc_bounds_in ! i"
      using top field21_bound [of "le_nat s" i] by (auto simp: nth_append sc_bounds_in_def)
  qed
  from sc_reduce24_correct [OF this] obtain l' where
    "sc_reduce24 ?l = Some l'" "bounded sc_bounds_mid l'" "sc_val 13 l' mod sc_L = int (le_nat s) mod sc_L"
    using fields_top_val [of 23 "le_nat s"] by auto
  then show ?thesis
    by (simp add: sc_reduce_def sc_load64_fields assms sc_finish_correct sc_residue_def)
qed

lemma sc_finish_limbs:
  assumes "bounded (replicate 12 (2 ^ 58)) s"
  shows "sc_finish (s @ [0]) = Some (sc_residue (sc_val 12 s))"
proof -
  have len: "length s = 12" using bounded_length [OF assms] by simp
  have "bounded sc_bounds_mid (s @ [0])"
    unfolding bounded_def
  proof (intro conjI allI impI)
    fix i assume "i < length sc_bounds_mid"
    then show "\<bar>(s @ [0]) ! i\<bar> \<le> sc_bounds_mid ! i"
      using bounded_nth [OF assms, of i] len
      by (cases "i < 12") (simp_all add: sc_bounds_mid_def nth_append)
  qed (simp add: len sc_bounds_mid_def)
  moreover have "sc_val 13 (s @ [0]) = sc_val 12 s"
    using len limbs_val_Suc [of "\<lambda>i. 21 * i" 12 "s @ [0]"] by (simp add: nth_append limbs_val_def)
  ultimately show ?thesis by (simp add: sc_finish_correct sc_residue_def)
qed

lemma sc_limbs_of_bound:
  assumes "sc_limbs_of s l" "i < 12"
  shows "0 \<le> l ! i" "l ! i \<le> (replicate 11 (2 ^ 21) @ [2 ^ 25]) ! i" "l ! i \<le> 2 ^ 25"
proof -
  have l: "0 \<le> l ! i" "bounded (replicate 11 (2 ^ 21) @ [2 ^ 25]) l"
    using assms by (simp_all add: sc_limbs_of_def)
  show "0 \<le> l ! i" "l ! i \<le> (replicate 11 (2 ^ 21) @ [2 ^ 25]) ! i"
    using bounded_nth [OF l(2), of i] l(1) assms(2) by simp_all
  moreover have "i < 11 \<or> i = 11" using assms(2) by linarith
  ultimately show "l ! i \<le> 2 ^ 25" by (auto simp: nth_append)
qed

lemma sc_reduce32_ok:
  assumes "length s = 32"
  shows "sc_reduce32 s = Some (sc_residue (int (le_nat s)))"
proof -
  obtain l where l: "sc_load s = Some l" "sc_limbs_of s l" using sc_load_ok [OF assms] by blast
  have "bounded (replicate 12 (2 ^ 58)) l"
    unfolding bounded_def
  proof (intro conjI allI impI)
    fix i assume "i < length (replicate 12 (2 ^ 58 :: int))"
    then show "\<bar>l ! i\<bar> \<le> replicate 12 (2 ^ 58) ! i"
      using sc_limbs_of_bound(1,3) [OF l(2), of i] by simp
  qed (use l(2) in \<open>simp add: sc_limbs_of_def\<close>)
  then show ?thesis
    using l by (simp add: sc_reduce32_def sc_finish_limbs sc_limbs_of_def)
qed

lemma sc_linear_ok:
  fixes f :: "int \<Rightarrow> int \<Rightarrow> int"
  assumes f: "f = (+) \<or> f = (-)" and ab: "sc_limbs_of s a" "sc_limbs_of t b"
  shows "those (map (\<lambda>i. i64 (f (a ! i) (b ! i))) [0..<12]) \<bind> (\<lambda>s. sc_finish (s @ [0]))
    = Some (sc_residue (f (int (le_nat s)) (int (le_nat t))))"
proof -
  let ?s = "map (\<lambda>i. f (a ! i) (b ! i)) [0..<12]"
  have fb: "\<bar>f (a ! i) (b ! i)\<bar> \<le> 2 ^ 26" if "i < 12" for i
    using f sc_limbs_of_bound(1,3) [OF ab(1) that] sc_limbs_of_bound(1,3) [OF ab(2) that] by auto
  then have i64: "i64 (f (a ! i) (b ! i)) = Some (f (a ! i) (b ! i))" if "i < 12" for i
    using that by (intro i64_Some) fastforce
  have "those (map (\<lambda>i. i64 (f (a ! i) (b ! i))) [0..<12]) = Some ?s"
    by (rule those_map_Some) (simp add: i64)
  moreover have "bounded (replicate 12 (2 ^ 58)) ?s"
    unfolding bounded_def
  proof (intro conjI allI impI)
    fix i assume "i < length (replicate 12 (2 ^ 58 :: int))"
    then show "\<bar>?s ! i\<bar> \<le> replicate 12 (2 ^ 58) ! i" using fb [of i] by simp
  qed simp
  moreover have "sc_val 12 ?s = f (sc_val 12 a) (sc_val 12 b)"
    using f unfolding limbs_val_def
    by (auto simp: sum.distrib [symmetric] sum_subtractf [symmetric] algebra_simps intro!: sum.cong)
  ultimately show ?thesis
    using ab by (simp add: sc_finish_limbs sc_limbs_of_def)
qed

lemma sc_add_ok:
  assumes "length a = 32" "length b = 32"
  shows "sc_add a b = Some (sc_residue (int (le_nat a) + int (le_nat b)))"
proof -
  obtain l m where "sc_load a = Some l" "sc_limbs_of a l" "sc_load b = Some m" "sc_limbs_of b m"
    using sc_load_ok assms by blast
  then show ?thesis using sc_linear_ok [of "(+)" a l b m] by (simp add: sc_add_def)
qed

lemma sc_sub_ok:
  assumes "length a = 32" "length b = 32"
  shows "sc_sub a b = Some (sc_residue (int (le_nat a) - int (le_nat b)))"
proof -
  obtain l m where "sc_load a = Some l" "sc_limbs_of a l" "sc_load b = Some m" "sc_limbs_of b m"
    using sc_load_ok assms by blast
  then show ?thesis using sc_linear_ok [of "(-)" a l b m] by (simp add: sc_sub_def)
qed

subsection \<open>Products\<close>

definition sc_conv :: "int list \<Rightarrow> int list \<Rightarrow> nat \<Rightarrow> int" where
  "sc_conv a b k = (\<Sum>i \<in> {k - 11..<Suc (min k 11)}. a ! i * b ! (k - i))"

lemma bdot_sum: "bdot (map (\<lambda>i. (f i, g i)) [m..<n]) = (\<Sum>i \<in> {m..<n}. f i * g i)"
proof (induction n)
  case (Suc n)
  have "bdot (xs @ [(x, y)]) = bdot xs + x * y" for xs x y
    by (induction xs rule: bdot.induct) simp_all
  with Suc show ?case by (cases "m \<le> n") (simp_all add: atLeastLessThanSuc)
qed simp

definition sc_limb_bound :: "nat \<Rightarrow> int" where
  "sc_limb_bound i = (if i < 11 then 2 ^ 21 else 2 ^ 25)"

lemma sc_conv_bounds:
  "list_all (\<lambda>k. bdot (map (\<lambda>i. (sc_limb_bound i, sc_limb_bound (k - i))) [k - 11..<Suc (min k 11)]) \<le> 2 ^ 51) [0..<23]"
  by code_simp

lemma sc_products_ok:
  assumes a: "sc_limbs_of s a" and b: "sc_limbs_of t b" and k: "k < 23"
  shows "sc_products a b k = Some (sc_conv a b k) \<and> \<bar>sc_conv a b k\<bar> \<le> 2 ^ 51"
proof -
  let ?is = "[k - 11..<Suc (min k 11)]"
  let ?ps = "map (\<lambda>i. (a ! i, b ! (k - i))) ?is" and ?bs = "map (\<lambda>i. (sc_limb_bound i, sc_limb_bound (k - i))) ?is"
  have lb: "\<bar>l ! i\<bar> \<le> sc_limb_bound i" if "sc_limbs_of u l" "i < 12" for u l i
    using sc_limbs_of_bound(1,2) [OF that] that(2) by (simp add: sc_limb_bound_def nth_append split: if_splits)
  have "list_all2 (\<lambda>(x, y) (a, b). \<bar>x\<bar> \<le> a \<and> \<bar>y\<bar> \<le> b) ?ps ?bs"
    unfolding list_all2_map1 list_all2_map2 prod.case
    by (rule list.rel_refl_strong) (use k in \<open>auto intro!: lb [OF a] lb [OF b]\<close>)
  moreover have bs: "bdot ?bs \<le> 2 ^ 51" using sc_conv_bounds k by (simp only: list_all_iff) simp
  then have "bdot ?bs < 2 ^ 63" by (rule le_less_trans) simp
  ultimately have "dot64 ?ps = Some (bdot ?ps) \<and> \<bar>bdot ?ps\<bar> \<le> bdot ?bs" by (rule dot64_bdot)
  with bs show ?thesis
    unfolding sc_products_def sc_conv_def bdot_sum [symmetric] by linarith
qed

lemma sc_conv_val:
  "(\<Sum>k<23. sc_conv a b k * 2 ^ (21 * k)) = sc_val 12 a * sc_val 12 b"
proof -
  let ?f = "\<lambda>l i. if i \<le> 11 then l ! i else (0::int)" and ?x = "(2::int) ^ 21"
  have "sc_val 12 l = (\<Sum>i\<le>11. ?f l i * ?x ^ i)" for l
    unfolding limbs_val_def by (rule sum.cong) (auto simp: power_mult)
  then have "sc_val 12 a * sc_val 12 b = (\<Sum>i\<le>11. ?f a i * ?x ^ i) * (\<Sum>j\<le>11. ?f b j * ?x ^ j)"
    by simp
  also have "\<dots> = (\<Sum>r\<le>11 + 11. (\<Sum>k\<le>r. ?f a k * ?f b (r - k)) * ?x ^ r)"
    by (rule polynomial_product) simp_all
  also have "\<dots> = (\<Sum>k<23. sc_conv a b k * 2 ^ (21 * k))"
  proof (rule sum.cong)
    fix r assume "r \<in> {..<23::nat}"
    have "(\<Sum>k\<le>r. ?f a k * ?f b (r - k)) = (\<Sum>k \<in> {r - 11..<Suc (min r 11)}. ?f a k * ?f b (r - k))"
      by (rule sum.mono_neutral_right) auto
    also have "\<dots> = sc_conv a b r"
      unfolding sc_conv_def by (rule sum.cong) auto
    finally show "(\<Sum>k\<le>r. ?f a k * ?f b (r - k)) * ?x ^ r = sc_conv a b r * 2 ^ (21 * r)"
      by (simp add: power_mult)
  qed auto
  finally show ?thesis ..
qed

definition sc_bounds_product :: "int list" where
  "sc_bounds_product = replicate 23 (2 ^ 52) @ [0]"

lemma sc_product_bounds:
  "case seqM sc_carry_bound [0, 2, 4, 6, 8, 10, 12, 14, 16, 18, 20, 22] sc_bounds_product \<bind>
     seqM sc_carry_bound [1, 3, 5, 7, 9, 11, 13, 15, 17, 19, 21] of None \<Rightarrow> False
   | Some b \<Rightarrow> length b = 24 \<and> list_all (\<lambda>x. x \<le> 2 ^ 32) b"
  by code_simp

lemma sc_reduce_product_ok:
  assumes "bounded sc_bounds_product s"
  shows "sc_reduce_product s = Some (sc_residue (sc_val 24 s))"
proof -
  have len: "length s = 24" using bounded_length [OF assms] by (simp add: sc_bounds_product_def)
  obtain b where "seqM sc_carry_bound [0, 2, 4, 6, 8, 10, 12, 14, 16, 18, 20, 22] sc_bounds_product \<bind>
     seqM sc_carry_bound [1, 3, 5, 7, 9, 11, 13, 15, 17, 19, 21] = Some b"
    and b: "length b = 24" "list_all (\<lambda>x. x \<le> 2 ^ 32) b"
    using sc_product_bounds by (auto split: option.splits)
  then obtain b1 where bs: "seqM sc_carry_bound [0, 2, 4, 6, 8, 10, 12, 14, 16, 18, 20, 22] sc_bounds_product = Some b1"
    "seqM sc_carry_bound [1, 3, 5, 7, 9, 11, 13, 15, 17, 19, 21] b1 = Some b"
    unfolding bind_Some_iff by blast
  from sc_seq_shadow(1) [OF assms bs(1)] obtain s1 where
    s1: "seqM sc_carry [0, 2, 4, 6, 8, 10, 12, 14, 16, 18, 20, 22] s = Some s1" "bounded b1 s1" by blast
  from sc_seq_shadow(1) [OF s1(2) bs(2)] obtain s2 where
    s2: "seqM sc_carry [1, 3, 5, 7, 9, 11, 13, 15, 17, 19, 21] s1 = Some s2" "bounded b s2" by blast
  have v: "sc_val 24 s2 = sc_val 24 s"
    using seqM_carry_val [OF _ _ _ s1(1), of 24] seqM_carry_val [OF _ _ _ s2(1), of 24] len by simp
  have "bounded sc_bounds_in s2"
    by (rule bounded_mono [OF s2(2)]) (use b in \<open>simp_all add: sc_bounds_in_def list_all_length\<close>)
  from sc_reduce24_correct [OF this] obtain s3 where
    s3: "sc_reduce24 s2 = Some s3" "bounded sc_bounds_mid s3" "sc_val 13 s3 mod sc_L = sc_val 24 s2 mod sc_L"
    by blast
  show ?thesis
    unfolding sc_reduce_product_def s1(1) s2(1) s3(1) bind.bind_lunit sc_finish_correct [OF s3(2)]
      s3(3) v sc_residue_def ..
qed

text \<open>What the three products hand over: \<open>u k\<close> is limb \<open>k\<close>.\<close>

lemma sc_reduce_product_map:
  assumes "\<And>k. k < 23 \<Longrightarrow> \<bar>u k\<bar> \<le> 2 ^ 52"
  shows "sc_reduce_product (map u [0..<23] @ [0]) = Some (sc_residue (\<Sum>k<23. u k * 2 ^ (21 * k)))"
proof -
  let ?s = "map u [0..<23] @ [0]"
  have "bounded sc_bounds_product ?s"
    unfolding bounded_def
  proof (intro conjI allI impI)
    fix i assume "i < length sc_bounds_product"
    then show "\<bar>?s ! i\<bar> \<le> sc_bounds_product ! i"
      using assms [of i] by (cases "i < 23") (simp_all add: sc_bounds_product_def nth_append)
  qed (simp add: sc_bounds_product_def)
  moreover have "sc_val 24 ?s = (\<Sum>k<23. u k * 2 ^ (21 * k))"
    using limbs_val_Suc [of "\<lambda>i. 21 * i" 23 ?s] by (simp add: nth_append limbs_val_def)
  ultimately show ?thesis by (simp add: sc_reduce_product_ok)
qed

lemma sum_first12: "(\<Sum>k<23. (if k < 12 then f k else 0)) = (\<Sum>k<12. f k)" for f :: "nat \<Rightarrow> int"
proof -
  have "{k \<in> {..<23}. k < (12::nat)} = {..<12}" by auto
  then show ?thesis by (simp flip: sum.inter_filter)
qed

lemma upt_23: "[0..<23] = [0..<12] @ [12..<22] @ [22]"
  by (simp add: upt_rec)

lemma sc_mul_ok:
  assumes "length a = 32" "length b = 32"
  shows "sc_mul a b = Some (sc_residue (int (le_nat a) * int (le_nat b)))"
proof -
  obtain l m where l: "sc_load a = Some l" "sc_limbs_of a l" and m: "sc_load b = Some m" "sc_limbs_of b m"
    using sc_load_ok assms by blast
  note p = sc_products_ok [OF l(2) m(2)]
  have "those (map (sc_products l m) [0..<23] @ [Some 0]) = Some (map (sc_conv l m) [0..<23] @ [0])"
    using p by (induction "[0..<23::nat]") (auto simp: upt_rec)
  moreover have "sc_reduce_product (map (sc_conv l m) [0..<23] @ [0]) = Some (sc_residue (sc_val 12 l * sc_val 12 m))"
    unfolding sc_conv_val [symmetric]
    by (rule sc_reduce_product_map) (use p in force)
  ultimately show ?thesis
    using l m by (simp add: sc_mul_def sc_mul_limbs_def sc_limbs_of_def)
qed

lemma sc_addend_sum:
  assumes "sc_limbs_of c n"
  shows "(\<Sum>k<23. ((if k < 12 then n ! k else 0) + x k) * 2 ^ (21 * k)) = int (le_nat c) + (\<Sum>k<23. x k * 2 ^ (21 * k))"
proof -
  have "(\<Sum>k<23. ((if k < 12 then n ! k else 0) + x k) * 2 ^ (21 * k))
      = (\<Sum>k<23. (if k < 12 then n ! k * 2 ^ (21 * k) else 0)) + (\<Sum>k<23. x k * 2 ^ (21 * k))"
    unfolding sum.distrib [symmetric] by (rule sum.cong) (simp_all add: algebra_simps)
  also have "(\<Sum>k<23. (if k < 12 then n ! k * 2 ^ (21 * k) else 0)) = sc_val 12 n"
    unfolding sum_first12 limbs_val_def ..
  finally show ?thesis using assms by (simp add: sc_limbs_of_def)
qed

lemma sc_muladd_ok:
  assumes "length a = 32" "length b = 32" "length c = 32"
  shows "sc_muladd a b c = Some (sc_residue (int (le_nat c) + int (le_nat a) * int (le_nat b)))"
proof -
  obtain l m n where l: "sc_load a = Some l" "sc_limbs_of a l" and m: "sc_load b = Some m" "sc_limbs_of b m"
    and n: "sc_load c = Some n" "sc_limbs_of c n"
    using sc_load_ok assms by blast
  note p = sc_products_ok [OF l(2) m(2)]
  define u where "u = (\<lambda>k. (if k < 12 then n ! k else 0) + sc_conv l m k)"
  have u: "\<bar>u k\<bar> \<le> 2 ^ 52" if "k < 23" for k
    using p [OF that] sc_limbs_of_bound(1,3) [OF n(2), of k] by (auto simp: u_def)
  have "i64 (n ! k + sc_conv l m k) = Some (u k)" if "k < 12" for k
    using u [of k] that i64_Some [of "u k"] by (simp add: u_def)
  then have "map (\<lambda>k. sc_products l m k \<bind> (\<lambda>p. i64 (n ! k + p))) [0..<12] = map (\<lambda>k. Some (u k)) [0..<12]"
    by (intro map_upt_eqI) (simp add: p)
  moreover have "map (sc_products l m) [12..<23] = map (\<lambda>k. Some (u k)) [12..<23]"
    by (intro map_upt_eqI) (simp add: p u_def)
  moreover have "[0..<23] = [0..<12] @ [12..<23::nat]" by (simp add: upt_rec)
  then have "map Some (map u [0..<23] @ [0]) = map (\<lambda>k. Some (u k)) [0..<12] @ map (\<lambda>k. Some (u k)) [12..<23] @ [Some 0]"
    by (simp only: map_append map_map comp_def list.map append_assoc)
  ultimately have "sc_muladd_limbs l m n = Some (map u [0..<23] @ [0])"
    unfolding sc_muladd_limbs_def by (metis those_Some)
  moreover have "(\<Sum>k<23. u k * 2 ^ (21 * k)) = int (le_nat c) + int (le_nat a) * int (le_nat b)"
    unfolding u_def sc_addend_sum [OF n(2)] sc_conv_val using l(2) m(2) by (simp add: sc_limbs_of_def)
  ultimately show ?thesis
    using l m n sc_reduce_product_map [of u, OF u] by (simp add: sc_muladd_def)
qed

lemma sc_mulsub_ok:
  assumes "length a = 32" "length b = 32" "length c = 32"
  shows "sc_mulsub a b c = Some (sc_residue (int (le_nat c) - int (le_nat a) * int (le_nat b)))"
proof -
  obtain l m n where l: "sc_load a = Some l" "sc_limbs_of a l" and m: "sc_load b = Some m" "sc_limbs_of b m"
    and n: "sc_load c = Some n" "sc_limbs_of c n"
    using sc_load_ok assms by blast
  note p = sc_products_ok [OF l(2) m(2)]
  define u where "u = (\<lambda>k. (if k < 12 then n ! k else 0) + - sc_conv l m k)"
  have u: "\<bar>u k\<bar> \<le> 2 ^ 52" if "k < 23" for k
    using p [OF that] sc_limbs_of_bound(1,3) [OF n(2), of k] by (auto simp: u_def)
  have "i64 (n ! k - sc_conv l m k) = Some (u k)" if "k < 12" for k
    using u [of k] that i64_Some [of "u k"] by (simp add: u_def)
  then have "map (\<lambda>k. sc_products l m k \<bind> (\<lambda>p. i64 (n ! k - p))) [0..<12] = map (\<lambda>k. Some (u k)) [0..<12]"
    by (intro map_upt_eqI) (simp add: p)
  moreover have "i64 (- sc_conv l m k) = Some (u k)" if "12 \<le> k" "k < 22" for k
    using u [of k] that i64_Some [of "u k"] by (simp add: u_def)
  then have "map (\<lambda>k. sc_products l m k \<bind> (\<lambda>p. i64 (- p))) [12..<22] = map (\<lambda>k. Some (u k)) [12..<22]"
    by (intro map_upt_eqI) (simp add: p)
  moreover have "i64 (- (l ! 11)) \<bind> (\<lambda>x. i64 (x * m ! 11)) = Some (u 22)"
  proof -
    have "{11..<12} = {11::nat}" by auto
    then have "sc_conv l m 22 = l ! 11 * m ! 11" by (simp add: sc_conv_def)
    moreover have "i64 (- (l ! 11)) = Some (- (l ! 11))"
      using sc_limbs_of_bound(1,3) [OF l(2), of 11] by (intro i64_Some) simp
    ultimately show ?thesis using u [of 22] by (simp add: u_def i64_Some)
  qed
  moreover have "map Some (map u [0..<23] @ [0])
      = map (\<lambda>k. Some (u k)) [0..<12] @ map (\<lambda>k. Some (u k)) [12..<22] @ [Some (u 22), Some 0]"
    by (simp only: upt_23 map_append map_map comp_def list.map append_assoc append.simps)
  ultimately have "sc_mulsub_limbs l m n = Some (map u [0..<23] @ [0])"
    unfolding sc_mulsub_limbs_def by (metis those_Some)
  moreover have "(\<Sum>k<23. u k * 2 ^ (21 * k)) = int (le_nat c) - int (le_nat a) * int (le_nat b)"
    unfolding u_def sc_addend_sum [OF n(2)] mult_minus_left sum_negf sc_conv_val
    using l(2) m(2) by (simp add: sc_limbs_of_def)
  ultimately show ?thesis
    using l m n sc_reduce_product_map [of u, OF u] by (simp add: sc_mulsub_def)
qed

section \<open>Checking a scalar\<close>

text \<open>
  Comparing two numbers word by word: the sign of the weighted sum of the words' signs is the
  sign of the difference, the most significant word that differs deciding both.
\<close>

lemma signum_step:
  assumes "signum S = signum V" "\<bar>S\<bar> < K" "\<bar>V\<bar> < M" "\<bar>e\<bar> < 2 ^ 32"
  shows "signum (S + signum e * K) = signum (V + e * M) \<and> \<bar>S + signum e * K\<bar> < 2 * K \<and> \<bar>V + e * M\<bar> < 2 ^ 32 * M"
proof -
  have M: "0 < M" using assms(3) by linarith
  have e: "\<bar>e * M\<bar> \<le> (2 ^ 32 - 1) * M" using assms(4) M by (simp add: abs_mult mult_right_mono)
  then have V: "\<bar>V + e * M\<bar> < 2 ^ 32 * M" using assms(3) by (simp add: left_diff_distrib)
  consider "e = 0" | "0 < e" | "e < 0" by linarith
  then show ?thesis
  proof cases
    case 1
    then show ?thesis using assms M by (simp add: signum_def)
  next
    case 2
    then have "1 * M \<le> e * M" using M by (intro mult_right_mono) simp_all
    then have "0 < S + K" "0 < V + e * M" "S + K < 2 * K" using assms by linarith+
    then show ?thesis using 2 V by (simp add: signum_def)
  next
    case 3
    then have "e * M \<le> (- 1) * M" using M by (intro mult_right_mono) simp_all
    then have "S - K < 0" "V + e * M < 0" "- (2 * K) < S - K" using assms by linarith+
    then show ?thesis using 3 V by (simp add: signum_def)
  qed
qed

lemma le_nat_words:
  assumes "length s = 32"
  shows "int (le_nat s) = sint (load_4 s) + 2 ^ 32 * sint (load_4 (drop 4 s)) + 2 ^ 64 * sint (load_4 (drop 8 s))
    + 2 ^ 96 * sint (load_4 (drop 12 s)) + 2 ^ 128 * sint (load_4 (drop 16 s)) + 2 ^ 160 * sint (load_4 (drop 20 s))
    + 2 ^ 192 * sint (load_4 (drop 24 s)) + 2 ^ 224 * sint (load_4 (drop 28 s))"
    and "j + 4 \<le> 32 \<Longrightarrow> 0 \<le> sint (load_4 (drop j s)) \<and> sint (load_4 (drop j s)) < 2 ^ 32"
proof -
  have word: "sint (load_4 (drop j s)) = int (le_nat (take 4 (drop j s))) \<and> le_nat (take 4 (drop j s)) < 2 ^ 32"
    if "j + 4 \<le> 32" for j
  proof -
    have "length (take 4 (drop j s)) = 4" using that assms by simp
    then have "le_nat (take 4 (drop j s)) < 2 ^ 32" using le_nat_bound [of "take 4 (drop j s)"] by simp
    then show ?thesis
      using sint_small(1) [of "le_nat (take 4 (drop j s))" 0] load_le(2) [of "drop j s"] that assms by simp
  qed
  show "0 \<le> sint (load_4 (drop j s)) \<and> sint (load_4 (drop j s)) < 2 ^ 32" if "j + 4 \<le> 32"
    using word [OF that] by simp
  define W where "W = (\<lambda>j. le_nat (take 4 (drop j s)))"
  have cut: "le_nat (drop j s) = W j + 2 ^ 32 * le_nat (drop (j + 4) s)" if "j + 4 \<le> 32" for j
    using le_nat_append [of "take 4 (drop j s)" "drop 4 (drop j s)"] that assms
    unfolding append_take_drop_id by (simp add: add.commute W_def)
  have "le_nat s = W 0 + 2 ^ 32 * le_nat (drop 4 s)" using cut [of 0] by simp
  also have "le_nat (drop 4 s) = W 4 + 2 ^ 32 * le_nat (drop 8 s)" using cut [of 4] by simp
  also have "le_nat (drop 8 s) = W 8 + 2 ^ 32 * le_nat (drop 12 s)" using cut [of 8] by simp
  also have "le_nat (drop 12 s) = W 12 + 2 ^ 32 * le_nat (drop 16 s)" using cut [of 12] by simp
  also have "le_nat (drop 16 s) = W 16 + 2 ^ 32 * le_nat (drop 20 s)" using cut [of 16] by simp
  also have "le_nat (drop 20 s) = W 20 + 2 ^ 32 * le_nat (drop 24 s)" using cut [of 20] by simp
  also have "le_nat (drop 24 s) = W 24 + 2 ^ 32 * le_nat (drop 28 s)" using cut [of 24] by simp
  also have "le_nat (drop 28 s) = W 28" using cut [of 28] assms by simp
  finally have "int (le_nat s) = int (W 0) + 2 ^ 32 * int (W 4) + 2 ^ 64 * int (W 8) + 2 ^ 96 * int (W 12)
    + 2 ^ 128 * int (W 16) + 2 ^ 160 * int (W 20) + 2 ^ 192 * int (W 24) + 2 ^ 224 * int (W 28)"
    by simp
  moreover have "sint (load_4 (drop j s)) = int (W j)" if "j + 4 \<le> 32" for j
    using word [OF that] by (simp add: W_def)
  from this [of 0] this [of 4] this [of 8] this [of 12] this [of 16] this [of 20] this [of 24] this [of 28]
  have "sint (load_4 s) = int (W 0)" "sint (load_4 (drop 4 s)) = int (W 4)" "sint (load_4 (drop 8 s)) = int (W 8)"
    "sint (load_4 (drop 12 s)) = int (W 12)" "sint (load_4 (drop 16 s)) = int (W 16)"
    "sint (load_4 (drop 20 s)) = int (W 20)" "sint (load_4 (drop 24 s)) = int (W 24)"
    "sint (load_4 (drop 28 s)) = int (W 28)" by simp_all
  ultimately show "int (le_nat s) = sint (load_4 s) + 2 ^ 32 * sint (load_4 (drop 4 s)) + 2 ^ 64 * sint (load_4 (drop 8 s))
    + 2 ^ 96 * sint (load_4 (drop 12 s)) + 2 ^ 128 * sint (load_4 (drop 16 s)) + 2 ^ 160 * sint (load_4 (drop 20 s))
    + 2 ^ 192 * sint (load_4 (drop 24 s)) + 2 ^ 224 * sint (load_4 (drop 28 s))"
    by (simp only:)
qed

lemma sc_check_ok:
  assumes "length s = 32"
  shows "sc_check s = Some (if int (le_nat s) < sc_L then 0 else - 1)"
proof -
  define d where "d = (\<lambda>j. sint (load_4 (drop j s)))"
  have N: "int (le_nat s) = d 0 + 2 ^ 32 * d 4 + 2 ^ 64 * d 8 + 2 ^ 96 * d 12 + 2 ^ 128 * d 16
      + 2 ^ 160 * d 20 + 2 ^ 192 * d 24 + 2 ^ 224 * d 28"
    using le_nat_words(1) [OF assms] by (simp add: d_def)
  have d: "0 \<le> d j \<and> d j < 2 ^ 32" if "j + 4 \<le> 32" for j
    using le_nat_words(2) [OF assms that] by (simp add: d_def)
  let ?S = "signum (1559614444 - d 0) + signum (1477600026 - d 4) * 2 ^ 1 + signum (2734136534 - d 8) * 2 ^ 2
    + signum (350157278 - d 12) * 2 ^ 3 + signum (- d 16) * 2 ^ 4 + signum (- d 20) * 2 ^ 5
    + signum (- d 24) * 2 ^ 6 + signum (268435456 - d 28) * 2 ^ 7"
  define V where "V = (1559614444 - d 0) + (1477600026 - d 4) * 2 ^ 32 + (2734136534 - d 8) * 2 ^ 64
    + (350157278 - d 12) * 2 ^ 96 + (- d 16) * 2 ^ 128 + (- d 20) * 2 ^ 160 + (- d 24) * 2 ^ 192
    + (268435456 - d 28) * 2 ^ 224"
  have b: "\<bar>1559614444 - d 0\<bar> < 2 ^ 32" "\<bar>1477600026 - d 4\<bar> < 2 ^ 32" "\<bar>2734136534 - d 8\<bar> < 2 ^ 32"
    "\<bar>350157278 - d 12\<bar> < 2 ^ 32" "\<bar>- d 16\<bar> < 2 ^ 32" "\<bar>- d 20\<bar> < 2 ^ 32" "\<bar>- d 24\<bar> < 2 ^ 32"
    "\<bar>268435456 - d 28\<bar> < 2 ^ 32"
    using d [of 0] d [of 4] d [of 8] d [of 12] d [of 16] d [of 20] d [of 24] d [of 28]
    by (auto simp: abs_less_iff)
  have s0: "signum 0 = signum 0" "\<bar>0::int\<bar> < 2 ^ 0" "\<bar>0::int\<bar> < 1" by simp_all
  note s1 = signum_step [OF s0 b(1)]
  note s2 = signum_step [OF s1 [THEN conjunct1] s1 [THEN conjunct2, THEN conjunct1] s1 [THEN conjunct2, THEN conjunct2] b(2)]
  note s3 = signum_step [OF s2 [THEN conjunct1] s2 [THEN conjunct2, THEN conjunct1] s2 [THEN conjunct2, THEN conjunct2] b(3)]
  note s4 = signum_step [OF s3 [THEN conjunct1] s3 [THEN conjunct2, THEN conjunct1] s3 [THEN conjunct2, THEN conjunct2] b(4)]
  note s5 = signum_step [OF s4 [THEN conjunct1] s4 [THEN conjunct2, THEN conjunct1] s4 [THEN conjunct2, THEN conjunct2] b(5)]
  note s6 = signum_step [OF s5 [THEN conjunct1] s5 [THEN conjunct2, THEN conjunct1] s5 [THEN conjunct2, THEN conjunct2] b(6)]
  note s7 = signum_step [OF s6 [THEN conjunct1] s6 [THEN conjunct2, THEN conjunct1] s6 [THEN conjunct2, THEN conjunct2] b(7)]
  note s8 = signum_step [OF s7 [THEN conjunct1] s7 [THEN conjunct2, THEN conjunct1] s7 [THEN conjunct2, THEN conjunct2] b(8)]
  define S where "S = ?S"
  have "signum S = signum V" "\<bar>S\<bar> < 2 ^ 8"
    unfolding S_def using s8 by (simp_all add: V_def)
  moreover have "V = sc_L - 1 - int (le_nat s)" by (simp add: V_def N sc_L_def)
  ultimately have "S < 0 \<longleftrightarrow> sc_L \<le> int (le_nat s)" "- (2 ^ 8) \<le> S" "S < 2 ^ 8"
    by (auto simp: signum_def split: if_splits)
  then have "S div 2 ^ 8 = (if int (le_nat s) < sc_L then 0 else - 1)"
    by auto
  then show ?thesis using assms by (simp add: sc_check_def Let_def d_def S_def)
qed

lemma sc_isnonzero_ok:
  "length s = 32 \<Longrightarrow> sc_isnonzero s = Some (if le_nat s = 0 then 0 else 1)"
  by (simp add: sc_isnonzero_def any_byte_eq)

section \<open>Properties\<close>

text \<open>
  C3: \<open>sc_reduce\<close> takes any 64-byte number to its residue modulo \<open>L\<close>, fully reduced, and no
  64-bit operation on the way overflows.
\<close>

theorem sc_reduce_is_mod:
  assumes "length s = 64"
  shows "sc_reduce s = Some (le_bytes 32 (nat (int (le_nat s) mod sc_L)))"
  using sc_reduce_ok [OF assms] by (simp only: sc_residue_def)

theorem sc_reduce_is_mod_witness:
  "sc_reduce (replicate 64 255) = Some (le_bytes 32 (nat (int (le_nat (replicate 64 255)) mod sc_L)))"
  by (rule sc_reduce_is_mod) simp

text \<open>
  C4: \<open>sc_muladd\<close> and \<open>sc_mulsub\<close> compute \<open>c + a b\<close> and \<open>c - a b\<close> modulo \<open>L\<close>, for all
  32-byte numbers, also those of \<open>L\<close> and more.
\<close>

theorem sc_muladd_mulsub:
  assumes "length a = 32" "length b = 32" "length c = 32"
  shows "sc_muladd a b c = Some (sc_residue (int (le_nat c) + int (le_nat a) * int (le_nat b)))
    \<and> sc_mulsub a b c = Some (sc_residue (int (le_nat c) - int (le_nat a) * int (le_nat b)))"
  using sc_muladd_ok [OF assms] sc_mulsub_ok [OF assms] by simp

theorem sc_muladd_mulsub_witness:
  "sc_mulsub (replicate 32 255) (replicate 32 254) (replicate 32 1)
     = Some (sc_residue (int (le_nat (replicate 32 1)) - int (le_nat (replicate 32 255)) * int (le_nat (replicate 32 254))))"
  using sc_muladd_mulsub [of "replicate 32 255" "replicate 32 254" "replicate 32 1"] by (simp only: length_replicate)

text \<open>\<open>sc_mul\<close> is multiplication modulo \<open>L\<close>.\<close>

theorem sc_mul_is_product:
  assumes "length a = 32" "length b = 32"
  shows "sc_mul a b = Some (sc_residue (int (le_nat a) * int (le_nat b)))"
  using assms by (rule sc_mul_ok)

theorem sc_mul_is_product_witness:
  "sc_mul (replicate 32 255) (replicate 32 254)
     = Some (sc_residue (int (le_nat (replicate 32 255)) * int (le_nat (replicate 32 254))))"
  by (rule sc_mul_is_product) simp_all

text \<open>
  C31: \<open>sc_add\<close>, \<open>sc_sub\<close> and \<open>sc_reduce32\<close> compute the sum, the difference and the residue
  modulo \<open>L\<close> of any 32-byte numbers.
\<close>

theorem sc_add_sub_reduce32:
  assumes "length a = 32" "length b = 32"
  shows "sc_add a b = Some (sc_residue (int (le_nat a) + int (le_nat b)))
    \<and> sc_sub a b = Some (sc_residue (int (le_nat a) - int (le_nat b)))
    \<and> sc_reduce32 a = Some (sc_residue (int (le_nat a)))"
  using sc_add_ok [OF assms] sc_sub_ok [OF assms] sc_reduce32_ok [OF assms(1)] by simp

theorem sc_add_sub_reduce32_witness:
  "sc_sub (replicate 32 0) (replicate 32 255)
     = Some (sc_residue (int (le_nat (replicate 32 0)) - int (le_nat (replicate 32 255))))"
  using sc_add_sub_reduce32 [of "replicate 32 0" "replicate 32 255"] by (simp only: length_replicate)

text \<open>
  C32: \<open>sc_check\<close> returns 0 on exactly the canonical scalars, those below \<open>L\<close>, and -1 on all
  others; everything \<open>sc_reduce32\<close> gives passes it; \<open>sc_isnonzero\<close> tells 0 from the rest.
\<close>

theorem sc_check_canonical:
  assumes "length s = 32"
  shows "sc_check s = Some (if int (le_nat s) < sc_L then 0 else - 1)
    \<and> sc_reduce32 s \<bind> sc_check = Some 0
    \<and> sc_isnonzero s = Some (if le_nat s = 0 then 0 else 1)"
proof -
  have L: "0 < sc_L" "sc_L < 2 ^ 256" by (simp_all add: sc_L_def)
  let ?x = "int (le_nat s) mod sc_L"
  have x: "0 \<le> ?x" "?x < sc_L" using L(1) by simp_all
  have "le_nat (le_bytes 32 (nat ?x)) = nat ?x"
    using le_nat_le_bytes [of 32 "nat ?x"] x L(2) by (simp add: nat_less_iff)
  then have "sc_check (sc_residue (int (le_nat s))) = Some 0"
    using sc_check_ok [of "sc_residue (int (le_nat s))"] x by (simp add: sc_residue_def)
  then show ?thesis
    using sc_check_ok [OF assms] sc_isnonzero_ok [OF assms] sc_reduce32_ok [OF assms] by simp
qed

theorem sc_check_canonical_witness:
  "sc_check (replicate 31 0 @ [255]) = Some (- 1) \<and> sc_isnonzero (replicate 31 0 @ [255]) = Some 1"
proof -
  have "le_nat (replicate k 0) = 0" for k by (induction k) simp_all
  then have "le_nat (replicate 31 0 @ [255]) = 256 ^ 31 * 255" by (simp add: le_nat_append)
  with sc_check_canonical [of "replicate 31 0 @ [255]"] show ?thesis by (simp add: sc_L_def)
qed

end
