(* ===== verification/Ge_Recode.thy ===== *)
theory Ge_Recode
  imports Sc
begin

unbundle bit_operations_syntax

text \<open>
  How \<^verbatim>\<open>src/base/tools/cryptonote/crypto-ops.c\<close> rewrites a scalar of 32 bytes before it multiplies
  a point by it: \<open>slide\<close>, signed odd digits in base 2 with a window of at most five bits, and the two
  conversions to 64 digits in base 16, from -8 to 8, of \<open>ge_scalarmult_base\<close> and \<open>ge_scalarmult\<close>.
  The digits are \<open>signed char\<close>; every value stored is shown to be one, so no conversion truncates.
\<close>

section \<open>The code\<close>

definition slide_bits :: "bytes \<Rightarrow> int list" where
  "slide_bits a = map (\<lambda>i. uint (1 AND drop_bit (i mod 8) (a ! (i div 8)))) [0..<256]"

function slide_carry :: "nat \<Rightarrow> int list \<Rightarrow> int list" where
  \<comment> \<open>the loop over \<open>k\<close>: add one at position \<open>k\<close>\<close>
  "slide_carry k r =
     (if k < 256 then if r ! k = 0 then r[k := 1] else slide_carry (k + 1) (r[k := 0]) else r)"
  by pat_completeness auto
termination by (relation "measure (\<lambda>(k, r). 256 - k)") auto

function slide_digit :: "nat \<Rightarrow> nat \<Rightarrow> int list \<Rightarrow> int list" where
  \<comment> \<open>the loop over \<open>b\<close>: gather the bits above position \<open>i\<close> into its digit\<close>
  "slide_digit i b r =
     (if b \<le> 6 \<and> i + b < 256 then
        if r ! (i + b) \<noteq> 0 then
          if r ! i + r ! (i + b) * 2 ^ b \<le> 15 then
            slide_digit i (b + 1) (r[i := r ! i + r ! (i + b) * 2 ^ b, i + b := 0])
          else if r ! i - r ! (i + b) * 2 ^ b \<ge> - 15 then
            slide_digit i (b + 1) (slide_carry (i + b) (r[i := r ! i - r ! (i + b) * 2 ^ b]))
          else r
        else slide_digit i (b + 1) r
      else r)"
  by pat_completeness auto
termination by (relation "measure (\<lambda>(i, b, r). 7 - b)") auto

definition slide_step :: "nat \<Rightarrow> int list \<Rightarrow> int list" where
  "slide_step i r = (if r ! i \<noteq> 0 then slide_digit i 1 r else r)"

definition slide :: "bytes \<Rightarrow> int list" where
  "slide a = fold slide_step [0..<256] (slide_bits a)"

declare slide_carry.simps [simp del] slide_digit.simps [simp del]

definition base16_nibbles :: "bytes \<Rightarrow> int list" where
  "base16_nibbles a =
     map (\<lambda>j. uint (drop_bit (4 * (j mod 2)) (a ! (j div 2)) AND 15)) [0..<64]"

fun base16_carry :: "nat \<Rightarrow> nat \<Rightarrow> int \<Rightarrow> int list \<Rightarrow> int list" where
  \<comment> \<open>\<open>n\<close> rounds of the carry loop of \<open>ge_scalarmult_base\<close> from position \<open>i\<close>, then \<open>e[63] += carry\<close>\<close>
  "base16_carry i 0 carry e = e[i := e ! i + carry]"
| "base16_carry i (Suc n) carry e =
     (let x = e ! i + carry; carry = (x + 8) div 2 ^ 4
      in base16_carry (i + 1) n carry (e[i := x - carry * 2 ^ 4]))"

definition base16_digits :: "bytes \<Rightarrow> int list" where
  "base16_digits a = base16_carry 0 63 0 (base16_nibbles a)"

fun base16_pairs :: "int \<Rightarrow> bytes \<Rightarrow> int list" where
  \<comment> \<open>the loop of \<open>ge_scalarmult\<close>, two digits for each byte, the last byte after it\<close>
  "base16_pairs carry [] = []"
| "base16_pairs carry [b] =
     (let carry = carry + uint b; carry2 = (carry + 8) div 2 ^ 4
      in [carry - carry2 * 2 ^ 4, carry2])"
| "base16_pairs carry (b # bs) =
     (let carry = carry + uint b; carry2 = (carry + 8) div 2 ^ 4;
          carry' = (carry2 + 8) div 2 ^ 4
      in (carry - carry2 * 2 ^ 4) # (carry2 - carry' * 2 ^ 4) # base16_pairs carry' bs)"

section \<open>The value of a list of digits\<close>

fun digits_value :: "int \<Rightarrow> int list \<Rightarrow> int" where
  "digits_value q [] = 0"
| "digits_value q (d # ds) = d + q * digits_value q ds"

lemma digits_value_append:
  "digits_value q (xs @ ys) = digits_value q xs + q ^ length xs * digits_value q ys"
  by (induction xs) (simp_all add: algebra_simps)

abbreviation value_from :: "nat \<Rightarrow> int list \<Rightarrow> int" where
  "value_from k r \<equiv> digits_value 2 (drop k r)"

lemma value_from_Suc: "k < length r \<Longrightarrow> value_from k r = r ! k + 2 * value_from (k + 1) r"
  by (simp flip: Cons_nth_drop_Suc)

lemma value_from_end: "length r \<le> k \<Longrightarrow> value_from k r = 0"
  by simp

lemma value_from_take: "value_from 0 r = digits_value 2 (take k r) + 2 ^ k * value_from k r" if "k \<le> length r"
  using digits_value_append [of 2 "take k r" "drop k r"] that by simp

definition bits_from :: "nat \<Rightarrow> int list \<Rightarrow> bool" where
  "bits_from k r \<longleftrightarrow> (\<forall>j. k \<le> j \<longrightarrow> j < length r \<longrightarrow> r ! j = 0 \<or> r ! j = 1)"

lemma bits_fromD: "bits_from k r \<Longrightarrow> k \<le> j \<Longrightarrow> j < length r \<Longrightarrow> r ! j = 0 \<or> r ! j = 1"
  by (simp add: bits_from_def)

lemma bits_from_mono: "bits_from k r \<Longrightarrow> k \<le> l \<Longrightarrow> bits_from l r"
  by (simp add: bits_from_def)

lemma bits_from_update: "bits_from k r \<Longrightarrow> x = 0 \<or> x = 1 \<or> j < k \<Longrightarrow> bits_from k (r[j := x])"
  unfolding bits_from_def by (metis length_list_update nth_list_update_eq nth_list_update_neq not_le)

lemma bits_from_Suc: "bits_from k r \<longleftrightarrow> (k < length r \<longrightarrow> r ! k = 0 \<or> r ! k = 1) \<and> bits_from (k + 1) r"
proof -
  have "(\<forall>j. k \<le> j \<longrightarrow> P j) \<longleftrightarrow> P k \<and> (\<forall>j. k + 1 \<le> j \<longrightarrow> P j)" for P
    by (metis Suc_eq_plus1 Suc_leD le_refl not_less_eq_eq order_antisym)
  from this [of "\<lambda>j. j < length r \<longrightarrow> r ! j = 0 \<or> r ! j = 1"] show ?thesis
    unfolding bits_from_def .
qed

section \<open>The sliding window\<close>

lemma slide_carry_ok:
  assumes "length r = 256" "bits_from k r" "value_from k r + 1 < 2 ^ (256 - k)"
  shows "length (slide_carry k r) = 256 \<and> take k (slide_carry k r) = take k r
    \<and> bits_from k (slide_carry k r) \<and> value_from k (slide_carry k r) = value_from k r + 1
    \<and> (k < 256 \<longrightarrow> r ! k \<noteq> 0 \<longrightarrow> slide_carry k r ! k = 0)"
  using assms
proof (induction k r rule: slide_carry.induct)
  case (1 k r)
  have k: "k < 256"
    using 1(2-4) by (cases "k < 256") auto
  note v = value_from_Suc [of k r]
  show ?case
  proof (cases "r ! k = 0")
    case True
    then show ?thesis
      using k 1(2,3) v by (simp add: slide_carry.simps [of k] value_from_Suc [of k] bits_from_update)
  next
    case False
    let ?r = "r[k := 0]"
    let ?s = "slide_carry (k + 1) ?r"
    have one: "r ! k = 1" using False 1(2,3) k by (auto dest: bits_fromD)
    have "256 - k = Suc (256 - (k + 1))" using k by simp
    then have "2 * (value_from (k + 1) r + 1) < 2 * 2 ^ (256 - (k + 1))"
      using 1(2,4) v one k by (simp only: power_Suc) simp
    then have "value_from (k + 1) ?r + 1 < 2 ^ (256 - (k + 1))" by simp
    moreover have "bits_from (k + 1) ?r" using 1(3) by (auto intro: bits_from_update bits_from_mono)
    ultimately have s: "length ?s = 256" "take (k + 1) ?s = take (k + 1) ?r" "bits_from (k + 1) ?s"
      "value_from (k + 1) ?s = value_from (k + 1) r + 1"
      using 1(1) [OF k False] 1(2) by simp_all
    have sk: "?s ! k = 0"
      using arg_cong [OF s(2), of "\<lambda>xs. xs ! k"] k 1(2) by simp
    have "take k ?s = take k r"
      using arg_cong [OF s(2), of "take k"] by (simp add: min_def)
    moreover have "value_from k ?s = value_from k r + 1"
      using value_from_Suc [of k ?s] k s(1,4) sk one v 1(2) by simp
    moreover have "bits_from k ?s"
      using bits_from_Suc [of k ?s] s(3) sk by simp
    moreover have "slide_carry k r = ?s"
      using k False by (simp add: slide_carry.simps [of k r])
    ultimately show ?thesis
      using s(1) sk by simp
  qed
qed

definition slide_window :: "nat \<Rightarrow> nat \<Rightarrow> int list \<Rightarrow> bool" where
  \<comment> \<open>position \<open>i\<close> has gathered the bits below \<open>i + b\<close>\<close>
  "slide_window i b r \<longleftrightarrow> length r = 256 \<and> 0 < b \<and> i + b \<le> 256 \<and> odd (r ! i) \<and> - 15 \<le> r ! i \<and> r ! i \<le> 15
     \<and> r ! i < 2 ^ b \<and> bits_from (i + 1) r \<and> (\<forall>j. i < j \<longrightarrow> j < i + b \<longrightarrow> r ! j = 0)
     \<and> value_from (i + b) r * 2 ^ (i + b) \<le> 2 ^ 255
     \<and> (0 < r ! i \<longrightarrow> value_from (i + b) r * 2 ^ (i + b) < 2 ^ 255)"

lemma value_from_zeros:
  assumes "k + b \<le> length r" "\<And>j. k \<le> j \<Longrightarrow> j < k + b \<Longrightarrow> r ! j = 0"
  shows "value_from k r = 2 ^ b * value_from (k + b) r"
  using assms
proof (induction b arbitrary: k)
  case (Suc b)
  then have "value_from (k + 1) r = 2 ^ b * value_from (k + 1 + b) r" by simp
  then show ?case using Suc.prems value_from_Suc [of k r] by simp
qed simp

lemma slide_window_value:
  assumes "slide_window i b r"
  shows "value_from i r = r ! i + 2 ^ b * value_from (i + b) r"
    and "value_from (i + 1) r * 2 ^ (i + 1) = value_from (i + b) r * 2 ^ (i + b)"
proof -
  obtain c where c: "b = c + 1" using assms by (cases b) (auto simp: slide_window_def)
  have "value_from (i + 1) r = 2 ^ c * value_from (i + 1 + c) r"
    using assms c by (intro value_from_zeros) (auto simp: slide_window_def)
  moreover have "value_from i r = r ! i + 2 * value_from (i + 1) r"
    using assms c by (intro value_from_Suc) (auto simp: slide_window_def)
  ultimately show "value_from i r = r ! i + 2 ^ b * value_from (i + b) r"
    "value_from (i + 1) r * 2 ^ (i + 1) = value_from (i + b) r * 2 ^ (i + b)"
    by (simp_all add: c power_add)
qed

lemma slide_skip:
  assumes "slide_window i b r" "i + b < 256" "r ! (i + b) = 0"
  shows "slide_window i (b + 1) r"
proof -
  have "value_from (i + b) r * 2 ^ (i + b) = value_from (i + (b + 1)) r * 2 ^ (i + (b + 1))"
    using assms value_from_Suc [of "i + b" r] by (simp add: slide_window_def)
  moreover have "r ! i < 2 ^ (b + 1)"
  proof -
    have "(2 :: int) ^ b \<le> 2 ^ (b + 1)" by simp
    then show ?thesis using assms(1) unfolding slide_window_def by linarith
  qed
  ultimately show ?thesis
    using assms unfolding slide_window_def by (auto simp: less_Suc_eq)
qed

lemma slide_absorb:
  assumes w: "slide_window i b r" "i + b < 256" "r ! (i + b) = 1" "r ! i + 2 ^ b \<le> 15"
  defines "s \<equiv> r[i := r ! i + 2 ^ b, i + b := 0]"
  shows "slide_window i (b + 1) s" "take i s = take i r" "value_from i s = value_from i r"
proof -
  have l: "length r = 256" "0 < b" using w(1) by (simp_all add: slide_window_def)
  have v: "value_from (i + b) r = 1 + 2 * value_from (i + (b + 1)) r"
    using w(2,3) l value_from_Suc [of "i + b" r] by simp
  have vs: "value_from (i + (b + 1)) s = value_from (i + (b + 1)) r" by (simp add: s_def)
  have si: "s ! i = r ! i + 2 ^ b" using w(2) l by (simp add: s_def)
  have "value_from (i + (b + 1)) s * 2 ^ (i + (b + 1)) < value_from (i + b) r * 2 ^ (i + b)"
    unfolding vs v by (simp add: distrib_right)
  then have "value_from (i + (b + 1)) s * 2 ^ (i + (b + 1)) < 2 ^ 255"
    using w(1) unfolding slide_window_def by linarith
  moreover have "bits_from (i + 1) s"
    using w(1) unfolding s_def slide_window_def by (intro bits_from_update) auto
  moreover have "s ! j = 0" if "i < j" "j < i + (b + 1)" for j
    using that w l by (cases "j = i + b") (auto simp: s_def slide_window_def)
  moreover have "odd (s ! i)" "- 15 \<le> s ! i" "s ! i \<le> 15" "s ! i < 2 ^ (b + 1)"
    using w(1,4) l(2) unfolding slide_window_def si by (auto simp: add_increasing2)
  ultimately show w': "slide_window i (b + 1) s"
    using w(2) l unfolding slide_window_def by (simp add: s_def)
  show "take i s = take i r" by (simp add: s_def)
  show "value_from i s = value_from i r"
    using slide_window_value(1) [OF w(1)] slide_window_value(1) [OF w'] v vs si by (simp add: algebra_simps)
qed

lemma slide_borrow:
  assumes w: "slide_window i b r" "i + b < 256" "r ! (i + b) = 1" "15 < r ! i + 2 ^ b" "- 15 \<le> r ! i - 2 ^ b"
  defines "s \<equiv> slide_carry (i + b) (r[i := r ! i - 2 ^ b])"
  shows "slide_window i (b + 1) s" "take i s = take i r" "value_from i s = value_from i r"
proof -
  let ?r = "r[i := r ! i - 2 ^ b]"
  have l: "length r = 256" "0 < b" using w(1) by (simp_all add: slide_window_def)
  have "0 < r ! i" using w(4,5) by linarith
  then have lt: "value_from (i + b) r * 2 ^ (i + b) < 2 ^ 255" using w(1) by (simp add: slide_window_def)
  have "(2 :: int) ^ 255 = 2 ^ (255 - (i + b)) * 2 ^ (i + b)"
    using w(2) by (simp flip: power_add)
  then have fits: "value_from (i + b) r < 2 ^ (255 - (i + b))"
    using lt by (simp only: mult_less_cancel_right_pos zero_less_power zero_less_numeral)
  have "(2 :: int) ^ (256 - (i + b)) = 2 * 2 ^ (255 - (i + b))" "(1 :: int) \<le> 2 ^ (255 - (i + b))"
    using w(2) by (simp_all flip: power_Suc add: Suc_diff_le)
  with fits have "value_from (i + b) r + 1 < 2 ^ (256 - (i + b))"
    by linarith
  then have small: "value_from (i + b) ?r + 1 < 2 ^ (256 - (i + b))"
    using l by simp
  have "bits_from (i + b) ?r"
    using w(1) l(2) unfolding slide_window_def by (auto intro: bits_from_update bits_from_mono)
  from slide_carry_ok [OF _ this small] w(2,3) l
  have s: "length s = 256" "take (i + b) s = take (i + b) ?r" "bits_from (i + b) s"
    "value_from (i + b) s = value_from (i + b) r + 1" "s ! (i + b) = 0"
    by (simp_all add: s_def)
  have low: "s ! j = ?r ! j" if "j < i + b" for j
    using arg_cong [OF s(2), of "\<lambda>xs. xs ! j"] that by simp
  have v: "value_from (i + b) s = 2 * value_from (i + (b + 1)) s"
    using w(2) s(1,5) value_from_Suc [of "i + b" s] by simp
  have zeros: "s ! j = 0" if "i < j" "j < i + (b + 1)" for j
    using that w low [of j] s(5) l by (cases "j = i + b") (auto simp: slide_window_def)
  have si: "s ! i = r ! i - 2 ^ b" using low [of i] l w(2) by simp
  have "value_from (i + (b + 1)) s * 2 ^ (i + (b + 1)) = (value_from (i + b) r + 1) * 2 ^ (i + b)"
    using v s(4) by simp
  also have "\<dots> \<le> 2 ^ 255"
  proof -
    have "value_from (i + b) r + 1 \<le> 2 ^ (255 - (i + b))"
      using fits by simp
    then show ?thesis
      unfolding \<open>(2 :: int) ^ 255 = 2 ^ (255 - (i + b)) * 2 ^ (i + b)\<close> by (rule mult_right_mono) simp
  qed
  finally have "value_from (i + (b + 1)) s * 2 ^ (i + (b + 1)) \<le> 2 ^ 255" .
  moreover have "bits_from (i + 1) s"
    unfolding bits_from_def
  proof (intro allI impI)
    fix j assume "i + 1 \<le> j" "j < length s"
    then show "s ! j = 0 \<or> s ! j = 1"
      using zeros [of j] bits_fromD [OF s(3), of j] by (cases "j < i + (b + 1)") auto
  qed
  moreover have "odd (s ! i)" "- 15 \<le> s ! i" "s ! i < 0"
    using w(1,5) l(2) unfolding slide_window_def si by auto
  moreover have "(0 :: int) < 2 ^ (b + 1)" by simp
  ultimately show w': "slide_window i (b + 1) s"
    using w(2) s(1) zeros unfolding slide_window_def by (simp add: order.strict_trans)
  show "take i s = take i r"
    using arg_cong [OF s(2), of "take i"] by (simp add: min_def)
  show "value_from i s = value_from i r"
  proof -
    have "2 ^ b * (2 * value_from (i + (b + 1)) s) = 2 ^ b * (value_from (i + b) r + 1)"
      using v s(4) by simp
    then show ?thesis
      using slide_window_value(1) [OF w(1)] slide_window_value(1) [OF w'] si by (simp add: algebra_simps)
  qed
qed

lemma slide_digit_ok:
  assumes "slide_window i b r"
  shows "(\<exists>c. slide_window i c (slide_digit i b r)) \<and> take i (slide_digit i b r) = take i r
    \<and> value_from i (slide_digit i b r) = value_from i r"
  using assms
proof (induction i b r rule: slide_digit.induct)
  case (1 i b r)
  note ih = 1(1-3) and w = 1(4)
  note simps = slide_digit.simps [of i b r]
  show ?case
  proof (cases "b \<le> 6 \<and> i + b < 256")
    case False
    have "slide_digit i b r = r" by (simp only: simps False if_False)
    with w show ?thesis by auto
  next
    case in_range: True
    have bit: "r ! (i + b) = 0 \<or> r ! (i + b) = 1"
      using w in_range by (intro bits_fromD [of "i + 1"]) (auto simp: slide_window_def)
    show ?thesis
    proof (cases "r ! (i + b) = 0")
      case True
      then have "slide_digit i b r = slide_digit i (b + 1) r" using in_range by (simp add: simps)
      then show ?thesis using ih(3) [OF in_range] True slide_skip [OF w _ True] in_range by simp
    next
      case False
      with bit have one: "r ! (i + b) = 1" by simp
      note ih' = ih(1,2) [OF in_range False, unfolded one mult_1]
      consider "r ! i + 2 ^ b \<le> 15" | "15 < r ! i + 2 ^ b" "- 15 \<le> r ! i - 2 ^ b"
        | "15 < r ! i + 2 ^ b" "r ! i - 2 ^ b < - 15" by linarith
      then show ?thesis
      proof cases
        case 1
        then have "slide_digit i b r = slide_digit i (b + 1) (r[i := r ! i + 2 ^ b, i + b := 0])"
          unfolding simps one using in_range by simp
        with ih'(1) [OF 1] slide_absorb [OF w _ one 1] in_range show ?thesis by simp
      next
        case 2
        then have "slide_digit i b r = slide_digit i (b + 1) (slide_carry (i + b) (r[i := r ! i - 2 ^ b]))"
          unfolding simps one using in_range by simp
        with ih'(2) 2 slide_borrow [OF w _ one 2] in_range show ?thesis by simp
      next
        case 3
        then have "slide_digit i b r = r" unfolding simps one using in_range by simp
        with w show ?thesis by auto
      qed
    qed
  qed
qed

definition slide_ok :: "int \<Rightarrow> bool" where
  "slide_ok d \<longleftrightarrow> d = 0 \<or> odd d \<and> - 15 \<le> d \<and> d \<le> 15"

definition slide_inv :: "int \<Rightarrow> nat \<Rightarrow> int list \<Rightarrow> bool" where
  \<comment> \<open>positions below \<open>i\<close> are recoded, those above are bits, and the value is still \<open>a\<close>\<close>
  "slide_inv a i r \<longleftrightarrow> length r = 256 \<and> (\<forall>j<i. slide_ok (r ! j)) \<and> bits_from i r
     \<and> value_from 0 r = a \<and> value_from i r * 2 ^ i \<le> 2 ^ 255"

lemma slide_step_inv:
  assumes "slide_inv a i r" "i < 256"
  shows "slide_inv a (i + 1) (slide_step i r)"
proof (cases "r ! i = 0")
  case True
  with assms have "value_from i r * 2 ^ i = value_from (i + 1) r * 2 ^ (i + 1)"
    using value_from_Suc [of i r] by (simp add: slide_inv_def)
  with assms True show ?thesis
    by (auto simp: slide_step_def slide_inv_def slide_ok_def less_Suc_eq intro: bits_from_mono)
next
  case False
  let ?s = "slide_digit i 1 r"
  have l: "length r = 256" "r ! i = 1" "bits_from (i + 1) r" "value_from i r * 2 ^ i \<le> 2 ^ 255"
    using assms False by (auto simp: slide_inv_def dest: bits_fromD intro: bits_from_mono)
  then have "value_from (i + 1) r * 2 ^ (i + 1) < value_from i r * 2 ^ i"
    using assms(2) value_from_Suc [of i r] by (simp add: distrib_right)
  then have "value_from (i + 1) r * 2 ^ (i + 1) < 2 ^ 255"
    using l(4) by linarith
  then have "slide_window i 1 r"
    using l assms(2) by (auto simp: slide_window_def)
  from slide_digit_ok [OF this] obtain c where w: "slide_window i c ?s"
    and t: "take i ?s = take i r" "value_from i ?s = value_from i r" by blast
  have "value_from 0 ?s = value_from 0 r"
    using value_from_take [of i ?s] value_from_take [of i r] w t assms(2) l(1)
    by (simp add: slide_window_def)
  moreover have "value_from (i + 1) ?s * 2 ^ (i + 1) \<le> 2 ^ 255"
    using w unfolding slide_window_value(2) [OF w] by (simp add: slide_window_def)
  moreover have "slide_ok (?s ! j)" if "j < i + 1" for j
  proof (cases "j = i")
    case True
    then show ?thesis using w by (simp add: slide_window_def slide_ok_def)
  next
    case False
    then have "?s ! j = r ! j" using arg_cong [OF t(1), of "\<lambda>xs. xs ! j"] that by simp
    then show ?thesis using that False assms(1) by (simp add: slide_inv_def)
  qed
  ultimately show ?thesis
    using w assms(1) False by (auto simp: slide_step_def slide_inv_def slide_window_def)
qed

lemma slide_fold_inv: "slide_inv a 0 r \<Longrightarrow> n \<le> 256 \<Longrightarrow> slide_inv a n (fold slide_step [0..<n] r)"
  by (induction n) (simp_all add: slide_step_inv [simplified])

section \<open>The bits of a byte string\<close>

lemma bit_le_nat:
  assumes "i < 8 * length a"
  shows "bit (le_nat a) i = bit (a ! (i div 8)) (i mod 8)"
proof -
  have i: "i div 8 < length a" using assms by auto
  then have "take 1 (drop (i div 8) a) = [a ! (i div 8)]"
    by (simp add: take_Suc_conv_app_nth flip: Cons_nth_drop_Suc)
  then have "unat (a ! (i div 8)) = le_nat a div 256 ^ (i div 8) mod 256 ^ 1"
    using le_nat_field [of 1 "i div 8" a] by simp
  also have "\<dots> = take_bit 8 (drop_bit (8 * (i div 8)) (le_nat a))"
    by (simp add: take_bit_eq_mod drop_bit_eq_div power_mult)
  finally have "bit (unat (a ! (i div 8))) (i mod 8) = bit (le_nat a) (8 * (i div 8) + i mod 8)"
    by (simp add: bit_take_bit_iff bit_drop_bit_eq)
  then show ?thesis by (simp add: bit_unsigned_iff)
qed

lemma digits_value_bits:
  "digits_value 2 (map (\<lambda>i. of_bool (bit n i)) [0..<k]) = int (take_bit k n)"
proof (induction k)
  case (Suc k)
  then show ?case by (simp add: digits_value_append take_bit_Suc_from_most)
qed simp

lemma slide_bits_value:
  assumes "length a = 32"
  shows "slide_bits a = map (\<lambda>i. of_bool (bit (le_nat a) i)) [0..<256]"
    and "value_from 0 (slide_bits a) = int (le_nat a)"
proof -
  have "uint (1 AND drop_bit (i mod 8) (a ! (i div 8))) = of_bool (bit (le_nat a) i)" if "i < 256" for i
    using that assms
    by (simp add: bit_le_nat and.commute [of 1] and_one_eq mod_2_eq_odd bit_iff_odd_drop_bit [symmetric])
  then show e: "slide_bits a = map (\<lambda>i. of_bool (bit (le_nat a) i)) [0..<256]"
    by (simp add: slide_bits_def)
  have "le_nat a < 2 ^ 256" using le_nat_bound [of a] assms by simp
  then show "value_from 0 (slide_bits a) = int (le_nat a)"
    unfolding e drop_0 digits_value_bits by (simp add: take_bit_nat_eq_self)
qed

lemma slide_correct:
  assumes "length a = 32" "le_nat a < 2 ^ 255"
  shows "length (slide a) = 256" "digits_value 2 (slide a) = int (le_nat a)"
    "i < 256 \<Longrightarrow> slide_ok (slide a ! i)"
proof -
  have "slide_inv (int (le_nat a)) 0 (slide_bits a)"
    using assms slide_bits_value [OF assms(1)] by (auto simp: slide_inv_def bits_from_def)
  from slide_fold_inv [OF this, of 256] have "slide_inv (int (le_nat a)) 256 (slide a)"
    by (simp add: slide_def)
  then show "length (slide a) = 256" "digits_value 2 (slide a) = int (le_nat a)"
    "i < 256 \<Longrightarrow> slide_ok (slide a ! i)"
    by (simp_all add: slide_inv_def)
qed

section \<open>Base 16\<close>

lemma digits_value_drop:
  "k < length e \<Longrightarrow> digits_value q (drop k e) = e ! k + q * digits_value q (drop (k + 1) e)"
  by (simp flip: Cons_nth_drop_Suc)

lemma carry_digit:
  fixes x :: int
  assumes "0 \<le> x" "x \<le> 16"
  shows "(x + 8) div 16 = 0 \<or> (x + 8) div 16 = 1"
    "- 8 \<le> x - (x + 8) div 16 * 16" "x - (x + 8) div 16 * 16 \<le> 8"
  using assms by presburger+

lemma base16_carry_ok:
  assumes "i + n < length e" "c = 0 \<or> c = 1" "\<And>j. i \<le> j \<Longrightarrow> j < i + n \<Longrightarrow> 0 \<le> e ! j \<and> e ! j \<le> 15"
    and "0 \<le> e ! (i + n)" "e ! (i + n) \<le> 7"
  shows "length (base16_carry i n c e) = length e \<and> take i (base16_carry i n c e) = take i e
    \<and> digits_value 16 (drop i (base16_carry i n c e)) = digits_value 16 (drop i e) + c
    \<and> (\<forall>j. i \<le> j \<longrightarrow> j \<le> i + n \<longrightarrow> - 8 \<le> base16_carry i n c e ! j \<and> base16_carry i n c e ! j \<le> 8)"
  using assms
proof (induction n arbitrary: i c e)
  case 0
  then show ?case by (auto simp: digits_value_drop)
next
  case (Suc n)
  define x where "x = e ! i + c"
  define c' where "c' = (x + 8) div 16"
  let ?e = "e[i := x - c' * 16]" and ?s = "base16_carry (i + 1) n c' (e[i := x - c' * 16])"
  have x: "0 \<le> x" "x \<le> 16" using Suc.prems(2) Suc.prems(3) [of i] by (auto simp: x_def)
  note c' = carry_digit [OF x, folded c'_def]
  have s: "length ?s = length e" "take (i + 1) ?s = take (i + 1) ?e"
    "digits_value 16 (drop (i + 1) ?s) = digits_value 16 (drop (i + 1) e) + c'"
    "\<forall>j. i + 1 \<le> j \<longrightarrow> j \<le> i + 1 + n \<longrightarrow> - 8 \<le> ?s ! j \<and> ?s ! j \<le> 8"
    using Suc.IH [of "i + 1" ?e c'] c'(1) Suc.prems by (auto simp: nth_list_update)
  have si: "?s ! i = x - c' * 16"
    using arg_cong [OF s(2), of "\<lambda>xs. xs ! i"] Suc.prems(1) by simp
  have "base16_carry i (Suc n) c e = ?s" by (simp add: Let_def x_def c'_def)
  moreover have "take i ?s = take i e"
    using arg_cong [OF s(2), of "take i"] by (simp add: min_def)
  moreover have "digits_value 16 (drop i ?s) = digits_value 16 (drop i e) + c"
    using digits_value_drop [of i ?s 16] digits_value_drop [of i e 16] Suc.prems(1) s(1,3) si x_def by simp
  moreover have "- 8 \<le> ?s ! j \<and> ?s ! j \<le> 8" if "i \<le> j" "j \<le> i + Suc n" for j
    using that s(4) si c'(2,3) by (cases "j = i") auto
  ultimately show ?case using s(1) by simp
qed

lemma low_nibble: "uint ((b :: u8) AND 15) = uint b mod 16"
proof -
  have "b AND 15 = take_bit 4 b" by (simp add: take_bit_eq_mask mask_eq_decr_exp)
  then show ?thesis by (simp only: unsigned_take_bit_eq) (simp add: take_bit_eq_mod)
qed

lemma high_nibble: "uint (drop_bit 4 (b :: u8)) = uint b div 16" "uint b div 16 mod 16 = uint b div 16"
proof -
  have b: "take_bit 8 (uint b) = uint b" "uint b < 256" "0 \<le> uint b"
    using uint_lt2p [of b] by (simp_all add: take_bit_int_eq_self_iff)
  then show "uint (drop_bit 4 b) = uint b div 16"
    unfolding unsigned_drop_bit_eq by (simp add: drop_bit_eq_div)
  have "0 \<le> uint b div 16" "uint b div 16 < 16" using b(2,3) by presburger+
  then show "uint b div 16 mod 16 = uint b div 16" by (rule mod_pos_pos_trivial)
qed

lemma base16_nibbles_value:
  assumes "k \<le> length a"
  shows "digits_value 16 (map (\<lambda>j. uint (drop_bit (4 * (j mod 2)) (a ! (j div 2)) AND 15)) [0..<2 * k])
    = int (le_nat (take k a))"
  using assms
proof (induction k)
  case (Suc k)
  have split: "[0..<2 * Suc k] = [0..<2 * k] @ [2 * k, 2 * k + 1]"
    by (simp add: upt_rec [of "2 * k"])
  have "uint (a ! k) mod 16 + 16 * (uint (a ! k) div 16) = uint (a ! k)" by simp
  moreover have "(16 :: int) ^ (2 * k) = 256 ^ k" by (simp add: power_mult)
  moreover have "take (Suc k) a = take k a @ [a ! k]" using Suc.prems by (simp add: take_Suc_conv_app_nth)
  ultimately show ?case
    using Suc.IH Suc.prems unfolding split map_append digits_value_append
    by (simp add: low_nibble high_nibble le_nat_append min_def)
qed simp

definition base16_ok :: "int list \<Rightarrow> bytes \<Rightarrow> bool" where
  \<comment> \<open>64 digits from -8 to 8 with the value of the scalar\<close>
  "base16_ok e a \<longleftrightarrow> length e = 64 \<and> (\<forall>j<64. - 8 \<le> e ! j \<and> e ! j \<le> 8)
     \<and> digits_value 16 e = int (le_nat a)"

lemma base16_digits_correct:
  assumes "length a = 32" "a ! 31 \<le> 127"
  shows "base16_ok (base16_digits a) a"
proof -
  let ?e = "base16_nibbles a"
  have nth: "?e ! j = uint (drop_bit (4 * (j mod 2)) (a ! (j div 2)) AND 15)" if "j < 64" for j
    using that by (simp add: base16_nibbles_def)
  have "0 \<le> ?e ! j \<and> ?e ! j \<le> 15" if "j < 64" for j
  proof -
    have "drop_bit (4 * (j mod 2)) (a ! (j div 2)) AND 15 \<le> 15" by (rule word_and_le1)
    then show ?thesis by (simp add: nth [OF that] word_le_def)
  qed
  moreover have "?e ! 63 \<le> 7"
  proof -
    have "uint (a ! 31) \<le> 127" using assms(2) by (simp add: word_le_def)
    then have "uint (a ! 31) div 16 \<le> 7" by presburger
    then show ?thesis by (simp add: nth low_nibble high_nibble)
  qed
  moreover have "digits_value 16 ?e = int (le_nat a)" "length ?e = 64"
    using base16_nibbles_value [of 32 a] assms(1) by (simp_all add: base16_nibbles_def)
  ultimately show ?thesis
    using base16_carry_ok [of 0 63 ?e 0] by (simp add: base16_ok_def base16_digits_def)
qed

lemma base16_pairs_ok:
  assumes "bs \<noteq> []" "last bs \<le> 127" "c = 0 \<or> c = 1"
  shows "length (base16_pairs c bs) = 2 * length bs
    \<and> (\<forall>d \<in> set (base16_pairs c bs). - 8 \<le> d \<and> d \<le> 8)
    \<and> digits_value 16 (base16_pairs c bs) = c + int (le_nat bs)"
  using assms
proof (induction c bs rule: base16_pairs.induct)
  case (2 c b)
  have "uint b \<le> 127" using 2(2) by (simp add: word_le_def)
  then have "0 \<le> c + uint b" "c + uint b \<le> 128" using 2(3) uint_ge_0 [of b] by auto
  moreover have "(x + 8) div 16 \<le> 8 \<and> 0 \<le> (x + 8) div 16
      \<and> - 8 \<le> x - (x + 8) div 16 * 16 \<and> x - (x + 8) div 16 * 16 \<le> 8"
    if "0 \<le> x" "x \<le> 128" for x :: int
    using that by presburger
  ultimately show ?case by (simp add: Let_def)
next
  case (3 c b b' bs)
  define x where "x = c + uint b"
  define c2 where "c2 = (x + 8) div 16"
  define c' where "c' = (c2 + 8) div 16"
  have "0 \<le> x" "x \<le> 256" using 3(4) uint_ge_0 [of b] uint_lt2p [of b] by (auto simp: x_def)
  then have c2: "0 \<le> c2" "c2 \<le> 16" "- 8 \<le> x - c2 * 16" "x - c2 * 16 \<le> 8"
    unfolding c2_def by presburger+
  note c' = carry_digit [OF c2(1,2), folded c'_def]
  have e: "base16_pairs c (b # b' # bs) = (x - c2 * 16) # (c2 - c' * 16) # base16_pairs c' (b' # bs)"
    by (simp add: Let_def x_def c2_def c'_def)
  have ih: "length (base16_pairs c' (b' # bs)) = 2 * length (b' # bs)"
    "\<forall>d \<in> set (base16_pairs c' (b' # bs)). - 8 \<le> d \<and> d \<le> 8"
    "digits_value 16 (base16_pairs c' (b' # bs)) = c' + int (le_nat (b' # bs))"
    using 3(1) [of x c2 c'] 3(3) c'(1) by (simp_all add: x_def c2_def c'_def)
  have "digits_value 16 (base16_pairs c (b # b' # bs)) = x + 256 * int (le_nat (b' # bs))"
    unfolding e digits_value.simps ih(3) by simp
  moreover have "int (le_nat (b # b' # bs)) = uint b + 256 * int (le_nat (b' # bs))"
    by simp
  ultimately show ?case
    using ih(1,2) c2 c'(2,3) unfolding e x_def by simp
qed simp

lemma top_bit_clear:
  assumes "length a = 32" "a ! 31 \<le> (127 :: u8)"
  shows "le_nat a < 2 ^ 255"
proof -
  have "le_nat a = le_nat (take 31 a) + 256 ^ 31 * unat (a ! 31)"
    using le_nat_append [of "take 31 a" "[a ! 31]"] take_Suc_conv_app_nth [of 31 a] assms(1) by simp
  moreover have "le_nat (take 31 a) < 256 ^ 31" using le_nat_bound [of "take 31 a"] assms(1) by simp
  moreover have "unat (a ! 31) \<le> 127" using assms(2) by (simp add: word_le_nat_alt)
  then have "256 ^ 31 * unat (a ! 31) \<le> 256 ^ 31 * 127" by (rule mult_le_mono2)
  ultimately show ?thesis by simp
qed

section \<open>Properties\<close>

text \<open>
  C20: the recodings of a scalar. For 32 bytes with the top bit clear, \<open>slide\<close> gives 256 digits,
  each 0 or odd and between -15 and 15, whose sum in base 2 is the scalar: the carry that a
  subtraction starts always finds a place below position 256. The two conversions to base 16 give
  64 digits between -8 and 8 with the scalar as their sum.
\<close>

theorem scalar_recodings:
  assumes "length a = 32" "a ! 31 \<le> 127"
  shows "length (slide a) = 256 \<and> (\<forall>i<256. slide_ok (slide a ! i)) \<and> digits_value 2 (slide a) = int (le_nat a)
    \<and> base16_ok (base16_digits a) a \<and> base16_ok (base16_pairs 0 a) a"
proof -
  have "a \<noteq> []" using assms(1) by auto
  moreover have "last a \<le> 127" using last_conv_nth [OF \<open>a \<noteq> []\<close>] assms by simp
  ultimately have "base16_ok (base16_pairs 0 a) a"
    using base16_pairs_ok [of a 0] assms(1) by (simp add: base16_ok_def)
  moreover have "le_nat a < 2 ^ 255" by (rule top_bit_clear [OF assms])
  ultimately show ?thesis
    using slide_correct [OF assms(1)] base16_digits_correct [OF assms] by blast
qed

lemma le_nat_zeros: "le_nat (replicate n 0) = 0"
  by (induction n) simp_all

theorem scalar_recodings_witness:
  "digits_value 2 (slide (239 # replicate 31 0)) = 239 \<and> base16_ok (base16_pairs 0 (239 # replicate 31 0)) (239 # replicate 31 0)"
proof -
  have "length (239 # replicate 31 (0 :: u8)) = 32" "(239 # replicate 31 (0 :: u8)) ! 31 \<le> 127"
    by (simp_all add: nth_Cons')
  note r = scalar_recodings [OF this]
  have "int (le_nat (239 # replicate 31 0)) = 239"
    by (simp only: le_nat.simps le_nat_zeros) simp
  then show ?thesis using r by argo
qed

end
