(* ===== verification/Ge_Window.thy ===== *)
theory Ge_Window
  imports Ge Ge_Recode
begin

text \<open>
  Scalar multiplication by sliding windows, in \<^verbatim>\<open>src/base/tools/cryptonote/crypto-ops.c\<close>: the table
  of odd multiples of \<open>ge_dsm_precomp\<close> and the double and triple multiplications in variable time.
  They share a loop, one doubling and one addition for each nonzero digit of each scalar, from the
  highest position where a digit is not zero. The tables of the code hold cached or precomputed
  points; what a table has to offer is the locale \<open>point_adder\<close>.
\<close>

section \<open>The code\<close>

fun dsm_multiples :: "nat \<Rightarrow> ge_p3 \<Rightarrow> ge_cached \<Rightarrow> ge_cached list option" where
  \<comment> \<open>\<open>ge_add(&t, &s2, &r[k]); ge_p1p1_to_p3(&u, &t); ge_p3_to_cached(&r[k+1], &u)\<close>, \<open>n\<close> times\<close>
  "dsm_multiples 0 s2 r = Some [r]"
| "dsm_multiples (Suc n) s2 r =
     ge_add s2 r \<bind> ge_p1p1_to_p3 \<bind> ge_p3_to_cached \<bind> (\<lambda>next.
     dsm_multiples n s2 next \<bind> (\<lambda>rs. Some (r # rs)))"

definition ge_dsm_precomp :: "ge_p3 \<Rightarrow> ge_cached list option" where
  "ge_dsm_precomp s =
     ge_p3_to_cached s \<bind> (\<lambda>r0.
     ge_p3_dbl s \<bind> ge_p1p1_to_p3 \<bind> (\<lambda>s2.
     dsm_multiples 7 s2 r0))"

definition dsm_digit ::
    "(ge_p3 \<Rightarrow> 'c \<Rightarrow> ge_p1p1 option) \<Rightarrow> (ge_p3 \<Rightarrow> 'c \<Rightarrow> ge_p1p1 option) \<Rightarrow> 'c list \<Rightarrow> int \<Rightarrow> ge_p1p1 \<Rightarrow> ge_p1p1 option" where
  \<comment> \<open>the two branches on a digit; the code has \<open>ge_add\<close>, \<open>ge_sub\<close> or \<open>ge_madd\<close>, \<open>ge_msub\<close> in them\<close>
  "dsm_digit add sub tbl d t =
     (if 0 < d then ge_p1p1_to_p3 t \<bind> (\<lambda>u. add u (tbl ! nat (d div 2)))
      else if d < 0 then ge_p1p1_to_p3 t \<bind> (\<lambda>u. sub u (tbl ! nat ((- d) div 2)))
      else Some t)"

fun dsm_top :: "nat \<Rightarrow> int list list \<Rightarrow> nat" where
  \<comment> \<open>one more than the highest position with a nonzero digit, 0 if there is none\<close>
  "dsm_top 0 es = 0"
| "dsm_top (Suc i) es = (if \<exists>e \<in> set es. e ! i \<noteq> 0 then Suc i else dsm_top i es)"

fun dsm_loop :: "(nat \<Rightarrow> ge_p1p1 \<Rightarrow> ge_p1p1 option) \<Rightarrow> nat \<Rightarrow> ge_p2 \<Rightarrow> ge_p2 option" where
  "dsm_loop step 0 r = Some r"
| "dsm_loop step (Suc i) r = ge_p2_dbl r \<bind> step i \<bind> ge_p1p1_to_p2 \<bind> dsm_loop step i"

fun dsm_loop_p3 :: "(nat \<Rightarrow> ge_p1p1 \<Rightarrow> ge_p1p1 option) \<Rightarrow> nat \<Rightarrow> ge_p2 \<Rightarrow> ge_p3 \<Rightarrow> ge_p3 option" where
  \<comment> \<open>the last argument is what \<open>r3\<close> points to when the function is called\<close>
  "dsm_loop_p3 step 0 r r3 = Some r3"
| "dsm_loop_p3 step (Suc i) r r3 =
     ge_p2_dbl r \<bind> step i \<bind> (\<lambda>t.
     if i = 0 then ge_p1p1_to_p3 t
     else ge_p1p1_to_p2 t \<bind> (\<lambda>r. dsm_loop_p3 step i r r3))"

definition ge_double_scalarmult_base_vartime ::
    "ge_precomp list \<Rightarrow> bytes \<Rightarrow> ge_p3 \<Rightarrow> bytes \<Rightarrow> ge_p2 option" where
  "ge_double_scalarmult_base_vartime Bi a A b =
     (let aslide = slide a; bslide = slide b
      in ge_dsm_precomp A \<bind> (\<lambda>Ai.
         dsm_loop (\<lambda>i t. dsm_digit ge_add ge_sub Ai (aslide ! i) t \<bind> dsm_digit ge_madd ge_msub Bi (bslide ! i))
           (dsm_top 256 [aslide, bslide]) ge_p2_0))"

definition ge_triple_scalarmult_base_vartime ::
    "ge_precomp list \<Rightarrow> bytes \<Rightarrow> bytes \<Rightarrow> ge_cached list \<Rightarrow> bytes \<Rightarrow> ge_cached list \<Rightarrow> ge_p2 option" where
  "ge_triple_scalarmult_base_vartime Gi a b Bi c Ci =
     (let aslide = slide a; bslide = slide b; cslide = slide c
      in dsm_loop (\<lambda>i t. dsm_digit ge_madd ge_msub Gi (aslide ! i) t
             \<bind> dsm_digit ge_add ge_sub Bi (bslide ! i) \<bind> dsm_digit ge_add ge_sub Ci (cslide ! i))
           (dsm_top 256 [aslide, bslide, cslide]) ge_p2_0)"

definition ge_double_scalarmult_base_vartime_p3 ::
    "ge_precomp list \<Rightarrow> ge_p3 \<Rightarrow> bytes \<Rightarrow> ge_p3 \<Rightarrow> bytes \<Rightarrow> ge_p3 option" where
  "ge_double_scalarmult_base_vartime_p3 Bi r3 a A b =
     (let aslide = slide a; bslide = slide b
      in ge_dsm_precomp A \<bind> (\<lambda>Ai.
         dsm_loop_p3 (\<lambda>i t. dsm_digit ge_add ge_sub Ai (aslide ! i) t \<bind> dsm_digit ge_madd ge_msub Bi (bslide ! i))
           (dsm_top 256 [aslide, bslide]) ge_p2_0 r3))"

definition ge_double_scalarmult_precomp_vartime2 ::
    "bytes \<Rightarrow> ge_cached list \<Rightarrow> bytes \<Rightarrow> ge_cached list \<Rightarrow> ge_p2 option" where
  "ge_double_scalarmult_precomp_vartime2 a Ai b Bi =
     (let aslide = slide a; bslide = slide b
      in dsm_loop (\<lambda>i t. dsm_digit ge_add ge_sub Ai (aslide ! i) t \<bind> dsm_digit ge_add ge_sub Bi (bslide ! i))
           (dsm_top 256 [aslide, bslide]) ge_p2_0)"

definition ge_triple_scalarmult_precomp_vartime ::
    "bytes \<Rightarrow> ge_cached list \<Rightarrow> bytes \<Rightarrow> ge_cached list \<Rightarrow> bytes \<Rightarrow> ge_cached list \<Rightarrow> ge_p2 option" where
  "ge_triple_scalarmult_precomp_vartime a Ai b Bi c Ci =
     (let aslide = slide a; bslide = slide b; cslide = slide c
      in dsm_loop (\<lambda>i t. dsm_digit ge_add ge_sub Ai (aslide ! i) t
             \<bind> dsm_digit ge_add ge_sub Bi (bslide ! i) \<bind> dsm_digit ge_add ge_sub Ci (cslide ! i))
           (dsm_top 256 [aslide, bslide, cslide]) ge_p2_0)"

definition ge_double_scalarmult_precomp_vartime2_p3 ::
    "ge_p3 \<Rightarrow> bytes \<Rightarrow> ge_cached list \<Rightarrow> bytes \<Rightarrow> ge_cached list \<Rightarrow> ge_p3 option" where
  "ge_double_scalarmult_precomp_vartime2_p3 r3 a Ai b Bi =
     (let aslide = slide a; bslide = slide b
      in dsm_loop_p3 (\<lambda>i t. dsm_digit ge_add ge_sub Ai (aslide ! i) t \<bind> dsm_digit ge_add ge_sub Bi (bslide ! i))
           (dsm_top 256 [aslide, bslide]) ge_p2_0 r3)"

definition ge_double_scalarmult_precomp_vartime ::
    "bytes \<Rightarrow> ge_p3 \<Rightarrow> bytes \<Rightarrow> ge_cached list \<Rightarrow> ge_p2 option" where
  "ge_double_scalarmult_precomp_vartime a A b Bi =
     ge_dsm_precomp A \<bind> (\<lambda>Ai. ge_double_scalarmult_precomp_vartime2 a Ai b Bi)"

section \<open>Multiples\<close>

fun nmul :: "nat \<Rightarrow> 'g :: ab_group_add \<Rightarrow> 'g" where
  "nmul 0 g = 0"
| "nmul (Suc n) g = g + nmul n g"

definition imul :: "int \<Rightarrow> 'g :: ab_group_add \<Rightarrow> 'g" where
  "imul k g = (if 0 \<le> k then nmul (nat k) g else - nmul (nat (- k)) g)"

lemma nmul_add: "nmul (m + n) g = nmul m g + nmul n g"
proof (induction m)
  case (Suc m)
  then show ?case by (simp only: add_Suc nmul.simps add.assoc)
qed simp

lemma imul_diff: "imul (int m - int n) g = nmul m g - nmul n g"
proof (cases "n \<le> m")
  case True
  then obtain k where "m = k + n" by (metis add.commute le_Suc_ex)
  then show ?thesis by (simp add: imul_def nmul_add)
next
  case False
  then obtain k where "n = k + m" "0 < k" by (metis add.commute less_imp_add_positive not_le)
  then show ?thesis by (simp add: imul_def nmul_add)
qed

lemma imul_add: "imul (j + k) g = imul j g + imul k g"
proof -
  obtain a b c d where jk: "j = int a - int b" "k = int c - int d"
    by (metis int_diff_cases)
  have "j + k = int (a + c) - int (b + d)" by (simp add: jk)
  then show ?thesis by (simp only: jk imul_diff) (simp add: nmul_add)
qed

lemma imul_simps [simp]: "imul 0 g = 0" "imul 1 g = g" "imul (- k) g = - imul k g"
proof -
  show "imul 0 g = 0" "imul 1 g = g" by (simp_all add: imul_def)
  have "imul (k + - k) g = imul k g + imul (- k) g" by (rule imul_add)
  then show "imul (- k) g = - imul k g"
    by (simp add: imul_def minus_unique)
qed

lemma imul_double: "imul (2 * k) g = imul k g + imul k g"
  by (simp only: mult_2 imul_add)

definition ed_hom :: "('g :: ab_group_add \<Rightarrow> point) \<Rightarrow> bool" where
  \<comment> \<open>the points \<open>pt g\<close> of the curve add as the elements of the group do\<close>
  "ed_hom pt \<longleftrightarrow> pt 0 = (0, 1) \<and> (\<forall>g. on_curve (pt g)) \<and> (\<forall>g. pt (- g) = ed_neg (pt g))
     \<and> (\<forall>g h. ed_add (pt g) (pt h) (pt (g + h)))"

lemma ed_homD:
  assumes "ed_hom pt"
  shows "pt 0 = (0, 1)" "on_curve (pt g)" "pt (- g) = ed_neg (pt g)" "ed_add (pt g) (pt h) (pt (g + h))"
    "ed_add (pt g) (ed_neg (pt h)) (pt (g - h))"
proof -
  show "pt 0 = (0, 1)" "on_curve (pt g)" "pt (- g) = ed_neg (pt g)"
    and a: "\<And>g h. ed_add (pt g) (pt h) (pt (g + h))"
    using assms by (simp_all add: ed_hom_def)
  show "ed_add (pt g) (ed_neg (pt h)) (pt (g - h))"
    using a [of g "- h"] assms by (simp add: ed_hom_def)
qed

section \<open>Chains of group operations\<close>

lemma yields_bind: "yields P m \<Longrightarrow> (\<And>x. P x \<Longrightarrow> yields Q (f x)) \<Longrightarrow> yields Q (m \<bind> f)"
  by (auto simp: yields_def)

lemma yields_mono: "yields P m \<Longrightarrow> (\<And>x. P x \<Longrightarrow> Q x) \<Longrightarrow> yields Q m"
  by (auto simp: yields_def)

locale point_adder =
  fixes add sub :: "ge_p3 \<Rightarrow> 'c \<Rightarrow> ge_p1p1 option" and rep :: "'c \<Rightarrow> point \<Rightarrow> bool"
  assumes add_rep: "p3_rep p P \<Longrightarrow> rep q Q \<Longrightarrow> ed_add P Q R \<Longrightarrow> yields (\<lambda>r. p1p1_rep r R) (add p q)"
    and sub_rep: "p3_rep p P \<Longrightarrow> rep q Q \<Longrightarrow> ed_add P (ed_neg Q) R \<Longrightarrow> yields (\<lambda>r. p1p1_rep r R) (sub p q)"
begin

definition odd_multiples :: "('g :: ab_group_add \<Rightarrow> point) \<Rightarrow> 'g \<Rightarrow> 'c list \<Rightarrow> bool" where
  \<comment> \<open>the table holds \<open>g, 3g, 5g, ..., 15g\<close>\<close>
  "odd_multiples pt g tbl \<longleftrightarrow> length tbl = 8 \<and> (\<forall>j<8. rep (tbl ! j) (pt (imul (2 * int j + 1) g)))"

lemma digit_rep:
  assumes hom: "ed_hom pt" and tbl: "odd_multiples pt g tbl" and d: "slide_ok d" and t: "p1p1_rep t (pt h)"
  shows "yields (\<lambda>t. p1p1_rep t (pt (h + imul d g))) (dsm_digit add sub tbl d t)"
proof -
  consider "d = 0" | "0 < d" "odd d" "d \<le> 15" | "d < 0" "odd d" "- 15 \<le> d"
    using d unfolding slide_ok_def by linarith
  then show ?thesis
  proof cases
    case 1
    then show ?thesis using t by (simp add: dsm_digit_def yields_def)
  next
    case 2
    define j where "j = nat (d div 2)"
    then have "j < 8" "d = 2 * int j + 1" using 2 by auto
    then have "rep (tbl ! j) (pt (imul d g))" using tbl by (simp add: odd_multiples_def)
    then show ?thesis
      using 2 unfolding dsm_digit_def j_def
      by (auto intro!: yields_bind [OF ge_p1p1_to_p3_rep [OF t]] add_rep ed_homD(4) [OF hom])
  next
    case 3
    define j where "j = nat ((- d) div 2)"
    then have "j < 8" "- d = 2 * int j + 1" using 3 by auto
    then have q: "rep (tbl ! nat ((- d) div 2)) (pt (imul (- d) g))"
      using tbl unfolding odd_multiples_def j_def by metis
    have "ed_add (pt h) (ed_neg (pt (imul (- d) g))) (pt (h + imul d g))"
      using ed_homD(5) [OF hom, of h "imul (- d) g"] by simp
    from sub_rep [OF _ q this] show ?thesis
      using 3 by (simp add: dsm_digit_def yields_bind [OF ge_p1p1_to_p3_rep [OF t]])
  qed
qed

end

interpretation cached: point_adder ge_add ge_sub cached_rep
  by unfold_locales (auto intro: ge_add_rep ge_sub_rep)

interpretation precomp: point_adder ge_madd ge_msub precomp_rep
  by unfold_locales (auto intro: ge_madd_rep ge_msub_rep)

section \<open>The table and the loops\<close>

lemma dsm_multiples_rep:
  assumes hom: "ed_hom pt" and s2: "p3_rep s2 (pt (imul s g))" and r: "cached_rep r (pt (imul m g))"
  shows "yields (\<lambda>rs. length rs = n + 1 \<and> (\<forall>j\<le>n. cached_rep (rs ! j) (pt (imul (s * int j + m) g)))) (dsm_multiples n s2 r)"
  using r
proof (induction n arbitrary: r m)
  case 0
  then show ?case by (simp add: yields_def)
next
  case (Suc n)
  have add: "ed_add (pt (imul s g)) (pt (imul m g)) (pt (imul (m + s) g))"
    using ed_homD(4) [OF hom, of "imul s g" "imul m g"] by (simp add: imul_add add.commute [of m])
  show ?case
    unfolding dsm_multiples.simps
  proof (intro yields_bind)
    show "yields (\<lambda>r. p1p1_rep r (pt (imul (m + s) g))) (ge_add s2 r)"
      by (rule ge_add_rep [OF s2 Suc.prems add])
    show "yields (\<lambda>r. p3_rep r (pt (imul (m + s) g))) (ge_p1p1_to_p3 t)" if "p1p1_rep t (pt (imul (m + s) g))" for t
      using that by (rule ge_p1p1_to_p3_rep)
    show "yields (\<lambda>r. cached_rep r (pt (imul (m + s) g))) (ge_p3_to_cached u)" if "p3_rep u (pt (imul (m + s) g))" for u
      using that by (rule ge_p3_to_cached_rep)
    fix "next" assume "cached_rep next (pt (imul (m + s) g))"
    then show "yields (\<lambda>rs. length rs = n + 1 \<and> (\<forall>j\<le>n. cached_rep (rs ! j) (pt (imul (s * int j + (m + s)) g))))
      (dsm_multiples n s2 next)"
      by (rule Suc.IH)
    fix rs
    assume rs: "length rs = n + 1 \<and> (\<forall>j\<le>n. cached_rep (rs ! j) (pt (imul (s * int j + (m + s)) g)))"
    have "cached_rep ((r # rs) ! j) (pt (imul (s * int j + m) g))" if "j \<le> Suc n" for j
    proof (cases j)
      case 0
      then show ?thesis using Suc.prems by simp
    next
      case (Suc k)
      then show ?thesis using rs that by (simp add: algebra_simps)
    qed
    then show "yields (\<lambda>rs. length rs = Suc n + 1 \<and> (\<forall>j\<le>Suc n. cached_rep (rs ! j) (pt (imul (s * int j + m) g)))) (Some (r # rs))"
      using rs by (simp add: yields_def)
  qed
qed

lemma ge_dsm_precomp_rep:
  assumes hom: "ed_hom pt" and s: "p3_rep s (pt g)"
  shows "yields (cached.odd_multiples pt g) (ge_dsm_precomp s)"
  unfolding ge_dsm_precomp_def
proof (intro yields_bind)
  have add: "ed_add (pt g) (pt g) (pt (imul 2 g))"
    using ed_homD(4) [OF hom, of g g] imul_double [of 1 g] by simp
  show "yields (\<lambda>r. cached_rep r (pt g)) (ge_p3_to_cached s)"
    by (rule ge_p3_to_cached_rep [OF s])
  show "yields (\<lambda>r. p1p1_rep r (pt (imul 2 g))) (ge_p3_dbl s)"
    by (rule ge_p3_dbl_rep [OF s ed_homD(2) [OF hom] add])
  show "yields (\<lambda>r. p3_rep r (pt (imul 2 g))) (ge_p1p1_to_p3 t)" if "p1p1_rep t (pt (imul 2 g))" for t
    using that by (rule ge_p1p1_to_p3_rep)
  fix r s2 assume "cached_rep r (pt g)" "p3_rep s2 (pt (imul 2 g))"
  then show "yields (cached.odd_multiples pt g) (dsm_multiples 7 s2 r)"
    using dsm_multiples_rep [OF hom, of s2 2 g r 1 7]
    by (auto simp: cached.odd_multiples_def elim!: yields_mono)
qed

lemma dsm_loop_rep:
  assumes hom: "ed_hom pt"
    and step: "\<And>i t g. i < n \<Longrightarrow> p1p1_rep t (pt g) \<Longrightarrow> yields (\<lambda>t. p1p1_rep t (pt (g + D i))) (step i t)"
    and G: "\<And>i. i < n \<Longrightarrow> G i = G (Suc i) + G (Suc i) + D i"
    and r: "p2_rep r (pt (G n))"
  shows "yields (\<lambda>r. p2_rep r (pt (G 0))) (dsm_loop step n r)"
    and "0 < n \<Longrightarrow> yields (\<lambda>r. p3_rep r (pt (G 0))) (dsm_loop_p3 step n r r3)"
proof -
  have round: "yields (\<lambda>t. p1p1_rep t (pt (G i))) (ge_p2_dbl r \<bind> step i)"
    if "i < n" "p2_rep r (pt (G (Suc i)))" for i r
  proof (rule yields_bind)
    show "yields (\<lambda>t. p1p1_rep t (pt (G (Suc i) + G (Suc i)))) (ge_p2_dbl r)"
      using that(2) ed_homD(2,4) [OF hom] by (intro ge_p2_dbl_rep)
    show "yields (\<lambda>t. p1p1_rep t (pt (G i))) (step i t)" if "p1p1_rep t (pt (G (Suc i) + G (Suc i)))" for t
      using step [OF \<open>i < n\<close> that] G [OF \<open>i < n\<close>] by simp
  qed
  have "yields (\<lambda>r. p2_rep r (pt (G 0))) (dsm_loop step k r)
      \<and> (0 < k \<longrightarrow> yields (\<lambda>r. p3_rep r (pt (G 0))) (dsm_loop_p3 step k r r3))"
    if "k \<le> n" "p2_rep r (pt (G k))" for k r
    using that
  proof (induction k arbitrary: r)
    case 0
    then show ?case by (simp add: yields_def)
  next
    case (Suc k)
    have t: "yields (\<lambda>t. p1p1_rep t (pt (G k))) (ge_p2_dbl r \<bind> step k)"
      using round Suc.prems by simp
    have "yields (\<lambda>r. p2_rep r (pt (G k))) (ge_p2_dbl r \<bind> step k \<bind> ge_p1p1_to_p2)"
      by (rule yields_bind [OF t ge_p1p1_to_p2_rep])
    then have p2: "yields (\<lambda>r. p2_rep r (pt (G 0))) (dsm_loop step (Suc k) r)"
      unfolding dsm_loop.simps by (rule yields_bind) (use Suc.IH Suc.prems(1) in simp)
    have "yields (\<lambda>r. p3_rep r (pt (G 0))) (dsm_loop_p3 step (Suc k) r r3)"
      unfolding dsm_loop_p3.simps
    proof (rule yields_bind [OF t])
      fix t assume t: "p1p1_rep t (pt (G k))"
      show "yields (\<lambda>r. p3_rep r (pt (G 0)))
        (if k = 0 then ge_p1p1_to_p3 t else ge_p1p1_to_p2 t \<bind> (\<lambda>r. dsm_loop_p3 step k r r3))"
      proof (cases "k = 0")
        case True
        then show ?thesis using ge_p1p1_to_p3_rep [OF t] by simp
      next
        case False
        have "yields (\<lambda>r. p3_rep r (pt (G 0))) (ge_p1p1_to_p2 t \<bind> (\<lambda>r. dsm_loop_p3 step k r r3))"
          by (rule yields_bind [OF ge_p1p1_to_p2_rep [OF t]]) (use False Suc.IH Suc.prems(1) in simp)
        then show ?thesis using False by simp
      qed
    qed
    with p2 show ?case by blast
  qed
  from this [of n r] r show "yields (\<lambda>r. p2_rep r (pt (G 0))) (dsm_loop step n r)"
    and "0 < n \<Longrightarrow> yields (\<lambda>r. p3_rep r (pt (G 0))) (dsm_loop_p3 step n r r3)" by simp_all
qed

lemma dsm_top_zero:
  "e \<in> set es \<Longrightarrow> dsm_top n es \<le> i \<Longrightarrow> i < n \<Longrightarrow> e ! i = 0"
  by (induction n) (auto split: if_splits simp: less_Suc_eq)

lemma dsm_top_le: "dsm_top n es \<le> n"
  by (induction n) auto

lemma dsm_top_value:
  assumes "e \<in> set es" "length e = 256"
  shows "value_from (dsm_top 256 es) e = 0"
  using value_from_zeros [of "dsm_top 256 es" "256 - dsm_top 256 es" e] dsm_top_le [of 256 es]
    dsm_top_zero [OF assms(1), of 256] assms(2) by simp

lemma dsm_top_pos: "e \<in> set es \<Longrightarrow> i < n \<Longrightarrow> e ! i \<noteq> 0 \<Longrightarrow> 0 < dsm_top n es"
  using dsm_top_zero [of e es n i] by (cases "dsm_top n es") auto

lemma value_rec: "i < 256 \<Longrightarrow> length e = 256 \<Longrightarrow>
    imul (value_from i e) g = imul (value_from (Suc i) e) g + imul (value_from (Suc i) e) g + imul (e ! i) g"
  using value_from_Suc [of i e] by (simp only: imul_add imul_double add.commute Suc_eq_plus1)

lemma dsm_double:
  assumes hom: "ed_hom pt" and a: "length a = 32" "le_nat a < 2 ^ 255" and b: "length b = 32" "le_nat b < 2 ^ 255"
    and step: "\<And>i t x. i < 256 \<Longrightarrow> p1p1_rep t (pt x) \<Longrightarrow>
      yields (\<lambda>t. p1p1_rep t (pt (x + imul (slide a ! i) g + imul (slide b ! i) h))) (step i t)"
  defines "n \<equiv> dsm_top 256 [slide a, slide b]" and "R \<equiv> pt (imul (int (le_nat a)) g + imul (int (le_nat b)) h)"
  shows "yields (\<lambda>r. p2_rep r R) (dsm_loop step n ge_p2_0)"
    and "0 < n \<Longrightarrow> yields (\<lambda>r. p3_rep r R) (dsm_loop_p3 step n ge_p2_0 r3)"
proof -
  note sa = slide_correct [OF a] and sb = slide_correct [OF b]
  define G where "G = (\<lambda>i. imul (value_from i (slide a)) g + imul (value_from i (slide b)) h)"
  define D where "D = (\<lambda>i. imul (slide a ! i) g + imul (slide b ! i) h)"
  have "G n = 0" by (simp add: G_def n_def dsm_top_value sa sb)
  then have "p2_rep ge_p2_0 (pt (G n))" using ge_p2_0_rep ed_homD(1) [OF hom] by simp
  moreover have "G i = G (Suc i) + G (Suc i) + D i" if "i < n" for i
    using value_rec [of i "slide a" g] value_rec [of i "slide b" h] that dsm_top_le [of 256 "[slide a, slide b]"]
    by (simp add: G_def D_def n_def sa sb add.assoc add.left_commute)
  moreover have "yields (\<lambda>t. p1p1_rep t (pt (x + D i))) (step i t)" if "i < n" "p1p1_rep t (pt x)" for i t x
    using step [of i t x] that dsm_top_le [of 256 "[slide a, slide b]"] by (simp add: D_def n_def add.assoc)
  moreover have "pt (G 0) = R" by (simp add: G_def R_def sa sb)
  ultimately show "yields (\<lambda>r. p2_rep r R) (dsm_loop step n ge_p2_0)"
    and "0 < n \<Longrightarrow> yields (\<lambda>r. p3_rep r R) (dsm_loop_p3 step n ge_p2_0 r3)"
    using dsm_loop_rep(1) [where D = D and G = G and step = step and n = n, OF hom]
      dsm_loop_rep(2) [where D = D and G = G and step = step and n = n, OF hom] by simp_all
qed

lemma dsm_triple:
  assumes hom: "ed_hom pt" and a: "length a = 32" "le_nat a < 2 ^ 255" and b: "length b = 32" "le_nat b < 2 ^ 255"
    and c: "length c = 32" "le_nat c < 2 ^ 255"
    and step: "\<And>i t x. i < 256 \<Longrightarrow> p1p1_rep t (pt x) \<Longrightarrow>
      yields (\<lambda>t. p1p1_rep t (pt (x + imul (slide a ! i) g + imul (slide b ! i) h + imul (slide c ! i) k))) (step i t)"
  defines "n \<equiv> dsm_top 256 [slide a, slide b, slide c]"
    and "R \<equiv> pt (imul (int (le_nat a)) g + imul (int (le_nat b)) h + imul (int (le_nat c)) k)"
  shows "yields (\<lambda>r. p2_rep r R) (dsm_loop step n ge_p2_0)"
proof -
  note sa = slide_correct [OF a] and sb = slide_correct [OF b] and sc = slide_correct [OF c]
  define G where "G = (\<lambda>i. imul (value_from i (slide a)) g + imul (value_from i (slide b)) h
    + imul (value_from i (slide c)) k)"
  define D where "D = (\<lambda>i. imul (slide a ! i) g + imul (slide b ! i) h + imul (slide c ! i) k)"
  have le: "n \<le> 256" unfolding n_def by (rule dsm_top_le)
  have "G n = 0" by (simp add: G_def n_def dsm_top_value sa sb sc)
  then have "p2_rep ge_p2_0 (pt (G n))" using ge_p2_0_rep ed_homD(1) [OF hom] by simp
  moreover have "G i = G (Suc i) + G (Suc i) + D i" if "i < n" for i
    using value_rec [of i "slide a" g] value_rec [of i "slide b" h] value_rec [of i "slide c" k] that le
    by (simp add: G_def D_def sa sb sc add.assoc add.left_commute)
  moreover have "yields (\<lambda>t. p1p1_rep t (pt (x + D i))) (step i t)" if "i < n" "p1p1_rep t (pt x)" for i t x
    using step [of i t x] that le by (simp add: D_def add.assoc)
  moreover have "pt (G 0) = R" by (simp add: G_def R_def sa sb sc)
  ultimately show ?thesis
    using dsm_loop_rep(1) [where D = D and G = G and step = step and n = n, OF hom] by simp
qed

lemma dsm_top_scalars:
  assumes "a \<in> set as" "length a = 32" "le_nat a < 2 ^ 255" "le_nat a \<noteq> 0"
  shows "0 < dsm_top 256 (map slide as)"
proof (rule ccontr)
  assume "\<not> 0 < dsm_top 256 (map slide as)"
  then have "value_from 0 (slide a) = 0"
    using dsm_top_value [of "slide a" "map slide as"] slide_correct(1) [OF assms(2,3)] assms(1) by simp
  then show False using slide_correct(2) [OF assms(2,3)] assms(4) by simp
qed

lemma slide_zero:
  assumes "length a = 32" "le_nat a = 0"
  shows "slide a = replicate 256 0"
proof -
  have bits: "slide_bits a = replicate 256 0"
    unfolding slide_bits_value(1) [OF assms(1)] assms(2) by (simp add: map_replicate_const)
  have "fold slide_step xs (replicate 256 0) = replicate 256 0" if "set xs \<subseteq> {..<256}" for xs
    using that by (induction xs) (simp_all add: slide_step_def)
  moreover have "set [0..<256 :: nat] \<subseteq> {..<256}" by (simp add: atLeast0LessThan)
  ultimately show ?thesis unfolding slide_def bits by blast
qed

lemma dsm_top_zeros: "(\<And>e i. e \<in> set es \<Longrightarrow> i < n \<Longrightarrow> e ! i = 0) \<Longrightarrow> dsm_top n es = 0"
  by (induction n) auto

section \<open>The functions\<close>

definition dsm_scalar :: "bytes \<Rightarrow> bool" where
  "dsm_scalar a \<longleftrightarrow> length a = 32 \<and> le_nat a < 2 ^ 255"

lemma digit_step:
  assumes "\<And>t x. p1p1_rep t (pt x) \<Longrightarrow> yields (\<lambda>t. p1p1_rep t (pt (x + imul d g))) (f t)"
    and "\<And>t x. p1p1_rep t (pt x) \<Longrightarrow> yields (\<lambda>t. p1p1_rep t (pt (x + imul e h))) (f' t)"
    and "p1p1_rep t (pt x)"
  shows "yields (\<lambda>t. p1p1_rep t (pt (x + imul d g + imul e h))) (f t \<bind> f')"
  by (rule yields_bind [OF assms(1) [OF assms(3)] assms(2)])

lemma ge_double_base_rep:
  assumes hom: "ed_hom pt" and s: "dsm_scalar a" "dsm_scalar b"
    and A: "p3_rep A (pt g)" and B: "precomp.odd_multiples pt h Bi"
  defines "R \<equiv> pt (imul (int (le_nat a)) g + imul (int (le_nat b)) h)"
  shows "yields (\<lambda>r. p2_rep r R) (ge_double_scalarmult_base_vartime Bi a A b)"
    and "le_nat a \<noteq> 0 \<or> le_nat b \<noteq> 0 \<Longrightarrow>
      yields (\<lambda>r. p3_rep r R) (ge_double_scalarmult_base_vartime_p3 Bi r3 a A b)"
proof -
  note s' = s [unfolded dsm_scalar_def]
  note a = conjunct1 [OF s'(1)] conjunct2 [OF s'(1)] and b = conjunct1 [OF s'(2)] conjunct2 [OF s'(2)]
  let ?step = "\<lambda>Ai i t. dsm_digit ge_add ge_sub Ai (slide a ! i) t \<bind> dsm_digit ge_madd ge_msub Bi (slide b ! i)"
  have step: "yields (\<lambda>t. p1p1_rep t (pt (x + imul (slide a ! i) g + imul (slide b ! i) h))) (?step Ai i t)"
    if "cached.odd_multiples pt g Ai" "i < 256" "p1p1_rep t (pt x)" for Ai i t x
    by (rule digit_step [OF cached.digit_rep [OF hom that(1)] precomp.digit_rep [OF hom B] that(3)])
      (rule slide_correct(3) [OF a that(2)] slide_correct(3) [OF b that(2)] | assumption)+
  show "yields (\<lambda>r. p2_rep r R) (ge_double_scalarmult_base_vartime Bi a A b)"
    unfolding ge_double_scalarmult_base_vartime_def Let_def R_def
    by (rule yields_bind [OF ge_dsm_precomp_rep [OF hom A]]) (rule dsm_double(1) [OF hom a b step])
  have "0 < dsm_top 256 [slide a, slide b]" if "le_nat a \<noteq> 0 \<or> le_nat b \<noteq> 0"
    using that dsm_top_scalars [OF _ a, of "[a, b]"] dsm_top_scalars [OF _ b, of "[a, b]"] by auto
  then show "yields (\<lambda>r. p3_rep r R) (ge_double_scalarmult_base_vartime_p3 Bi r3 a A b)"
    if "le_nat a \<noteq> 0 \<or> le_nat b \<noteq> 0"
    unfolding ge_double_scalarmult_base_vartime_p3_def Let_def R_def
    by (intro yields_bind [OF ge_dsm_precomp_rep [OF hom A]] dsm_double(2) [OF hom a b step]) (use that in simp_all)
qed

lemma ge_double_precomp_rep:
  assumes hom: "ed_hom pt" and s: "dsm_scalar a" "dsm_scalar b"
    and A: "cached.odd_multiples pt g Ai" and B: "cached.odd_multiples pt h Bi"
  defines "R \<equiv> pt (imul (int (le_nat a)) g + imul (int (le_nat b)) h)"
  shows "yields (\<lambda>r. p2_rep r R) (ge_double_scalarmult_precomp_vartime2 a Ai b Bi)"
    and "le_nat a \<noteq> 0 \<or> le_nat b \<noteq> 0 \<Longrightarrow>
      yields (\<lambda>r. p3_rep r R) (ge_double_scalarmult_precomp_vartime2_p3 r3 a Ai b Bi)"
proof -
  note s' = s [unfolded dsm_scalar_def]
  note a = conjunct1 [OF s'(1)] conjunct2 [OF s'(1)] and b = conjunct1 [OF s'(2)] conjunct2 [OF s'(2)]
  let ?step = "\<lambda>i t. dsm_digit ge_add ge_sub Ai (slide a ! i) t \<bind> dsm_digit ge_add ge_sub Bi (slide b ! i)"
  have step: "yields (\<lambda>t. p1p1_rep t (pt (x + imul (slide a ! i) g + imul (slide b ! i) h))) (?step i t)"
    if "i < 256" "p1p1_rep t (pt x)" for i t x
    by (rule digit_step [OF cached.digit_rep [OF hom A] cached.digit_rep [OF hom B] that(2)])
      (rule slide_correct(3) [OF a that(1)] slide_correct(3) [OF b that(1)] | assumption)+
  show "yields (\<lambda>r. p2_rep r R) (ge_double_scalarmult_precomp_vartime2 a Ai b Bi)"
    unfolding ge_double_scalarmult_precomp_vartime2_def Let_def R_def
    by (rule dsm_double(1) [OF hom a b step])
  have "0 < dsm_top 256 [slide a, slide b]" if "le_nat a \<noteq> 0 \<or> le_nat b \<noteq> 0"
    using that dsm_top_scalars [OF _ a, of "[a, b]"] dsm_top_scalars [OF _ b, of "[a, b]"] by auto
  then show "yields (\<lambda>r. p3_rep r R) (ge_double_scalarmult_precomp_vartime2_p3 r3 a Ai b Bi)"
    if "le_nat a \<noteq> 0 \<or> le_nat b \<noteq> 0"
    unfolding ge_double_scalarmult_precomp_vartime2_p3_def Let_def R_def
    by (intro dsm_double(2) [OF hom a b step]) (use that in simp_all)
qed

lemma ge_triple_rep:
  fixes g h k :: "'g :: ab_group_add"
  assumes hom: "ed_hom pt" and s: "dsm_scalar a" "dsm_scalar b" "dsm_scalar c"
    and B: "cached.odd_multiples pt h Bi" and C: "cached.odd_multiples pt k Ci"
  defines "R \<equiv> pt (imul (int (le_nat a)) g + imul (int (le_nat b)) h + imul (int (le_nat c)) k)"
  shows "precomp.odd_multiples pt g Gi \<Longrightarrow>
      yields (\<lambda>r. p2_rep r R) (ge_triple_scalarmult_base_vartime Gi a b Bi c Ci)"
    and "cached.odd_multiples pt g Ai \<Longrightarrow>
      yields (\<lambda>r. p2_rep r R) (ge_triple_scalarmult_precomp_vartime a Ai b Bi c Ci)"
proof -
  note s' = s [unfolded dsm_scalar_def]
  note a = conjunct1 [OF s'(1)] conjunct2 [OF s'(1)] and b = conjunct1 [OF s'(2)] conjunct2 [OF s'(2)]
    and c = conjunct1 [OF s'(3)] conjunct2 [OF s'(3)]
  have rest: "yields (\<lambda>t. p1p1_rep t (pt (x + imul (slide a ! i) g + imul (slide b ! i) h + imul (slide c ! i) k)))
      (first t \<bind> dsm_digit ge_add ge_sub Bi (slide b ! i) \<bind> dsm_digit ge_add ge_sub Ci (slide c ! i))"
    if "i < 256" "yields (\<lambda>t. p1p1_rep t (pt (x + imul (slide a ! i) g))) (first t)" for i first t x
    by (rule yields_bind [OF yields_bind [OF that(2) cached.digit_rep [OF hom B]] cached.digit_rep [OF hom C]])
      (rule slide_correct(3) [OF b that(1)] slide_correct(3) [OF c that(1)] | assumption)+
  show "yields (\<lambda>r. p2_rep r R) (ge_triple_scalarmult_base_vartime Gi a b Bi c Ci)"
    if "precomp.odd_multiples pt g Gi"
    unfolding ge_triple_scalarmult_base_vartime_def Let_def R_def
    by (rule dsm_triple [OF hom a b c rest]) (auto intro!: precomp.digit_rep [OF hom that] slide_correct(3) [OF a])
  show "yields (\<lambda>r. p2_rep r R) (ge_triple_scalarmult_precomp_vartime a Ai b Bi c Ci)"
    if "cached.odd_multiples pt g Ai"
    unfolding ge_triple_scalarmult_precomp_vartime_def Let_def R_def
    by (rule dsm_triple [OF hom a b c rest]) (auto intro!: cached.digit_rep [OF hom that] slide_correct(3) [OF a])
qed

lemma ge_double_p3_zero:
  assumes "length a = 32" "length b = 32" "le_nat a = 0" "le_nat b = 0"
  shows "ge_double_scalarmult_precomp_vartime2_p3 r3 a Ai b Bi = Some r3"
    and "ge_double_scalarmult_base_vartime_p3 Gi r3 a A b = ge_dsm_precomp A \<bind> (\<lambda>_. Some r3)"
proof -
  have "dsm_top 256 [slide a, slide b] = 0"
    using slide_zero [OF assms(1,3)] slide_zero [OF assms(2,4)] by (intro dsm_top_zeros) auto
  then show "ge_double_scalarmult_precomp_vartime2_p3 r3 a Ai b Bi = Some r3"
    "ge_double_scalarmult_base_vartime_p3 Gi r3 a A b = ge_dsm_precomp A \<bind> (\<lambda>_. Some r3)"
    by (simp_all add: ge_double_scalarmult_precomp_vartime2_p3_def ge_double_scalarmult_base_vartime_p3_def Let_def)
qed

section \<open>A group of order four\<close>

text \<open>
  The points \<open>(0, 1)\<close>, \<open>(i, 0)\<close>, \<open>(0, -1)\<close> and \<open>(-i, 0)\<close>, with \<open>i\<close> the square root of -1 the code
  has: the multiples of a point of the curve, on which the theorems below are applied.
\<close>

definition torsion :: "int \<Rightarrow> point" where
  "torsion k =
     (if k mod 4 = 0 then (0, 1) else if k mod 4 = 1 then (fz fe_sqrtm1, 0)
      else if k mod 4 = 2 then (0, - 1) else (- fz fe_sqrtm1, 0))"

definition torsion_fe :: "int \<Rightarrow> fe" where
  \<comment> \<open>the coordinate of \<open>torsion k\<close> that is not 0\<close>
  "torsion_fe k =
     (if k mod 4 = 0 then fe_1 else if k mod 4 = 1 then fe_sqrtm1
      else if k mod 4 = 2 then [- 1, 0, 0, 0, 0, 0, 0, 0, 0, 0] else map uminus fe_sqrtm1)"

definition torsion_p3 :: "int \<Rightarrow> ge_p3" where
  "torsion_p3 k =
     \<lparr>p3_X = if even k then fe_0 else torsion_fe k, p3_Y = if even k then torsion_fe k else fe_0,
      p3_Z = fe_1, p3_T = fe_0\<rparr>"

definition torsion_precomp :: "int \<Rightarrow> ge_precomp" where
  "torsion_precomp k =
     \<lparr>pre_yplusx = torsion_fe k, pre_yminusx = torsion_fe (if even k then k else - k), pre_xy2d = fe_0\<rparr>"

definition torsion_cached :: "int \<Rightarrow> ge_cached" where
  "torsion_cached k =
     \<lparr>ca_YplusX = torsion_fe k, ca_YminusX = torsion_fe (if even k then k else - k), ca_Z = fe_1, ca_T2d = fe_0\<rparr>"

lemma mod4: "k mod 4 = 0 \<or> k mod 4 = 1 \<or> k mod 4 = 2 \<or> k mod 4 = (3 :: int)"
  by presburger

lemma ed_hom_torsion: "ed_hom torsion"
proof -
  have ii: "fz fe_sqrtm1 * fz fe_sqrtm1 = - 1" by (rule fe_sqrtm1_facts(2))
  have "on_curve (torsion k)" "torsion (- k) = ed_neg (torsion k)" for k
  proof -
    have "(- k) mod 4 = (if k mod 4 = 0 then 0 else 4 - k mod 4)" by presburger
    then show "on_curve (torsion k)" "torsion (- k) = ed_neg (torsion k)"
      using mod4 [of k] ii by (auto simp: torsion_def)
  qed
  moreover have "ed_add (torsion g) (torsion h) (torsion (g + h))" for g h
  proof -
    have "(g + h) mod 4 = (g mod 4 + h mod 4) mod 4" by (simp add: mod_add_eq)
    then show ?thesis
      using mod4 [of g] mod4 [of h] ii by (elim disjE) (simp_all add: torsion_def)
  qed
  moreover have "torsion 0 = (0, 1)" by (simp add: torsion_def)
  ultimately show ?thesis by (simp add: ed_hom_def)
qed

lemma torsion_fe_ok: "fe_within 1 (torsion_fe k)" "fe_within 2 (torsion_fe k)"
  "fz (torsion_fe k) = (if even k then snd (torsion k) else fst (torsion k))"
proof -
  have neg: "fe_neg fe_sqrtm1 = Some (map uminus fe_sqrtm1)" by code_simp
  with fe_neg_within [OF fe_sqrtm1_facts(1)]
  have m: "fe_within 1 (map uminus fe_sqrtm1)" "fz (map uminus fe_sqrtm1) = - fz fe_sqrtm1" by auto
  show w: "fe_within 1 (torsion_fe k)"
    using m fe_m1 fe_const_rep fe_sqrtm1_facts by (simp add: torsion_fe_def)
  show "fe_within 2 (torsion_fe k)" by (rule fe_within_mono [OF w]) simp
  have "even k \<longleftrightarrow> even (k mod 4)" by presburger
  then show "fz (torsion_fe k) = (if even k then snd (torsion k) else fst (torsion k))"
    using mod4 [of k] m(2) fe_m1 fe_const_rep by (auto simp: torsion_fe_def torsion_def)
qed

lemma torsion_zero: "even k \<Longrightarrow> fst (torsion k) = 0" "odd k \<Longrightarrow> snd (torsion k) = 0"
proof -
  have "even k \<longleftrightarrow> even (k mod 4)" by presburger
  then show "even k \<Longrightarrow> fst (torsion k) = 0" "odd k \<Longrightarrow> snd (torsion k) = 0"
    using mod4 [of k] by (auto simp: torsion_def)
qed

lemma torsion_reps:
  "p3_rep (torsion_p3 k) (torsion k)" "precomp_rep (torsion_precomp k) (torsion k)"
  "cached_rep (torsion_cached k) (torsion k)"
proof -
  have m: "torsion (- k) = ed_neg (torsion k)" using ed_hom_torsion by (simp add: ed_hom_def)
  show "p3_rep (torsion_p3 k) (torsion k)" "precomp_rep (torsion_precomp k) (torsion k)"
    "cached_rep (torsion_cached k) (torsion k)"
    using torsion_zero [of k] m torsion_fe_ok [of k] torsion_fe_ok [of "- k"]
    by (cases "torsion k"; auto simp: p3_rep_def precomp_rep_def cached_rep_def torsion_p3_def torsion_precomp_def
      torsion_cached_def fe_const_rep)+
qed

lemma imul_int: "imul k g = k * (g :: int)"
proof -
  have "nmul n g = int n * g" for n by (induction n) (simp_all add: distrib_right)
  then show ?thesis by (simp add: imul_def)
qed

lemma torsion_multiples:
  "precomp.odd_multiples torsion 1 (map (\<lambda>j. torsion_precomp (2 * int j + 1)) [0..<8])"
  "cached.odd_multiples torsion 1 (map (\<lambda>j. torsion_cached (2 * int j + 1)) [0..<8])"
  by (simp_all add: precomp.odd_multiples_def cached.odd_multiples_def imul_int torsion_reps
    del: upt_rec_numeral upt_conv_Cons)

section \<open>Properties\<close>

text \<open>
  C13: \<open>ge_double_scalarmult_base_vartime\<close>, \<open>ge_double_scalarmult_precomp_vartime\<close>,
  \<open>ge_double_scalarmult_precomp_vartime2\<close> and the two triple multiplications. Let \<open>pt\<close> map a group to
  points of the curve that add like its elements, let the tables hold the odd multiples of their
  points and the scalars be below \<open>2^255\<close>. Then the functions return, without overflow, a
  representation of \<open>a A + b B\<close> or \<open>a A + b B + c C\<close>.
\<close>

theorem scalarmult_vartime_correct:
  fixes pt :: "'g :: ab_group_add \<Rightarrow> point"
  assumes "ed_hom pt" "dsm_scalar a" "dsm_scalar b" "dsm_scalar c" "p3_rep A (pt g)"
    and "precomp.odd_multiples pt h Gi" "cached.odd_multiples pt g Ai" "cached.odd_multiples pt h Bi"
    and "cached.odd_multiples pt k Ci"
  defines "m \<equiv> \<lambda>a x. imul (int (le_nat a)) x"
  shows "(\<exists>r. ge_double_scalarmult_base_vartime Gi a A b = Some r \<and> p2_rep r (pt (m a g + m b h)))
    \<and> (\<exists>r. ge_double_scalarmult_precomp_vartime a A b Bi = Some r \<and> p2_rep r (pt (m a g + m b h)))
    \<and> (\<exists>r. ge_double_scalarmult_precomp_vartime2 a Ai b Bi = Some r \<and> p2_rep r (pt (m a g + m b h)))
    \<and> (\<exists>r. ge_triple_scalarmult_base_vartime Gi a b Ai c Ci = Some r \<and> p2_rep r (pt (m a h + m b g + m c k)))
    \<and> (\<exists>r. ge_triple_scalarmult_precomp_vartime a Ai b Bi c Ci = Some r \<and> p2_rep r (pt (m a g + m b h + m c k)))"
proof -
  have "yields (\<lambda>r. p2_rep r (pt (m a g + m b h))) (ge_double_scalarmult_precomp_vartime a A b Bi)"
    unfolding ge_double_scalarmult_precomp_vartime_def m_def
    by (rule yields_bind [OF ge_dsm_precomp_rep [OF assms(1,5)] ge_double_precomp_rep(1) [OF assms(1-3) _ assms(8)]])
  then show ?thesis
    using ge_double_base_rep(1) [OF assms(1-3,5,6)] ge_double_precomp_rep(1) [OF assms(1-3,7,8)]
      ge_triple_rep(1) [OF assms(1-4,7,9,6)] ge_triple_rep(2) [OF assms(1-4,8,9,7)]
    unfolding yields_def m_def by blast
qed

lemma small_scalar: "dsm_scalar (x # replicate 31 0)" "le_nat (x # replicate 31 0) = unat x"
proof -
  show v: "le_nat (x # replicate 31 0) = unat x" by (simp only: le_nat.simps le_nat_zeros)
  have "unat x < 256" using unsigned_less [of x] by simp
  then have "unat x < 2 ^ 255" by (rule less_trans) simp
  then show "dsm_scalar (x # replicate 31 0)"
    unfolding dsm_scalar_def v by simp
qed

theorem scalarmult_vartime_correct_witness:
  \<comment> \<open>\<open>7 P + 6 P = P\<close> for the point \<open>P = (i, 0)\<close> of order four\<close>
  "\<exists>r. ge_double_scalarmult_base_vartime (map (\<lambda>j. torsion_precomp (2 * int j + 1)) [0..<8])
      (7 # replicate 31 0) (torsion_p3 1) (6 # replicate 31 0) = Some r
    \<and> p2_rep r (fz fe_sqrtm1, 0)"
proof -
  note t = scalarmult_vartime_correct [OF ed_hom_torsion small_scalar(1) small_scalar(1) small_scalar(1)
      torsion_reps(1) torsion_multiples torsion_multiples(2) torsion_multiples(2),
      of 7 6 0, unfolded imul_int small_scalar(2)]
  have "torsion (int (unat (7 :: u8)) * 1 + int (unat (6 :: u8)) * 1) = (fz fe_sqrtm1, 0)"
    by (simp add: torsion_def)
  with t show ?thesis by auto
qed

text \<open>
  C35: the versions that return a \<open>ge_p3\<close>, \<open>ge_double_scalarmult_base_vartime_p3\<close> and
  \<open>ge_double_scalarmult_precomp_vartime2_p3\<close>, do so when one scalar is not 0. When both are 0 the
  loop body never runs and the result is never written: the caller keeps what \<open>r3\<close> pointed to.
\<close>

theorem scalarmult_vartime_p3:
  fixes pt :: "'g :: ab_group_add \<Rightarrow> point"
  assumes "ed_hom pt" "dsm_scalar a" "dsm_scalar b" "p3_rep A (pt g)"
    and "precomp.odd_multiples pt h Gi" "cached.odd_multiples pt g Ai" "cached.odd_multiples pt h Bi"
  defines "R \<equiv> pt (imul (int (le_nat a)) g + imul (int (le_nat b)) h)"
  shows "(if le_nat a = 0 \<and> le_nat b = 0
     then ge_double_scalarmult_base_vartime_p3 Gi r3 a A b = Some r3
       \<and> ge_double_scalarmult_precomp_vartime2_p3 r3 a Ai b Bi = Some r3
     else (\<exists>r. ge_double_scalarmult_base_vartime_p3 Gi r3 a A b = Some r \<and> p3_rep r R)
       \<and> (\<exists>r. ge_double_scalarmult_precomp_vartime2_p3 r3 a Ai b Bi = Some r \<and> p3_rep r R))"
proof (cases "le_nat a = 0 \<and> le_nat b = 0")
  case True
  moreover obtain rs where "ge_dsm_precomp A = Some rs"
    using ge_dsm_precomp_rep [OF assms(1,4)] by (auto simp: yields_def)
  ultimately show ?thesis
    using ge_double_p3_zero(1) [of a b r3 Ai Bi] ge_double_p3_zero(2) [of a b Gi r3 A] assms(2,3)
    by (simp add: dsm_scalar_def)
next
  case False
  then show ?thesis
    using ge_double_base_rep(2) [OF assms(1-5)] ge_double_precomp_rep(2) [OF assms(1-3,6,7)]
    unfolding yields_def R_def by auto
qed

theorem scalarmult_vartime_p3_witness:
  "ge_double_scalarmult_precomp_vartime2_p3 (torsion_p3 3) (0 # replicate 31 0)
      (map (\<lambda>j. torsion_cached (2 * int j + 1)) [0..<8]) (0 # replicate 31 0)
      (map (\<lambda>j. torsion_cached (2 * int j + 1)) [0..<8]) = Some (torsion_p3 3)
    \<and> p3_rep (torsion_p3 3) (- fz fe_sqrtm1, 0)"
proof -
  note t = scalarmult_vartime_p3 [OF ed_hom_torsion small_scalar(1) small_scalar(1) torsion_reps(1)
      torsion_multiples torsion_multiples(2), of 0 0 "torsion_p3 3", unfolded small_scalar(2)]
  have "p3_rep (torsion_p3 3) (torsion 3)" by (rule torsion_reps)
  then show ?thesis using t by (simp add: torsion_def)
qed

end
