(* ===== verification/Ge_Mult.thy ===== *)
theory Ge_Mult
  imports Ge_Window
begin

unbundle bit_operations_syntax

text \<open>
  Scalar multiplication in base 16, in \<^verbatim>\<open>src/base/tools/cryptonote/crypto-ops.c\<close>:
  \<open>ge_scalarmult_base\<close>, with the table of multiples of the base point, and \<open>ge_scalarmult\<close>, which
  makes its table. Both read a table without a branch or an index that depends on the digit: they
  move every entry conditionally. What such a table has to offer is the locale \<open>ct_table\<close>.
\<close>

section \<open>The code\<close>

definition ge_precomp_0 :: ge_precomp where
  "ge_precomp_0 = \<lparr>pre_yplusx = fe_1, pre_yminusx = fe_1, pre_xy2d = fe_0\<rparr>"

definition ge_equal :: "u8 \<Rightarrow> u8 \<Rightarrow> u8" where
  "ge_equal b c =
     (let x = b XOR c; y = (ucast x :: u32); y = y - 1; y = drop_bit 31 y in ucast y)"

definition ge_negative :: "int \<Rightarrow> u8" where
  \<comment> \<open>the argument is the \<open>signed char\<close>\<close>
  "ge_negative b = (let x = (word_of_int b :: u64) in ucast (drop_bit 63 x))"

definition ge_babs :: "int \<Rightarrow> u8" where
  \<comment> \<open>\<open>b - (((-bnegative) & b) << 1)\<close>, computed in \<open>int\<close>, stored in an \<open>unsigned char\<close>\<close>
  "ge_babs b = word_of_int (b - ((- uint (ge_negative b)) AND b) * 2)"

definition ge_precomp_cmov :: "ge_precomp \<Rightarrow> ge_precomp \<Rightarrow> u8 \<Rightarrow> ge_precomp option" where
  "ge_precomp_cmov t u b =
     fe_cmov (pre_yplusx t) (pre_yplusx u) (ucast b) \<bind> (\<lambda>yplusx.
     fe_cmov (pre_yminusx t) (pre_yminusx u) (ucast b) \<bind> (\<lambda>yminusx.
     fe_cmov (pre_xy2d t) (pre_xy2d u) (ucast b) \<bind> (\<lambda>xy2d.
     Some \<lparr>pre_yplusx = yplusx, pre_yminusx = yminusx, pre_xy2d = xy2d\<rparr>)))"

definition ge_select :: "ge_precomp list \<Rightarrow> int \<Rightarrow> ge_precomp option" where
  \<comment> \<open>\<open>select(&t, pos, b)\<close>, the first argument the row \<open>ge_base[pos]\<close>\<close>
  "ge_select row b =
     (let bnegative = ge_negative b; babs = ge_babs b
      in seqM (\<lambda>k t. ge_precomp_cmov t (row ! k) (ge_equal babs (of_nat (k + 1)))) [0, 1, 2, 3, 4, 5, 6, 7]
           ge_precomp_0 \<bind> (\<lambda>t.
         fe_neg (pre_xy2d t) \<bind> (\<lambda>xy2d.
         ge_precomp_cmov t
           \<lparr>pre_yplusx = fe_copy (pre_yminusx t), pre_yminusx = fe_copy (pre_yplusx t), pre_xy2d = xy2d\<rparr>
           bnegative)))"

definition ge_scalarmult_base :: "ge_precomp list list \<Rightarrow> bytes \<Rightarrow> ge_p3 option" where
  \<comment> \<open>the first argument is the table \<open>ge_base\<close>\<close>
  "ge_scalarmult_base base a =
     (let e = base16_digits a;
          step = (\<lambda>i h. ge_select (base ! (i div 2)) (e ! i) \<bind> ge_madd h \<bind> ge_p1p1_to_p3)
      in seqM step (map (\<lambda>k. 2 * k + 1) [0..<32]) ge_p3_0 \<bind> (\<lambda>h.
         ge_p3_dbl h \<bind> ge_p1p1_to_p2 \<bind>
         ge_p2_dbl \<bind> ge_p1p1_to_p2 \<bind>
         ge_p2_dbl \<bind> ge_p1p1_to_p2 \<bind>
         ge_p2_dbl \<bind> ge_p1p1_to_p3 \<bind>
         seqM step (map (\<lambda>k. 2 * k) [0..<32])))"

definition ge_cached_0 :: ge_cached where
  "ge_cached_0 = \<lparr>ca_YplusX = fe_1, ca_YminusX = fe_1, ca_Z = fe_1, ca_T2d = fe_0\<rparr>"

definition ge_cached_cmov :: "ge_cached \<Rightarrow> ge_cached \<Rightarrow> u8 \<Rightarrow> ge_cached option" where
  "ge_cached_cmov t u b =
     fe_cmov (ca_YplusX t) (ca_YplusX u) (ucast b) \<bind> (\<lambda>YplusX.
     fe_cmov (ca_YminusX t) (ca_YminusX u) (ucast b) \<bind> (\<lambda>YminusX.
     fe_cmov (ca_Z t) (ca_Z u) (ucast b) \<bind> (\<lambda>Z.
     fe_cmov (ca_T2d t) (ca_T2d u) (ucast b) \<bind> (\<lambda>T2d.
     Some \<lparr>ca_YplusX = YplusX, ca_YminusX = YminusX, ca_Z = Z, ca_T2d = T2d\<rparr>))))"

definition ge_cached_select :: "ge_cached list \<Rightarrow> int \<Rightarrow> ge_cached option" where
  \<comment> \<open>the moves in the loop of \<open>ge_scalarmult\<close>\<close>
  "ge_cached_select Ai b =
     (let bnegative = ge_negative b; babs = ge_babs b
      in seqM (\<lambda>k cur. ge_cached_cmov cur (Ai ! k) (ge_equal babs (of_nat (k + 1)))) [0, 1, 2, 3, 4, 5, 6, 7]
           ge_cached_0 \<bind> (\<lambda>cur.
         fe_neg (ca_T2d cur) \<bind> (\<lambda>T2d.
         ge_cached_cmov cur
           \<lparr>ca_YplusX = fe_copy (ca_YminusX cur), ca_YminusX = fe_copy (ca_YplusX cur),
            ca_Z = fe_copy (ca_Z cur), ca_T2d = T2d\<rparr>
           bnegative)))"

definition ge_scalarmult_round :: "ge_cached list \<Rightarrow> int \<Rightarrow> ge_p2 \<Rightarrow> ge_p1p1 option" where
  \<comment> \<open>the body of the main loop up to the last conversion\<close>
  "ge_scalarmult_round Ai b r =
     ge_p2_dbl r \<bind> ge_p1p1_to_p2 \<bind>
     ge_p2_dbl \<bind> ge_p1p1_to_p2 \<bind>
     ge_p2_dbl \<bind> ge_p1p1_to_p2 \<bind>
     ge_p2_dbl \<bind> ge_p1p1_to_p3 \<bind> (\<lambda>u.
     ge_cached_select Ai b \<bind> ge_add u)"

fun ge_scalarmult_loop :: "ge_cached list \<Rightarrow> int list \<Rightarrow> nat \<Rightarrow> ge_p2 \<Rightarrow> ge_p2 option" where
  "ge_scalarmult_loop Ai e 0 r = Some r"
| "ge_scalarmult_loop Ai e (Suc i) r =
     ge_scalarmult_round Ai (e ! i) r \<bind> ge_p1p1_to_p2 \<bind> ge_scalarmult_loop Ai e i"

fun ge_scalarmult_loop_p3 :: "ge_cached list \<Rightarrow> int list \<Rightarrow> nat \<Rightarrow> ge_p2 \<Rightarrow> ge_p3 option" where
  "ge_scalarmult_loop_p3 Ai e 0 r = None"
| "ge_scalarmult_loop_p3 Ai e (Suc i) r =
     ge_scalarmult_round Ai (e ! i) r \<bind> (\<lambda>t.
     if i = 0 then ge_p1p1_to_p3 t
     else ge_p1p1_to_p2 t \<bind> ge_scalarmult_loop_p3 Ai e i)"

definition ge_scalarmult :: "bytes \<Rightarrow> ge_p3 \<Rightarrow> ge_p2 option" where
  "ge_scalarmult a A =
     (let e = base16_pairs 0 a
      in ge_p3_to_cached A \<bind> dsm_multiples 7 A \<bind> (\<lambda>Ai.
         ge_scalarmult_loop Ai e 64 ge_p2_0))"

definition ge_scalarmult_p3 :: "bytes \<Rightarrow> ge_p3 \<Rightarrow> ge_p3 option" where
  "ge_scalarmult_p3 a A =
     (let e = base16_pairs 0 a
      in ge_p3_to_cached A \<bind> dsm_multiples 7 A \<bind> (\<lambda>Ai.
         ge_scalarmult_loop_p3 Ai e 64 ge_p2_0))"

section \<open>The selection bits\<close>

lemma ge_equal_eq: "ge_equal b c = (if b = c then 1 else 0)"
proof (cases "b = c")
  case True
  have "drop_bit 31 (- 1 :: u32) = 1" by code_simp
  then show ?thesis using True by (simp add: ge_equal_def)
next
  case False
  let ?x = "ucast (b XOR c) :: u32"
  have "b XOR c \<noteq> 0" using False by (metis word_bw_same(3) xor.assoc xor.right_neutral xor_self_eq)
  then have "uint ?x \<noteq> 0" "uint ?x < 256"
    using uint_lt2p [of "b XOR c"] by (simp_all add: uint_up_ucast is_up uint_0_iff)
  then have "uint (?x - 1) = uint ?x - 1"
    by (metis uint_1 uint_sub_if' word_less_1 word_less_def linorder_not_less uint_0_iff)
  then have "uint (?x - 1) < 2 ^ 31" using \<open>uint ?x < 256\<close> by simp
  then have "drop_bit 31 (?x - 1) = 0"
    by (simp add: drop_bit_eq_div word_div_def)
  then show ?thesis using False by (simp add: ge_equal_def Let_def)
qed

lemma ge_signs:
  assumes "- 8 \<le> b" "b \<le> 8"
  shows "ge_negative b = (if b < 0 then 1 else 0)" "ge_babs b = word_of_int \<bar>b\<bar>"
proof -
  have "b \<in> set [- 8..8]" unfolding set_upto using assms by (simp only: atLeastAtMost_iff)
  moreover have "\<forall>b \<in> set [- 8..8]. ge_negative b = (if b < 0 then 1 else 0) \<and> ge_babs b = word_of_int \<bar>b\<bar>"
    by code_simp
  ultimately show "ge_negative b = (if b < 0 then 1 else 0)" "ge_babs b = word_of_int \<bar>b\<bar>" by blast+
qed

section \<open>Reading a table\<close>

lemma fe_cmov_within:
  assumes "fe_within 3 f" "fe_within 3 g"
  shows "fe_cmov f g b = (if b = 0 then Some f else if b = 1 then Some g else None)"
proof -
  have "in32 x" if w: "fe_within 3 h" and x: "x \<in> set h" for h x
  proof -
    obtain i where i: "i < 10" "x = h ! i"
      using x fe_within_length [OF w] unfolding in_set_conv_nth by metis
    then have "\<bar>x\<bar> \<le> 3 * fe_tight ! i" "fe_tight ! i \<le> 33889976"
      using w fe_tight_range [of i] by (auto simp: fe_within_iff)
    then show ?thesis by (auto simp: in32_def)
  qed
  then show ?thesis
    using assms fe_within_length by (intro fe_cmov_ok) blast+
qed

locale ct_table =
  fixes cmov :: "'t \<Rightarrow> 't \<Rightarrow> u8 \<Rightarrow> 't option" and ok :: "'t \<Rightarrow> bool"
  assumes cmov: "ok t \<Longrightarrow> ok u \<Longrightarrow> cmov t u b = (if b = 0 then Some t else if b = 1 then Some u else None)"
begin

lemma lookup:
  assumes "ok t" "\<And>k. k < 8 \<Longrightarrow> ok (tbl ! k)" "- 8 \<le> b" "b \<le> 8"
  shows "seqM (\<lambda>k t. cmov t (tbl ! k) (ge_equal (ge_babs b) (of_nat (k + 1)))) [0, 1, 2, 3, 4, 5, 6, 7] t
    = Some (if b = 0 then t else tbl ! nat (\<bar>b\<bar> - 1))"
proof -
  define n where "n = nat \<bar>b\<bar>"
  have "n \<le> 8" using assms(3,4) by (simp add: n_def)
  then have "n = 0 \<or> n = 1 \<or> n = 2 \<or> n = 3 \<or> n = 4 \<or> n = 5 \<or> n = 6 \<or> n = 7 \<or> n = 8" by linarith
  then have n: "nat \<bar>b\<bar> \<in> {0, 1, 2, 3, 4, 5, 6, 7, 8}" by (simp only: n_def insert_iff) blast
  have "ge_babs b = of_nat (nat \<bar>b\<bar>)"
    using ge_signs(2) [OF assms(3,4)] by simp
  moreover have "(if b = 0 then t else tbl ! nat (\<bar>b\<bar> - 1)) = (if nat \<bar>b\<bar> = 0 then t else tbl ! (nat \<bar>b\<bar> - 1))"
    by (simp add: nat_diff_distrib)
  ultimately show ?thesis
    using n assms(1,2) by (auto simp: ge_equal_eq cmov simp del: of_nat_nat)
qed

end

definition precomp_ok :: "ge_precomp \<Rightarrow> bool" where
  "precomp_ok t \<longleftrightarrow> fe_within 3 (pre_yplusx t) \<and> fe_within 3 (pre_yminusx t) \<and> fe_within 3 (pre_xy2d t)"

definition cached_ok :: "ge_cached \<Rightarrow> bool" where
  "cached_ok t \<longleftrightarrow> fe_within 3 (ca_YplusX t) \<and> fe_within 3 (ca_YminusX t) \<and> fe_within 3 (ca_Z t) \<and> fe_within 3 (ca_T2d t)"

lemma ucast_bit: "(ucast (b :: u8) = (0 :: u32)) \<longleftrightarrow> b = 0" "(ucast (b :: u8) = (1 :: u32)) \<longleftrightarrow> b = 1"
  by (simp_all add: word_uint_eq_iff uint_up_ucast is_up)

interpretation precomp_table: ct_table ge_precomp_cmov precomp_ok
  by unfold_locales (simp add: ge_precomp_cmov_def precomp_ok_def fe_cmov_within ucast_bit)

interpretation cached_table: ct_table ge_cached_cmov cached_ok
  by unfold_locales (simp add: ge_cached_cmov_def cached_ok_def fe_cmov_within ucast_bit)

lemma precomp_rep_ok: "precomp_rep t P \<Longrightarrow> precomp_ok t"
  by (auto simp: precomp_rep_def precomp_ok_def elim: fe_within_mono)

lemma cached_rep_ok: "cached_rep t P \<Longrightarrow> cached_ok t"
  by (auto simp: cached_rep_def cached_ok_def elim: fe_within_mono)

lemma ge_zero_rep: "precomp_rep ge_precomp_0 (0, 1)" "cached_rep ge_cached_0 (0, 1)"
proof -
  have "fe_within 2 fe_1" using fe_const_rep(2) by (rule fe_within_mono) simp
  then show "precomp_rep ge_precomp_0 (0, 1)" "cached_rep ge_cached_0 (0, 1)"
    by (simp_all add: precomp_rep_def ge_precomp_0_def cached_rep_def ge_cached_0_def fe_const_rep)
qed

lemma ge_select_rep:
  assumes hom: "ed_hom pt" and b: "- 8 \<le> b" "b \<le> 8"
    and row: "\<And>j. j < 8 \<Longrightarrow> precomp_rep (row ! j) (pt (imul (int j + 1) g))"
  shows "yields (\<lambda>t. precomp_rep t (pt (imul b g))) (ge_select row b)"
proof -
  define t where "t = (if b = 0 then ge_precomp_0 else row ! nat (\<bar>b\<bar> - 1))"
  have t: "precomp_rep t (pt (imul \<bar>b\<bar> g))"
  proof (cases "b = 0")
    case False
    then have "nat (\<bar>b\<bar> - 1) < 8" "int (nat (\<bar>b\<bar> - 1)) + 1 = \<bar>b\<bar>" using b by auto
    then show ?thesis using row [of "nat (\<bar>b\<bar> - 1)"] False by (simp add: t_def)
  qed (use ge_zero_rep(1) ed_homD(1) [OF hom] in \<open>simp add: t_def\<close>)
  then obtain x where x: "fe_neg (pre_xy2d t) = Some x" "fe_within 1 x" "fz x = - fz (pre_xy2d t)"
    using fe_neg_within [OF precomp_rep_within(3) [OF t]] by blast
  let ?m = "\<lparr>pre_yplusx = pre_yminusx t, pre_yminusx = pre_yplusx t, pre_xy2d = x\<rparr>"
  have m: "precomp_rep ?m (ed_neg (pt (imul \<bar>b\<bar> g)))"
    using t x by (cases "pt (imul \<bar>b\<bar> g)") (simp add: precomp_rep_def)
  note w = precomp_rep_within [OF t]
  have l: "seqM (\<lambda>k t. ge_precomp_cmov t (row ! k) (ge_equal (ge_babs b) (of_nat (k + 1)))) [0, 1, 2, 3, 4, 5, 6, 7]
      ge_precomp_0 = Some t"
    unfolding t_def by (rule precomp_table.lookup [OF precomp_rep_ok [OF ge_zero_rep(1)] precomp_rep_ok [OF row] b])
  have "ge_select row b = ge_precomp_cmov t ?m (ge_negative b)"
    unfolding ge_select_def Let_def
    by (simp only: l x(1) Option.bind.bind_lunit fe_copy_id [OF w(1)] fe_copy_id [OF w(2)])
  also have "\<dots> = Some (if b < 0 then ?m else t)"
    using precomp_table.cmov [OF precomp_rep_ok [OF t] precomp_rep_ok [OF m]] ge_signs(1) [OF b] by simp
  finally show ?thesis
    using t m ed_homD(3) [OF hom, of "imul \<bar>b\<bar> g"] by (auto simp: yields_def abs_if split: if_splits)
qed

lemma ge_cached_select_rep:
  assumes hom: "ed_hom pt" and b: "- 8 \<le> b" "b \<le> 8"
    and row: "\<And>j. j < 8 \<Longrightarrow> cached_rep (row ! j) (pt (imul (int j + 1) g))"
  shows "yields (\<lambda>t. cached_rep t (pt (imul b g))) (ge_cached_select row b)"
proof -
  define t where "t = (if b = 0 then ge_cached_0 else row ! nat (\<bar>b\<bar> - 1))"
  have t: "cached_rep t (pt (imul \<bar>b\<bar> g))"
  proof (cases "b = 0")
    case False
    then have "nat (\<bar>b\<bar> - 1) < 8" "int (nat (\<bar>b\<bar> - 1)) + 1 = \<bar>b\<bar>" using b by auto
    then show ?thesis using row [of "nat (\<bar>b\<bar> - 1)"] False by (simp add: t_def)
  qed (use ge_zero_rep(2) ed_homD(1) [OF hom] in \<open>simp add: t_def\<close>)
  then obtain x where x: "fe_neg (ca_T2d t) = Some x" "fe_within 1 x" "fz x = - fz (ca_T2d t)"
    using fe_neg_within [OF cached_rep_within(4) [OF t]] by blast
  let ?m = "\<lparr>ca_YplusX = ca_YminusX t, ca_YminusX = ca_YplusX t, ca_Z = ca_Z t, ca_T2d = x\<rparr>"
  have m: "cached_rep ?m (ed_neg (pt (imul \<bar>b\<bar> g)))"
    using t x by (cases "pt (imul \<bar>b\<bar> g)") (simp add: cached_rep_def)
  note w = cached_rep_within [OF t]
  have l: "seqM (\<lambda>k t. ge_cached_cmov t (row ! k) (ge_equal (ge_babs b) (of_nat (k + 1)))) [0, 1, 2, 3, 4, 5, 6, 7]
      ge_cached_0 = Some t"
    unfolding t_def by (rule cached_table.lookup [OF cached_rep_ok [OF ge_zero_rep(2)] cached_rep_ok [OF row] b])
  have "ge_cached_select row b = ge_cached_cmov t ?m (ge_negative b)"
    unfolding ge_cached_select_def Let_def
    by (simp only: l x(1) Option.bind.bind_lunit fe_copy_id [OF w(1)] fe_copy_id [OF w(2)] fe_copy_id [OF w(3)])
  also have "\<dots> = Some (if b < 0 then ?m else t)"
    using cached_table.cmov [OF cached_rep_ok [OF t] cached_rep_ok [OF m]] ge_signs(1) [OF b] by simp
  finally show ?thesis
    using t m ed_homD(3) [OF hom, of "imul \<bar>b\<bar> g"] by (auto simp: yields_def abs_if split: if_splits)
qed

section \<open>\<open>ge_scalarmult_base\<close>\<close>

lemma imul_mult: "imul (j * k) g = imul j (imul k g)"
proof -
  have n: "nmul a (imul k g) = imul (int a * k) g" for a
    by (induction a) (simp_all add: imul_add distrib_right)
  obtain a b where j: "j = int a - int b" by (metis int_diff_cases)
  have "j * k = int a * k + - (int b * k)" by (simp add: j algebra_simps)
  then have "imul (j * k) g = imul (int a * k) g + imul (- (int b * k)) g"
    by (simp only: imul_add)
  also have "\<dots> = imul j (imul k g)"
    by (simp add: j imul_diff n)
  finally show ?thesis .
qed

lemma seqM_rep:
  assumes "\<And>i h. i < n \<Longrightarrow> P i h \<Longrightarrow> yields (P (Suc i)) (f i h)" "P 0 h"
  shows "yields (P n) (seqM f [0..<n] h)"
  using assms
proof (induction n)
  case 0
  then show ?case by (simp add: yields_def)
next
  case (Suc n)
  then have "yields (P n) (seqM f [0..<n] h)" by simp
  moreover have "seqM f [0..<Suc n] h = seqM f [0..<n] h \<bind> f n"
  proof -
    have "seqM f [] = Some" by (rule ext) simp
    then have "seqM f [n] = f n" by (intro ext) simp
    then show ?thesis by (simp add: seqM_append)
  qed
  ultimately show ?case
    using yields_bind [of "P n" "seqM f [0..<n] h" "P (Suc n)" "f n"] Suc.prems(1) [of n] by simp
qed

lemma seqM_map: "seqM f (map k xs) h = seqM (\<lambda>i. f (k i)) xs h"
proof (induction xs arbitrary: h)
  case (Cons x xs)
  then show ?case by (cases "f (k x) h") simp_all
qed simp

lemma digits_value_pairs:
  assumes "length e = 2 * n"
  shows "digits_value 16 e = (\<Sum>k<n. e ! (2 * k) * 256 ^ k) + 16 * (\<Sum>k<n. e ! (2 * k + 1) * 256 ^ k)"
  using assms
proof (induction n arbitrary: e)
  case (Suc n)
  then obtain x y d where e: "e = x # y # d" and d: "length d = 2 * n"
    by (cases e; cases "tl e") auto
  show ?case
    unfolding sum.lessThan_Suc_shift
    by (simp add: e Suc.IH [OF d] sum_distrib_left algebra_simps)
qed simp

definition base_table :: "('g :: ab_group_add \<Rightarrow> point) \<Rightarrow> 'g \<Rightarrow> ge_precomp list list \<Rightarrow> bool" where
  \<comment> \<open>entry \<open>j\<close> of row \<open>pos\<close> is \<open>(j + 1) 256^pos g\<close>\<close>
  "base_table pt g base \<longleftrightarrow>
     (\<forall>pos<32. \<forall>j<8. precomp_rep (base ! pos ! j) (pt (imul (int j + 1) (imul (256 ^ pos) g))))"

lemma base_step:
  assumes hom: "ed_hom pt" and tbl: "base_table pt g base" and k: "k < 32"
    and d: "- 8 \<le> d" "d \<le> 8" and h: "p3_rep h (pt (imul m g))"
  shows "yields (\<lambda>h. p3_rep h (pt (imul (m + d * 256 ^ k) g)))
    (ge_select (base ! k) d \<bind> ge_madd h \<bind> ge_p1p1_to_p3)"
proof (rule yields_bind [OF yields_bind])
  show "yields (\<lambda>t. precomp_rep t (pt (imul (d * 256 ^ k) g))) (ge_select (base ! k) d)"
    unfolding imul_mult using tbl k by (intro ge_select_rep hom d) (simp add: base_table_def)
  have add: "ed_add (pt (imul m g)) (pt (imul (d * 256 ^ k) g)) (pt (imul (m + d * 256 ^ k) g))"
    unfolding imul_add by (rule ed_homD(4) [OF hom])
  show "yields (\<lambda>r. p1p1_rep r (pt (imul (m + d * 256 ^ k) g))) (ge_madd h t)"
    if "precomp_rep t (pt (imul (d * 256 ^ k) g))" for t
    by (rule ge_madd_rep [OF h that add])
qed (rule ge_p1p1_to_p3_rep)

lemma dbl_step:
  assumes hom: "ed_hom pt" and r: "p2_rep r (pt x)"
  shows "yields (\<lambda>t. p1p1_rep t (pt (x + x))) (ge_p2_dbl r)"
  using ge_p2_dbl_rep [OF r ed_homD(2) [OF hom] ed_homD(4) [OF hom]] .

lemma dbl4_rep:
  assumes hom: "ed_hom pt" and r: "yields (\<lambda>t. p1p1_rep t (pt (x + x))) m"
  shows "yields (\<lambda>h. p3_rep h (pt (imul 16 x)))
    (m \<bind> ge_p1p1_to_p2 \<bind> ge_p2_dbl \<bind> ge_p1p1_to_p2 \<bind> ge_p2_dbl \<bind> ge_p1p1_to_p2 \<bind> ge_p2_dbl \<bind> ge_p1p1_to_p3)"
proof -
  have x: "imul 16 x = (x + x + (x + x)) + (x + x + (x + x)) + ((x + x + (x + x)) + (x + x + (x + x)))"
    using imul_double [of 8 x] imul_double [of 4 x] imul_double [of 2 x] imul_double [of 1 x] by simp
  show ?thesis
    unfolding x by (rule yields_bind r ge_p1p1_to_p2_rep ge_p1p1_to_p3_rep dbl_step [OF hom] | assumption)+
qed

lemma ge_scalarmult_base_rep:
  assumes hom: "ed_hom pt" and tbl: "base_table pt g base" and a: "length a = 32" "a ! 31 \<le> 127"
  shows "yields (\<lambda>h. p3_rep h (pt (imul (int (le_nat a)) g))) (ge_scalarmult_base base a)"
proof -
  let ?e = "base16_digits a"
  have e: "length ?e = 64" "\<And>j. j < 64 \<Longrightarrow> - 8 \<le> ?e ! j \<and> ?e ! j \<le> 8" "digits_value 16 ?e = int (le_nat a)"
    using base16_digits_correct [OF a] by (simp_all add: base16_ok_def)
  define odds evens where "odds = (\<lambda>n. \<Sum>k<n. ?e ! (2 * k + 1) * 256 ^ k)"
    and "evens = (\<lambda>n. \<Sum>k<n. ?e ! (2 * k) * 256 ^ k)"
  let ?step = "\<lambda>i h. ge_select (base ! (i div 2)) (?e ! i) \<bind> ge_madd h \<bind> ge_p1p1_to_p3"
  have "p3_rep ge_p3_0 (pt (imul (odds 0) g))"
    using ge_p3_0_rep ed_homD(1) [OF hom] by (simp add: odds_def)
  then have first: "yields (\<lambda>h. p3_rep h (pt (imul (odds 32) g))) (seqM ?step (map (\<lambda>k. 2 * k + 1) [0..<32]) ge_p3_0)"
    unfolding seqM_map
  proof (rule seqM_rep [where P = "\<lambda>n h. p3_rep h (pt (imul (odds n) g))", rotated])
    fix i h assume "i < (32 :: nat)" "p3_rep h (pt (imul (odds i) g))"
    then show "yields (\<lambda>h. p3_rep h (pt (imul (odds (Suc i)) g))) (?step (2 * i + 1) h)"
      using base_step [OF hom tbl, of i "?e ! (2 * i + 1)" h "odds i"] e(2) [of "2 * i + 1"] by (simp add: odds_def)
  qed
  have dbl: "yields (\<lambda>h. p3_rep h (pt (imul (16 * odds 32 + evens 0) g)))
      (ge_p3_dbl h \<bind> ge_p1p1_to_p2 \<bind> ge_p2_dbl \<bind> ge_p1p1_to_p2 \<bind> ge_p2_dbl \<bind> ge_p1p1_to_p2 \<bind> ge_p2_dbl \<bind> ge_p1p1_to_p3)"
    if "p3_rep h (pt (imul (odds 32) g))" for h
    using dbl4_rep [OF hom, of "imul (odds 32) g" "ge_p3_dbl h"]
      ge_p3_dbl_rep [OF that ed_homD(2) [OF hom] ed_homD(4) [OF hom]]
    by (simp add: evens_def imul_mult)
  have last: "yields (\<lambda>h. p3_rep h (pt (imul (16 * odds 32 + evens 32) g))) (seqM ?step (map (\<lambda>k. 2 * k) [0..<32]) h)"
    if "p3_rep h (pt (imul (16 * odds 32 + evens 0) g))" for h
    unfolding seqM_map using that
  proof (rule seqM_rep [where P = "\<lambda>n h. p3_rep h (pt (imul (16 * odds 32 + evens n) g))", rotated])
    fix i h assume "i < (32 :: nat)" "p3_rep h (pt (imul (16 * odds 32 + evens i) g))"
    then show "yields (\<lambda>h. p3_rep h (pt (imul (16 * odds 32 + evens (Suc i)) g))) (?step (2 * i) h)"
      using base_step [OF hom tbl, of i "?e ! (2 * i)" h "16 * odds 32 + evens i"] e(2) [of "2 * i"]
      by (simp add: evens_def add.assoc)
  qed
  have "16 * odds 32 + evens 32 = int (le_nat a)"
    using digits_value_pairs [of ?e 32] e(1,3) by (simp add: odds_def evens_def)
  then show ?thesis
    unfolding ge_scalarmult_base_def Let_def
    using yields_bind [OF first yields_bind [OF dbl last]] by simp
qed

section \<open>\<open>ge_scalarmult\<close>\<close>

lemma scalarmult_round:
  assumes hom: "ed_hom pt" and tbl: "\<forall>j<8. cached_rep (Ai ! j) (pt (imul (int j + 1) g))"
    and d: "- 8 \<le> d" "d \<le> 8" and r: "p2_rep r (pt (imul m g))"
  shows "yields (\<lambda>t. p1p1_rep t (pt (imul (d + 16 * m) g))) (ge_scalarmult_round Ai d r)"
proof -
  have u: "yields (\<lambda>h. p3_rep h (pt (imul 16 (imul m g))))
    (ge_p2_dbl r \<bind> ge_p1p1_to_p2 \<bind> ge_p2_dbl \<bind> ge_p1p1_to_p2 \<bind> ge_p2_dbl \<bind> ge_p1p1_to_p2 \<bind> ge_p2_dbl \<bind> ge_p1p1_to_p3)"
    by (rule dbl4_rep [OF hom dbl_step [OF hom r]])
  have sel: "yields (\<lambda>t. cached_rep t (pt (imul d g))) (ge_cached_select Ai d)"
    using tbl by (intro ge_cached_select_rep hom d) simp
  have add: "ed_add (pt (imul 16 (imul m g))) (pt (imul d g)) (pt (imul (d + 16 * m) g))"
    using ed_homD(4) [OF hom, of "imul 16 (imul m g)" "imul d g"]
    by (simp only: imul_add imul_mult add.commute)
  show ?thesis
    unfolding ge_scalarmult_round_def
    by (rule yields_bind [OF u yields_bind [OF sel]]) (rule ge_add_rep [OF _ _ add])
qed

lemma scalarmult_loops:
  assumes hom: "ed_hom pt" and tbl: "\<forall>j<8. cached_rep (Ai ! j) (pt (imul (int j + 1) g))"
    and e: "n \<le> length e" "\<forall>d \<in> set e. - 8 \<le> d \<and> d \<le> 8"
    and r: "p2_rep r (pt (imul (digits_value 16 (drop n e)) g))"
  shows "yields (\<lambda>r. p2_rep r (pt (imul (digits_value 16 e) g))) (ge_scalarmult_loop Ai e n r)"
    and "0 < n \<Longrightarrow> yields (\<lambda>r. p3_rep r (pt (imul (digits_value 16 e) g))) (ge_scalarmult_loop_p3 Ai e n r)"
proof -
  have "yields (\<lambda>r. p2_rep r (pt (imul (digits_value 16 e) g))) (ge_scalarmult_loop Ai e n r)
    \<and> (0 < n \<longrightarrow> yields (\<lambda>r. p3_rep r (pt (imul (digits_value 16 e) g))) (ge_scalarmult_loop_p3 Ai e n r))"
    using e(1) r
  proof (induction n arbitrary: r)
    case 0
    then show ?case by (simp add: yields_def)
  next
    case (Suc i)
    have "digits_value 16 (drop i e) = e ! i + 16 * digits_value 16 (drop (Suc i) e)"
      using digits_value_drop [of i e 16] Suc.prems(1) by simp
    then have t: "yields (\<lambda>t. p1p1_rep t (pt (imul (digits_value 16 (drop i e)) g))) (ge_scalarmult_round Ai (e ! i) r)"
      using scalarmult_round [OF hom tbl _ _ Suc.prems(2), of "e ! i"] e(2) Suc.prems(1) by simp
    have "yields (\<lambda>r. p2_rep r (pt (imul (digits_value 16 e) g))) (ge_scalarmult_loop Ai e (Suc i) r)"
      unfolding ge_scalarmult_loop.simps
      by (rule yields_bind [OF yields_bind [OF t ge_p1p1_to_p2_rep] Suc.IH [THEN conjunct1]]) (use Suc.prems(1) in simp_all)
    moreover have "yields (\<lambda>r. p3_rep r (pt (imul (digits_value 16 e) g))) (ge_scalarmult_loop_p3 Ai e (Suc i) r)"
      unfolding ge_scalarmult_loop_p3.simps
    proof (rule yields_bind [OF t])
      fix t assume t: "p1p1_rep t (pt (imul (digits_value 16 (drop i e)) g))"
      show "yields (\<lambda>r. p3_rep r (pt (imul (digits_value 16 e) g)))
        (if i = 0 then ge_p1p1_to_p3 t else ge_p1p1_to_p2 t \<bind> ge_scalarmult_loop_p3 Ai e i)"
      proof (cases "i = 0")
        case True
        then show ?thesis using ge_p1p1_to_p3_rep [OF t] by simp
      next
        case False
        have "yields (\<lambda>r. p3_rep r (pt (imul (digits_value 16 e) g))) (ge_p1p1_to_p2 t \<bind> ge_scalarmult_loop_p3 Ai e i)"
          by (rule yields_bind [OF ge_p1p1_to_p2_rep [OF t]]) (use False Suc.IH Suc.prems(1) in simp)
        then show ?thesis using False by simp
      qed
    qed
    ultimately show ?case by blast
  qed
  then show "yields (\<lambda>r. p2_rep r (pt (imul (digits_value 16 e) g))) (ge_scalarmult_loop Ai e n r)"
    and "0 < n \<Longrightarrow> yields (\<lambda>r. p3_rep r (pt (imul (digits_value 16 e) g))) (ge_scalarmult_loop_p3 Ai e n r)"
    by simp_all
qed

lemma ge_scalarmult_rep:
  assumes hom: "ed_hom pt" and a: "length a = 32" "a ! 31 \<le> 127" and A: "p3_rep A (pt g)"
  shows "yields (\<lambda>r. p2_rep r (pt (imul (int (le_nat a)) g))) (ge_scalarmult a A)"
    and "yields (\<lambda>r. p3_rep r (pt (imul (int (le_nat a)) g))) (ge_scalarmult_p3 a A)"
proof -
  let ?e = "base16_pairs 0 a"
  have "last a \<le> 127" using a by (cases a rule: rev_cases) (auto simp: nth_append)
  moreover have "a \<noteq> []" using a(1) by auto
  ultimately have e: "length ?e = 64" "\<forall>d \<in> set ?e. - 8 \<le> d \<and> d \<le> 8" "digits_value 16 ?e = int (le_nat a)"
    using base16_pairs_ok [of a 0] a(1) by simp_all
  have tbl: "yields (\<lambda>Ai. length Ai = 7 + 1 \<and> (\<forall>j\<le>7. cached_rep (Ai ! j) (pt (imul (1 * int j + 1) g))))
    (ge_p3_to_cached A \<bind> dsm_multiples 7 A)"
    using A by (intro yields_bind [OF ge_p3_to_cached_rep [OF A]] dsm_multiples_rep [OF hom]) simp_all
  have zero: "p2_rep ge_p2_0 (pt (imul (digits_value 16 (drop 64 ?e)) g))"
    using ge_p2_0_rep ed_homD(1) [OF hom] e(1) by simp
  show "yields (\<lambda>r. p2_rep r (pt (imul (int (le_nat a)) g))) (ge_scalarmult a A)"
    unfolding ge_scalarmult_def Let_def e(3) [symmetric]
    by (rule yields_bind [OF tbl scalarmult_loops(1) [OF hom _ _ e(2) zero]]) (use e(1) in \<open>auto simp: add.commute\<close>)
  show "yields (\<lambda>r. p3_rep r (pt (imul (int (le_nat a)) g))) (ge_scalarmult_p3 a A)"
    unfolding ge_scalarmult_p3_def Let_def e(3) [symmetric]
    by (rule yields_bind [OF tbl scalarmult_loops(2) [OF hom _ _ e(2) zero]]) (use e(1) in \<open>auto simp: add.commute\<close>)
qed

section \<open>Properties\<close>

text \<open>
  C14: \<open>ge_scalarmult_base\<close>. With a table that holds \<open>(j + 1) 256^i B\<close>, and a scalar whose top byte
  is at most 127, the precondition the code states, it returns a representation of \<open>a B\<close>; the
  selection of a table entry is correct for every digit from -8 to 8.
\<close>

theorem ge_scalarmult_base_correct:
  fixes pt :: "'g :: ab_group_add \<Rightarrow> point"
  assumes "ed_hom pt" "base_table pt g base" "length a = 32" "a ! 31 \<le> 127"
  shows "\<exists>h. ge_scalarmult_base base a = Some h \<and> p3_rep h (pt (imul (int (le_nat a)) g))"
  using ge_scalarmult_base_rep [OF assms] by (simp add: yields_def)

theorem ge_scalarmult_base_correct_witness:
  "\<exists>h. ge_scalarmult_base (map (\<lambda>i. map (\<lambda>j. torsion_precomp ((int j + 1) * 256 ^ i)) [0..<8]) [0..<32])
      (5 # replicate 31 0) = Some h \<and> p3_rep h (fz fe_sqrtm1, 0)"
proof -
  have "base_table torsion 1 (map (\<lambda>i. map (\<lambda>j. torsion_precomp ((int j + 1) * 256 ^ i)) [0..<8]) [0..<32])"
    by (simp add: base_table_def imul_int torsion_reps del: upt_rec_numeral upt_conv_Cons)
  moreover have "(5 # replicate 31 (0 :: u8)) ! 31 \<le> 127" by (simp add: nth_Cons')
  moreover have "torsion (int (unat (5 :: u8)) * 1) = (fz fe_sqrtm1, 0)" by (simp add: torsion_def)
  ultimately show ?thesis
    using ge_scalarmult_base_correct [OF ed_hom_torsion, of 1 _ "5 # replicate 31 0"]
    by (simp only: imul_int small_scalar(2)) simp
qed

text \<open>
  C21: \<open>ge_scalarmult\<close> and \<open>ge_scalarmult_p3\<close> return representations of \<open>a A\<close>, for every point \<open>A\<close>
  with coordinates within the bounds of a product and every scalar with \<open>a[31] <= 127\<close>.
\<close>

theorem ge_scalarmult_correct:
  fixes pt :: "'g :: ab_group_add \<Rightarrow> point"
  assumes "ed_hom pt" "p3_rep A (pt g)" "length a = 32" "a ! 31 \<le> 127"
  shows "(\<exists>r. ge_scalarmult a A = Some r \<and> p2_rep r (pt (imul (int (le_nat a)) g)))
    \<and> (\<exists>r. ge_scalarmult_p3 a A = Some r \<and> p3_rep r (pt (imul (int (le_nat a)) g)))"
  using ge_scalarmult_rep [OF assms(1,3,4,2)] by (simp add: yields_def)

theorem ge_scalarmult_correct_witness:
  "\<exists>r. ge_scalarmult_p3 (10 # replicate 31 0) (torsion_p3 1) = Some r \<and> p3_rep r (0, - 1)"
proof -
  have "(10 # replicate 31 (0 :: u8)) ! 31 \<le> 127" by (simp add: nth_Cons')
  moreover have "torsion (int (unat (10 :: u8)) * 1) = (0, - 1)" by (simp add: torsion_def)
  ultimately show ?thesis
    using ge_scalarmult_correct [OF ed_hom_torsion torsion_reps(1), of "10 # replicate 31 0" 1]
    by (simp only: imul_int small_scalar(2)) simp
qed

end
