(* ===== verification/Ge_Bytes.thy ===== *)
theory Ge_Bytes
  imports Ge_Window
begin

unbundle bit_operations_syntax

text \<open>
  Points as 32 bytes, in \<^verbatim>\<open>src/base/tools/cryptonote/crypto-ops.c\<close>: \<open>ge_frombytes_vartime\<close>, which
  decodes and rejects, \<open>ge_p3_tobytes\<close> and \<open>ge_tobytes\<close>, which encode, and the test
  \<open>ge_p3_is_point_at_infinity\<close>. The result -1 of the decoder is a value, \<^term>\<open>None\<close> inside
  the option that stands for undefined behaviour; what the decoder has written to its result
  before it returns -1 is not represented.
\<close>

section \<open>The code\<close>

definition fe_load :: "bytes \<Rightarrow> int list" where
  "fe_load s =
     [sint (load_4 s),
      sint (push_bit 6 (load_3 (drop 4 s))),
      sint (push_bit 5 (load_3 (drop 7 s))),
      sint (push_bit 3 (load_3 (drop 10 s))),
      sint (push_bit 2 (load_3 (drop 13 s))),
      sint (load_4 (drop 16 s)),
      sint (push_bit 7 (load_3 (drop 20 s))),
      sint (push_bit 5 (load_3 (drop 23 s))),
      sint (push_bit 4 (load_3 (drop 26 s))),
      sint (push_bit 2 (load_3 (drop 29 s) AND 8388607))]"

definition fe_not_canonical :: "int list \<Rightarrow> bool" where
  "fe_not_canonical h \<longleftrightarrow>
     h ! 9 = 33554428 \<and> h ! 8 = 268435440 \<and> h ! 7 = 536870880 \<and> h ! 6 = 2147483520
     \<and> h ! 5 = 4294967295 \<and> h ! 4 = 67108860 \<and> h ! 3 = 134217720 \<and> h ! 2 = 536870880
     \<and> h ! 1 = 1073741760 \<and> h ! 0 \<ge> 4294967277"

definition fe_load_carry :: "int list \<Rightarrow> fe option" where
  "fe_load_carry h = seqM fe_carry [9, 1, 3, 5, 7, 0, 2, 4, 6, 8] h \<bind> (\<lambda>h. those (map i32 h))"

definition ge_root :: "fe \<Rightarrow> fe \<Rightarrow> fe option option" where
  \<comment> \<open>from \<open>fe_divpowm1\<close> to the end of the test of \<open>vx^2\<close>\<close>
  "ge_root u v =
     fe_divpowm1 u v \<bind> (\<lambda>X.
     fe_sq X \<bind> (\<lambda>vxx.
     fe_mul vxx v \<bind> (\<lambda>vxx.
     fe_sub vxx u \<bind> (\<lambda>check.
     fe_isnonzero check \<bind> (\<lambda>n.
     if n \<noteq> 0 then
       fe_add vxx u \<bind> (\<lambda>check.
       fe_isnonzero check \<bind> (\<lambda>n.
       if n \<noteq> 0 then Some None
       else fe_mul X fe_sqrtm1 \<bind> (\<lambda>X. Some (Some X))))
     else Some (Some X))))))"

definition ge_sign :: "fe \<Rightarrow> int \<Rightarrow> fe option option" where
  \<comment> \<open>the test of the sign and the negation\<close>
  "ge_sign X sign =
     fe_isnegative X \<bind> (\<lambda>neg.
     if neg \<noteq> sign then
       fe_isnonzero X \<bind> (\<lambda>n.
       if n = 0 then Some None
       else fe_neg X \<bind> (\<lambda>X. Some (Some X)))
     else Some (Some X))"

definition ge_frombytes_vartime :: "bytes \<Rightarrow> ge_p3 option option" where
  "ge_frombytes_vartime s =
     (let h = fe_load s
      in if fe_not_canonical h then Some None
         else
           fe_load_carry h \<bind> (\<lambda>Y.
           fe_sq Y \<bind> (\<lambda>u.
           fe_mul u fe_d \<bind> (\<lambda>v.
           fe_sub u fe_1 \<bind> (\<lambda>u.
           fe_add v fe_1 \<bind> (\<lambda>v.
           ge_root u v \<bind> (\<lambda>r.
           case r of
             None \<Rightarrow> Some None
           | Some X \<Rightarrow>
               ge_sign X (uint (drop_bit 7 (s ! 31))) \<bind> (\<lambda>r.
               case r of
                 None \<Rightarrow> Some None
               | Some X \<Rightarrow>
                   fe_mul X Y \<bind> (\<lambda>T.
                   Some (Some \<lparr>p3_X = X, p3_Y = Y, p3_Z = fe_1, p3_T = T\<rparr>))))))))))"

definition ge_encode :: "fe \<Rightarrow> fe \<Rightarrow> fe \<Rightarrow> bytes option" where
  \<comment> \<open>the body \<open>ge_p3_tobytes\<close> and \<open>ge_tobytes\<close> share\<close>
  "ge_encode hX hY hZ =
     fe_invert hZ \<bind> (\<lambda>recip.
     fe_mul hX recip \<bind> (\<lambda>x.
     fe_mul hY recip \<bind> (\<lambda>y.
     fe_tobytes y \<bind> (\<lambda>s.
     fe_isnegative x \<bind> (\<lambda>neg.
     Some (s[31 := s ! 31 XOR word_of_int (neg * 2 ^ 7)]))))))"

definition ge_p3_tobytes :: "ge_p3 \<Rightarrow> bytes option" where
  "ge_p3_tobytes h = ge_encode (p3_X h) (p3_Y h) (p3_Z h)"

definition ge_tobytes :: "ge_p2 \<Rightarrow> bytes option" where
  "ge_tobytes h = ge_encode (p2_X h) (p2_Y h) (p2_Z h)"

definition ge_p3_is_point_at_infinity :: "ge_p3 \<Rightarrow> int" where
  "ge_p3_is_point_at_infinity p =
     (if list_all (\<lambda>n. (p3_X p ! n OR p3_T p ! n) = 0 \<and> p3_Y p ! n = p3_Z p ! n) [0..<10] then 1 else 0)"

section \<open>Loading\<close>

lemma sint_push:
  assumes "x < 2 ^ 32" "n \<le> 7"
  shows "sint (push_bit n (of_nat x :: u64)) = int x * 2 ^ n"
    and "sint (push_bit n ((of_nat x :: u64) AND 8388607)) = int (x mod 2 ^ 23) * 2 ^ n"
proof -
  have s: "sint (push_bit n (of_nat y :: u64)) = int y * 2 ^ n" if "y < 2 ^ 32" for y
  proof -
    have "(2 :: int) ^ n \<le> 2 ^ 7" by (rule power_increasing) (use assms(2) in simp_all)
    then have "int y * 2 ^ n \<le> 2 ^ 32 * 2 ^ 7" using that by (intro mult_mono) simp_all
    then have "signed_take_bit 63 (int y * 2 ^ n) = int y * 2 ^ n"
      by (intro signed_take_bit_int_eq_self) (auto intro: order_trans [of _ 0])
    moreover have "push_bit n (of_nat y :: u64) = word_of_int (int y * 2 ^ n)"
      by (simp add: push_bit_eq_mult)
    ultimately show ?thesis by (simp only: sint_sbintrunc') simp
  qed
  show "sint (push_bit n (of_nat x :: u64)) = int x * 2 ^ n" by (rule s [OF assms(1)])
  have "(8388607 :: u64) = mask 23" by (simp add: mask_eq_exp_minus_1)
  then have "(of_nat x :: u64) AND 8388607 = take_bit 23 (of_nat x)"
    by (simp only: take_bit_eq_mask)
  also have "\<dots> = of_nat (take_bit 23 x)"
    by (rule bit_word_eqI) (simp add: bit_simps)
  also have "\<dots> = of_nat (x mod 2 ^ 23)" by (simp only: take_bit_eq_mod)
  finally have m: "(of_nat x :: u64) AND 8388607 = of_nat (x mod 2 ^ 23)" .
  have "x mod 2 ^ 23 < 2 ^ 23" by simp
  then have "x mod 2 ^ 23 < 2 ^ 32" by (rule less_trans) simp
  then show "sint (push_bit n ((of_nat x :: u64) AND 8388607)) = int (x mod 2 ^ 23) * 2 ^ n"
    by (simp only: m s)
qed

definition byte_field :: "bytes \<Rightarrow> nat \<Rightarrow> nat \<Rightarrow> nat" where
  "byte_field s j k = le_nat (take k (drop j s))"

lemma byte_field_split:
  assumes "j + k \<le> length s"
  shows "le_nat (drop j s) = byte_field s j k + 256 ^ k * le_nat (drop (j + k) s)"
proof -
  have "le_nat (drop j s) = le_nat (take k (drop j s) @ drop k (drop j s))"
    by (simp only: append_take_drop_id)
  with assms show ?thesis
    unfolding le_nat_append by (simp add: byte_field_def add.commute)
qed

lemma byte_field_bound: "byte_field s j k < 256 ^ k"
  unfolding byte_field_def
  by (rule less_le_trans [OF le_nat_bound power_increasing]) simp_all

lemma fe_load_eq:
  assumes "length s = 32"
  shows "fe_load s = [int (byte_field s 0 4), int (byte_field s 4 3) * 2 ^ 6, int (byte_field s 7 3) * 2 ^ 5,
    int (byte_field s 10 3) * 2 ^ 3, int (byte_field s 13 3) * 2 ^ 2, int (byte_field s 16 4),
    int (byte_field s 20 3) * 2 ^ 7, int (byte_field s 23 3) * 2 ^ 5, int (byte_field s 26 3) * 2 ^ 4,
    int (byte_field s 29 3 mod 2 ^ 23) * 2 ^ 2]"
proof -
  have b: "le_nat (take 3 xs) < 2 ^ 32" "le_nat (take 4 xs) < 2 ^ 32" for xs
    using byte_field_bound [of xs 0 3] byte_field_bound [of xs 0 4] by (simp_all add: byte_field_def)
  have 0: "sint (of_nat (le_nat (take 4 xs)) :: u64) = int (le_nat (take 4 xs))" for xs
    using sint_push(1) [OF b(2), of 0 xs] by simp
  have l: "load_3 (drop j s) = of_nat (le_nat (take 3 (drop j s)))" if "j \<le> 29" for j
    using load_le(1) [of "drop j s"] that assms by simp
  have l4: "load_4 (drop j s) = of_nat (le_nat (take 4 (drop j s)))" if "j \<le> 28" for j
    using load_le(2) [of "drop j s"] that assms by simp
  have p: "sint (push_bit n (load_3 (drop j s))) = int (byte_field s j 3) * 2 ^ n" if "j \<le> 29" "n \<le> 7" for j n
    using sint_push(1) [OF b(1) that(2), of "drop j s"] l [OF that(1)] by (simp add: byte_field_def)
  have p4: "sint (load_4 (drop j s)) = int (byte_field s j 4)" if "j \<le> 28" for j
    using 0 [of "drop j s"] l4 [OF that] by (simp add: byte_field_def)
  have "sint (push_bit 2 (load_3 (drop 29 s) AND 8388607)) = int (byte_field s 29 3 mod 2 ^ 23) * 2 ^ 2"
    using sint_push(2) [OF b(1), of 2 "drop 29 s"] l [of 29] by (simp only: byte_field_def)
  then show ?thesis
    using p4 [of 0] p4 [of 16] p [of 4 6] p [of 7 5] p [of 10 3] p [of 13 2] p [of 20 7] p [of 23 5] p [of 26 4]
    unfolding fe_load_def by (simp only: drop_0)
qed

lemma fe_load_total:
  assumes "length s = 32"
  shows "int (le_nat s) = int (byte_field s 0 4) + int (byte_field s 4 3) * 2 ^ 32 + int (byte_field s 7 3) * 2 ^ 56
    + int (byte_field s 10 3) * 2 ^ 80 + int (byte_field s 13 3) * 2 ^ 104 + int (byte_field s 16 4) * 2 ^ 128
    + int (byte_field s 20 3) * 2 ^ 160 + int (byte_field s 23 3) * 2 ^ 184 + int (byte_field s 26 3) * 2 ^ 208
    + int (byte_field s 29 3) * 2 ^ 232"
  using byte_field_split [of 0 4 s] byte_field_split [of 4 3 s] byte_field_split [of 7 3 s]
    byte_field_split [of 10 3 s] byte_field_split [of 13 3 s] byte_field_split [of 16 4 s]
    byte_field_split [of 20 3 s] byte_field_split [of 23 3 s] byte_field_split [of 26 3 s]
    byte_field_split [of 29 3 s] assms
  by simp

definition low255 :: "bytes \<Rightarrow> int" where
  "low255 s = int (le_nat s) mod 2 ^ 255"

lemma low255_fields:
  assumes "length s = 32"
  shows "low255 s = int (byte_field s 0 4) + int (byte_field s 4 3) * 2 ^ 32 + int (byte_field s 7 3) * 2 ^ 56
    + int (byte_field s 10 3) * 2 ^ 80 + int (byte_field s 13 3) * 2 ^ 104 + int (byte_field s 16 4) * 2 ^ 128
    + int (byte_field s 20 3) * 2 ^ 160 + int (byte_field s 23 3) * 2 ^ 184 + int (byte_field s 26 3) * 2 ^ 208
    + int (byte_field s 29 3 mod 2 ^ 23) * 2 ^ 232" (is "_ = ?A + _ * 2 ^ 232")
proof -
  have f3: "int (byte_field s j 3) \<le> 16777215" and f4: "int (byte_field s j 4) \<le> 4294967295" for j
    using byte_field_bound [of s j 3] byte_field_bound [of s j 4] by simp_all
  define A f where "A = ?A" and "f = int (byte_field s 29 3)"
  have "0 \<le> A" unfolding A_def by simp
  moreover have "A < 2 ^ 232"
    unfolding A_def using f3 [of 4] f3 [of 7] f3 [of 10] f3 [of 13] f3 [of 20] f3 [of 23] f3 [of 26] f4 [of 0] f4 [of 16]
    by simp
  moreover have "int (le_nat s) = A + f * 2 ^ 232"
    unfolding A_def f_def using fe_load_total [OF assms] .
  moreover have "(A + f * 2 ^ 232) mod 2 ^ 255 = A + f mod 2 ^ 23 * 2 ^ 232" if "0 \<le> A" "A < 2 ^ 232"
  proof -
    have "(2 :: int) ^ 255 = 2 ^ 232 * 2 ^ 23" by simp
    then have "(A + f * 2 ^ 232) mod 2 ^ 255 = 2 ^ 232 * ((A + f * 2 ^ 232) div 2 ^ 232 mod 2 ^ 23) + (A + f * 2 ^ 232) mod 2 ^ 232"
      by (simp only: zmod_zmult2_eq [of "2 ^ 23"] zero_le_power zero_le_numeral)
    then show ?thesis using that by simp
  qed
  ultimately show ?thesis unfolding low255_def A_def f_def by (simp add: zmod_int)
qed

lemma low255_range: "0 \<le> low255 s" "low255 s < 2 ^ 255"
  by (simp_all add: low255_def)

lemma fe_load_val: "length s = 32 \<Longrightarrow> fe_val (fe_load s) = low255 s"
  unfolding fe_val_10 low255_fields by (simp add: fe_load_eq)

lemma fe_not_canonical_iff:
  assumes "length s = 32"
  shows "fe_not_canonical (fe_load s) \<longleftrightarrow> fe_p \<le> low255 s"
proof -
  have f3: "int (byte_field s j 3) \<le> 16777215" and f4: "int (byte_field s j 4) \<le> 4294967295" for j
    using byte_field_bound [of s j 3] byte_field_bound [of s j 4] by simp_all
  have f9: "int (byte_field s 29 3 mod 2 ^ 23) \<le> 8388607"
    using pos_mod_bound [of "2 ^ 23" "int (byte_field s 29 3)"] by (simp add: zmod_int)
  show ?thesis
    unfolding fe_not_canonical_def fe_load_eq [OF assms] low255_fields [OF assms] fe_p_def
    using f3 [of 4] f3 [of 7] f3 [of 10] f3 [of 13] f3 [of 20] f3 [of 23] f3 [of 26] f4 [of 0] f4 [of 16] f9
    by (simp del: zmod_int of_nat_mod) linarith
qed

definition fe_load_bound :: "int list" where
  "fe_load_bound = [4294967295, 1073741760, 536870880, 134217720, 67108860, 4294967295, 2147483520, 536870880,
     268435440, 33554428]"

lemma fe_load_bounds:
  "case seqM fe_carry_bound [9, 1, 3, 5, 7, 0, 2, 4, 6, 8] fe_load_bound of None \<Rightarrow> False
   | Some b \<Rightarrow> list_all2 (\<le>) b fe_tight"
  by code_simp

lemma fe_load_carry_ok:
  assumes "length s = 32"
  shows "yields (\<lambda>Y. fe_within 1 Y \<and> fz Y = zp (low255 s)) (fe_load_carry (fe_load s))"
proof -
  have f3: "int (byte_field s j 3) \<le> 16777215" and f4: "int (byte_field s j 4) \<le> 4294967295" for j
    using byte_field_bound [of s j 3] byte_field_bound [of s j 4] by simp_all
  have f9: "int (byte_field s 29 3 mod 2 ^ 23) \<le> 8388607"
    using pos_mod_bound [of "2 ^ 23" "int (byte_field s 29 3)"] by (simp add: zmod_int)
  have bnd: "bounded fe_load_bound (fe_load s)"
    unfolding bounded_list_all2 fe_load_eq [OF assms] fe_load_bound_def
    using f3 [of 4] f3 [of 7] f3 [of 10] f3 [of 13] f3 [of 20] f3 [of 23] f3 [of 26] f4 [of 0] f4 [of 16] f9
    by (simp del: zmod_int of_nat_mod)
  obtain b where b: "seqM fe_carry_bound [9, 1, 3, 5, 7, 0, 2, 4, 6, 8] fe_load_bound = Some b"
    "list_all2 (\<le>) b fe_tight"
    using fe_load_bounds by (auto split: option.splits)
  from shadowsD [OF shadows_seqM [OF fe_carry_shadow] bnd b(1)] obtain Y where
    Y: "seqM fe_carry [9, 1, 3, 5, 7, 0, 2, 4, 6, 8] (fe_load s) = Some Y" "bounded b Y" by blast
  have tight: "bounded fe_tight Y" by (rule bounded_le [OF Y(2) b(2)])
  have "length (fe_load s) = 10" by (simp add: fe_load_def)
  then have "fz Y = zp (low255 s)"
    using seqM_fe_carry_val [OF Y(1)] fe_load_val [OF assms] by (simp add: fz_def zp_eq_iff)
  moreover have "fe_load_carry (fe_load s) = Some Y"
    using those_i32 [OF fe_tight_small [OF tight]] unfolding fe_load_carry_def Y(1) by simp
  ultimately show ?thesis using fe_within_1 [OF tight] by (simp add: yields_def)
qed

section \<open>The encoding\<close>

definition zr :: "zp \<Rightarrow> int" where
  \<comment> \<open>the representative in \<open>[0, p)\<close>\<close>
  "zr x = Rep_zp x"

lemma zr_range: "0 \<le> zr x" "zr x < fe_p"
  using Rep_zp [of x] by (simp_all add: zr_def)

lemma zr_zp [simp]: "zr (zp x) = x mod fe_p"
  unfolding zr_def by transfer simp

lemma zp_zr [simp]: "zp (zr x) = x"
  using zr_range [of x] unfolding zr_def by transfer simp

lemma zr_inject: "zr x = zr y \<longleftrightarrow> x = y"
  by (metis zp_zr)

fun ed_encode :: "point \<Rightarrow> bytes" where
  \<comment> \<open>\<open>y\<close> in 255 bits and the parity of \<open>x\<close> in the highest\<close>
  "ed_encode (x, y) = le_bytes 32 (nat (zr y + 2 ^ 255 * (zr x mod 2)))"

lemma zr_minus: "x \<noteq> 0 \<Longrightarrow> zr (- x) = fe_p - zr x"
proof -
  assume "x \<noteq> 0"
  then have "0 < zr x" using zr_range(1) [of x] zr_inject [of x 0] by (metis zp_hom(5) zp_zr order_le_less)
  then have "(fe_p - zr x) mod fe_p = fe_p - zr x"
    using zr_range(2) [of x] by (intro mod_pos_pos_trivial) simp_all
  moreover have "zp fe_p = 0" using zp_eq_iff [of fe_p 0] by simp
  then have "zp (fe_p - zr x) = - x" by simp
  ultimately show "zr (- x) = fe_p - zr x" by (metis zr_zp)
qed

lemma low255_top:
  assumes "length s = 32"
  shows "uint (drop_bit 7 (s ! 31)) = int (le_nat s) div 2 ^ 255"
proof -
  have "le_nat s = le_nat (take 31 s) + 256 ^ 31 * unat (s ! 31)"
    using le_nat_append [of "take 31 s" "[s ! 31]"] take_Suc_conv_app_nth [of 31 s] assms by simp
  moreover have "le_nat (take 31 s) < 256 ^ 31" using le_nat_bound [of "take 31 s"] assms by simp
  ultimately have "le_nat s div 256 ^ 31 = unat (s ! 31)" by simp
  then have "le_nat s div 2 ^ 255 = unat (s ! 31) div 2 ^ 7"
  proof -
    have "(2 :: nat) ^ 255 = 256 ^ 31 * 2 ^ 7" by simp
    then show ?thesis using \<open>le_nat s div 256 ^ 31 = unat (s ! 31)\<close> by (simp only: div_mult2_eq)
  qed
  then have "int (le_nat s) div 2 ^ 255 = int (unat (s ! 31) div 2 ^ 7)"
    by (metis of_nat_numeral of_nat_power zdiv_int)
  moreover have "unat (drop_bit 7 (s ! 31)) = unat (s ! 31) div 2 ^ 7"
    by (simp only: unat_drop_bit_eq) (simp only: drop_bit_eq_div)
  ultimately show ?thesis by (simp only: uint_nat)
qed

lemma le_bytes_le_nat: "le_bytes (length s) (le_nat s) = s"
proof (induction s)
  case Nil
  then show ?case by (simp add: le_bytes_def)
next
  case (Cons b s)
  have "[0..<Suc n] = 0 # map Suc [0..<n]" for n by (simp add: map_Suc_upt upt_conv_Cons del: upt_Suc)
  then have "le_bytes (Suc n) x = of_nat x # le_bytes n (x div 256)" for n x
    by (simp add: le_bytes_def comp_def drop_bit_eq_div div_mult2_eq [symmetric] power_add del: upt_Suc)
  moreover have "(of_nat (unat b + 256 * m) :: u8) = b" for m
  proof -
    have "(256 :: u8) = 0" by code_simp
    then show ?thesis by (simp only: of_nat_add of_nat_mult of_nat_numeral) simp
  qed
  moreover have "(unat b + 256 * m) div 256 = m" for m
  proof -
    have "unat b < 256" using unsigned_less [of b] by simp
    then show ?thesis by simp
  qed
  ultimately show ?case using Cons by simp
qed

lemma encode_low255:
  assumes "length s = 32" "low255 s < fe_p" "zr y = low255 s" "zr x mod 2 = uint (drop_bit 7 (s ! 31))"
  shows "ed_encode (x, y) = s"
proof -
  have "low255 s + 2 ^ 255 * (int (le_nat s) div 2 ^ 255) = int (le_nat s)"
    unfolding low255_def by simp
  then have "ed_encode (x, y) = le_bytes 32 (le_nat s)"
    using assms(3,4) low255_top [OF assms(1)] by simp
  moreover have "le_bytes 32 (le_nat s) = s"
    using le_bytes_le_nat [of s] assms(1) by simp
  ultimately show ?thesis by simp
qed

section \<open>The square root\<close>

definition fe_plus1 :: "int list" where
  \<comment> \<open>a product plus or minus one\<close>
  "fe_plus1 = [33889977, 16944988, 33889976, 16944988, 33889976, 16944988, 33889976, 16944988, 33889976, 16944988]"

lemma fe_plus1_bounds:
  "list_all2 (\<le>) (map (\<lambda>i. fe_tight ! i + [1, 0, 0, 0, 0, 0, 0, 0, 0, 0] ! i) [0..<10]) fe_plus1"
  "list_all2 (\<le>) (map (\<lambda>i. fe_tight ! i + fe_plus1 ! i) [0..<10]) fe_wide"
  "list_all2 (\<le>) fe_plus1 (map ((*) 2) fe_tight)" "list_all2 (\<le>) fe_tight fe_wide"
  "list_all2 (\<lambda>x m. \<bar>x\<bar> \<le> m) fe_1 [1, 0, 0, 0, 0, 0, 0, 0, 0, 0]"
  "\<forall>i<10. fe_tight ! i + [1, 0, 0, 0, 0, 0, 0, 0, 0, 0] ! i < 2 ^ 31"
  "\<forall>i<10. fe_tight ! i + fe_plus1 ! i < 2 ^ 31"
  by code_simp+

lemma within_1_tight: "fe_within 1 f \<longleftrightarrow> bounded fe_tight f"
  by (simp add: fe_within_def fe_tight_def)

lemma step_one:
  assumes "fe_within 1 f"
  shows "(\<And>h. bounded fe_plus1 h \<Longrightarrow> fz h = fz f + 1 \<Longrightarrow> yields Q (k h)) \<Longrightarrow> yields Q (fe_add f fe_1 \<bind> k)"
    and "(\<And>h. bounded fe_plus1 h \<Longrightarrow> fz h = fz f - 1 \<Longrightarrow> yields Q (k h)) \<Longrightarrow> yields Q (fe_sub f fe_1 \<bind> k)"
proof -
  have f: "bounded fe_tight f" using assms by (simp add: within_1_tight)
  have 1: "bounded [1, 0, 0, 0, 0, 0, 0, 0, 0, 0] fe_1"
    using fe_plus1_bounds(5) by (simp only: bounded_list_all2)
  have v: "fe_val fe_1 = 1" by code_simp
  note b = fe_add_bounds [OF f 1 length_tight _ fe_plus1_bounds(6)]
  from b(1) obtain h where h: "fe_add f fe_1 = Some h" "bounded fe_plus1 h" "fe_val h = fe_val f + 1"
    using bounded_le [OF _ fe_plus1_bounds(1)] by (auto simp: v)
  then show "(\<And>h. bounded fe_plus1 h \<Longrightarrow> fz h = fz f + 1 \<Longrightarrow> yields Q (k h)) \<Longrightarrow> yields Q (fe_add f fe_1 \<bind> k)"
    by (simp add: fz_def)
  from b(2) obtain h where h: "fe_sub f fe_1 = Some h" "bounded fe_plus1 h" "fe_val h = fe_val f - 1"
    using bounded_le [OF _ fe_plus1_bounds(1)] by (auto simp: v)
  then show "(\<And>h. bounded fe_plus1 h \<Longrightarrow> fz h = fz f - 1 \<Longrightarrow> yields Q (k h)) \<Longrightarrow> yields Q (fe_sub f fe_1 \<bind> k)"
    by (simp add: fz_def)
qed

lemma step_check:
  assumes "fe_within 1 f" "bounded fe_plus1 g"
  shows "(\<And>h. bounded fe_wide h \<Longrightarrow> fz h = fz f + fz g \<Longrightarrow> yields Q (k h)) \<Longrightarrow> yields Q (fe_add f g \<bind> k)"
    and "(\<And>h. bounded fe_wide h \<Longrightarrow> fz h = fz f - fz g \<Longrightarrow> yields Q (k h)) \<Longrightarrow> yields Q (fe_sub f g \<bind> k)"
proof -
  have f: "bounded fe_tight f" using assms by (simp add: within_1_tight)
  have l: "length fe_plus1 = 10" by (simp add: fe_plus1_def)
  note b = fe_add_bounds [OF f assms(2) length_tight l fe_plus1_bounds(7)]
  from b(1) obtain h where h: "fe_add f g = Some h" "bounded fe_wide h" "fe_val h = fe_val f + fe_val g"
    using bounded_le [OF _ fe_plus1_bounds(2)] by auto
  then show "(\<And>h. bounded fe_wide h \<Longrightarrow> fz h = fz f + fz g \<Longrightarrow> yields Q (k h)) \<Longrightarrow> yields Q (fe_add f g \<bind> k)"
    by (simp add: fz_def)
  from b(2) obtain h where h: "fe_sub f g = Some h" "bounded fe_wide h" "fe_val h = fe_val f - fe_val g"
    using bounded_le [OF _ fe_plus1_bounds(2)] by auto
  then show "(\<And>h. bounded fe_wide h \<Longrightarrow> fz h = fz f - fz g \<Longrightarrow> yields Q (k h)) \<Longrightarrow> yields Q (fe_sub f g \<bind> k)"
    by (simp add: fz_def)
qed

lemma fz_zero_iff: "fz h = 0 \<longleftrightarrow> fe_val h mod fe_p = 0"
  using zp_eq_iff [of "fe_val h" 0] by (simp add: fz_def)

lemma zr_fz: "zr (fz h) = fe_val h mod fe_p"
  by (simp add: fz_def)

lemma step_isnonzero:
  assumes "bounded fe_wide h"
    and "fz h \<noteq> 0 \<Longrightarrow> yields Q (k 1)" "fz h = 0 \<Longrightarrow> yields Q (k 0)"
  shows "yields Q (fe_isnonzero h \<bind> k)"
  using assms by (simp add: fe_isnonzero_ok fz_zero_iff)

lemma step_isnegative:
  assumes "bounded fe_wide h" "yields Q (k (zr (fz h) mod 2))"
  shows "yields Q (fe_isnegative h \<bind> k)"
  using assms by (simp add: fe_isnegative_ok zr_fz)

definition ed_root :: "zp \<Rightarrow> zp \<Rightarrow> zp" where
  \<comment> \<open>the candidate for the square root of \<open>u / v\<close>\<close>
  "ed_root u v = u * v ^ 3 * (u * v ^ 7) ^ (2 ^ 252 - 3)"

lemma step_divpowm1:
  assumes "bounded fe_plus1 u" "bounded fe_plus1 v"
    and "\<And>h. fe_within 1 h \<Longrightarrow> fz h = ed_root (fz u) (fz v) \<Longrightarrow> yields Q (k h)"
  shows "yields Q (fe_divpowm1 u v \<bind> k)"
proof -
  have "bounded fe_loose w" if "bounded fe_plus1 w" for w
    using bounded_le [OF that fe_plus1_bounds(3)] by (intro fe_within_loose [of 2]) (simp_all add: fe_within_def)
  with fe_divpowm1_chain assms(1,2) obtain h where h: "fe_divpowm1 u v = Some h" "bounded fe_tight h"
    "fe_val h mod fe_p = fe_val u ^ (2 ^ 252 - 2) * fe_val v ^ (7 * (2 ^ 252 - 3) + 3) mod fe_p"
    by (fastforce simp: yields_def monomial_def)
  have "fz h = zp (fe_val u ^ (2 ^ 252 - 2) * fe_val v ^ (7 * (2 ^ 252 - 3) + 3))"
    unfolding fz_def zp_eq_iff by (rule h(3))
  also have "\<dots> = fz u ^ (2 ^ 252 - 2) * fz v ^ (7 * (2 ^ 252 - 3) + 3)"
    by (simp only: zp_hom zp_power fz_def)
  also have "\<dots> = ed_root (fz u) (fz v)"
  proof -
    have "x ^ (n + 1) * y ^ (7 * n + 3) = x * y ^ 3 * (x * y ^ 7) ^ n" for x y :: zp and n
      by (simp only: power_add power_mult power_mult_distrib) simp
    from this [of "fz u" "2 ^ 252 - 3" "fz v"] show ?thesis by (simp add: ed_root_def)
  qed
  finally show ?thesis using assms(3) [OF fe_within_1 [OF h(2)]] h(1) by simp
qed

lemma ge_root_ok:
  assumes u: "bounded fe_plus1 u" and v: "bounded fe_plus1 v"
  defines "c \<equiv> ed_root (fz u) (fz v)"
  shows "yields (\<lambda>r. case r of
      None \<Rightarrow> c * c * fz v \<noteq> fz u \<and> c * c * fz v \<noteq> - fz u
    | Some X \<Rightarrow> fe_within 1 X \<and> fz X * fz X * fz v = fz u \<and> (fz X = c \<or> fz X = c * fz fe_sqrtm1)) (ge_root u v)"
  unfolding ge_root_def
proof (rule step_divpowm1 [OF u v], rule step_sq, assumption, simp, rule step_mul, assumption,
    rule bounded_le [OF v fe_plus1_bounds(3), folded fe_within_def], simp, simp,
    rule step_check(2) [OF _ u], assumption, erule step_isnonzero, goal_cases)
  case (1 X x2 vxx d)
  have vc: "fz vxx = c * c * fz v" using 1(2,4,6) by (simp add: c_def)
  then have ne: "c * c * fz v \<noteq> fz u" using 1(7,8) by auto
  have "c * fz fe_sqrtm1 * (c * fz fe_sqrtm1) * fz v = (c * c * fz v) * (fz fe_sqrtm1 * fz fe_sqrtm1)"
    by (simp only: mult_ac)
  then have i: "c * fz fe_sqrtm1 * (c * fz fe_sqrtm1) * fz v = fz u" if "c * c * fz v = - fz u"
    using that fe_sqrtm1_facts(2) by simp
  show ?case
  proof (simp, rule step_check(1) [OF 1(5) u], erule step_isnonzero, goal_cases)
    case (1 d)
    then show ?case using ne vc by (auto simp: yields_def)
  next
    case (2 d)
    then have "c * c * fz v = - fz u" using vc by (simp add: eq_neg_iff_add_eq_0)
    then show ?case
      using i \<open>fe_within 1 X\<close> \<open>fz X = ed_root (fz u) (fz v)\<close>
      by (auto simp: c_def intro!: step_mul [OF _ fe_sqrtm1_facts(1)] step_end)
  qed
qed (auto simp: yields_def c_def)

lemma ge_sign_ok:
  assumes X: "fe_within 1 X" and sign: "sign = 0 \<or> sign = 1"
  shows "yields (\<lambda>r. case r of
      None \<Rightarrow> fz X = 0 \<and> sign = 1
    | Some X' \<Rightarrow> fe_within 1 X' \<and> (fz X' = fz X \<or> fz X' = - fz X) \<and> zr (fz X') mod 2 = sign) (ge_sign X sign)"
proof -
  have w: "bounded fe_wide X"
    using X bounded_le [OF _ fe_plus1_bounds(4)] by (simp add: within_1_tight)
  have z: "zr 0 = 0" using zr_zp [of 0] by simp
  obtain N where N: "fe_neg X = Some N" "fe_within 1 N" "fz N = - fz X"
    using fe_neg_within [OF X] by blast
  show ?thesis
    unfolding ge_sign_def
  proof (rule step_isnegative [OF w], cases "zr (fz X) mod 2 = sign", goal_cases)
    case 1
    then show ?case using X by (simp add: yields_def)
  next
    case 2
    show ?case
    proof (cases "fz X = 0")
      case True
      then have "fe_isnonzero X = Some 0" by (simp add: fe_isnonzero_ok [OF w] fz_zero_iff)
      then show ?thesis using 2 z sign True by (auto simp: yields_def)
    next
      case False
      have "odd fe_p" by (simp add: fe_p_def)
      then have "zr (- fz X) mod 2 = sign"
        unfolding zr_minus [OF False] using 2 sign by presburger
      then show ?thesis using 2 False N by (simp add: yields_def fe_isnonzero_ok [OF w] fz_zero_iff [symmetric])
    qed
  qed
qed

section \<open>Decoding\<close>

lemma on_curve_root:
  assumes "x * x * (ed_d * (y * y) + 1) = y * y - 1"
  shows "on_curve (x, y)"
proof -
  have "1 + ed_d * (x * x) * (y * y) = x * x * (ed_d * (y * y) + 1) + 1 - x * x"
    by (simp add: algebra_simps)
  then show ?thesis by (simp add: assms)
qed

definition ed_decode_fails :: "bytes \<Rightarrow> bool" where
  \<comment> \<open>not canonical, or the candidate is no root of \<open>u / v\<close> or of \<open>- u / v\<close>, or it is 0 with the
    sign bit set\<close>
  "ed_decode_fails s \<longleftrightarrow>
     fe_p \<le> low255 s \<or>
     (let y = zp (low255 s); u = y * y - 1; v = ed_d * (y * y) + 1; c = ed_root u v
      in c * c * v \<noteq> u \<and> c * c * v \<noteq> - u \<or> c = 0 \<and> uint (drop_bit 7 (s ! 31)) = 1)"

lemma sqrtm1_zero: "c * fz fe_sqrtm1 = 0 \<Longrightarrow> c = 0"
proof -
  assume "c * fz fe_sqrtm1 = 0"
  then have "c * fz fe_sqrtm1 * fz fe_sqrtm1 = 0" by simp
  then show "c = 0" unfolding mult.assoc fe_sqrtm1_facts(2) by simp
qed

definition decodes_to :: "bytes \<Rightarrow> ge_p3 \<Rightarrow> bool" where
  "decodes_to s h \<longleftrightarrow> p3_Z h = fe_1 \<and> (\<exists>P. p3_rep h P \<and> on_curve P \<and> ed_encode P = s)"

lemma frombytes_point:
  assumes s: "length s = 32" "low255 s < fe_p" and Y: "fe_within 1 Y" "fz Y = zp (low255 s)"
    and X: "fe_within 1 X" "zr (fz X) mod 2 = uint (drop_bit 7 (s ! 31))"
    and c: "fz X * fz X * (ed_d * (fz Y * fz Y) + 1) = fz Y * fz Y - 1"
  shows "yields (\<lambda>r. \<exists>h. r = Some h \<and> decodes_to s h)
    (fe_mul X Y \<bind> (\<lambda>T. Some (Some \<lparr>p3_X = X, p3_Y = Y, p3_Z = fe_1, p3_T = T\<rparr>)))"
proof (rule step_mul [OF X(1) Y(1)], simp, simp, rule step_end)
  fix T assume T: "fe_within 1 T" "fz T = fz X * fz Y"
  have "zr (fz Y) = low255 s" using Y(2) s(2) low255_range(1) [of s] by simp
  then have "ed_encode (fz X, fz Y) = s" by (rule encode_low255 [OF s _ X(2)])
  moreover have "on_curve (fz X, fz Y)" by (rule on_curve_root [OF c])
  moreover have "p3_rep \<lparr>p3_X = X, p3_Y = Y, p3_Z = fe_1, p3_T = T\<rparr> (fz X, fz Y)"
    using T X(1) Y(1) by (simp add: p3_rep_def fe_const_rep)
  ultimately show "\<exists>h. Some \<lparr>p3_X = X, p3_Y = Y, p3_Z = fe_1, p3_T = T\<rparr> = Some h \<and> decodes_to s h"
    unfolding decodes_to_def by auto
qed

lemma ge_frombytes_ok:
  assumes s: "length s = 32"
  shows "yields (\<lambda>r. case r of
      None \<Rightarrow> ed_decode_fails s
    | Some h \<Rightarrow> low255 s < fe_p \<and> decodes_to s h) (ge_frombytes_vartime s)"
proof (cases "fe_p \<le> low255 s")
  case True
  then show ?thesis
    using fe_not_canonical_iff [OF s]
    by (simp add: ge_frombytes_vartime_def Let_def yields_def ed_decode_fails_def)
next
  case False
  define sgn where "sgn = uint (drop_bit 7 (s ! 31))"
  have "int (le_nat s) < 2 ^ 256" using le_nat_bound [of s] s by simp
  then have "int (le_nat s) div 2 ^ 255 < 2" "0 \<le> int (le_nat s) div 2 ^ 255" by simp_all
  then have sgn: "sgn = 0 \<or> sgn = 1" unfolding sgn_def low255_top [OF s] by linarith
  have d: "fe_within 1 fe_d"
    by (intro fe_within_1) (simp add: bounded_list_all2 fe_d_def fe_tight_def)
  have zy: "zr (zp (low255 s)) = low255 s" using False low255_range(1) [of s] by simp
  show ?thesis
    unfolding ge_frombytes_vartime_def Let_def fe_not_canonical_iff [OF s] if_not_P [OF False] sgn_def [symmetric]
  proof (rule yields_bind [OF fe_load_carry_ok [OF s]], rule step_sq, erule conjunct1, simp,
      rule step_mul, assumption, rule d, simp, simp, rule step_one(2), assumption, rule step_one(1), assumption,
      rule yields_bind [OF ge_root_ok], assumption, assumption, goal_cases)
    case (1 Y y2 dy u v r)
    let ?y = "zp (low255 s)"
    have uv: "fz u = ?y * ?y - 1" "fz v = ed_d * (?y * ?y) + 1"
      using 1(1,3,5,7,9) by (simp_all add: ed_d_def mult.commute)
    show ?case
    proof (cases r)
      case None
      then show ?thesis using 1(10) False uv by (simp add: yields_def ed_decode_fails_def Let_def)
    next
      case (Some X)
      define c where "c = ed_root (fz u) (fz v)"
      have X: "fe_within 1 X" "fz X * fz X * fz v = fz u" "fz X = c \<or> fz X = c * fz fe_sqrtm1"
        using 1(10) Some by (simp_all add: c_def)
      show ?thesis
        unfolding Some option.case(2)
      proof (rule yields_bind [OF ge_sign_ok [OF X(1) sgn]])
        fix x assume x: "case x of None \<Rightarrow> fz X = 0 \<and> sgn = 1
          | Some X' \<Rightarrow> fe_within 1 X' \<and> (fz X' = fz X \<or> fz X' = - fz X) \<and> zr (fz X') mod 2 = sgn"
        show "yields (\<lambda>r. case r of None \<Rightarrow> ed_decode_fails s
            | Some h \<Rightarrow> low255 s < fe_p \<and> decodes_to s h)
          (case x of None \<Rightarrow> Some None | Some X \<Rightarrow> fe_mul X Y \<bind> (\<lambda>T. Some (Some \<lparr>p3_X = X, p3_Y = Y, p3_Z = fe_1, p3_T = T\<rparr>)))"
        proof (cases x)
          case None
          then have "c = 0" "sgn = 1" using x X(3) sqrtm1_zero [of c] by auto
          then show ?thesis
            using None by (simp add: yields_def ed_decode_fails_def Let_def uv [symmetric] c_def sgn_def)
        next
          case (Some X')
          then have "fe_within 1 X'" "fz X' * fz X' = fz X * fz X" "zr (fz X') mod 2 = sgn"
            using x by auto
          then show ?thesis
            unfolding Some option.case(2) using False 1(1) X(2) uv
            by (intro yields_mono [OF frombytes_point [OF s]]) (auto simp: sgn_def)
        qed
      qed
    qed
  qed
qed

section \<open>Encoding\<close>

lemma xor_top:
  assumes "unat (w :: u8) < 128"
  shows "unat (w XOR 128) = unat w + 128"
proof -
  have low: "\<not> bit w n" if "7 \<le> n" for n
  proof -
    have "unat w < 2 ^ n" using assms power_increasing [OF that, of "2 :: nat"] by simp
    then have "\<not> bit (unat w) n" by (simp add: bit_iff_odd)
    then show ?thesis by (auto simp: bit_unsigned_iff dest: bit_imp_le_length)
  qed
  have bit: "bit (128 :: u8) n \<longleftrightarrow> n = 7" for n
    using bit_exp_iff [of 7 n, where ?'a = u8] by (auto simp: possible_bit_word)
  have "w AND 128 = 0"
  proof (rule bit_word_eqI)
    show "bit (w AND 128) n = bit 0 n" for n
      using low [of n] bit [of n] by (cases "n = 7") (simp_all only: bit_and_iff bit_0_eq bot_apply, simp_all)
  qed
  then have "w + 128 = w XOR 128"
    by (rule disjunctive_add_eq_xor)
  moreover have "unat (w + 128) = unat w + 128"
    using assms by (subst unat_add_lem [THEN iffD1]) simp_all
  ultimately show ?thesis by simp
qed

lemma encode_bytes:
  assumes y: "0 \<le> y" "y < 2 ^ 255" and b: "b = 0 \<or> b = 1"
  shows "(le_bytes 32 (nat y))[31 := le_bytes 32 (nat y) ! 31 XOR word_of_int (b * 2 ^ 7)]
    = le_bytes 32 (nat (y + 2 ^ 255 * b))"
proof (cases "b = 0")
  case True
  then show ?thesis by simp
next
  case False
  with b have b: "b = 1" by simp
  define s where "s = le_bytes 32 (nat y)"
  let ?r = "s[31 := s ! 31 XOR 128]"
  have len: "length s = 32" by (simp add: s_def)
  have n: "nat y < 2 ^ 255" using y by (simp add: nat_less_iff)
  then have "le_nat s = nat y" unfolding s_def le_nat_le_bytes by simp
  moreover have split: "le_nat (take 31 s @ [w]) = le_nat (take 31 s) + 256 ^ 31 * unat w" for w
    using le_nat_append [of "take 31 s" "[w]"] len by simp
  moreover have s: "s = take 31 s @ [s ! 31]"
    using take_Suc_conv_app_nth [of 31 s] len by simp
  ultimately have v: "nat y = le_nat (take 31 s) + 256 ^ 31 * unat (s ! 31)" by metis
  have "unat (s ! 31) < 128"
  proof (rule ccontr)
    assume "\<not> unat (s ! 31) < 128"
    then have "256 ^ 31 * 128 \<le> 256 ^ 31 * unat (s ! 31)" by simp
    then show False using v n by simp
  qed
  note top = xor_top [OF this]
  have "?r = take 31 s @ [s ! 31 XOR 128]"
    by (subst s) (simp add: list_update_append len)
  then have "le_nat ?r = nat y + 2 ^ 255"
    using split [of "s ! 31 XOR 128"] v top by simp
  then have "?r = le_bytes 32 (nat y + 2 ^ 255)"
    using le_bytes_le_nat [of ?r] len by simp
  moreover have "nat (y + 2 ^ 255) = nat y + 2 ^ 255" using y(1) by (simp add: nat_add_distrib)
  ultimately show ?thesis by (simp add: b s_def)
qed

lemma step_invert:
  assumes "fe_within 1 f" "\<And>h. fe_within 1 h \<Longrightarrow> fz h = fz f ^ (2 ^ 255 - 21) \<Longrightarrow> yields Q (k h)"
  shows "yields Q (fe_invert f \<bind> k)"
proof -
  obtain h where h: "fe_invert f = Some h" "bounded fe_tight h"
    "fe_val h mod fe_p = fe_val f ^ (2 ^ 255 - 21) mod fe_p"
    using fe_invert_chain [OF fe_within_loose [OF assms(1)]] by (fastforce simp: yields_def monomial_def)
  have "fz h = zp (fe_val f ^ (2 ^ 255 - 21))" unfolding fz_def zp_eq_iff by (rule h(3))
  then have "fz h = fz f ^ (2 ^ 255 - 21)" by (simp only: zp_power fz_def)
  then show ?thesis using assms(2) [OF fe_within_1 [OF h(2)]] h(1) by simp
qed

lemma ge_encode_ok:
  assumes w: "fe_within 1 hX" "fe_within 1 hY" "fe_within 1 hZ"
    and P: "fz hX = fst P * fz hZ" "fz hY = snd P * fz hZ" and fermat: "fz hZ ^ (2 ^ 255 - 20) = 1"
  shows "ge_encode hX hY hZ = Some (ed_encode P)"
proof -
  have inv: "fz hZ * fz hZ ^ (2 ^ 255 - 21) = 1"
    using fermat power_Suc [of "fz hZ" "2 ^ 255 - 21"] by simp
  have "yields (\<lambda>s. s = ed_encode P) (ge_encode hX hY hZ)"
    unfolding ge_encode_def
  proof (rule step_invert [OF w(3)], rule step_mul [OF w(1)], assumption, simp, simp,
      rule step_mul [OF w(2)], assumption, simp, simp, goal_cases)
    case (1 r x y)
    have x: "fz x = fst P" using 1(2,4) inv by (simp only: P mult.assoc mult_1_right)
    have y: "fz y = snd P" using 1(2,6) inv by (simp only: P mult.assoc mult_1_right)
    have b: "bounded fe_wide x" "bounded fe_wide y"
      using 1(3,5) bounded_le [OF _ fe_plus1_bounds(4)] by (simp_all add: within_1_tight)
    have range: "0 \<le> zr (snd P)" "zr (snd P) < 2 ^ 255" "zr (fst P) mod 2 = 0 \<or> zr (fst P) mod 2 = 1"
      using zr_range [of "snd P"] by (auto simp: fe_p_def)
    show ?case
      using encode_bytes [OF range]
      by (cases P) (simp add: yields_def fe_tobytes_ok [OF b(2)] fe_isnegative_ok [OF b(1)] zr_fz [symmetric] x y)
  qed
  then show ?thesis by (simp add: yields_def)
qed

lemma ge_tobytes_ok:
  "p3_rep h P \<Longrightarrow> fz (p3_Z h) ^ (2 ^ 255 - 20) = 1 \<Longrightarrow> ge_p3_tobytes h = Some (ed_encode P)"
  "p2_rep g P \<Longrightarrow> fz (p2_Z g) ^ (2 ^ 255 - 20) = 1 \<Longrightarrow> ge_tobytes g = Some (ed_encode P)"
  by (simp_all add: p3_rep_def p2_rep_def ge_p3_tobytes_def ge_tobytes_def ge_encode_ok)

section \<open>The point at infinity\<close>

lemma infinity_iff:
  "ge_p3_is_point_at_infinity p = 1 \<longleftrightarrow> (\<forall>n<10. p3_X p ! n = 0 \<and> p3_T p ! n = 0 \<and> p3_Y p ! n = p3_Z p ! n)"
  "ge_p3_is_point_at_infinity p = 0 \<or> ge_p3_is_point_at_infinity p = 1"
  by (auto simp: ge_p3_is_point_at_infinity_def list_all_iff or_eq_0_iff)

lemma infinity_sound:
  assumes "p3_rep p P" "ge_p3_is_point_at_infinity p = 1"
  shows "P = (0, 1)"
proof -
  note inf = assms(2) [unfolded infinity_iff(1)]
  have len: "length (p3_Y p) = 10" "length (p3_Z p) = 10"
    using p3_rep_within [OF assms(1)] fe_within_length by blast+
  have "p3_Y p = p3_Z p" using inf len by (intro nth_equalityI) simp_all
  moreover have "fz (p3_X p) = 0" using inf by (simp add: fz_def limbs_val_def)
  ultimately have "fst P * fz (p3_Z p) = 0 * fz (p3_Z p)" "snd P * fz (p3_Z p) = 1 * fz (p3_Z p)"
    "fz (p3_Z p) dvd 1"
    using assms(1) by (simp_all add: p3_rep_def)
  then have "fst P = 0" "snd P = 1" using unit_cancel by blast+
  then show ?thesis by (cases P) simp
qed

section \<open>Properties\<close>

text \<open>
  C15: \<open>ge_frombytes_vartime\<close> always returns, and what it returns is right. If it accepts, the result
  has \<open>Z = 1\<close> and represents a point of the curve whose encoding is the input, so that
  \<open>ge_p3_tobytes\<close> gives the input back; the input is then canonical. If it returns -1, the \<open>y\<close> of the
  input is not below \<open>p\<close>, or the candidate root is none, or the point has \<open>x = 0\<close> and the sign bit set.
\<close>

theorem ge_frombytes_roundtrip:
  assumes "length s = 32"
  shows "\<exists>r. ge_frombytes_vartime s = Some r \<and>
    (case r of
       None \<Rightarrow> ed_decode_fails s
     | Some h \<Rightarrow> low255 s < fe_p \<and> p3_Z h = fe_1 \<and> (\<exists>P. p3_rep h P \<and> on_curve P \<and> ed_encode P = s)
         \<and> ge_p3_tobytes h = Some s)"
proof -
  obtain r where r: "ge_frombytes_vartime s = Some r"
    "case r of None \<Rightarrow> ed_decode_fails s | Some h \<Rightarrow> low255 s < fe_p \<and> decodes_to s h"
    using ge_frombytes_ok [OF assms] by (auto simp: yields_def)
  have "ge_p3_tobytes h = Some s" if h: "decodes_to s h" for h
  proof -
    have "fz (p3_Z h) ^ (2 ^ 255 - 20) = 1" using h by (simp add: decodes_to_def fe_const_rep(5))
    then show ?thesis using h ge_tobytes_ok(1) by (auto simp: decodes_to_def)
  qed
  then show ?thesis using r by (auto simp: decodes_to_def split: option.splits)
qed

theorem ge_frombytes_roundtrip_witness:
  \<comment> \<open>the bytes of the number 1 are accepted\<close>
  "\<exists>h. ge_frombytes_vartime (1 # replicate 31 0) = Some (Some h) \<and> ge_p3_tobytes h = Some (1 # replicate 31 0)"
proof -
  have "length (1 # replicate 31 (0 :: u8)) = 32" by simp
  note r = ge_frombytes_roundtrip [OF this]
  have "low255 (1 # replicate 31 0) = 1" unfolding low255_def small_scalar(2) by simp
  then have "\<not> ed_decode_fails (1 # replicate 31 0)"
    by (simp add: ed_decode_fails_def Let_def ed_root_def fe_p_def)
  with r show ?thesis by (auto split: option.splits)
qed

text \<open>
  C36: \<open>ge_p3_tobytes\<close> and \<open>ge_tobytes\<close> write the encoding of the point their coordinates
  represent, whatever the \<open>Z\<close>, provided that \<open>Z^(p-1) = 1\<close>, which Fermat's theorem gives for
  every unit when \<open>p\<close> is prime.
\<close>

theorem ge_tobytes_canonical:
  assumes "p3_rep h P" "fz (p3_Z h) ^ (2 ^ 255 - 20) = 1" "p2_rep g P" "fz (p2_Z g) ^ (2 ^ 255 - 20) = 1"
  shows "ge_p3_tobytes h = Some (ed_encode P) \<and> ge_tobytes g = Some (ed_encode P)"
  using ge_tobytes_ok(1) [OF assms(1,2)] ge_tobytes_ok(2) [OF assms(3,4)] by simp

theorem ge_tobytes_canonical_witness:
  \<comment> \<open>the neutral element with \<open>Z = -1\<close>\<close>
  "ge_tobytes \<lparr>p2_X = fe_0, p2_Y = [- 1, 0, 0, 0, 0, 0, 0, 0, 0, 0], p2_Z = [- 1, 0, 0, 0, 0, 0, 0, 0, 0, 0]\<rparr>
    = Some (ed_encode (0, 1))"
proof -
  let ?m = "[- 1, 0, 0, 0, 0, 0, 0, 0, 0, 0] :: fe"
  have u: "(- 1 :: zp) ^ (2 ^ 255 - 20) = 1"
  proof -
    have "(2 ^ 255 - 20 :: nat) = 2 * (2 ^ 254 - 10)" by simp
    then show ?thesis by (simp only: power_mult power2_minus power_one)
  qed
  have "p3_rep \<lparr>p3_X = fe_0, p3_Y = ?m, p3_Z = ?m, p3_T = fe_0\<rparr> (0, 1)"
    "p2_rep \<lparr>p2_X = fe_0, p2_Y = ?m, p2_Z = ?m\<rparr> (0, 1)"
    by (simp_all add: p3_rep_def p2_rep_def fe_m1 fe_const_rep)
  note t = ge_tobytes_canonical [OF this(1) _ this(2)]
  show ?thesis using t u by (simp add: fe_m1)
qed

text \<open>
  C37: \<open>ge_p3_is_point_at_infinity\<close> compares limbs, not residues. What it accepts is the neutral
  element; but it refuses some representations of the neutral element, with limbs within the
  bounds of a product, so that it is not the test \<open>X = 0 and Y == Z\<close> its comment announces.
\<close>

theorem infinity_test:
  assumes "p3_rep p P" "ge_p3_is_point_at_infinity p = 1"
  shows "P = (0, 1) \<and> (\<exists>q. p3_rep q (0, 1) \<and> ge_p3_is_point_at_infinity q = 0)"
proof -
  let ?Y = "[2 ^ 25, 0, 0, 0, 0, 0, 0, 0, 0, 0] :: fe" and ?Z = "[- (2 ^ 25), 1, 0, 0, 0, 0, 0, 0, 0, 0] :: fe"
  let ?q = "\<lparr>p3_X = fe_0, p3_Y = ?Y, p3_Z = ?Z, p3_T = fe_0\<rparr>"
  have "list_all2 (\<lambda>x m. \<bar>x\<bar> \<le> m) ?Y fe_tight" "list_all2 (\<lambda>x m. \<bar>x\<bar> \<le> m) ?Z fe_tight" by code_simp+
  then have w: "fe_within 1 ?Y" "fe_within 1 ?Z" by (intro fe_within_1; simp add: bounded_list_all2)+
  have "fe_val ?Y = 2 ^ 25" "fe_val ?Z = 2 ^ 25" by code_simp+
  then have v: "fz ?Y = 2 ^ 25" "fz ?Z = 2 ^ 25" by (simp_all add: fz_def)
  have "(2 :: zp) ^ 25 dvd 1" using dvd_power_same [OF unit_two, of 25] by simp
  then have "p3_rep ?q (0, 1)" using w v by (simp add: p3_rep_def fe_const_rep)
  moreover have "ge_p3_is_point_at_infinity ?q = 0" by code_simp
  ultimately show ?thesis using infinity_sound [OF assms] by blast
qed

theorem infinity_test_witness:
  "ge_p3_is_point_at_infinity ge_p3_0 = 1 \<and> (\<exists>q. p3_rep q (0, 1) \<and> ge_p3_is_point_at_infinity q = 0)"
proof -
  have "ge_p3_is_point_at_infinity ge_p3_0 = 1" by code_simp
  with infinity_test [OF ge_p3_0_rep] show ?thesis by blast
qed

end
