(* ===== verification/Spec2Isabelle.thy ===== *)
theory Spec2Isabelle
  imports Reciprocal Sha2 Blake2b Keccak Cubehash C_Blake256 C_Skein Ge_Mult Ge_Bytes
begin

text \<open>
  A verification of the C core of VeloxHash, a mining program of the XMRig family: the hash
  functions and the number arithmetic its proof-of-work algorithms and its Monero code rest on.

  \<^bold>\<open>The program.\<close> A miner receives jobs over the network, runs a proof-of-work hash over them on
  CPU and GPU threads and submits results. That shell is C++ and compiler intrinsics and is not
  modelled. Below it lie C routines with exact mathematical contracts, which everything else
  calls: SHA-2, Keccak, CubeHash, BLAKE and Skein (\<^verbatim>\<open>src/crypto/ghostrider\<close>), the BLAKE-256 and Skein
  that end CryptoNight (\<^verbatim>\<open>c_blake256.c\<close> and \<^verbatim>\<open>c_skein.c\<close> of \<^verbatim>\<open>src/crypto/cn\<close>), BLAKE2b and the Argon2 long hash
  (\<^verbatim>\<open>src/crypto/randomx/blake2\<close>), the reciprocal RandomX replaces divisions with
  (\<^verbatim>\<open>src/crypto/randomx/reciprocal.c\<close>), and the Ed25519 arithmetic that signs blocks
  (\<^verbatim>\<open>src/base/tools/cryptonote/crypto-ops.c\<close>).

  \<^bold>\<open>The theories.\<close>
  \<^item> \<open>Prelude\<close>: machine integers, checked memory operations, the byte codecs and rotations of
    \<^verbatim>\<open>sph_types.h\<close>.
  \<^item> \<open>Streaming\<close>: absorbing a message block by block, and the interface \<open>stream_hash\<close> of a hash
    that is fed in pieces.
  \<^item> \<open>Reciprocal\<close>: \<open>randomx_reciprocal\<close> and \<open>randomx_reciprocal_fast\<close>, shown to be the largest
    \<open>2^x / divisor\<close> of 64 bits.
  \<^item> \<open>Md_Helper\<close>: the Merkle-Damgard template \<^verbatim>\<open>md_helper.c\<close>, its configuration macros as a
    record and \<open>RFUN\<close> as an argument. Update and close together compress exactly the padded
    message (interface \<open>md_hash\<close>, which gives \<open>stream_hash\<close>).
  \<^item> \<open>Sha2\<close>: \<^verbatim>\<open>sph_sha2.c\<close>. The unrolled rounds are the rounds of FIPS 180-4 and the functions
    compute its SHA-256 and SHA-224.
  \<^item> \<open>Sph_Core\<close>: the buffer loop the other sphlib hashes write out, and the interface \<open>sph_stream\<close>
    that makes a hash built on it a \<open>stream_hash\<close>.
  \<^item> \<open>Keccak_F\<close>, \<open>Keccak\<close>: \<^verbatim>\<open>sph_keccak.c\<close>, 64-bit. The permutation with complemented lanes and
    moving macro parameters is Keccak-f[1600] of FIPS 202 for every unrolling, tables included; the
    hashes are its sponges. Two deviations from the header are proved: extra bits are dropped, and
    a closed context is not reset.
  \<^item> \<open>Cubehash\<close>: \<^verbatim>\<open>sph_cubehash.c\<close>. The unrolled rounds are those of CubeHash, the functions
    CubeHash16/32 of a bit string from the initial values of the file, which are taken as given.
  \<^item> \<open>Blake\<close>: BLAKE as its designers define it, on bit strings, for both word sizes (a record holds
    what differs), the blocks of a padded message, and the block counters. \<open>Sph_Blake\<close>:
    \<^verbatim>\<open>sph_blake.c\<close>, both compilations of the rounds; the four functions compute BLAKE.
  \<^item> \<open>C_Blake256\<close>: \<^verbatim>\<open>c_blake256.c\<close>, a second BLAKE-256 and its HMAC. Its update is right for one
    call per message and for short pieces; what other calls do to the buffered bytes is stated
    exactly. A theorem at the end of this theory relates it to \<^verbatim>\<open>sph_blake.c\<close>.
  \<^item> \<open>Skein\<close>: Skein-512 as its designers define it, down to Threefish; \<open>Skein_IV\<close> computes its four
    initial values in the kernel. \<open>Sph_Skein\<close>: \<^verbatim>\<open>sph_skein.c\<close>, the unrolled and the small compilation;
    the four functions compute Skein-512, with the tables of initial values proved right.
  \<^item> \<open>C_Skein\<close>: \<^verbatim>\<open>c_skein.c\<close>, a second Skein-512 with an output of any length, on messages of bits.
    Its update appends for every fill of the buffer, its output loop is the counter mode of the
    design. The last theorem of this theory relates it to \<^verbatim>\<open>sph_skein.c\<close>.
  \<^item> \<open>Blake2b\<close>: \<^verbatim>\<open>blake2b.c\<close>. Null pointers are \<^term>\<open>None\<close>, return codes integers, and the
    compression function, a function pointer in C, an argument (interfaces
    \<open>blake2b_compressor\<close>, \<open>blake2b_stream\<close>, \<open>argon2_hash\<close>) instantiated with
    \<open>rx_blake2b_compress_integer\<close>. The results are those of RFC 7693 and of Argon2's \<open>H'\<close>.
  \<^item> \<open>Checked\<close>: signed arithmetic whose overflow, undefined in C, is \<^term>\<open>None\<close>; a bounds
    analysis by evaluation on bounds; limb arrays and the numbers they stand for.
  \<^item> \<open>Sc\<close>: the \<open>sc_\<close> functions of \<^verbatim>\<open>crypto-ops.c\<close>, arithmetic modulo the group order on
    21-bit limbs: no operation overflows and every result is the canonical residue.
  \<^item> \<open>Fe\<close>, \<open>Fe_Linear\<close>, \<open>Fe_Power\<close>, \<open>Fe_Bytes\<close>: the \<open>fe_\<close> functions, arithmetic modulo
    \<open>2^255 - 19\<close> on signed limbs of 26 and 25 bits: products, sums and selection, the power
    chains (interface \<open>power_chain\<close>), and the canonical encoding.
  \<^item> \<open>Zp\<close>: the residues modulo \<open>2^255 - 19\<close> as a ring; that the number is prime is not used.
  \<^item> \<open>Ge\<close>, \<open>Ge_Recode\<close>, \<open>Ge_Window\<close>, \<open>Ge_Mult\<close>, \<open>Ge_Bytes\<close>: the \<open>ge_\<close> functions. Coordinates
    represent an affine point of the Edwards curve, the formulas its sums; the recodings of the
    scalars keep their value; the scalar multiplications represent \<open>a A\<close>, \<open>a A + b B\<close> and
    \<open>a A + b B + c C\<close> (interfaces \<open>point_adder\<close>, \<open>ct_table\<close>); decoding accepts only canonical
    encodings of points and encoding inverts it. That the sums exist (no denominator is 0) is
    the hypothesis \<open>ed_hom\<close>; what the tables \<open>ge_Bi\<close> and \<open>ge_base\<close> hold is one too.

  \<^bold>\<open>Conventions.\<close> A C array is a list; an access outside it, a signed overflow, a division by
  zero and a failed assertion are \<^term>\<open>None\<close>, so \<open>f x = Some y\<close> includes that the code is
  defined on \<open>x\<close>. One shift wraps instead: \<open>h4 << 6\<close> of \<open>fe_tobytes\<close>, undefined for some inputs,
  which \<open>Fe_Bytes\<close> describes. Unsigned integers are words and wrap. Loops are total functions with
  a measure; no fuel is used. What an uninitialised local variable holds is an argument.

  \<^bold>\<open>Not modelled.\<close> The C++ parts, vendored libraries and vector code; the branches of
  \<^verbatim>\<open>md_helper.c\<close> and \<^verbatim>\<open>sph_keccak.c\<close> for platforms without 64-bit integers; of \<^verbatim>\<open>crypto-ops.c\<close>
  \<open>ge_fromfe_frombytes_vartime\<close>, and of \<^verbatim>\<open>src/crypto/ghostrider\<close> and
  \<^verbatim>\<open>src/crypto/cn\<close> the other hash functions, which share no code with these.
\<close>

section \<open>Two implementations of BLAKE\<close>

text \<open>
  C9: the two implementations of BLAKE in the program agree: \<open>blake256_hash\<close> of \<^verbatim>\<open>c_blake256.c\<close>, in
  one call, and \<open>sph_blake256\<close> of \<^verbatim>\<open>sph_blake.c\<close>, initialised, fed the message in any pieces and
  closed, write the same 32 bytes; the first 28 bytes \<open>blake224_hash\<close> writes are those of
  \<open>sph_blake224\<close>.
\<close>

theorem blake_implementations_agree:
  assumes "length (st_buf S) = 64" "length (bk_buf cs) = 64" "length (concat ds) < 2 ^ 61"
  shows
    "blake256_hash S (concat ds) (of_nat (length (concat ds)))
       = feed (sph_blake256 c) (sph_blake256_init cs) ds \<bind> (\<lambda>sc. map_option snd (sph_blake256_close c u sc)) \<and>
     map_option (take 28) (blake224_hash S (concat ds) (of_nat (length (concat ds))))
       = feed (sph_blake224 c) (sph_blake224_init cs) ds \<bind> (\<lambda>sc. map_option snd (sph_blake224_close c u sc))"
  using assms hash_256 [of S "concat ds"] hash_224 [of S "concat ds"]
  by (simp add: sph_blake256_close_def sph_blake224_close_def blake256.hash_chunks blake224.hash_chunks blake_fresh
    sph_blake256_init_def sph_blake224_init_def top_bits_def hash8_digests)

theorem blake_implementations_agree_witness:
  "blake256_hash (cn_blank 5) [1, 2, 3] 3
     = feed (sph_blake256 True) (sph_blake256_init (blake_blank 0 64)) [[1], [2, 3]]
         \<bind> (\<lambda>sc. map_option snd (sph_blake256_close True (\<lambda>_. 5) sc))"
  using blake_implementations_agree [of "cn_blank 5" "blake_blank 0 64" "[[1], [2, 3]]" True "\<lambda>_. 5"]
  by (simp add: cn_blank_def blake_blank_def)

section \<open>Two implementations of Skein\<close>

text \<open>
  C12: the two implementations of Skein in the program agree: \<open>skein_hash\<close> of \<^verbatim>\<open>c_skein.c\<close>, in one
  call, and the functions of \<^verbatim>\<open>sph_skein.c\<close>, initialised, fed the message in any pieces and closed,
  write the same bytes for the four output lengths they share, and so does \<open>xmr_skein\<close> for the 200
  bytes CryptoNight hands it.
\<close>

theorem skein_implementations_agree:
  assumes "length (sb (ctx_512 state)) = 64" "length (sk_buf sc) = 64" "8 * length (concat ds) < 2 ^ 64"
  shows
    "skein_hash state 224 (concat ds) (8 * length (concat ds))
       = feed (sph_skein224 small) (sph_skein224_init sc) ds \<bind> (\<lambda>sc. map_option snd (sph_skein224_close small sc)) \<and>
     skein_hash state 256 (concat ds) (8 * length (concat ds))
       = feed (sph_skein256 small) (sph_skein256_init sc) ds \<bind> (\<lambda>sc. map_option snd (sph_skein256_close small sc)) \<and>
     skein_hash state 384 (concat ds) (8 * length (concat ds))
       = feed (sph_skein384 small) (sph_skein384_init sc) ds \<bind> (\<lambda>sc. map_option snd (sph_skein384_close small sc)) \<and>
     skein_hash state 512 (concat ds) (8 * length (concat ds))
       = feed (sph_skein512 small) (sph_skein512_init sc) ds \<bind> (\<lambda>sc. map_option snd (sph_skein512_close small sc)) \<and>
     (length (concat ds) = 200 \<longrightarrow> xmr_skein state (concat ds)
       = feed (sph_skein256 small) (sph_skein256_init sc) ds \<bind> (\<lambda>sc. map_option snd (sph_skein256_close small sc)))"
proof -
  let ?m = "concat ds"
  have c: "skein_hash state n ?m (8 * length ?m) = Some (skein (unat n) (bits_of_bytes ?m))" if "unat n + 7 < 2 ^ 64" for n
    using skein_hash_value [OF assms(1) that, of "8 * length ?m" ?m] assms(3) by simp
  have x: "length ?m = 200 \<longrightarrow> xmr_skein state ?m = Some (skein 256 (bits_of_bytes ?m))"
    using xmr_skein_value [OF assms(1), of ?m] by simp
  have l: "length (concat ds) + 1 < 2 ^ 64" using assms(3) by simp
  note init = skein_init_fresh [OF assms(2)]
  show ?thesis
    unfolding sph_skein224_init_def sph_skein256_init_def sph_skein384_init_def sph_skein512_init_def
      skein224.hash_chunks [OF init [OF length_skein_IV(1)] l] skein256.hash_chunks [OF init [OF length_skein_IV(2)] l]
      skein384.hash_chunks [OF init [OF length_skein_IV(3)] l] skein512.hash_chunks [OF init [OF length_skein_IV(4)] l]
    using c [of 224] c [of 256] c [of 384] c [of 512] x by simp
qed

theorem skein_implementations_agree_witness:
  "skein_hash (skein_state 9) 512 [1, 2, 3] 24
     = feed (sph_skein512 True) (sph_skein512_init (skein_blank 4)) [[1], [2, 3]]
         \<bind> (\<lambda>sc. map_option snd (sph_skein512_close True sc))"
  using skein_implementations_agree [of "skein_state 9" "skein_blank 4" "[[1], [2, 3]]" True]
  by (simp add: skein_state_def skein_blank_def)

end
